(* ===== verification/Prelude.thy ===== *)
theory Prelude
  imports Main "HOL-Library.Word" "HOL-Library.Char_ord" "HOL-Library.List_Lexorder"
begin

unbundle bit_operations_syntax

text \<open>
  What the components share: the machine integers of the engine
  (\<^verbatim>\<open>std::uint8_t\<close>, \<^verbatim>\<open>std::uint32_t\<close>, \<^verbatim>\<open>std::uint64_t\<close>), byte strings, the row type
  (\<^verbatim>\<open>core/include/engine/row.hpp\<close>), and the generic facts on lists, folds and words
  that the component theories use.

  A \<^verbatim>\<open>std::string\<close> is a \<^typ>\<open>string\<close>: a list of \<^typ>\<open>char\<close>, which HOL takes to be bytes.
  A \<^verbatim>\<open>std::size_t\<close> that counts positions in a buffer is a \<^typ>\<open>nat\<close>; where the code stores
  a size in 32 bits the truncation is written out.
\<close>

type_synonym byte = "8 word"
type_synonym u16 = "16 word"
type_synonym u32 = "32 word"
type_synonym u64 = "64 word"

text \<open>Characters of a \<^verbatim>\<open>std::string\<close> as bytes of a buffer and back.\<close>

definition byte_of_char :: "char \<Rightarrow> byte" where
  "byte_of_char c = word_of_nat (of_char c)"

definition char_of_byte :: "byte \<Rightarrow> char" where
  "char_of_byte b = char_of (unat b)"

definition bytes_of :: "string \<Rightarrow> byte list" where
  "bytes_of s = map byte_of_char s"

definition string_of :: "byte list \<Rightarrow> string" where
  "string_of bs = map char_of_byte bs"

text \<open>
  A row is a \<^verbatim>\<open>std::unordered_map<std::string, std::string>\<close>: an association list with
  its keys in increasing order, the one representation of each finite map (so equality of
  rows is equality of maps). \<open>row_get\<close>, \<open>row_set\<close> and \<open>row_erase\<close> are \<^verbatim>\<open>find\<close>,
  \<^verbatim>\<open>operator[] =\<close> and \<^verbatim>\<open>erase\<close>.
\<close>

type_synonym row = "(string \<times> string) list"

abbreviation row_get :: "row \<Rightarrow> string \<Rightarrow> string option" where
  "row_get r k \<equiv> map_of r k"

fun row_set :: "string \<Rightarrow> string \<Rightarrow> row \<Rightarrow> row" where
  "row_set k v [] = [(k, v)]"
| "row_set k v ((k', v') # r) =
     (if k < k' then (k, v) # (k', v') # r
      else if k = k' then (k, v) # r
      else (k', v') # row_set k v r)"

definition row_erase :: "string \<Rightarrow> row \<Rightarrow> row" where
  "row_erase k r = filter (\<lambda>kv. fst kv \<noteq> k) r"

definition row_wf :: "row \<Rightarrow> bool" where
  "row_wf r \<longleftrightarrow> sorted_wrt (<) (map fst r)"

section \<open>Bytes and strings\<close>

lemma char_of_byte_of_char [simp]: "char_of_byte (byte_of_char c) = c"
proof -
  have "(of_char c :: nat) < 256" by simp
  then have "unat (word_of_nat (of_char c) :: byte) = of_char c"
    by (simp add: unat_of_nat take_bit_eq_mod)
  then show ?thesis by (simp add: char_of_byte_def byte_of_char_def)
qed

lemma byte_of_char_of_byte [simp]: "byte_of_char (char_of_byte b) = b"
proof -
  have "unat b < 256" using unsigned_less [of b] by simp
  then show ?thesis by (simp add: char_of_byte_def byte_of_char_def)
qed

lemma string_of_bytes_of [simp]: "string_of (bytes_of s) = s"
  by (simp add: string_of_def bytes_of_def comp_def)

lemma bytes_of_string_of [simp]: "bytes_of (string_of bs) = bs"
  by (simp add: string_of_def bytes_of_def comp_def)

lemma length_bytes_of [simp]: "length (bytes_of s) = length s"
  by (simp add: bytes_of_def)

lemma length_string_of [simp]: "length (string_of s) = length s"
  by (simp add: string_of_def)

section \<open>Rows\<close>

lemma row_get_row_set [simp]: "row_get (row_set k v r) k' = (if k' = k then Some v else row_get r k')"
  by (induction r) auto

lemma row_get_row_erase [simp]: "row_get (row_erase k r) k' = (if k' = k then None else row_get r k')"
  by (induction r) (auto simp: row_erase_def)

lemma fst_set_row_set: "fst ` set (row_set k v r) = insert k (fst ` set r)"
  by (induction k v r rule: row_set.induct) (simp_all add: insert_commute)

lemma row_wf_row_set: "row_wf r \<Longrightarrow> row_wf (row_set k v r)"
  unfolding row_wf_def
proof (induction r)
  case (Cons a r)
  obtain k' v' where a: "a = (k', v')" by (cases a)
  consider "k < k'" | "k = k'" | "k' < k" by fastforce
  then show ?case
  proof cases
    case 3
    have "\<forall>x \<in> fst ` set (row_set k v r). k' < x"
      using Cons.prems 3 a by (auto simp: fst_set_row_set)
    then show ?thesis using 3 Cons a by auto
  qed (use Cons.prems a in auto)
qed simp

lemma row_wf_row_erase: "row_wf r \<Longrightarrow> row_wf (row_erase k r)"
  unfolding row_wf_def row_erase_def by (induction r) auto

lemma row_erase_row_set [simp]: "row_erase k (row_set k v r) = row_erase k r"
  by (induction r) (auto simp: row_erase_def)

section \<open>Folds and words\<close>

lemma bit_fold_or:
  "bit (fold (\<lambda>i v. v OR f i) xs (a :: 'a::len word)) j \<longleftrightarrow> bit a j \<or> (\<exists>i \<in> set xs. bit (f i) j)"
  by (induction xs arbitrary: a) (auto simp: bit_or_iff)

lemma take_append_le: "n \<le> length xs \<Longrightarrow> take n (xs @ ys) = take n xs"
  by simp

lemma drop_append_le: "n \<le> length xs \<Longrightarrow> drop n (xs @ ys) = drop n xs @ ys"
  by simp

lemma slice_append:
  "i + n \<le> length xs \<Longrightarrow> take n (drop i (xs @ ys)) = take n (drop i xs)"
  by simp

lemma slice_middle: "take (length m) (drop (length pre) (pre @ m @ post)) = m"
  by simp

lemma filter_concat_map: "filter P (concat (map f xs)) = concat (map (\<lambda>x. filter P (f x)) xs)"
  by (induction xs) auto

end
