(* ===== verification/Codec.thy ===== *)
theory Codec
  imports Prelude
begin

unbundle bit_operations_syntax

text \<open>
  The binary encodings the log files and the page header are made of: little-endian
  integers, length-prefixed strings and the FNV-1a checksum
  (\<^verbatim>\<open>core/src/transaction/wal.cpp\<close>, \<^verbatim>\<open>core/src/storage/page.cpp\<close>; \<^verbatim>\<open>txn_manager.cpp\<close> and
  \<^verbatim>\<open>redo_log.cpp\<close> hold copies of the same helpers), and the 32-byte header of a table file.

  A reader takes a buffer and a position and gives the value and the position after it, or
  \<^const>\<open>None\<close> where the C++ helper gives \<^verbatim>\<open>nullopt\<close> or \<^verbatim>\<open>false\<close>. What is read from a buffer
  does not depend on what follows it, and what was written is what is read: every record
  format built from these helpers inherits both facts.
\<close>

section \<open>Definitions\<close>

definition push_u32_le :: "u32 \<Rightarrow> byte list" where
  "push_u32_le v = map (\<lambda>i. ucast (drop_bit (8 * i) v AND 0xFF)) [0..<4]"

definition push_u64_le :: "u64 \<Rightarrow> byte list" where
  "push_u64_le v = map (\<lambda>i. ucast (drop_bit (8 * i) v AND 0xFF)) [0..<8]"

definition read_u32_le :: "byte list \<Rightarrow> nat \<Rightarrow> u32 option" where
  "read_u32_le buf pos =
     (if pos + 4 > length buf then None
      else Some (fold (\<lambda>i v. v OR push_bit (8 * i) (ucast (buf ! (pos + i)))) [0..<4] 0))"

definition read_u64_le :: "byte list \<Rightarrow> nat \<Rightarrow> u64 option" where
  "read_u64_le buf pos =
     (if pos + 8 > length buf then None
      else Some (fold (\<lambda>i v. v OR push_bit (8 * i) (ucast (buf ! (pos + i)))) [0..<8] 0))"

text \<open>\<^verbatim>\<open>push_u32_le(buf, static_cast<uint32_t>(s.size()))\<close> followed by the bytes: the size is cut to 32 bits.\<close>

definition put_string :: "string \<Rightarrow> byte list" where
  "put_string s = push_u32_le (word_of_nat (length s)) @ bytes_of s"

definition read_string :: "byte list \<Rightarrow> nat \<Rightarrow> (string \<times> nat) option" where
  "read_string buf pos =
     (case read_u32_le buf pos of
        None \<Rightarrow> None
      | Some n \<Rightarrow>
          let len = unat n; pos = pos + 4
          in if pos + len > length buf then None
             else Some (string_of (take len (drop pos buf)), pos + len))"

definition fnv1a32 :: "byte list \<Rightarrow> u32" where
  "fnv1a32 data = fold (\<lambda>b h. (h XOR ucast b) * 16777619) data 2166136261"

text \<open>The page header (\<^verbatim>\<open>storage/page.hpp\<close>, \<^verbatim>\<open>storage/page.cpp\<close>).\<close>

definition MAGIC :: u32 where "MAGIC = 0x52444200"
definition VERSION :: u16 where "VERSION = 1"
definition FLAG_COMPRESSED :: byte where "FLAG_COMPRESSED = 0x01"

record PageHeader =
  magic :: u32
  version :: u16
  flags :: byte
  row_count :: u32
  page_count :: u32

definition make_header :: PageHeader where
  "make_header = \<lparr>magic = MAGIC, version = VERSION, flags = 0, row_count = 0, page_count = 0\<rparr>"

definition push_le16 :: "u16 \<Rightarrow> byte list" where
  "push_le16 v = map (\<lambda>i. ucast (drop_bit (8 * i) v AND 0xFF)) [0..<2]"

definition read_le32 :: "byte list \<Rightarrow> nat \<Rightarrow> u32" where
  "read_le32 p at =
     ucast (p ! at) OR push_bit 8 (ucast (p ! (at + 1))) OR
     push_bit 16 (ucast (p ! (at + 2))) OR push_bit 24 (ucast (p ! (at + 3)))"

definition read_le16 :: "byte list \<Rightarrow> nat \<Rightarrow> u16" where
  "read_le16 p at = ucast (p ! at) OR push_bit 8 (ucast (p ! (at + 1)))"

text \<open>\<^verbatim>\<open>buf.resize(32, 0)\<close> fills the reserved bytes 16 to 31 with zeros.\<close>

definition to_bytes :: "PageHeader \<Rightarrow> byte list" where
  "to_bytes h =
     (let buf = push_u32_le (magic h) @ push_le16 (version h) @ [flags h, 0] @
                push_u32_le (row_count h) @ push_u32_le (page_count h)
      in take 32 (buf @ replicate (32 - length buf) 0))"

definition from_bytes :: "byte list \<Rightarrow> PageHeader option" where
  "from_bytes bytes =
     (if length bytes < 32 then None
      else if read_le32 bytes 0 \<noteq> MAGIC then None
      else Some \<lparr>magic = read_le32 bytes 0, version = read_le16 bytes 4, flags = bytes ! 6,
                 row_count = read_le32 bytes 8, page_count = read_le32 bytes 12\<rparr>)"

definition is_compressed :: "PageHeader \<Rightarrow> bool" where
  "is_compressed h \<longleftrightarrow> (flags h AND FLAG_COMPRESSED) \<noteq> 0"

section \<open>Little-endian integers\<close>

text \<open>One fact for every width: putting the bytes of a word together again gives the word.\<close>

lemma le_bytes_join:
  fixes v :: "'a::len word"
  assumes len: "LENGTH('a) = 8 * n"
    and at: "\<And>i. i < n \<Longrightarrow> buf ! (pos + i) = (ucast (drop_bit (8 * i) v AND 0xFF) :: byte)"
  shows "fold (\<lambda>i w. w OR push_bit (8 * i) (ucast (buf ! (pos + i)))) [0..<n] 0 = v"
proof (rule bit_word_eqI)
  fix j assume j: "j < LENGTH('a)"
  let ?f = "\<lambda>i. push_bit (8 * i) (ucast (buf ! (pos + i))) :: 'a word"
  have ff: "w AND 0xFF = take_bit 8 w" for w :: "'a word"
    by (simp add: take_bit_eq_mask mask_eq_exp_minus_1)
  have bitf: "bit (?f i) j \<longleftrightarrow> 8 * i \<le> j \<and> j < 8 * i + 8 \<and> bit v j" if "i < n" for i
    using at [OF that] j that len
    by (auto simp: bit_push_bit_iff bit_ucast_iff ff bit_take_bit_iff bit_drop_bit_eq)
  have "bit (fold (\<lambda>i w. w OR ?f i) [0..<n] 0) j \<longleftrightarrow> (\<exists>i \<in> {0..<n}. bit (?f i) j)"
    by (simp add: bit_fold_or [where f = ?f])
  also have "\<dots> \<longleftrightarrow> bit v j"
  proof
    assume "bit v j"
    moreover have "j div 8 < n" using j len by (simp add: less_mult_imp_div_less)
    ultimately show "\<exists>i \<in> {0..<n}. bit (?f i) j"
      using bitf [of "j div 8"] by (intro bexI [of _ "j div 8"]) auto
  qed (use bitf in auto)
  finally show "bit (fold (\<lambda>i w. w OR ?f i) [0..<n] 0) j = bit v j" .
qed

lemma length_push_u32_le [simp]: "length (push_u32_le v) = 4"
  by (simp add: push_u32_le_def)

lemma length_push_u64_le [simp]: "length (push_u64_le v) = 8"
  by (simp add: push_u64_le_def)

lemma read_push_u32_le [simp]:
  "read_u32_le (pre @ push_u32_le v @ post) (length pre) = Some v"
  unfolding read_u32_le_def
  by (subst le_bytes_join [of 4 _ _ v]) (auto simp: nth_append push_u32_le_def)

lemma read_push_u64_le [simp]:
  "read_u64_le (pre @ push_u64_le v @ post) (length pre) = Some v"
  unfolding read_u64_le_def
  by (subst le_bytes_join [of 8 _ _ v]) (auto simp: nth_append push_u64_le_def)

lemma fold_cong_nth:
  "(\<And>i. i < n \<Longrightarrow> xs ! (pos + i) = ys ! (pos + i)) \<Longrightarrow>
   fold (\<lambda>i w. f w (xs ! (pos + i)) i) [0..<n] a = fold (\<lambda>i w. f w (ys ! (pos + i)) i) [0..<n] a"
  by (rule fold_cong) auto

lemma read_u32_le_append:
  "read_u32_le buf pos = Some v \<Longrightarrow> read_u32_le (buf @ ext) pos = Some v"
  unfolding read_u32_le_def
  by (auto split: if_splits simp: nth_append intro!: fold_cong)

lemma read_u64_le_append:
  "read_u64_le buf pos = Some v \<Longrightarrow> read_u64_le (buf @ ext) pos = Some v"
  unfolding read_u64_le_def
  by (auto split: if_splits simp: nth_append intro!: fold_cong)

lemma read_u32_le_bound: "read_u32_le buf pos = Some v \<Longrightarrow> pos + 4 \<le> length buf"
  by (auto simp: read_u32_le_def split: if_splits)

lemma read_u64_le_bound: "read_u64_le buf pos = Some v \<Longrightarrow> pos + 8 \<le> length buf"
  by (auto simp: read_u64_le_def split: if_splits)

lemma read_u32_le_at: "bs = pre @ push_u32_le v @ post \<Longrightarrow> at = length pre \<Longrightarrow> read_u32_le bs at = Some v"
  by simp

lemma read_u64_le_at: "bs = pre @ push_u64_le v @ post \<Longrightarrow> at = length pre \<Longrightarrow> read_u64_le bs at = Some v"
  by simp

section \<open>Strings\<close>

lemma length_put_string [simp]: "length (put_string s) = 4 + length s"
  by (simp add: put_string_def)

lemma unat_u32: "n < 2 ^ 32 \<Longrightarrow> unat (word_of_nat n :: u32) = n"
  by (simp add: unat_of_nat take_bit_eq_mod)

lemma read_put_string:
  assumes "length s < 2 ^ 32"
  shows "read_string (pre @ put_string s @ post) (length pre) = Some (s, length pre + 4 + length s)"
proof -
  have "unat (word_of_nat (length s) :: u32) = length s"
    using assms by (simp add: unat_of_nat take_bit_eq_mod)
  moreover have "read_u32_le (pre @ put_string s @ post) (length pre) = Some (word_of_nat (length s))"
    using read_push_u32_le [of pre "word_of_nat (length s)" "bytes_of s @ post"]
    by (simp add: put_string_def)
  ultimately show ?thesis
    by (simp add: read_string_def put_string_def)
qed

lemma read_string_at:
  "bs = pre @ put_string s @ post \<Longrightarrow> at = length pre \<Longrightarrow> length s < 2 ^ 32 \<Longrightarrow>
   read_string bs at = Some (s, at + 4 + length s)"
  by (simp add: read_put_string)

lemma read_string_append:
  "read_string buf pos = Some (s, p) \<Longrightarrow> read_string (buf @ ext) pos = Some (s, p)"
  by (auto simp: read_string_def Let_def read_u32_le_append split: option.splits if_splits)

lemma read_string_bound:
  "read_string buf pos = Some (s, p) \<Longrightarrow> pos + 4 \<le> p \<and> p \<le> length buf"
  by (auto simp: read_string_def Let_def split: option.splits if_splits)

lemma read_string_length:
  "read_string buf pos = Some (s, p) \<Longrightarrow> p = pos + 4 + length s \<and> length s < 2 ^ 32"
proof -
  assume r: "read_string buf pos = Some (s, p)"
  then obtain n where n: "read_u32_le buf pos = Some n" and
    bound: "pos + 4 + unat n \<le> length buf" and
    s: "s = string_of (take (unat n) (drop (pos + 4) buf))" and p: "p = pos + 4 + unat n"
    by (auto simp: read_string_def Let_def split: option.splits if_splits)
  have "length s = unat n" using bound s by simp
  moreover have "unat n < 2 ^ 32" using unsigned_less [of n] by simp
  ultimately show ?thesis using p by simp
qed

section \<open>The checksum\<close>

lemma fnv1a32_append: "fnv1a32 (xs @ ys) = fold (\<lambda>b h. (h XOR ucast b) * 16777619) ys (fnv1a32 xs)"
  by (simp add: fnv1a32_def)

section \<open>The page header\<close>

lemma read_le32_eq: "at + 4 \<le> length p \<Longrightarrow> read_u32_le p at = Some (read_le32 p at)"
  by (simp add: read_u32_le_def read_le32_def upt_rec or.assoc numeral_3_eq_3)

lemma read_push_le16: "read_le16 (pre @ push_le16 v @ post) (length pre) = v"
proof -
  have "fold (\<lambda>i w. w OR push_bit (8 * i) (ucast ((pre @ push_le16 v @ post) ! (length pre + i)))) [0..<2] 0 = v"
    by (rule le_bytes_join) (auto simp: nth_append push_le16_def)
  then show ?thesis by (simp add: read_le16_def upt_rec nth_append)
qed

lemma length_push_le16 [simp]: "length (push_le16 v) = 2"
  by (simp add: push_le16_def)

lemma to_bytes_eq:
  "to_bytes h = push_u32_le (magic h) @ push_le16 (version h) @ [flags h, 0] @
     push_u32_le (row_count h) @ push_u32_le (page_count h) @ replicate 16 0"
  by (simp add: to_bytes_def Let_def)

lemma length_to_bytes [simp]: "length (to_bytes h) = 32"
  by (simp add: to_bytes_eq)

lemma read_le32_at:
  assumes "bs = pre @ push_u32_le v @ post" and "at = length pre"
  shows "read_le32 bs at = v"
  using read_push_u32_le [of pre v post] read_le32_eq [of at bs] assms by simp

lemma to_bytes_fields:
  shows "read_le32 (to_bytes h @ rest) 0 = magic h"
    and "read_le16 (to_bytes h @ rest) 4 = version h"
    and "(to_bytes h @ rest) ! 6 = flags h"
    and "read_le32 (to_bytes h @ rest) 8 = row_count h"
    and "read_le32 (to_bytes h @ rest) 12 = page_count h"
proof -
  let ?m = "push_u32_le (magic h)" and ?v = "push_le16 (version h)"
  let ?r = "push_u32_le (row_count h)" and ?p = "push_u32_le (page_count h)"
  show "read_le32 (to_bytes h @ rest) 0 = magic h"
    by (rule read_le32_at [where pre = "[]"]) (simp_all add: to_bytes_eq)
  show "read_le16 (to_bytes h @ rest) 4 = version h"
    using read_push_le16 [of ?m "version h" "[flags h, 0] @ ?r @ ?p @ replicate 16 0 @ rest"]
    by (simp add: to_bytes_eq)
  show "(to_bytes h @ rest) ! 6 = flags h"
    by (simp add: to_bytes_eq nth_append)
  show "read_le32 (to_bytes h @ rest) 8 = row_count h"
    by (rule read_le32_at [where pre = "?m @ ?v @ [flags h, 0]"]) (simp_all add: to_bytes_eq)
  show "read_le32 (to_bytes h @ rest) 12 = page_count h"
    by (rule read_le32_at [where pre = "?m @ ?v @ [flags h, 0] @ ?r"]) (simp_all add: to_bytes_eq)
qed

text \<open>
  The header of a table file comes back as it was written, whatever follows it in the file,
  exactly when its magic number is the engine's; a file with another magic number has no header.
\<close>

lemma page_header_roundtrip:
  "from_bytes (to_bytes h @ rest) = (if magic h = MAGIC then Some h else None)"
  by (simp add: from_bytes_def to_bytes_fields)

end
