(* ===== verification/RecordLog.thy ===== *)
theory RecordLog
  imports Codec
begin

text \<open>
  The interface of an append-only log file. The write-ahead log, the undo log and the redo
  log each have an encoder, a decoder that reads one record at a position and a loop that
  reads records until the decoder refuses. What the three share is proved here once: a log
  reads back as the records written, and a log cut at any byte (a crash in the middle of an
  append) reads back as exactly the records that were written whole.
\<close>

locale record_log =
  fixes enc :: "'r \<Rightarrow> byte list"
    and dec :: "byte list \<Rightarrow> nat \<Rightarrow> ('r \<times> nat) option"
    and rd :: "byte list \<Rightarrow> nat \<Rightarrow> 'r list"
    and fits :: "'r \<Rightarrow> bool"
  assumes dec_enc: "fits r \<Longrightarrow> dec (pre @ enc r @ post) (length pre) = Some (r, length pre + length (enc r))"
    and dec_append: "dec buf pos = Some (r, p) \<Longrightarrow> dec (buf @ ext) pos = Some (r, p)"
    and dec_bound: "dec buf pos = Some (r, p) \<Longrightarrow> pos < p \<and> p \<le> length buf"
    and rd_eq: "rd buf pos = (case dec buf pos of None \<Rightarrow> [] | Some (r, p) \<Rightarrow> r # rd buf p)"
begin

abbreviation log_of :: "'r list \<Rightarrow> byte list" where
  "log_of rs \<equiv> concat (map enc rs)"

lemma rd_at_end: "rd buf (length buf) = []"
  using dec_bound [of buf "length buf"] by (subst rd_eq) (fastforce split: option.splits)

lemma rd_log_of:
  assumes "\<forall>r \<in> set rs. fits r"
  shows "rd (pre @ log_of rs @ post) (length pre) =
    rs @ rd (pre @ log_of rs @ post) (length pre + length (log_of rs))"
  using assms
proof (induction rs arbitrary: pre)
  case (Cons r rs)
  have d: "dec (pre @ enc r @ log_of rs @ post) (length pre) = Some (r, length pre + length (enc r))"
    using Cons.prems by (intro dec_enc) simp
  have "rd ((pre @ enc r) @ log_of rs @ post) (length (pre @ enc r)) =
    rs @ rd ((pre @ enc r) @ log_of rs @ post) (length (pre @ enc r) + length (log_of rs))"
    using Cons.prems by (intro Cons.IH) simp
  then show ?case
    using d by (subst rd_eq) (simp add: add.assoc)
qed simp

lemma rd_written: "\<forall>r \<in> set rs. fits r \<Longrightarrow> rd (log_of rs) 0 = rs"
  using rd_log_of [of rs "[]" "[]"] rd_at_end [of "log_of rs"] by simp

lemma enc_nonempty: "fits r \<Longrightarrow> enc r \<noteq> []"
  using dec_enc [of r "[]" "[]"] dec_bound by force

lemma dec_torn:
  assumes "fits r" and "n < length (enc r)"
  shows "dec (pre @ take n (enc r)) (length pre) = None"
proof (rule ccontr)
  assume "dec (pre @ take n (enc r)) (length pre) \<noteq> None"
  then obtain r' p where d: "dec (pre @ take n (enc r)) (length pre) = Some (r', p)" by auto
  then have "p \<le> length pre + n" using dec_bound assms(2) by fastforce
  moreover have "dec (pre @ enc r @ []) (length pre) = Some (r', p)"
    using dec_append [OF d, of "drop n (enc r)"] by simp
  ultimately show False using dec_enc [OF assms(1), of pre "[]"] assms(2) by simp
qed

lemma rd_torn_tail:
  assumes "\<forall>r \<in> set rs. fits r" and "fits r" and "n < length (enc r)"
  shows "rd (log_of rs @ take n (enc r)) 0 = rs"
proof -
  have "rd (log_of rs @ take n (enc r)) (length (log_of rs)) = []"
    using dec_torn [OF assms(2,3)] by (subst rd_eq) simp
  then show ?thesis using rd_log_of [OF assms(1), of "[]" "take n (enc r)"] by simp
qed

text \<open>A log cut anywhere: the records that lie wholly before the cut, and no other.\<close>

lemma rd_cut:
  assumes "\<forall>r \<in> set rs. fits r"
  shows "\<exists>k \<le> length rs. rd (take n (log_of rs)) 0 = take k rs \<and>
    length (log_of (take k rs)) \<le> n \<and>
    (k < length rs \<longrightarrow> n < length (log_of (take (Suc k) rs)))"
  using assms
proof (induction rs rule: rev_induct)
  case Nil
  then show ?case using rd_at_end [of "[]"] by simp
next
  case (snoc r rs)
  show ?case
  proof (cases "n < length (log_of rs)")
    case True
    with snoc obtain k where k: "k \<le> length rs" "rd (take n (log_of rs)) 0 = take k rs"
      "length (log_of (take k rs)) \<le> n" "k < length rs \<longrightarrow> n < length (log_of (take (Suc k) rs))"
      by auto
    have "k < length rs" using k True by (cases "k = length rs") auto
    then show ?thesis using k True by (intro exI [of _ k]) auto
  next
    case False
    show ?thesis
    proof (cases "n < length (log_of (rs @ [r]))")
      case True
      then have "n - length (log_of rs) < length (enc r)" using False by simp
      then have "rd (log_of rs @ take (n - length (log_of rs)) (enc r)) 0 = rs"
        using snoc.prems by (intro rd_torn_tail) auto
      then show ?thesis using True False by (intro exI [of _ "length rs"]) auto
    next
      case ge: False
      then show ?thesis
        using rd_written [OF snoc.prems] by (intro exI [of _ "Suc (length rs)"]) auto
    qed
  qed
qed

text \<open>Behind bytes the decoder refuses nothing is ever read.\<close>

lemma rd_behind_garbage:
  assumes "\<forall>r \<in> set rs. fits r" and "dec (log_of rs @ bad) (length (log_of rs)) = None"
  shows "rd (log_of rs @ bad) 0 = rs"
proof -
  have "rd (log_of rs @ bad) (length (log_of rs)) = []" using assms(2) by (subst rd_eq) simp
  then show ?thesis using rd_log_of [OF assms(1), of "[]" bad] by simp
qed

end

text \<open>Where every record that can be read could also have been written, so does a log that is read and rewritten.\<close>

locale rewritable_log = record_log +
  assumes dec_fits: "dec buf pos = Some (r, p) \<Longrightarrow> fits r"
begin

lemma rd_fits: "r \<in> set (rd buf pos) \<Longrightarrow> fits r"
proof (induction "length buf - pos" arbitrary: pos rule: less_induct)
  case less
  from less.prems obtain r' p where d: "dec buf pos = Some (r', p)" and r: "r = r' \<or> r \<in> set (rd buf p)"
    using rd_eq [of buf pos] by (auto split: option.splits)
  from d have "length buf - p < length buf - pos" using dec_bound by fastforce
  with less.hyps r d show ?case by (auto dest: dec_fits)
qed

lemma rewrite_filtered: "rd (log_of (filter P (rd buf pos))) 0 = filter P (rd buf pos)"
  using rd_fits by (intro rd_written) auto

end

end
