(* ===== verification/FileIo.thy ===== *)
theory FileIo
  imports Prelude
begin

text \<open>
  Files and the calls on them that may fail. The contents of the files are a map from paths to bytes; what the
  operating system answers to the calls of one operation is an \<open>io_env\<close> that the operation takes as an argument, so
  that each \<^verbatim>\<open>throw\<close> of the source is a branch of the model; \<^verbatim>\<open>write_bytes_atomic\<close>
  (\<^verbatim>\<open>storage/atomic_write.hpp\<close>) is here.
\<close>

section \<open>Definitions\<close>

datatype io_error = OpenFailed | WriteFailed | SyncFailed | RenameFailed

text \<open>The answers of the operating system to the calls of one operation.\<close>

record io_env =
  env_read_ok :: bool
  env_opens :: bool
  env_write_ok :: bool
  env_flush_ok :: bool
  env_short :: nat
  env_sync_ok :: bool
  env_truncate_ok :: bool
  env_remove_ok :: bool
  env_rename_ok :: bool

text \<open>\<^verbatim>\<open>fopen(path, "ab")\<close> creates a file that is not there.\<close>

definition open_append :: "string \<Rightarrow> (string \<rightharpoonup> byte list) \<Rightarrow> (string \<rightharpoonup> byte list)" where
  "open_append path fs = (case fs path of None \<Rightarrow> fs(path \<mapsto> []) | Some _ \<Rightarrow> fs)"

definition append_bytes :: "string \<Rightarrow> byte list \<Rightarrow> (string \<rightharpoonup> byte list) \<Rightarrow> (string \<rightharpoonup> byte list)" where
  "append_bytes path bs fs = fs(path \<mapsto> (case fs path of None \<Rightarrow> [] | Some old \<Rightarrow> old) @ bs)"

definition write_bytes_atomic ::
  "io_env \<Rightarrow> string \<Rightarrow> byte list \<Rightarrow> (string \<rightharpoonup> byte list) \<Rightarrow> io_error option \<times> (string \<rightharpoonup> byte list)" where
  "write_bytes_atomic env path data fs =
     (let tmp = path @ ''.tmp'' in
      if \<not> env_opens env then (Some OpenFailed, fs)
      else if \<not> env_write_ok env then (Some WriteFailed, fs(tmp \<mapsto> take (env_short env) data))
      else if \<not> env_flush_ok env then (Some WriteFailed, fs(tmp \<mapsto> take (env_short env) data))
      else if \<not> env_sync_ok env then (Some SyncFailed, fs(tmp \<mapsto> data))
      else if \<not> env_rename_ok env then (Some RenameFailed, fs(tmp \<mapsto> data))
      else (None, (fs(tmp := None))(path \<mapsto> data)))"

definition remove_file :: "io_env \<Rightarrow> string \<Rightarrow> (string \<rightharpoonup> byte list) \<Rightarrow> (string \<rightharpoonup> byte list)" where
  "remove_file env path fs = (if env_remove_ok env then fs(path := None) else fs)"

text \<open>Answers of an operating system in which every call succeeds.\<close>

definition env_ok :: io_env where
  "env_ok = \<lparr>env_read_ok = True, env_opens = True, env_write_ok = True, env_flush_ok = True, env_short = 0,
     env_sync_ok = True, env_truncate_ok = True, env_remove_ok = True, env_rename_ok = True\<rparr>"

section \<open>Facts\<close>

lemma env_ok_simps [simp]: "env_read_ok env_ok" "env_opens env_ok" "env_truncate_ok env_ok" "env_remove_ok env_ok"
  by (simp_all add: env_ok_def)

lemma tmp_neq [simp]: "path @ ''.tmp'' \<noteq> path" "path \<noteq> path @ ''.tmp''"
  by simp_all

text \<open>
  \<^verbatim>\<open>write_bytes_atomic\<close> is atomic for the file at \<open>path\<close>, whatever the operating system
  answers: it holds the new contents exactly when the call returns normally, and its old contents in every case where
  the call throws. No file but this one and its \<^verbatim>\<open>.tmp\<close> sibling is touched.
\<close>

theorem write_bytes_atomic_all_or_nothing:
  "(case write_bytes_atomic env path data fs of (err, fs') \<Rightarrow>
      fs' path = (if err = None then Some data else fs path) \<and>
      (\<forall>p. p \<noteq> path \<longrightarrow> p \<noteq> path @ ''.tmp'' \<longrightarrow> fs' p = fs p) \<and>
      (err = None \<longrightarrow> fs' (path @ ''.tmp'') = None))"
  by (auto simp: write_bytes_atomic_def Let_def)

theorem write_bytes_atomic_all_or_nothing_witness:
  "(case write_bytes_atomic (env_ok\<lparr>env_sync_ok := False\<rparr>) ''t'' [1, 2] [''t'' \<mapsto> [9], ''u'' \<mapsto> [7]] of (err, fs') \<Rightarrow>
      fs' ''t'' = (if err = None then Some [1, 2] else Some [9]) \<and>
      (\<forall>p. p \<noteq> ''t'' \<longrightarrow> p \<noteq> ''t.tmp'' \<longrightarrow> fs' p = [''t'' \<mapsto> [9], ''u'' \<mapsto> [7]] p) \<and>
      (err = None \<longrightarrow> fs' ''t.tmp'' = None))"
  using write_bytes_atomic_all_or_nothing [where env = "env_ok\<lparr>env_sync_ok := False\<rparr>" and path = "''t''"
      and data = "[1, 2]" and fs = "[''t'' \<mapsto> [9], ''u'' \<mapsto> [7]]"]
  by (simp split: prod.splits)

lemma write_bytes_atomic_path:
  "write_bytes_atomic env path data fs = (err, fs') \<Longrightarrow> fs' path = (if err = None then Some data else fs path)"
  by (auto simp: write_bytes_atomic_def Let_def split: if_splits)

end
