(* ===== verification/LogFile.thy ===== *)
theory LogFile
  imports RecordLog FileIo
begin

text \<open>
  A log file that several transactions write to, with the record the engine keeps of whose entries are in it
  (\<^verbatim>\<open>TxnIoShared::LogContents\<close>). \<^verbatim>\<open>WalManager\<close> (\<^verbatim>\<open>core/src/transaction/wal.cpp\<close>) and \<^verbatim>\<open>UndoLogFile\<close>
  (\<^verbatim>\<open>core/src/transaction/txn_manager.cpp\<close>) hold two copies of the same operations, one per record type; here
  they are functions of the encoder \<open>enc\<close>, the reader \<open>rd\<close> and the transaction id \<open>txn\<close> of a record. What is proved
  of them in the locale \<open>txn_log\<close> holds for both.

  An operation gives the error it throws, if any, and the state it leaves. The mutexes
  \<^verbatim>\<open>wal_lock\<close> and \<^verbatim>\<open>undo_lock\<close> make every operation atomic.
\<close>

section \<open>Definitions\<close>

record LogContents =
  lc_path :: string
  lc_known :: bool
  lc_txns :: "u64 set"

text \<open>The files, what is known of the log and the path of the open append handle.\<close>

record log_file =
  lf_files :: "string \<rightharpoonup> byte list"
  lf_contents :: LogContents
  lf_fp_path :: "string option"

definition fresh_log :: "(string \<rightharpoonup> byte list) \<Rightarrow> log_file" where
  "fresh_log fs = \<lparr>lf_files = fs, lf_contents = \<lparr>lc_path = [], lc_known = False, lc_txns = {}\<rparr>, lf_fp_path = None\<rparr>"

definition tracked_contents :: "LogContents \<Rightarrow> string \<Rightarrow> LogContents" where
  "tracked_contents c path =
     (if lc_path c \<noteq> path then \<lparr>lc_path = path, lc_known = False, lc_txns = {}\<rparr> else c)"

definition txn_ids_of :: "('r \<Rightarrow> u64) \<Rightarrow> 'r list \<Rightarrow> u64 set" where
  "txn_ids_of txn rs = set (map txn rs)"

definition log_close_handle :: "log_file \<Rightarrow> log_file" where
  "log_close_handle lf = lf\<lparr>lf_fp_path := None\<rparr>"

definition log_append_handle :: "io_env \<Rightarrow> string \<Rightarrow> log_file \<Rightarrow> bool \<times> log_file" where
  "log_append_handle env path lf =
     (if lf_fp_path lf = Some path then (True, lf)
      else let lf = log_close_handle lf
           in if env_opens env
              then (True, lf\<lparr>lf_fp_path := Some path, lf_files := open_append path (lf_files lf)\<rparr>)
              else (False, lf))"

definition log_write_encoded ::
  "io_env \<Rightarrow> string \<Rightarrow> byte list \<Rightarrow> bool \<Rightarrow> u64 \<Rightarrow> log_file \<Rightarrow> io_error option \<times> log_file" where
  "log_write_encoded env path encoded sync txn_id lf =
     (let c = tracked_contents (lf_contents lf) path;
          (opened, lf) = log_append_handle env path (lf\<lparr>lf_contents := c\<rparr>)
      in if \<not> opened then (Some OpenFailed, lf)
         else if \<not> env_write_ok env \<or> \<not> env_flush_ok env then
           (Some WriteFailed,
            log_close_handle (lf\<lparr>lf_files := append_bytes path (take (env_short env) encoded) (lf_files lf),
                                lf_contents := c\<lparr>lc_known := False\<rparr>\<rparr>))
         else
           let lf = lf\<lparr>lf_files := append_bytes path encoded (lf_files lf),
                       lf_contents := (if lc_known c then c\<lparr>lc_txns := insert txn_id (lc_txns c)\<rparr> else c)\<rparr>
           in if sync \<and> \<not> env_sync_ok env then (Some SyncFailed, log_close_handle lf)
              else (None, lf))"

text \<open>A file that cannot be opened or sized for reading is read as an empty one.\<close>

definition log_read_all :: "(byte list \<Rightarrow> nat \<Rightarrow> 'r list) \<Rightarrow> io_env \<Rightarrow> string \<Rightarrow> log_file \<Rightarrow> 'r list" where
  "log_read_all rd env path lf =
     (case lf_files lf path of
        None \<Rightarrow> []
      | Some buf \<Rightarrow> if env_read_ok env then rd buf 0 else [])"

definition log_clear :: "io_env \<Rightarrow> string \<Rightarrow> log_file \<Rightarrow> log_file" where
  "log_clear env path lf =
     (let lf = log_close_handle lf
      in lf\<lparr>lf_files := remove_file env path (lf_files lf),
            lf_contents := (tracked_contents (lf_contents lf) path)\<lparr>lc_known := True, lc_txns := {}\<rparr>\<rparr>)"

text \<open>Emptying the file in place through the append handle: \<open>False\<close> when the handle cannot be had or the truncation fails.\<close>

definition log_truncate_in_place :: "io_env \<Rightarrow> string \<Rightarrow> log_file \<Rightarrow> bool \<times> log_file" where
  "log_truncate_in_place env path lf =
     (let (opened, lf) = log_append_handle env path lf
      in if opened \<and> env_truncate_ok env then (True, lf\<lparr>lf_files := (lf_files lf)(path \<mapsto> [])\<rparr>)
         else (False, lf))"

definition log_rewrite ::
  "('r \<Rightarrow> byte list) \<Rightarrow> ('r \<Rightarrow> u64) \<Rightarrow> io_env \<Rightarrow> string \<Rightarrow> 'r list \<Rightarrow> log_file \<Rightarrow> io_error option \<times> log_file" where
  "log_rewrite enc txn env path remaining lf =
     (let lf = log_close_handle lf;
          (err, fs) = write_bytes_atomic env path (concat (map enc remaining)) (lf_files lf);
          lf = lf\<lparr>lf_files := fs\<rparr>
      in if err \<noteq> None then (err, lf)
         else (None, lf\<lparr>lf_contents := (tracked_contents (lf_contents lf) path)
                          \<lparr>lc_known := True, lc_txns := txn_ids_of txn remaining\<rparr>\<rparr>))"

text \<open>The part of \<^verbatim>\<open>remove_txn\<close> that reads the file.\<close>

definition log_remove_txn_slow ::
  "('r \<Rightarrow> byte list) \<Rightarrow> (byte list \<Rightarrow> nat \<Rightarrow> 'r list) \<Rightarrow> ('r \<Rightarrow> u64) \<Rightarrow>
   io_env \<Rightarrow> string \<Rightarrow> u64 \<Rightarrow> log_file \<Rightarrow> io_error option \<times> log_file" where
  "log_remove_txn_slow enc rd txn env path txn_id lf =
     (let remaining = filter (\<lambda>r. txn r \<noteq> txn_id) (log_read_all rd env path lf)
      in if remaining = [] then
           (if lf_files lf path \<noteq> None then
              let (emptied, lf) = log_truncate_in_place env path lf
              in if emptied
                 then (None, lf\<lparr>lf_contents := (lf_contents lf)\<lparr>lc_known := True, lc_txns := {}\<rparr>\<rparr>)
                 else (None, log_clear env path lf)
            else (None, log_clear env path lf))
         else log_rewrite enc txn env path remaining lf)"

text \<open>The fast path (answers \<open>env1\<close>) empties the file without reading it; when that fails the slow path runs.\<close>

definition log_remove_txn ::
  "('r \<Rightarrow> byte list) \<Rightarrow> (byte list \<Rightarrow> nat \<Rightarrow> 'r list) \<Rightarrow> ('r \<Rightarrow> u64) \<Rightarrow>
   io_env \<Rightarrow> io_env \<Rightarrow> string \<Rightarrow> u64 \<Rightarrow> log_file \<Rightarrow> io_error option \<times> log_file" where
  "log_remove_txn enc rd txn env1 env path txn_id lf =
     (let c = tracked_contents (lf_contents lf) path;
          lf = lf\<lparr>lf_contents := c\<rparr>
      in if lc_known c \<and> txn_id \<notin> lc_txns c then (None, lf)
         else if lc_known c \<and> card (lc_txns c) = 1 then
           let (emptied, lf) = log_truncate_in_place env1 path lf
           in if emptied then (None, lf\<lparr>lf_contents := c\<lparr>lc_txns := {}\<rparr>\<rparr>)
              else log_remove_txn_slow enc rd txn env path txn_id lf
         else log_remove_txn_slow enc rd txn env path txn_id lf)"

section \<open>The file and what is known of it\<close>

text \<open>
  A log file is intact when it is nothing but whole records. What \<^verbatim>\<open>LogContents\<close> says of the file
  is right when, as long as it claims to know the file, the file is intact and the set is the set of transactions
  with records in it; an open append handle refers to a file that is there.
\<close>

definition file_bytes :: "string \<Rightarrow> log_file \<Rightarrow> byte list" where
  "file_bytes path lf = (case lf_files lf path of None \<Rightarrow> [] | Some buf \<Rightarrow> buf)"

definition log_records :: "(byte list \<Rightarrow> nat \<Rightarrow> 'r list) \<Rightarrow> string \<Rightarrow> log_file \<Rightarrow> 'r list" where
  "log_records rd path lf = rd (file_bytes path lf) 0"

definition log_intact :: "('r \<Rightarrow> byte list) \<Rightarrow> (byte list \<Rightarrow> nat \<Rightarrow> 'r list) \<Rightarrow> string \<Rightarrow> log_file \<Rightarrow> bool" where
  "log_intact enc rd path lf \<longleftrightarrow> file_bytes path lf = concat (map enc (log_records rd path lf))"

definition log_inv ::
  "('r \<Rightarrow> byte list) \<Rightarrow> (byte list \<Rightarrow> nat \<Rightarrow> 'r list) \<Rightarrow> ('r \<Rightarrow> u64) \<Rightarrow> string \<Rightarrow> log_file \<Rightarrow> bool" where
  "log_inv enc rd txn path lf \<longleftrightarrow>
     (lf_fp_path lf = Some path \<longrightarrow> lf_files lf path \<noteq> None) \<and>
     (lc_path (lf_contents lf) = path \<and> lc_known (lf_contents lf) \<longrightarrow>
        log_intact enc rd path lf \<and> lc_txns (lf_contents lf) = txn_ids_of txn (log_records rd path lf))"

lemma txn_ids_of_append [simp]: "txn_ids_of txn (rs @ [r]) = insert (txn r) (txn_ids_of txn rs)"
  by (simp add: txn_ids_of_def)

lemma txn_ids_of_Nil [simp]: "txn_ids_of txn [] = {}"
  by (simp add: txn_ids_of_def)

text \<open>Only known contents whose sole transaction is \<open>t\<close> are emptied without reading, and then they hold nothing else.\<close>

lemma only_txn:
  assumes "card (txn_ids_of txn rs) = 1" and "t \<in> txn_ids_of txn rs"
  shows "filter (\<lambda>r. txn r \<noteq> t) rs = []"
proof -
  have "txn_ids_of txn rs = {t}" using assms by (auto simp: card_1_singleton_iff)
  then show ?thesis by (auto simp: txn_ids_of_def filter_empty_conv)
qed

lemma absent_txn: "t \<notin> txn_ids_of txn rs \<Longrightarrow> filter (\<lambda>r. txn r \<noteq> t) rs = rs"
  by (auto simp: txn_ids_of_def filter_id_conv)

lemma log_inv_fresh [simp]: "log_inv enc rd txn path (fresh_log fs)"
  by (simp add: log_inv_def fresh_log_def)

lemma tracked_contents_simps [simp]:
  "lc_path (tracked_contents c path) = path"
  "lc_known (tracked_contents c path) \<longleftrightarrow> lc_path c = path \<and> lc_known c"
  "lc_path c = path \<Longrightarrow> tracked_contents c path = c"
  by (auto simp: tracked_contents_def)

lemma file_bytes_append [simp]:
  "file_bytes path (lf\<lparr>lf_files := append_bytes path bs fs\<rparr>) = (case fs path of None \<Rightarrow> [] | Some b \<Rightarrow> b) @ bs"
  by (simp add: file_bytes_def append_bytes_def)

lemma file_bytes_update [simp]:
  "file_bytes path (lf\<lparr>lf_contents := c\<rparr>) = file_bytes path lf"
  "file_bytes path (lf\<lparr>lf_fp_path := h\<rparr>) = file_bytes path lf"
  by (simp_all add: file_bytes_def)

lemma log_close_handle_simps [simp]:
  "lf_files (log_close_handle lf) = lf_files lf"
  "lf_contents (log_close_handle lf) = lf_contents lf"
  "lf_fp_path (log_close_handle lf) = None"
  by (simp_all add: log_close_handle_def)

lemma file_bytes_files [simp]:
  "file_bytes path (lf\<lparr>lf_files := fs\<rparr>) = (case fs path of None \<Rightarrow> [] | Some b \<Rightarrow> b)"
  by (simp add: file_bytes_def)

section \<open>The operations\<close>

locale txn_log = rewritable_log enc dec rd fits
  for enc :: "'r \<Rightarrow> byte list" and dec :: "byte list \<Rightarrow> nat \<Rightarrow> ('r \<times> nat) option"
    and rd :: "byte list \<Rightarrow> nat \<Rightarrow> 'r list" and fits :: "'r \<Rightarrow> bool" +
  fixes txn :: "'r \<Rightarrow> u64"
begin

abbreviation records :: "string \<Rightarrow> log_file \<Rightarrow> 'r list" where
  "records \<equiv> log_records rd"

abbreviation intact :: "string \<Rightarrow> log_file \<Rightarrow> bool" where
  "intact \<equiv> log_intact enc rd"

abbreviation inv :: "string \<Rightarrow> log_file \<Rightarrow> bool" where
  "inv \<equiv> log_inv enc rd txn"

abbreviation ids_of :: "'r list \<Rightarrow> u64 set" where
  "ids_of \<equiv> txn_ids_of txn"

abbreviation rewrite :: "io_env \<Rightarrow> string \<Rightarrow> 'r list \<Rightarrow> log_file \<Rightarrow> io_error option \<times> log_file" where
  "rewrite \<equiv> log_rewrite enc txn"

abbreviation remove_slow :: "io_env \<Rightarrow> string \<Rightarrow> u64 \<Rightarrow> log_file \<Rightarrow> io_error option \<times> log_file" where
  "remove_slow \<equiv> log_remove_txn_slow enc rd txn"

abbreviation remove :: "io_env \<Rightarrow> io_env \<Rightarrow> string \<Rightarrow> u64 \<Rightarrow> log_file \<Rightarrow> io_error option \<times> log_file" where
  "remove \<equiv> log_remove_txn enc rd txn"

lemma rd_Nil [simp]: "rd [] 0 = []"
  using rd_at_end [of "[]"] by simp

lemma log_read_all_eq [simp]: "env_read_ok env \<Longrightarrow> log_read_all rd env path lf = records path lf"
  by (simp add: log_read_all_def log_records_def file_bytes_def split: option.splits)

lemma intactI:
  assumes "file_bytes path lf = concat (map enc rs)" and "\<forall>r \<in> set rs. fits r"
  shows "records path lf = rs" and "intact path lf"
  using rd_written [OF assms(2)] assms(1) by (simp_all add: log_records_def log_intact_def)

lemma records_fit: "r \<in> set (records path lf) \<Longrightarrow> fits r"
  unfolding log_records_def by (rule rd_fits)

lemma append_intact:
  assumes "intact path lf" and "fits r" and "file_bytes path lf' = file_bytes path lf @ enc r"
  shows "records path lf' = records path lf @ [r]" and "intact path lf'"
proof -
  have "file_bytes path lf' = concat (map enc (records path lf @ [r]))"
    using assms(1,3) by (simp add: log_intact_def)
  moreover have "\<forall>q \<in> set (records path lf @ [r]). fits q"
    using assms(2) records_fit by auto
  ultimately show "records path lf' = records path lf @ [r]" and "intact path lf'"
    by (rule intactI)+
qed

lemma append_handle_spec:
  assumes "log_append_handle env path lf = (opened, lf')"
  shows "lf_contents lf' = lf_contents lf"
    and "file_bytes path lf' = file_bytes path lf"
    and "opened \<Longrightarrow> lf_fp_path lf' = Some path"
    and "\<not> opened \<Longrightarrow> lf_fp_path lf' = None"
    and "inv path lf \<Longrightarrow> opened \<Longrightarrow> lf_files lf' path \<noteq> None"
    and "p \<noteq> path \<Longrightarrow> lf_files lf' p = lf_files lf p"
  using assms
  by (auto simp: log_append_handle_def Let_def log_close_handle_def file_bytes_def log_inv_def
      open_append_def split: if_splits option.splits)

lemma write_encoded_cases:
  assumes "log_write_encoded env path encoded sync t lf = (e, lf')"
    and "log_append_handle env path (lf\<lparr>lf_contents := c\<rparr>) = (opened, lf1)" and "c = tracked_contents (lf_contents lf) path"
    and "lf2 = lf1\<lparr>lf_files := append_bytes path encoded (lf_files lf1),
      lf_contents := (if lc_known c then c\<lparr>lc_txns := insert t (lc_txns c)\<rparr> else c)\<rparr>"
  obtains (unopened) "\<not> opened" "e = Some OpenFailed" "lf' = lf1"
    | (torn) "e = Some WriteFailed" "lf' = log_close_handle
        (lf1\<lparr>lf_files := append_bytes path (take (env_short env) encoded) (lf_files lf1), lf_contents := c\<lparr>lc_known := False\<rparr>\<rparr>)"
    | (unsynced) "e = Some SyncFailed" "lf' = log_close_handle lf2"
    | (written) "e = None" "lf' = lf2"
proof -
  have "log_write_encoded env path encoded sync t lf =
    (if \<not> opened then (Some OpenFailed, lf1)
     else if \<not> env_write_ok env \<or> \<not> env_flush_ok env then
       (Some WriteFailed, log_close_handle
          (lf1\<lparr>lf_files := append_bytes path (take (env_short env) encoded) (lf_files lf1),
               lf_contents := c\<lparr>lc_known := False\<rparr>\<rparr>))
     else if sync \<and> \<not> env_sync_ok env then (Some SyncFailed, log_close_handle lf2)
     else (None, lf2))"
    by (simp only: log_write_encoded_def Let_def assms(2) assms(3) [symmetric] assms(4) prod.case)
  then show thesis using assms(1) that by (auto split: if_splits)
qed

lemma write_encoded_bytes:
  assumes "log_write_encoded env path encoded sync t lf = (e, lf')"
  shows "\<exists>n. file_bytes path lf' = file_bytes path lf @ take n encoded \<and> (e = None \<longrightarrow> n = length encoded)"
proof -
  define c where "c = tracked_contents (lf_contents lf) path"
  obtain opened lf1 where h: "log_append_handle env path (lf\<lparr>lf_contents := c\<rparr>) = (opened, lf1)" by fastforce
  define lf2 where "lf2 = lf1\<lparr>lf_files := append_bytes path encoded (lf_files lf1),
      lf_contents := (if lc_known c then c\<lparr>lc_txns := insert t (lc_txns c)\<rparr> else c)\<rparr>"
  have b: "file_bytes path lf1 = file_bytes path lf" using append_handle_spec(2) [OF h] by simp
  then have 2: "file_bytes path lf2 = file_bytes path lf @ encoded"
    and part: "file_bytes path (log_close_handle (lf1\<lparr>lf_files := append_bytes path (take k encoded) (lf_files lf1),
       lf_contents := d\<rparr>)) = file_bytes path lf @ take k encoded"
    and closed: "file_bytes path (log_close_handle lf2) = file_bytes path lf2" for k d
    by (simp_all add: lf2_def append_bytes_def file_bytes_def log_close_handle_def)
  from assms h c_def lf2_def show ?thesis
  proof (cases rule: write_encoded_cases)
    case unopened
    then show ?thesis using b by (intro exI [of _ 0]) simp
  next
    case torn
    then show ?thesis using part by (intro exI [of _ "env_short env"]) simp
  qed (use 2 closed in \<open>auto intro: exI [of _ "length encoded"]\<close>)
qed

lemma write_encoded_inv:
  assumes inv: "inv path lf" and fits: "fits r"
    and step: "log_write_encoded env path (enc r) sync (txn r) lf = (e, lf')"
  shows "inv path lf'"
proof -
  let ?c = "tracked_contents (lf_contents lf) path"
  obtain opened lf1 where h: "log_append_handle env path (lf\<lparr>lf_contents := ?c\<rparr>) = (opened, lf1)" by fastforce
  note spec = append_handle_spec [OF h]
  have bytes: "file_bytes path lf1 = file_bytes path lf" and c1: "lf_contents lf1 = ?c"
    using spec(1,2) by simp_all
  have recs: "records path lf1 = records path lf" "intact path lf1 \<longleftrightarrow> intact path lf"
    by (simp_all add: log_records_def log_intact_def bytes)
  have inv1: "inv path lf1" if "\<not> opened"
    using inv spec(4) [OF that] c1 recs by (simp add: log_inv_def)
  have known: "intact path lf \<and> lc_txns (lf_contents lf) = ids_of (records path lf)"
    if "lc_known ?c"
    using that inv by (simp add: log_inv_def)
  define lf2 where "lf2 = lf1\<lparr>lf_files := append_bytes path (enc r) (lf_files lf1),
    lf_contents := (if lc_known ?c then ?c\<lparr>lc_txns := insert (txn r) (lc_txns ?c)\<rparr> else ?c)\<rparr>"
  have b2: "file_bytes path lf2 = file_bytes path lf1 @ enc r"
    by (simp add: lf2_def file_bytes_def append_bytes_def)
  have there: "lf_files lf2 path \<noteq> None" by (simp add: lf2_def append_bytes_def)
  have app: "intact path lf2 \<and> records path lf2 = records path lf @ [r]" if "intact path lf"
    using append_intact [OF that fits, of lf2] b2 bytes by simp
  have inv2: "inv path lf2"
  proof (cases "lc_known ?c")
    case True
    then have "lf_contents lf2 = ?c\<lparr>lc_txns := insert (txn r) (lc_txns (lf_contents lf))\<rparr>"
      by (simp add: lf2_def)
    then show ?thesis using known [OF True] app there by (simp add: log_inv_def)
  next
    case False
    then have "lf_contents lf2 = ?c" unfolding lf2_def by (simp only: if_False) simp
    then show ?thesis using False there by (auto simp: log_inv_def)
  qed
  have closed: "inv path (log_close_handle lf2)"
    using inv2 by (simp add: log_inv_def log_intact_def log_records_def file_bytes_def)
  have torn: "inv path (log_close_handle (lf1\<lparr>lf_files := fs, lf_contents := ?c\<lparr>lc_known := False\<rparr>\<rparr>))" for fs
    by (simp add: log_inv_def)
  show ?thesis
    by (rule write_encoded_cases [OF step h refl lf2_def]) (use inv1 inv2 closed torn in simp_all)
qed

lemma records_eqI: "file_bytes path lf' = file_bytes path lf \<Longrightarrow> records path lf' = records path lf"
  by (simp add: log_records_def)

lemma intact_eqI: "file_bytes path lf' = file_bytes path lf \<Longrightarrow> intact path lf' = intact path lf"
  by (simp add: log_records_def log_intact_def)

text \<open>What replacing the whole file gives: the file holds \<open>remaining\<close> and is known, or nothing has changed in it.\<close>

lemma rewrite_spec:
  assumes step: "rewrite env path remaining lf = (err, lf')" and fits: "\<forall>r \<in> set remaining. fits r"
  shows "records path lf' = (if err = None then remaining else records path lf)"
    and "inv path lf \<Longrightarrow> inv path lf'"
    and "err = None \<Longrightarrow> lc_path (lf_contents lf') = path \<and> lc_known (lf_contents lf') \<and> inv path lf'"
proof -
  let ?bs = "concat (map enc remaining)"
  obtain e fs where w: "write_bytes_atomic env path ?bs (lf_files lf) = (e, fs)" by fastforce
  define lf1 where "lf1 = (log_close_handle lf)\<lparr>lf_files := fs\<rparr>"
  define lf2 where "lf2 = lf1\<lparr>lf_contents := (tracked_contents (lf_contents lf1) path)
    \<lparr>lc_known := True, lc_txns := ids_of remaining\<rparr>\<rparr>"
  have eq: "rewrite env path remaining lf = (if e \<noteq> None then (e, lf1) else (None, lf2))"
    by (simp add: log_rewrite_def w lf1_def lf2_def)
  have fs: "lf_files lf1 path = (if e = None then Some ?bs else lf_files lf path)"
    using write_bytes_atomic_path [OF w] by (simp add: lf1_def)
  have c1: "lf_contents lf1 = lf_contents lf" "lf_fp_path lf1 = None" by (simp_all add: lf1_def)
  have "records path lf' = (if err = None then remaining else records path lf) \<and>
    (inv path lf \<longrightarrow> inv path lf') \<and>
    (err = None \<longrightarrow> lc_path (lf_contents lf') = path \<and> lc_known (lf_contents lf') \<and> inv path lf')"
  proof (cases "e = None")
    case True
    then have r: "err = None" "lf' = lf2" using step eq by simp_all
    have "file_bytes path lf2 = ?bs" using fs True by (simp add: lf2_def file_bytes_def)
    note * = intactI [OF this fits]
    have "inv path lf2" unfolding log_inv_def using * by (simp add: lf2_def c1)
    then show ?thesis using * r by (simp add: lf2_def)
  next
    case False
    then have r: "err = e" "lf' = lf1" using step eq by simp_all
    have bytes: "file_bytes path lf1 = file_bytes path lf" using fs False by (simp add: file_bytes_def)
    have "inv path lf1" if "inv path lf"
      using that records_eqI [OF bytes] intact_eqI [OF bytes] by (simp add: log_inv_def c1)
    then show ?thesis using r records_eqI [OF bytes] False by auto
  qed
  then show "records path lf' = (if err = None then remaining else records path lf)"
    and "inv path lf \<Longrightarrow> inv path lf'"
    and "err = None \<Longrightarrow> lc_path (lf_contents lf') = path \<and> lc_known (lf_contents lf') \<and> inv path lf'"
    by blast+
qed

lemma records_empty: "file_bytes path lf = [] \<Longrightarrow> records path lf = [] \<and> intact path lf"
  by (simp add: log_records_def log_intact_def)

lemma truncate_in_place_spec:
  assumes "log_truncate_in_place env path lf = (emptied, lf')"
  shows "lf_contents lf' = lf_contents lf"
    and "emptied \<Longrightarrow> file_bytes path lf' = [] \<and> lf_files lf' path \<noteq> None"
    and "\<not> emptied \<Longrightarrow> file_bytes path lf' = file_bytes path lf"
    and "inv path lf \<Longrightarrow> \<not> emptied \<Longrightarrow> inv path lf'"
proof -
  obtain opened lf1 where h: "log_append_handle env path lf = (opened, lf1)" by fastforce
  note spec = append_handle_spec [OF h]
  have lf': "(emptied, lf') = (if opened \<and> env_truncate_ok env
      then (True, lf1\<lparr>lf_files := (lf_files lf1)(path \<mapsto> [])\<rparr>) else (False, lf1))"
    using assms h by (simp add: log_truncate_in_place_def)
  show "lf_contents lf' = lf_contents lf"
    using lf' spec(1) by (auto split: if_splits)
  show "emptied \<Longrightarrow> file_bytes path lf' = [] \<and> lf_files lf' path \<noteq> None"
    using lf' by (auto split: if_splits)
  show bytes: "\<not> emptied \<Longrightarrow> file_bytes path lf' = file_bytes path lf"
    using lf' spec(2) by (auto split: if_splits)
  show "inv path lf'" if "inv path lf" "\<not> emptied"
  proof -
    have "inv path lf1"
      using that(1) spec h records_eqI [OF spec(2)] intact_eqI [OF spec(2)]
      by (cases opened) (auto simp: log_inv_def)
    then show ?thesis using lf' that(2) by (auto split: if_splits)
  qed
qed

lemma clear_spec:
  assumes "env_remove_ok env"
  shows "records path (log_clear env path lf) = [] \<and> inv path (log_clear env path lf)"
  using assms
  by (simp add: log_clear_def Let_def remove_file_def log_inv_def log_records_def log_intact_def file_bytes_def)

lemma remaining_fits: "\<forall>r \<in> set (filter P (records path lf)). fits r"
  using records_fit by auto

lemma inv_known_empty:
  assumes "file_bytes path lf = []" and "lf_fp_path lf = Some path \<longrightarrow> lf_files lf path \<noteq> None"
    and "lc_txns (lf_contents lf) = {}"
  shows "inv path lf"
  using assms records_empty by (simp add: log_inv_def)

lemma remove_txn_slow_spec:
  assumes inv: "inv path lf" and ok: "env_read_ok env" "env_remove_ok env"
    and step: "remove_slow env path t lf = (err, lf')"
  shows "inv path lf' \<and>
    records path lf' = (if err = None then filter (\<lambda>r. txn r \<noteq> t) (records path lf) else records path lf)"
proof (cases "filter (\<lambda>r. txn r \<noteq> t) (records path lf) = []")
  case False
  then have rw: "rewrite env path (filter (\<lambda>r. txn r \<noteq> t) (records path lf)) lf = (err, lf')"
    using step ok by (simp add: log_remove_txn_slow_def Let_def)
  show ?thesis using rewrite_spec [OF rw remaining_fits] inv by simp
next
  case True
  obtain emptied lf1 where tr: "log_truncate_in_place env path lf = (emptied, lf1)" by fastforce
  define lf2 where "lf2 = lf1\<lparr>lf_contents := (lf_contents lf1)\<lparr>lc_known := True, lc_txns := {}\<rparr>\<rparr>"
  have eq: "remove_slow env path t lf =
      (if lf_files lf path \<noteq> None then if emptied then (None, lf2) else (None, log_clear env path lf1)
       else (None, log_clear env path lf))"
    using True ok by (simp add: log_remove_txn_slow_def Let_def tr lf2_def)
  have "file_bytes path lf2 = [] \<and> inv path lf2" if "emptied"
  proof -
    have b: "file_bytes path lf2 = []" "lf_files lf2 path \<noteq> None"
      using truncate_in_place_spec(2) [OF tr that] by (simp_all add: lf2_def)
    then show ?thesis using inv_known_empty [OF b(1)] by (simp add: lf2_def)
  qed
  then show ?thesis
    using step eq True clear_spec [OF ok(2)] records_empty by (auto split: if_splits)
qed

lemma remove_txn_spec:
  assumes inv: "inv path lf" and ok: "env_read_ok env" "env_remove_ok env"
    and step: "remove env1 env path t lf = (err, lf')"
  shows "inv path lf' \<and>
    records path lf' = (if err = None then filter (\<lambda>r. txn r \<noteq> t) (records path lf) else records path lf)"
proof -
  define c where "c = tracked_contents (lf_contents lf) path"
  define lf1 where "lf1 = lf\<lparr>lf_contents := c\<rparr>"
  obtain emptied lf2 where tr: "log_truncate_in_place env1 path lf1 = (emptied, lf2)" by fastforce
  define lf3 where "lf3 = lf2\<lparr>lf_contents := c\<lparr>lc_txns := {}\<rparr>\<rparr>"
  have eq: "remove env1 env path t lf =
      (if lc_known c \<and> t \<notin> lc_txns c then (None, lf1)
       else if lc_known c \<and> card (lc_txns c) = 1 then
         if emptied then (None, lf3) else remove_slow env path t lf2
       else remove_slow env path t lf1)"
    by (simp only: log_remove_txn_def Let_def c_def [symmetric] lf1_def [symmetric] tr prod.case lf3_def)
  have b1: "file_bytes path lf1 = file_bytes path lf" by (simp add: lf1_def)
  note r1 = records_eqI [OF b1] and i1 = intact_eqI [OF b1]
  have inv1: "inv path lf1"
    using inv r1 i1 by (simp add: log_inv_def lf1_def c_def)
  have known: "lc_txns c = ids_of (records path lf)" if "lc_known c"
    using that inv by (simp add: log_inv_def c_def)
  have slow2: ?thesis if "remove_slow env path t lf2 = (err, lf')" "\<not> emptied"
    using remove_txn_slow_spec [OF _ ok that(1)] truncate_in_place_spec(3,4) [OF tr] that(2) inv1
      records_eqI [of path lf2 lf1] r1 by simp
  have slow1: ?thesis if "remove_slow env path t lf1 = (err, lf')"
    using remove_txn_slow_spec [OF inv1 ok that] r1 by simp
  have fast: "inv path lf3 \<and> records path lf3 = []" if emptied
  proof -
    have b: "file_bytes path lf3 = []" "lf_files lf3 path \<noteq> None"
      using truncate_in_place_spec(2) [OF tr that] by (simp_all add: lf3_def)
    then show ?thesis using inv_known_empty [OF b(1)] records_empty by (simp add: lf3_def)
  qed
  show ?thesis
  proof (cases "lc_known c \<and> t \<notin> lc_txns c")
    case True
    then have "err = None" "lf' = lf1" using step eq by simp_all
    then show ?thesis using True known inv1 r1 absent_txn [of t txn "records path lf"] by simp
  next
    case other: False
    show ?thesis
    proof (cases "lc_known c \<and> card (lc_txns c) = 1")
      case True
      show ?thesis
      proof (cases emptied)
        case e: True
        then have "err = None" "lf' = lf3" using step eq other True by simp_all
        then show ?thesis using known fast [OF e] only_txn [of txn "records path lf" t] True other by simp
      next
        case False
        then show ?thesis using slow2 step eq other True by simp
      qed
    next
      case False
      then have "remove_slow env path t lf1 = (err, lf')" using step eq other by (metis (full_types))
      then show ?thesis by (rule slow1)
    qed
  qed
qed

lemma append_torn:
  assumes "intact path lf" and "fits r" and "file_bytes path lf' = file_bytes path lf @ take n (enc r)"
  shows "records path lf' \<in> {records path lf, records path lf @ [r]}"
proof (cases "n < length (enc r)")
  case True
  then have "rd (log_of (records path lf) @ take n (enc r)) 0 = records path lf"
    using assms(2) records_fit by (intro rd_torn_tail) auto
  then show ?thesis using assms(1,3) by (simp add: log_records_def log_intact_def)
next
  case False
  then show ?thesis using append_intact [OF assms(1,2), of lf'] assms(3) by simp
qed

text \<open>An append to an intact log adds the whole record or, when it fails, the whole record or nothing.\<close>

lemma append_all_or_nothing:
  assumes "intact path lf" and "fits r" and step: "log_write_encoded env path (enc r) sync (txn r) lf = (e, lf')"
  shows "(e = None \<longrightarrow> intact path lf' \<and> records path lf' = records path lf @ [r]) \<and>
    records path lf' \<in> {records path lf, records path lf @ [r]}"
proof (cases e)
  case None
  then have "file_bytes path lf' = file_bytes path lf @ enc r"
    using step write_encoded_bytes by fastforce
  from append_intact [OF assms(1,2) this] show ?thesis by simp
next
  case (Some x)
  then obtain n where "file_bytes path lf' = file_bytes path lf @ take n (enc r)"
    using step write_encoded_bytes by blast
  from append_torn [OF assms(1,2) this] show ?thesis using Some by simp
qed

end

end
