(* ===== verification/Wal.thy ===== *)
theory Wal
  imports LogFile
begin

text \<open>
  The write-ahead log (\<^verbatim>\<open>core/src/transaction/wal.cpp\<close>, \<^verbatim>\<open>wal.hpp\<close>): the record format, the
  operations of \<^verbatim>\<open>WalManager\<close>, and the state all sessions share (\<^verbatim>\<open>TxnIoShared\<close>) with the issuer of
  transaction ids. The operations on the file are those of \<open>LogFile\<close> for this record type.
\<close>

section \<open>Definitions\<close>

datatype WalOp = Insert | Update | Delete | Commit | Rollback | Checkpoint

fun wal_op_byte :: "WalOp \<Rightarrow> byte" where
  "wal_op_byte Insert = 0x01"
| "wal_op_byte Update = 0x02"
| "wal_op_byte Delete = 0x03"
| "wal_op_byte Commit = 0xFF"
| "wal_op_byte Rollback = 0xFE"
| "wal_op_byte Checkpoint = 0xFD"

definition wal_op_from_u8 :: "byte \<Rightarrow> WalOp option" where
  "wal_op_from_u8 v =
     (if v = 0x01 then Some Insert
      else if v = 0x02 then Some Update
      else if v = 0x03 then Some Delete
      else if v = 0xFF then Some Commit
      else if v = 0xFE then Some Rollback
      else if v = 0xFD then Some Checkpoint
      else None)"

record WalRecord =
  wal_op :: WalOp
  wal_txn_id :: u64
  wal_table_name :: string
  wal_key :: string
  wal_data :: string

definition wal_body :: "WalRecord \<Rightarrow> byte list" where
  "wal_body r = [wal_op_byte (wal_op r)] @ push_u64_le (wal_txn_id r) @
     put_string (wal_table_name r) @ put_string (wal_key r) @ put_string (wal_data r)"

definition wal_encode :: "WalRecord \<Rightarrow> byte list" where
  "wal_encode r = (let buf = wal_body r in buf @ push_u32_le (fnv1a32 buf))"

definition wal_decode :: "byte list \<Rightarrow> nat \<Rightarrow> (WalRecord \<times> nat) option" where
  "wal_decode buf start =
     (if start \<ge> length buf then None else
      case wal_op_from_u8 (buf ! start) of None \<Rightarrow> None | Some op \<Rightarrow>
      case read_u64_le buf (start + 1) of None \<Rightarrow> None | Some txn_id \<Rightarrow>
      case read_string buf (start + 9) of None \<Rightarrow> None | Some (table_name, pos) \<Rightarrow>
      case read_string buf pos of None \<Rightarrow> None | Some (key, pos) \<Rightarrow>
      case read_string buf pos of None \<Rightarrow> None | Some (data, pos) \<Rightarrow>
      case read_u32_le buf pos of None \<Rightarrow> None | Some stored_checksum \<Rightarrow>
      if fnv1a32 (take (pos - start) (drop start buf)) \<noteq> stored_checksum then None
      else Some (\<lparr>wal_op = op, wal_txn_id = txn_id, wal_table_name = table_name,
                  wal_key = key, wal_data = data\<rparr>, pos + 4))"

text \<open>Sizes of strings are stored in 32 bits.\<close>

definition wal_fits :: "WalRecord \<Rightarrow> bool" where
  "wal_fits r \<longleftrightarrow> length (wal_table_name r) < 2 ^ 32 \<and> length (wal_key r) < 2 ^ 32 \<and>
     length (wal_data r) < 2 ^ 32"

lemma wal_decode_advances:
  "wal_decode buf pos = Some (r, p) \<Longrightarrow> pos < p \<and> p \<le> length buf"
  by (auto simp: wal_decode_def dest!: read_string_bound read_u32_le_bound
      split: if_splits option.splits)

text \<open>\<^verbatim>\<open>while (auto record = decode(buf, pos)) records.push_back(*record)\<close>\<close>

function wal_read_records :: "byte list \<Rightarrow> nat \<Rightarrow> WalRecord list" where
  "wal_read_records buf pos =
     (case wal_decode buf pos of None \<Rightarrow> [] | Some (r, p) \<Rightarrow> r # wal_read_records buf p)"
  by pat_completeness auto
termination
  by (relation "measure (\<lambda>(buf, pos). length buf - pos)") (auto dest: wal_decode_advances)

declare wal_read_records.simps [simp del]

text \<open>
  \<^verbatim>\<open>TxnIoShared\<close>: the issuer of transaction ids and the two log files with their append handles (\<^verbatim>\<open>wal_fp_\<close>,
  \<^verbatim>\<open>undo_fp_\<close>) and contents records. The two logs have different paths, so each has files of its own here.
\<close>

record TxnIoShared =
  wal_file :: log_file
  undo_file :: log_file
  next_txn_id :: u64

definition fresh_io :: "(string \<rightharpoonup> byte list) \<Rightarrow> (string \<rightharpoonup> byte list) \<Rightarrow> TxnIoShared" where
  "fresh_io wal_fs undo_fs = \<lparr>wal_file = fresh_log wal_fs, undo_file = fresh_log undo_fs, next_txn_id = 1\<rparr>"

definition next_id :: "TxnIoShared \<Rightarrow> u64 \<times> TxnIoShared" where
  "next_id io = (next_txn_id io, io\<lparr>next_txn_id := next_txn_id io + 1\<rparr>)"

definition peek_next_id :: "TxnIoShared \<Rightarrow> u64" where
  "peek_next_id io = next_txn_id io"

definition ensure_next_id_at_least :: "u64 \<Rightarrow> TxnIoShared \<Rightarrow> TxnIoShared" where
  "ensure_next_id_at_least min_next io =
     (if min_next > next_txn_id io then io\<lparr>next_txn_id := min_next\<rparr> else io)"

definition close_wal_handle_locked :: "TxnIoShared \<Rightarrow> TxnIoShared" where
  "close_wal_handle_locked io = io\<lparr>wal_file := log_close_handle (wal_file io)\<rparr>"

definition wal_write_encoded_locked ::
  "io_env \<Rightarrow> string \<Rightarrow> byte list \<Rightarrow> bool \<Rightarrow> u64 \<Rightarrow> TxnIoShared \<Rightarrow> io_error option \<times> TxnIoShared" where
  "wal_write_encoded_locked env path encoded sync txn_id io =
     (let (e, lf) = log_write_encoded env path encoded sync txn_id (wal_file io) in (e, io\<lparr>wal_file := lf\<rparr>))"

definition wal_append :: "io_env \<Rightarrow> string \<Rightarrow> WalRecord \<Rightarrow> TxnIoShared \<Rightarrow> io_error option \<times> TxnIoShared" where
  "wal_append env path r io = wal_write_encoded_locked env path (wal_encode r) False (wal_txn_id r) io"

definition wal_log_insert ::
  "io_env \<Rightarrow> string \<Rightarrow> u64 \<Rightarrow> string \<Rightarrow> string \<Rightarrow> string \<Rightarrow> TxnIoShared \<Rightarrow> io_error option \<times> TxnIoShared" where
  "wal_log_insert env path txn_id table key data io =
     wal_append env path \<lparr>wal_op = Insert, wal_txn_id = txn_id, wal_table_name = table, wal_key = key, wal_data = data\<rparr> io"

definition wal_log_update ::
  "io_env \<Rightarrow> string \<Rightarrow> u64 \<Rightarrow> string \<Rightarrow> string \<Rightarrow> string \<Rightarrow> TxnIoShared \<Rightarrow> io_error option \<times> TxnIoShared" where
  "wal_log_update env path txn_id table key data io =
     wal_append env path \<lparr>wal_op = Update, wal_txn_id = txn_id, wal_table_name = table, wal_key = key, wal_data = data\<rparr> io"

definition wal_log_delete ::
  "io_env \<Rightarrow> string \<Rightarrow> u64 \<Rightarrow> string \<Rightarrow> string \<Rightarrow> TxnIoShared \<Rightarrow> io_error option \<times> TxnIoShared" where
  "wal_log_delete env path txn_id table key io =
     wal_append env path \<lparr>wal_op = Delete, wal_txn_id = txn_id, wal_table_name = table, wal_key = key, wal_data = ''''\<rparr> io"

definition wal_mark :: "WalOp \<Rightarrow> u64 \<Rightarrow> WalRecord" where
  "wal_mark op txn_id = \<lparr>wal_op = op, wal_txn_id = txn_id, wal_table_name = '''', wal_key = '''', wal_data = ''''\<rparr>"

definition wal_log_commit ::
  "io_env \<Rightarrow> string \<Rightarrow> u64 \<Rightarrow> TxnIoShared \<Rightarrow> io_error option \<times> TxnIoShared" where
  "wal_log_commit env path txn_id io =
     wal_write_encoded_locked env path (wal_encode (wal_mark Commit txn_id)) True txn_id io"

definition wal_log_commit_no_sync ::
  "io_env \<Rightarrow> string \<Rightarrow> u64 \<Rightarrow> TxnIoShared \<Rightarrow> io_error option \<times> TxnIoShared" where
  "wal_log_commit_no_sync env path txn_id io =
     wal_write_encoded_locked env path (wal_encode (wal_mark Commit txn_id)) False txn_id io"

definition wal_log_rollback ::
  "io_env \<Rightarrow> string \<Rightarrow> u64 \<Rightarrow> TxnIoShared \<Rightarrow> io_error option \<times> TxnIoShared" where
  "wal_log_rollback env path txn_id io = wal_append env path (wal_mark Rollback txn_id) io"

definition wal_log_checkpoint ::
  "io_env \<Rightarrow> string \<Rightarrow> TxnIoShared \<Rightarrow> io_error option \<times> TxnIoShared" where
  "wal_log_checkpoint env path io =
     wal_write_encoded_locked env path (wal_encode (wal_mark Checkpoint 0)) True 0 io"

definition wal_read_all :: "io_env \<Rightarrow> string \<Rightarrow> TxnIoShared \<Rightarrow> WalRecord list" where
  "wal_read_all env path io = log_read_all wal_read_records env path (wal_file io)"

definition wal_clear :: "io_env \<Rightarrow> string \<Rightarrow> TxnIoShared \<Rightarrow> TxnIoShared" where
  "wal_clear env path io = io\<lparr>wal_file := log_clear env path (wal_file io)\<rparr>"

definition wal_remove_txn :: "io_env \<Rightarrow> io_env \<Rightarrow> string \<Rightarrow> u64 \<Rightarrow> TxnIoShared \<Rightarrow> io_error option \<times> TxnIoShared" where
  "wal_remove_txn env1 env path txn_id io =
     (let (e, lf) = log_remove_txn wal_encode wal_read_records wal_txn_id env1 env path txn_id (wal_file io)
      in (e, io\<lparr>wal_file := lf\<rparr>))"

definition AUTO_CHECKPOINT_BYTES :: nat where "AUTO_CHECKPOINT_BYTES = 512 * 1024"

definition wal_file_size :: "string \<Rightarrow> TxnIoShared \<Rightarrow> nat" where
  "wal_file_size path io = (case lf_files (wal_file io) path of None \<Rightarrow> 0 | Some buf \<Rightarrow> length buf)"

definition wal_needs_auto_checkpoint :: "string \<Rightarrow> TxnIoShared \<Rightarrow> bool" where
  "wal_needs_auto_checkpoint path io \<longleftrightarrow> wal_file_size path io \<ge> AUTO_CHECKPOINT_BYTES"

text \<open>The records from the last checkpoint on (\<^const>\<open>None\<close>: there is none).\<close>

definition from_last_checkpoint :: "WalRecord list \<Rightarrow> WalRecord list option" where
  "from_last_checkpoint records =
     (case filter (\<lambda>i. wal_op (records ! i) = Checkpoint) (rev [0..<length records]) of
        [] \<Rightarrow> None
      | last_cp # _ \<Rightarrow> Some (drop last_cp records))"

definition wal_truncate_to_last_checkpoint :: "io_env \<Rightarrow> string \<Rightarrow> TxnIoShared \<Rightarrow> io_error option \<times> TxnIoShared" where
  "wal_truncate_to_last_checkpoint env path io =
     (let records = wal_read_all env path io
      in if records = [] then (None, io)
         else case from_last_checkpoint records of
           None \<Rightarrow> (None, io)
         | Some remaining \<Rightarrow>
             if length remaining \<le> 1 then (None, wal_clear env path io)
             else let (e, lf) = log_rewrite wal_encode wal_txn_id env path remaining (wal_file io)
                  in (e, io\<lparr>wal_file := lf\<rparr>))"

section \<open>Records\<close>

lemma wal_op_roundtrip [simp]: "wal_op_from_u8 (wal_op_byte op) = Some op"
  by (cases op) (simp_all add: wal_op_from_u8_def)

lemma length_wal_body:
  "length (wal_body r) = 21 + length (wal_table_name r) + length (wal_key r) + length (wal_data r)"
  by (simp add: wal_body_def)

lemma length_wal_encode: "length (wal_encode r) = length (wal_body r) + 4"
  by (simp add: wal_encode_def Let_def)

lemma wal_decode_encode:
  assumes "wal_fits r"
  shows "wal_decode (pre @ wal_encode r @ post) (length pre) = Some (r, length pre + length (wal_encode r))"
proof -
  let ?buf = "pre @ wal_encode r @ post" and ?n = "length pre"
  let ?t = "wal_table_name r" and ?k = "wal_key r" and ?d = "wal_data r"
  let ?op = "wal_op_byte (wal_op r)" and ?id = "push_u64_le (wal_txn_id r)"
  let ?sum = "push_u32_le (fnv1a32 (wal_body r)) @ post"
  have buf: "?buf = pre @ [?op] @ ?id @ put_string ?t @ put_string ?k @ put_string ?d @ ?sum"
    by (simp add: wal_encode_def wal_body_def Let_def)
  have op: "?buf ! ?n = ?op" "\<not> ?n \<ge> length ?buf" by (simp_all add: buf nth_append)
  have id: "read_u64_le ?buf (?n + 1) = Some (wal_txn_id r)"
    by (rule read_u64_le_at [where pre = "pre @ [?op]"]) (simp_all add: buf)
  have t: "read_string ?buf (?n + 9) = Some (?t, ?n + 9 + 4 + length ?t)"
    by (rule read_string_at [where pre = "pre @ [?op] @ ?id"])
      (use assms in \<open>simp_all add: buf wal_fits_def\<close>)
  have k: "read_string ?buf (?n + 9 + 4 + length ?t) = Some (?k, ?n + 9 + 4 + length ?t + 4 + length ?k)"
    by (rule read_string_at [where pre = "pre @ [?op] @ ?id @ put_string ?t"])
      (use assms in \<open>simp_all add: buf wal_fits_def\<close>)
  have d: "read_string ?buf (?n + 9 + 4 + length ?t + 4 + length ?k) =
      Some (?d, ?n + 9 + 4 + length ?t + 4 + length ?k + 4 + length ?d)"
    by (rule read_string_at [where pre = "pre @ [?op] @ ?id @ put_string ?t @ put_string ?k"])
      (use assms in \<open>simp_all add: buf wal_fits_def\<close>)
  have end_body: "?n + 9 + 4 + length ?t + 4 + length ?k + 4 + length ?d = ?n + length (wal_body r)"
    by (simp add: length_wal_body)
  have sum: "read_u32_le ?buf (?n + length (wal_body r)) = Some (fnv1a32 (wal_body r))"
    by (rule read_u32_le_at [where pre = "pre @ wal_body r"]) (simp_all add: wal_encode_def Let_def)
  have covered: "take (?n + length (wal_body r) - ?n) (drop ?n ?buf) = wal_body r"
    by (simp add: wal_encode_def Let_def)
  show ?thesis
    using op id t k d sum covered unfolding wal_decode_def end_body
    by (simp add: length_wal_encode)
qed

lemma wal_decode_append:
  assumes "wal_decode buf pos = Some (r, p)"
  shows "wal_decode (buf @ ext) pos = Some (r, p)"
proof -
  from assms obtain op id t p1 k p2 d p3 where
    o: "\<not> pos \<ge> length buf" "wal_op_from_u8 (buf ! pos) = Some op" and
    i: "read_u64_le buf (pos + 1) = Some id" and
    t: "read_string buf (pos + 9) = Some (t, p1)" and
    k: "read_string buf p1 = Some (k, p2)" and
    d: "read_string buf p2 = Some (d, p3)" and
    c: "read_u32_le buf p3 = Some (fnv1a32 (take (p3 - pos) (drop pos buf)))" and
    rp: "r = \<lparr>wal_op = op, wal_txn_id = id, wal_table_name = t, wal_key = k, wal_data = d\<rparr>" "p = p3 + 4"
    by (auto simp: wal_decode_def split: if_splits option.splits)
  have "pos + 9 + 4 \<le> p1" "p1 + 4 \<le> p2" "p2 + 4 \<le> p3" "p3 + 4 \<le> length buf"
    using t k d c by (auto dest: read_string_bound read_u32_le_bound)
  then have slice: "take (p3 - pos) (drop pos (buf @ ext)) = take (p3 - pos) (drop pos buf)"
    by simp
  have "(buf @ ext) ! pos = buf ! pos" using o(1) by (simp add: nth_append)
  then show ?thesis
    using o rp read_u64_le_append [OF i, of ext] read_string_append [OF t, of ext]
      read_string_append [OF k, of ext] read_string_append [OF d, of ext]
      read_u32_le_append [OF c, of ext] slice
    by (simp add: wal_decode_def del: drop_append take_append)
qed

lemma wal_decode_fits: "wal_decode buf pos = Some (r, p) \<Longrightarrow> wal_fits r"
  by (auto simp: wal_decode_def wal_fits_def dest!: read_string_length split: if_splits option.splits)

interpretation wal: txn_log wal_encode wal_decode wal_read_records wal_fits wal_txn_id
proof unfold_locales
  show "wal_read_records buf pos =
    (case wal_decode buf pos of None \<Rightarrow> [] | Some (r, p) \<Rightarrow> r # wal_read_records buf p)" for buf pos
    by (rule wal_read_records.simps)
qed (fact wal_decode_encode wal_decode_append wal_decode_advances wal_decode_fits)+

section \<open>The log of a session\<close>

abbreviation wal_records :: "string \<Rightarrow> TxnIoShared \<Rightarrow> WalRecord list" where
  "wal_records path io \<equiv> log_records wal_read_records path (wal_file io)"

abbreviation wal_intact :: "string \<Rightarrow> TxnIoShared \<Rightarrow> bool" where
  "wal_intact path io \<equiv> log_intact wal_encode wal_read_records path (wal_file io)"

abbreviation wal_inv :: "string \<Rightarrow> TxnIoShared \<Rightarrow> bool" where
  "wal_inv path io \<equiv> log_inv wal_encode wal_read_records wal_txn_id path (wal_file io)"

lemma wal_mark_fits [simp]: "wal_fits (wal_mark op t)" "wal_txn_id (wal_mark op t) = t"
  by (simp_all add: wal_mark_def wal_fits_def)

lemma wal_write_encoded_inv:
  "wal_inv path io \<Longrightarrow> wal_fits r \<Longrightarrow>
   wal_write_encoded_locked env path (wal_encode r) sync (wal_txn_id r) io = (e, io') \<Longrightarrow> wal_inv path io'"
  by (auto simp: wal_write_encoded_locked_def split: prod.splits intro: wal.write_encoded_inv)

lemma wal_remove_txn_spec:
  assumes "wal_inv path io" and "env_read_ok env" and "env_remove_ok env"
    and "wal_remove_txn env1 env path t io = (err, io')"
  shows "wal_inv path io' \<and> undo_file io' = undo_file io \<and> next_txn_id io' = next_txn_id io \<and>
    wal_records path io' = (if err = None then filter (\<lambda>r. wal_txn_id r \<noteq> t) (wal_records path io) else wal_records path io)"
  using wal.remove_txn_spec [OF assms(1-3)] assms(4) by (auto simp: wal_remove_txn_def split: prod.splits)

lemma wal_clear_spec:
  "env_remove_ok env \<Longrightarrow> wal_records path (wal_clear env path io) = [] \<and> wal_inv path (wal_clear env path io)"
  using wal.clear_spec by (simp add: wal_clear_def)

section \<open>Truncation at a checkpoint\<close>

text \<open>The records logged since the last checkpoint, by their meaning.\<close>

definition since_last_checkpoint :: "WalRecord list \<Rightarrow> WalRecord list" where
  "since_last_checkpoint rs = rev (takeWhile (\<lambda>r. wal_op r \<noteq> Checkpoint) (rev rs))"

lemma from_last_checkpoint_snoc:
  "from_last_checkpoint (rs @ [r]) =
     (if wal_op r = Checkpoint then Some [r]
      else map_option (\<lambda>suf. suf @ [r]) (from_last_checkpoint rs))"
proof -
  let ?F = "filter (\<lambda>i. wal_op (rs ! i) = Checkpoint) (rev [0..<length rs])"
  have eq: "filter (\<lambda>i. wal_op ((rs @ [r]) ! i) = Checkpoint) (rev [0..<length rs]) = ?F"
    by (rule filter_cong) (auto simp: nth_append)
  show ?thesis
  proof (cases ?F)
    case Nil
    then show ?thesis by (simp add: from_last_checkpoint_def eq)
  next
    case (Cons i js)
    then have "i \<in> set ?F" by simp
    then have "i < length rs" by simp
    then show ?thesis using Cons by (simp add: from_last_checkpoint_def eq)
  qed
qed

lemma from_last_checkpoint_cases:
  "(case from_last_checkpoint rs of
      None \<Rightarrow> (\<forall>r \<in> set rs. wal_op r \<noteq> Checkpoint)
    | Some suf \<Rightarrow> \<exists>pre cp. rs = pre @ suf \<and> suf = cp # since_last_checkpoint rs \<and> wal_op cp = Checkpoint)"
proof (induction rs rule: rev_induct)
  case Nil
  then show ?case by (simp add: from_last_checkpoint_def)
next
  case (snoc r rs)
  then show ?case
    by (auto simp: from_last_checkpoint_snoc since_last_checkpoint_def split: option.splits)
qed

lemma from_last_checkpoint_suffix: "from_last_checkpoint rs = Some suf \<Longrightarrow> \<exists>pre. rs = pre @ suf"
  using from_last_checkpoint_cases [of rs] by auto

lemma wal_truncate_to_last_checkpoint_spec:
  assumes inv: "wal_inv path io" and ok: "env_read_ok env" "env_remove_ok env"
    and step: "wal_truncate_to_last_checkpoint env path io = (err, io')"
  shows "wal_inv path io' \<and> wal_records path io' =
    (case from_last_checkpoint (wal_records path io) of
       None \<Rightarrow> wal_records path io
     | Some suf \<Rightarrow> if err \<noteq> None then wal_records path io else if length suf \<le> 1 then [] else suf)"
proof (cases "from_last_checkpoint (wal_records path io)")
  case None
  then show ?thesis
    using step ok inv by (auto simp: wal_truncate_to_last_checkpoint_def wal_read_all_def Let_def split: if_splits)
next
  case (Some suf)
  then have rs: "wal_records path io \<noteq> []" by (auto simp: from_last_checkpoint_def)
  show ?thesis
  proof (cases "length suf \<le> 1")
    case True
    then show ?thesis using step rs ok Some wal_clear_spec [OF ok(2)]
      by (auto simp: wal_truncate_to_last_checkpoint_def wal_read_all_def Let_def)
  next
    case False
    obtain e lf where rw: "log_rewrite wal_encode wal_txn_id env path suf (wal_file io) = (e, lf)" by fastforce
    have io': "err = e" "wal_file io' = lf"
      using step rs ok Some False rw by (auto simp: wal_truncate_to_last_checkpoint_def wal_read_all_def Let_def)
    have "\<forall>r \<in> set suf. wal_fits r"
      using from_last_checkpoint_suffix [OF Some] wal.records_fit [of _ path "wal_file io"] by (metis Un_iff set_append)
    from wal.rewrite_spec [OF rw this] show ?thesis using inv Some False io' by auto
  qed
qed

section \<open>The log over any history of calls\<close>

text \<open>
  The states a session can bring the log to: it starts with a file about which nothing is known (a
  previous run may have left it), and every call of \<^verbatim>\<open>WalManager\<close> is a step, with whatever the
  operating system answers; only a removal of the file is taken to succeed.
\<close>

inductive wal_reach :: "string \<Rightarrow> TxnIoShared \<Rightarrow> bool" for path :: string where
  start: "wal_reach path (fresh_io fs fs')"
| append: "wal_reach path io \<Longrightarrow> wal_fits r \<Longrightarrow> wal_append env path r io = (e, io') \<Longrightarrow> wal_reach path io'"
| commit: "wal_reach path io \<Longrightarrow> wal_log_commit env path t io = (e, io') \<Longrightarrow> wal_reach path io'"
| commit_no_sync: "wal_reach path io \<Longrightarrow> wal_log_commit_no_sync env path t io = (e, io') \<Longrightarrow> wal_reach path io'"
| checkpoint: "wal_reach path io \<Longrightarrow> wal_log_checkpoint env path io = (e, io') \<Longrightarrow> wal_reach path io'"
| remove: "wal_reach path io \<Longrightarrow> env_read_ok env \<Longrightarrow> env_remove_ok env \<Longrightarrow>
    wal_remove_txn env1 env path t io = (e, io') \<Longrightarrow> wal_reach path io'"
| clear: "wal_reach path io \<Longrightarrow> env_remove_ok env \<Longrightarrow> wal_reach path (wal_clear env path io)"
| truncate: "wal_reach path io \<Longrightarrow> env_read_ok env \<Longrightarrow> env_remove_ok env \<Longrightarrow>
    wal_truncate_to_last_checkpoint env path io = (e, io') \<Longrightarrow> wal_reach path io'"

lemma wal_reach_inv: "wal_reach path io \<Longrightarrow> wal_inv path io"
proof (induction rule: wal_reach.induct)
  case (start fs fs')
  then show ?case by (simp add: fresh_io_def)
next
  case (append io r env e io')
  then show ?case by (auto simp: wal_append_def intro: wal_write_encoded_inv)
next
  case (commit io env t e io')
  then show ?case
    using wal_write_encoded_inv [of path io "wal_mark Commit t" env True e io'] by (simp add: wal_log_commit_def)
next
  case (commit_no_sync io env t e io')
  then show ?case
    using wal_write_encoded_inv [of path io "wal_mark Commit t" env False e io'] by (simp add: wal_log_commit_no_sync_def)
next
  case (checkpoint io env e io')
  then show ?case
    using wal_write_encoded_inv [of path io "wal_mark Checkpoint 0" env True e io'] by (simp add: wal_log_checkpoint_def)
next
  case (remove io env env1 t e io')
  then show ?case using wal_remove_txn_spec by blast
next
  case (clear io env)
  then show ?case using wal_clear_spec by (simp add: wal_clear_def)
next
  case (truncate io env e io')
  then show ?case using wal_truncate_to_last_checkpoint_spec by blast
qed

text \<open>
  A log that was cut at any byte (a crash in the middle of a write) is read as exactly the
  records that lie whole before the cut: the records read are the first \<open>k\<close> written, they end
  at or before the cut, and the next record does not.
\<close>

theorem wal_cut_reads_whole_records:
  assumes "\<forall>r \<in> set rs. wal_fits r"
  shows "\<exists>k \<le> length rs.
    wal_read_records (take n (concat (map wal_encode rs))) 0 = take k rs \<and>
    length (concat (map wal_encode (take k rs))) \<le> n \<and>
    (k < length rs \<longrightarrow> n < length (concat (map wal_encode (take (Suc k) rs))))"
  using wal.rd_cut [OF assms] .

theorem wal_cut_reads_whole_records_witness:
  "\<exists>k \<le> length [wal_mark Insert 1, wal_mark Commit 1].
    wal_read_records (take 30 (concat (map wal_encode [wal_mark Insert 1, wal_mark Commit 1]))) 0 =
      take k [wal_mark Insert 1, wal_mark Commit 1] \<and>
    length (concat (map wal_encode (take k [wal_mark Insert 1, wal_mark Commit 1]))) \<le> 30 \<and>
    (k < length [wal_mark Insert 1, wal_mark Commit 1] \<longrightarrow>
       30 < length (concat (map wal_encode (take (Suc k) [wal_mark Insert 1, wal_mark Commit 1]))))"
  by (rule wal_cut_reads_whole_records) simp

text \<open>
  C11: Appending a record to an intact log adds exactly this record at its end when the call returns normally, and the
  log stays intact. When the call throws, what is read back is the old log, or the old log with the whole record:
  never a part of the record and never less than what was there.
\<close>

theorem wal_append_all_or_nothing:
  assumes "wal_intact path io" and "wal_fits r"
  shows "(case wal_append env path r io of
      (None, io') \<Rightarrow> wal_intact path io' \<and> wal_records path io' = wal_records path io @ [r]
    | (Some _, io') \<Rightarrow> wal_records path io' \<in> {wal_records path io, wal_records path io @ [r]})"
proof -
  obtain e lf where step: "log_write_encoded env path (wal_encode r) False (wal_txn_id r) (wal_file io) = (e, lf)" by fastforce
  from wal.append_all_or_nothing [OF assms step] show ?thesis
    by (cases e) (auto simp: wal_append_def wal_write_encoded_locked_def step)
qed

theorem wal_append_all_or_nothing_witness:
  "(case wal_append env_ok ''w'' (wal_mark Commit 7) (fresh_io Map.empty Map.empty) of
      (None, io') \<Rightarrow> wal_intact ''w'' io' \<and> wal_records ''w'' io' = wal_records ''w'' (fresh_io Map.empty Map.empty) @ [wal_mark Commit 7]
    | (Some _, io') \<Rightarrow> wal_records ''w'' io' \<in> {wal_records ''w'' (fresh_io Map.empty Map.empty),
        wal_records ''w'' (fresh_io Map.empty Map.empty) @ [wal_mark Commit 7]})"
  by (rule wal_append_all_or_nothing)
    (simp_all add: log_intact_def log_records_def file_bytes_def fresh_io_def fresh_log_def)

text \<open>
  C5: In every state the calls of the log manager can lead to, removing a transaction leaves the records of all
  other transactions, in order, and none of its own, also when the short cuts are taken that empty the file without
  reading it; when the call throws, the log reads as before.
\<close>

theorem wal_remove_txn_exact:
  assumes "wal_reach path io" and "env_read_ok env" and "env_remove_ok env"
  shows "(case wal_remove_txn env1 env path t io of (err, io') \<Rightarrow>
    wal_records path io' = (if err = None then filter (\<lambda>r. wal_txn_id r \<noteq> t) (wal_records path io)
                            else wal_records path io))"
  using wal_remove_txn_spec [OF wal_reach_inv [OF assms(1)] assms(2,3)] by (auto split: prod.splits)

text \<open>A log with records of two transactions.\<close>

definition two_txn_io :: TxnIoShared where
  "two_txn_io = fresh_io [''w'' \<mapsto> wal_encode (wal_mark Insert 1) @ wal_encode (wal_mark Commit 2)] Map.empty"

lemma two_txn_io_records: "wal_records ''w'' two_txn_io = [wal_mark Insert 1, wal_mark Commit 2]"
  using wal.rd_written [of "[wal_mark Insert 1, wal_mark Commit 2]"]
  by (simp add: log_records_def file_bytes_def two_txn_io_def fresh_io_def fresh_log_def)

theorem wal_remove_txn_exact_witness:
  "(case wal_remove_txn env_ok env_ok ''w'' 1 two_txn_io of (err, io') \<Rightarrow>
     wal_records ''w'' io' = (if err = None then [wal_mark Commit 2] else wal_records ''w'' two_txn_io))"
proof -
  have "wal_reach ''w'' two_txn_io" by (simp add: two_txn_io_def wal_reach.start)
  then show ?thesis
    using wal_remove_txn_exact [of "''w''" two_txn_io env_ok 1 env_ok]
    by (simp add: two_txn_io_records split: prod.splits)
qed

text \<open>
  Truncation at the last checkpoint keeps every record logged since then, whatever happens: the
  records after the last checkpoint are the same before and after the call, and after a call that returns
  normally nothing older than that checkpoint is left.
\<close>

theorem wal_truncate_keeps_recent:
  assumes "wal_reach path io" and "env_read_ok env" and "env_remove_ok env"
  shows "(case wal_truncate_to_last_checkpoint env path io of (err, io') \<Rightarrow>
    since_last_checkpoint (wal_records path io') = since_last_checkpoint (wal_records path io) \<and>
    (err = None \<longrightarrow> length (wal_records path io') \<le> Suc (length (since_last_checkpoint (wal_records path io)))))"
proof -
  let ?rs = "wal_records path io"
  obtain err io' where step: "wal_truncate_to_last_checkpoint env path io = (err, io')" by fastforce
  note spec = wal_truncate_to_last_checkpoint_spec [OF wal_reach_inv [OF assms(1)] assms(2,3) step]
  show ?thesis
  proof (cases "from_last_checkpoint ?rs")
    case None
    then have "since_last_checkpoint ?rs = ?rs"
      using from_last_checkpoint_cases [of ?rs]
      unfolding since_last_checkpoint_def by (subst takeWhile_eq_all_conv [THEN iffD2]) auto
    then show ?thesis using step spec None by simp
  next
    case (Some suf)
    obtain cp where suf: "suf = cp # since_last_checkpoint ?rs" "wal_op cp = Checkpoint"
      using from_last_checkpoint_cases [of ?rs] Some by auto
    have "since_last_checkpoint suf = since_last_checkpoint ?rs"
      using suf by (auto simp: since_last_checkpoint_def takeWhile_append dest: set_takeWhileD)
    then show ?thesis using step spec Some suf by (auto simp: since_last_checkpoint_def)
  qed
qed

definition checkpointed_io :: TxnIoShared where
  "checkpointed_io = fresh_io [''w'' \<mapsto> wal_encode (wal_mark Insert 1) @ wal_encode (wal_mark Checkpoint 0)] Map.empty"

theorem wal_truncate_keeps_recent_witness:
  "(case wal_truncate_to_last_checkpoint env_ok ''w'' checkpointed_io of (err, io') \<Rightarrow>
     since_last_checkpoint (wal_records ''w'' io') = since_last_checkpoint (wal_records ''w'' checkpointed_io) \<and>
     (err = None \<longrightarrow> length (wal_records ''w'' io') \<le> Suc (length (since_last_checkpoint (wal_records ''w'' checkpointed_io)))))"
  by (rule wal_truncate_keeps_recent) (simp_all add: checkpointed_io_def wal_reach.start)

text \<open>
  A read error is taken for an empty log: if the log file cannot be read while the contents are not known, removing
  one transaction empties the file, with the records of every other transaction in it, and reports success.
\<close>

theorem wal_remove_txn_read_error_wipes:
  assumes "\<not> env_read_ok env" and "env_opens env" and "env_truncate_ok env"
    and "lf_files (wal_file io) path = Some buf" and "\<not> lc_known (lf_contents (wal_file io))"
  shows "fst (wal_remove_txn env1 env path t io) = None \<and>
    wal_records path (snd (wal_remove_txn env1 env path t io)) = []"
  using assms
  by (simp add: wal_remove_txn_def log_remove_txn_def log_remove_txn_slow_def log_read_all_def log_truncate_in_place_def
      Let_def log_append_handle_def log_close_handle_def open_append_def log_records_def file_bytes_def)

theorem wal_remove_txn_read_error_wipes_witness:
  "wal_records ''w'' two_txn_io = [wal_mark Insert 1, wal_mark Commit 2] \<and>
   fst (wal_remove_txn env_ok (env_ok\<lparr>env_read_ok := False\<rparr>) ''w'' 1 two_txn_io) = None \<and>
   wal_records ''w'' (snd (wal_remove_txn env_ok (env_ok\<lparr>env_read_ok := False\<rparr>) ''w'' 1 two_txn_io)) = []"
  using wal_remove_txn_read_error_wipes [of "env_ok\<lparr>env_read_ok := False\<rparr>" two_txn_io "''w''" _ env_ok 1]
  by (simp add: two_txn_io_records) (simp add: two_txn_io_def fresh_io_def fresh_log_def)

end
