(* ===== verification/UndoLog.thy ===== *)
theory UndoLog
  imports Wal
begin

text \<open>
  The undo log file (\<^verbatim>\<open>class UndoLogFile\<close> of \<^verbatim>\<open>core/src/transaction/txn_manager.cpp\<close>): the record format and
  the operations, which are those of \<open>LogFile\<close> for this record type, and \<^verbatim>\<open>rewrite_txn\<close>, which replaces the
  entries of one transaction after a rollback to a savepoint.

  The new key of an update is kept in memory only: \<open>undo_image\<close> is the part of an entry that is written.
\<close>

section \<open>Definitions\<close>

record UndoEntry =
  undo_txn_id :: u64
  undo_operation :: string
  undo_table :: string
  undo_key :: string
  undo_old_data :: "string option"
  undo_new_key :: "string option"

definition undo_body :: "UndoEntry \<Rightarrow> byte list" where
  "undo_body e =
     [if undo_operation e = ''INSERT'' then 0x01
      else if undo_operation e = ''UPDATE'' then 0x02
      else if undo_operation e = ''DELETE'' then 0x03 else 0x00] @
     push_u64_le (undo_txn_id e) @ put_string (undo_table e) @ put_string (undo_key e) @
     (case undo_old_data e of Some d \<Rightarrow> [1] @ put_string d | None \<Rightarrow> [0])"

definition undo_encode :: "UndoEntry \<Rightarrow> byte list" where
  "undo_encode e = (let buf = undo_body e in buf @ push_u32_le (fnv1a32 buf))"

definition undo_operation_of :: "byte \<Rightarrow> string option" where
  "undo_operation_of op_byte =
     (if op_byte = 0x01 then Some ''INSERT''
      else if op_byte = 0x02 then Some ''UPDATE''
      else if op_byte = 0x03 then Some ''DELETE''
      else None)"

text \<open>The flag byte and the old data behind it; the position after them.\<close>

definition undo_read_old :: "byte list \<Rightarrow> nat \<Rightarrow> (string option \<times> nat) option" where
  "undo_read_old buf pos =
     (if pos \<ge> length buf then None
      else if buf ! pos = 1 then map_option (\<lambda>(d, p). (Some d, p)) (read_string buf (pos + 1))
      else Some (None, pos + 1))"

definition undo_decode :: "byte list \<Rightarrow> nat \<Rightarrow> (UndoEntry \<times> nat) option" where
  "undo_decode buf start =
     (if start \<ge> length buf then None else
      case undo_operation_of (buf ! start) of None \<Rightarrow> None | Some operation \<Rightarrow>
      case read_u64_le buf (start + 1) of None \<Rightarrow> None | Some txn_id \<Rightarrow>
      case read_string buf (start + 9) of None \<Rightarrow> None | Some (table, pos) \<Rightarrow>
      case read_string buf pos of None \<Rightarrow> None | Some (key, pos) \<Rightarrow>
      case undo_read_old buf pos of None \<Rightarrow> None | Some (old_data, pos) \<Rightarrow>
      case read_u32_le buf pos of None \<Rightarrow> None | Some stored_checksum \<Rightarrow>
      if fnv1a32 (take (pos - start) (drop start buf)) \<noteq> stored_checksum then None
      else Some (\<lparr>undo_txn_id = txn_id, undo_operation = operation, undo_table = table, undo_key = key,
                  undo_old_data = old_data, undo_new_key = None\<rparr>, pos + 4))"

lemma undo_read_old_bound: "undo_read_old buf pos = Some (d, p) \<Longrightarrow> pos < p \<and> p \<le> length buf"
  by (auto simp: undo_read_old_def dest!: read_string_bound split: if_splits)

lemma undo_decode_advances: "undo_decode buf pos = Some (e, p) \<Longrightarrow> pos < p \<and> p \<le> length buf"
  by (auto simp: undo_decode_def dest!: read_string_bound read_u32_le_bound undo_read_old_bound
      split: if_splits option.splits)

function undo_read_entries :: "byte list \<Rightarrow> nat \<Rightarrow> UndoEntry list" where
  "undo_read_entries buf pos =
     (case undo_decode buf pos of None \<Rightarrow> [] | Some (e, p) \<Rightarrow> e # undo_read_entries buf p)"
  by pat_completeness auto
termination
  by (relation "measure (\<lambda>(buf, pos). length buf - pos)") (auto dest: undo_decode_advances)

declare undo_read_entries.simps [simp del]

definition close_undo_handle_locked :: "TxnIoShared \<Rightarrow> TxnIoShared" where
  "close_undo_handle_locked io = io\<lparr>undo_file := log_close_handle (undo_file io)\<rparr>"

definition undo_append :: "io_env \<Rightarrow> string \<Rightarrow> UndoEntry \<Rightarrow> TxnIoShared \<Rightarrow> io_error option \<times> TxnIoShared" where
  "undo_append env path entry io =
     (let (e, lf) = log_write_encoded env path (undo_encode entry) False (undo_txn_id entry) (undo_file io)
      in (e, io\<lparr>undo_file := lf\<rparr>))"

definition undo_read_all :: "io_env \<Rightarrow> string \<Rightarrow> TxnIoShared \<Rightarrow> UndoEntry list" where
  "undo_read_all env path io = log_read_all undo_read_entries env path (undo_file io)"

definition undo_clear :: "io_env \<Rightarrow> string \<Rightarrow> TxnIoShared \<Rightarrow> TxnIoShared" where
  "undo_clear env path io = io\<lparr>undo_file := log_clear env path (undo_file io)\<rparr>"

definition undo_remove_txn :: "io_env \<Rightarrow> io_env \<Rightarrow> string \<Rightarrow> u64 \<Rightarrow> TxnIoShared \<Rightarrow> io_error option \<times> TxnIoShared" where
  "undo_remove_txn env1 env path txn_id io =
     (let (e, lf) = log_remove_txn undo_encode undo_read_entries undo_txn_id env1 env path txn_id (undo_file io)
      in (e, io\<lparr>undo_file := lf\<rparr>))"

definition undo_rewrite_txn ::
  "io_env \<Rightarrow> string \<Rightarrow> u64 \<Rightarrow> UndoEntry list \<Rightarrow> TxnIoShared \<Rightarrow> io_error option \<times> TxnIoShared" where
  "undo_rewrite_txn env path txn_id entries io =
     (let all = filter (\<lambda>e. undo_txn_id e \<noteq> txn_id) (undo_read_all env path io) @ entries
      in if all = [] then (None, undo_clear env path io)
         else let (e, lf) = log_rewrite undo_encode undo_txn_id env path all (undo_file io)
              in (e, io\<lparr>undo_file := lf\<rparr>))"

section \<open>Records\<close>

definition undo_fits :: "UndoEntry \<Rightarrow> bool" where
  "undo_fits e \<longleftrightarrow> undo_operation e \<in> {''INSERT'', ''UPDATE'', ''DELETE''} \<and>
     length (undo_table e) < 2 ^ 32 \<and> length (undo_key e) < 2 ^ 32 \<and>
     (case undo_old_data e of None \<Rightarrow> True | Some d \<Rightarrow> length d < 2 ^ 32) \<and> undo_new_key e = None"

definition undo_image :: "UndoEntry \<Rightarrow> UndoEntry" where
  "undo_image e = e\<lparr>undo_new_key := None\<rparr>"

lemma undo_image_simps [simp]:
  "undo_encode (undo_image e) = undo_encode e" "undo_txn_id (undo_image e) = undo_txn_id e"
  by (simp_all add: undo_encode_def undo_body_def undo_image_def)

lemma undo_read_old_at:
  assumes "bs = pre @ (case d of Some x \<Rightarrow> [1] @ put_string x | None \<Rightarrow> [0]) @ post" and "at = length pre"
    and "case d of None \<Rightarrow> True | Some x \<Rightarrow> length x < 2 ^ 32"
  shows "undo_read_old bs at = Some (d, at + length (case d of Some x \<Rightarrow> [1] @ put_string x | None \<Rightarrow> [0 :: byte]))"
proof (cases d)
  case None
  then show ?thesis using assms by (simp add: undo_read_old_def nth_append)
next
  case (Some x)
  then have "read_string bs (at + 1) = Some (x, at + 1 + 4 + length x)"
    using assms by (intro read_string_at [where pre = "pre @ [1]"]) simp_all
  then show ?thesis using assms Some by (simp add: undo_read_old_def nth_append)
qed

lemma undo_decode_encode:
  assumes "undo_fits r"
  shows "undo_decode (pre @ undo_encode r @ post) (length pre) = Some (r, length pre + length (undo_encode r))"
proof -
  let ?buf = "pre @ undo_encode r @ post" and ?n = "length pre"
  let ?t = "undo_table r" and ?k = "undo_key r" and ?d = "undo_old_data r"
  let ?old = "case ?d of Some d \<Rightarrow> [1] @ put_string d | None \<Rightarrow> [0 :: byte]"
  let ?id = "push_u64_le (undo_txn_id r)"
  let ?sum = "push_u32_le (fnv1a32 (undo_body r)) @ post"
  obtain op where body: "undo_body r = [op] @ ?id @ put_string ?t @ put_string ?k @ ?old"
    and op: "undo_operation_of op = Some (undo_operation r)"
    using assms by (auto simp: undo_body_def undo_fits_def undo_operation_of_def)
  have buf: "?buf = pre @ [op] @ ?id @ put_string ?t @ put_string ?k @ ?old @ ?sum"
    by (simp add: undo_encode_def body Let_def)
  have at: "?buf ! ?n = op" "\<not> ?n \<ge> length ?buf" by (simp_all add: buf nth_append)
  have id: "read_u64_le ?buf (?n + 1) = Some (undo_txn_id r)"
    by (rule read_u64_le_at [where pre = "pre @ [op]"]) (simp_all add: buf)
  have t: "read_string ?buf (?n + 9) = Some (?t, ?n + 9 + 4 + length ?t)"
    by (rule read_string_at [where pre = "pre @ [op] @ ?id"])
      (use assms in \<open>simp_all add: buf undo_fits_def\<close>)
  have k: "read_string ?buf (?n + 9 + 4 + length ?t) = Some (?k, ?n + 9 + 4 + length ?t + 4 + length ?k)"
    by (rule read_string_at [where pre = "pre @ [op] @ ?id @ put_string ?t"])
      (use assms in \<open>simp_all add: buf undo_fits_def\<close>)
  have d: "undo_read_old ?buf (?n + 9 + 4 + length ?t + 4 + length ?k) =
      Some (?d, ?n + 9 + 4 + length ?t + 4 + length ?k + length ?old)"
    by (rule undo_read_old_at [where pre = "pre @ [op] @ ?id @ put_string ?t @ put_string ?k"])
      (use assms in \<open>simp_all add: buf undo_fits_def\<close>)
  have end_body: "?n + 9 + 4 + length ?t + 4 + length ?k + length ?old = ?n + length (undo_body r)"
    by (simp add: body)
  have sum: "read_u32_le ?buf (?n + length (undo_body r)) = Some (fnv1a32 (undo_body r))"
    by (rule read_u32_le_at [where pre = "pre @ undo_body r"]) (simp_all add: undo_encode_def Let_def)
  have covered: "take (?n + length (undo_body r) - ?n) (drop ?n ?buf) = undo_body r"
    by (simp add: undo_encode_def Let_def)
  have "undo_new_key r = None" using assms by (simp add: undo_fits_def)
  then show ?thesis
    using at op id t k d sum covered unfolding undo_decode_def end_body
    by (simp add: undo_encode_def Let_def)
qed

lemma undo_read_old_append:
  "undo_read_old buf pos = Some (d, p) \<Longrightarrow> undo_read_old (buf @ ext) pos = Some (d, p)"
  by (auto simp: undo_read_old_def nth_append read_string_append split: if_splits)

lemma undo_decode_append:
  assumes "undo_decode buf pos = Some (r, p)"
  shows "undo_decode (buf @ ext) pos = Some (r, p)"
proof -
  from assms obtain op id t p1 k p2 d p3 where
    o: "\<not> pos \<ge> length buf" "undo_operation_of (buf ! pos) = Some op" and
    i: "read_u64_le buf (pos + 1) = Some id" and
    t: "read_string buf (pos + 9) = Some (t, p1)" and
    k: "read_string buf p1 = Some (k, p2)" and
    d: "undo_read_old buf p2 = Some (d, p3)" and
    c: "read_u32_le buf p3 = Some (fnv1a32 (take (p3 - pos) (drop pos buf)))" and
    rp: "r = \<lparr>undo_txn_id = id, undo_operation = op, undo_table = t, undo_key = k, undo_old_data = d, undo_new_key = None\<rparr>"
      "p = p3 + 4"
    by (auto simp: undo_decode_def split: if_splits option.splits)
  have "pos + 9 + 4 \<le> p1" "p1 + 4 \<le> p2" "p2 < p3" "p3 + 4 \<le> length buf"
    using t k d c by (auto dest: read_string_bound read_u32_le_bound undo_read_old_bound)
  then have slice: "take (p3 - pos) (drop pos (buf @ ext)) = take (p3 - pos) (drop pos buf)"
    by simp
  have "(buf @ ext) ! pos = buf ! pos" using o(1) by (simp add: nth_append)
  then show ?thesis
    using o rp read_u64_le_append [OF i, of ext] read_string_append [OF t, of ext]
      read_string_append [OF k, of ext] undo_read_old_append [OF d, of ext]
      read_u32_le_append [OF c, of ext] slice
    by (simp add: undo_decode_def del: drop_append take_append)
qed

lemma undo_decode_fits: "undo_decode buf pos = Some (r, p) \<Longrightarrow> undo_fits r"
  by (auto simp: undo_decode_def undo_fits_def undo_operation_of_def undo_read_old_def
      dest!: read_string_length split: if_splits option.splits)

interpretation undo: txn_log undo_encode undo_decode undo_read_entries undo_fits undo_txn_id
proof unfold_locales
  show "undo_read_entries buf pos =
    (case undo_decode buf pos of None \<Rightarrow> [] | Some (r, p) \<Rightarrow> r # undo_read_entries buf p)" for buf pos
    by (rule undo_read_entries.simps)
qed (fact undo_decode_encode undo_decode_append undo_decode_advances undo_decode_fits)+

section \<open>The file\<close>

abbreviation undo_records :: "string \<Rightarrow> TxnIoShared \<Rightarrow> UndoEntry list" where
  "undo_records path io \<equiv> log_records undo_read_entries path (undo_file io)"

abbreviation undo_intact :: "string \<Rightarrow> TxnIoShared \<Rightarrow> bool" where
  "undo_intact path io \<equiv> log_intact undo_encode undo_read_entries path (undo_file io)"

abbreviation undo_inv :: "string \<Rightarrow> TxnIoShared \<Rightarrow> bool" where
  "undo_inv path io \<equiv> log_inv undo_encode undo_read_entries undo_txn_id path (undo_file io)"

lemma undo_append_spec:
  assumes "undo_inv path io" and "undo_intact path io" and "undo_fits (undo_image entry)"
    and "undo_append env path entry io = (e, io')"
  shows "undo_inv path io' \<and> wal_file io' = wal_file io \<and> next_txn_id io' = next_txn_id io \<and>
    (e = None \<longrightarrow> undo_intact path io' \<and> undo_records path io' = undo_records path io @ [undo_image entry])"
proof -
  obtain lf where step: "log_write_encoded env path (undo_encode (undo_image entry)) False (undo_txn_id (undo_image entry)) (undo_file io) = (e, lf)"
    and io': "io' = io\<lparr>undo_file := lf\<rparr>"
    using assms(4) by (auto simp: undo_append_def split: prod.splits)
  show ?thesis
    using undo.write_encoded_inv [OF assms(1,3) step] undo.append_all_or_nothing [OF assms(2,3) step] io' by simp
qed

lemma undo_remove_txn_spec:
  assumes "undo_inv path io" and "env_read_ok env" and "env_remove_ok env"
    and "undo_remove_txn env1 env path t io = (err, io')"
  shows "undo_inv path io' \<and> wal_file io' = wal_file io \<and> next_txn_id io' = next_txn_id io \<and>
    undo_records path io' = (if err = None then filter (\<lambda>r. undo_txn_id r \<noteq> t) (undo_records path io) else undo_records path io)"
  using undo.remove_txn_spec [OF assms(1-3)] assms(4) by (auto simp: undo_remove_txn_def split: prod.splits)

end
