(* ===== verification/RedoLog.thy ===== *)
theory RedoLog
  imports RecordLog FileIo
begin

text \<open>
  The redo log of committed changes (\<^verbatim>\<open>core/src/transaction/redo_log.cpp\<close>, \<^verbatim>\<open>redo_log.hpp\<close>): one
  checksummed batch per commit, appended and then made durable by an \<^verbatim>\<open>fsync\<close> that several committers may share.

  \<open>rl_file\<close> is the log file and \<open>rl_durable\<close> counts its bytes that an \<^verbatim>\<open>fsync\<close> has covered: it is not a
  field of the C++ class but the part of the disk's state that a crash preserves (\<open>redo_crash\<close>).
  \<^verbatim>\<open>RedoOp::kind\<close> is a byte, because the reader casts any byte to the enum.
\<close>

section \<open>Definitions\<close>

definition InsertVersion :: byte where "InsertVersion = 1"
definition SetXmax :: byte where "SetXmax = 2"
definition TableFlushed :: byte where "TableFlushed = 3"

record RedoOp =
  redo_kind :: byte
  redo_table :: string
  redo_row_json :: string
  redo_xmax :: string

definition redo_put_op :: "RedoOp \<Rightarrow> byte list" where
  "redo_put_op op = [redo_kind op] @ put_string (redo_table op) @ put_string (redo_row_json op) @ put_string (redo_xmax op)"

definition redo_payload :: "RedoOp list \<Rightarrow> byte list" where
  "redo_payload ops = push_u32_le (word_of_nat (length ops)) @ concat (map redo_put_op ops)"

definition redo_encode :: "RedoOp list \<Rightarrow> byte list" where
  "redo_encode ops =
     (let payload = redo_payload ops
      in push_u32_le (word_of_nat (length payload)) @ payload @ push_u32_le (fnv1a32 payload))"

text \<open>The loop over the operations of one batch: \<open>lim\<close> is \<^verbatim>\<open>start + len\<close>; the strings are bounded by the buffer only.\<close>

fun redo_get_ops :: "byte list \<Rightarrow> nat \<Rightarrow> nat \<Rightarrow> nat \<Rightarrow> RedoOp list option" where
  "redo_get_ops buf lim p 0 = Some []"
| "redo_get_ops buf lim p (Suc n) =
     (if p \<ge> lim then None else
      case read_string buf (p + 1) of None \<Rightarrow> None | Some (table, p1) \<Rightarrow>
      case read_string buf p1 of None \<Rightarrow> None | Some (row_json, p2) \<Rightarrow>
      case read_string buf p2 of None \<Rightarrow> None | Some (xmax, p3) \<Rightarrow>
      case redo_get_ops buf lim p3 n of None \<Rightarrow> None | Some ops \<Rightarrow>
        Some (\<lparr>redo_kind = buf ! p, redo_table = table, redo_row_json = row_json, redo_xmax = xmax\<rparr> # ops))"

definition redo_decode :: "byte list \<Rightarrow> nat \<Rightarrow> (RedoOp list \<times> nat) option" where
  "redo_decode buf pos =
     (if pos \<ge> length buf then None else
      case read_u32_le buf pos of None \<Rightarrow> None | Some n \<Rightarrow>
      let start = pos + 4; len = unat n
      in if start + len + 4 > length buf then None else
         case read_u32_le buf (start + len) of None \<Rightarrow> None | Some stored \<Rightarrow>
         if fnv1a32 (take len (drop start buf)) \<noteq> stored then None else
         case read_u32_le buf start of None \<Rightarrow> None | Some count \<Rightarrow>
         case redo_get_ops buf (start + len) (start + 4) (unat count) of None \<Rightarrow> None | Some batch \<Rightarrow>
           Some (batch, start + len + 4))"

lemma redo_decode_advances: "redo_decode buf pos = Some (b, p) \<Longrightarrow> pos < p \<and> p \<le> length buf"
  by (auto simp: redo_decode_def Let_def split: if_splits option.splits)

function redo_read_batches :: "byte list \<Rightarrow> nat \<Rightarrow> RedoOp list list" where
  "redo_read_batches buf pos =
     (case redo_decode buf pos of None \<Rightarrow> [] | Some (b, p) \<Rightarrow> b # redo_read_batches buf p)"
  by pat_completeness auto
termination
  by (relation "measure (\<lambda>(buf, pos). length buf - pos)") (auto dest: redo_decode_advances)

declare redo_read_batches.simps [simp del]

record RedoLog =
  rl_file :: "byte list option"
  rl_durable :: nat
  rl_open :: bool
  rl_bytes :: u64
  rl_checkpoint_at :: u64
  rl_size_known :: bool
  rl_appended :: u64
  rl_synced :: u64

definition redo_new :: "byte list option \<Rightarrow> RedoLog" where
  "redo_new file = \<lparr>rl_file = file, rl_durable = (case file of None \<Rightarrow> 0 | Some b \<Rightarrow> length b), rl_open = False,
     rl_bytes = 0, rl_checkpoint_at = 0, rl_size_known = False, rl_appended = 0, rl_synced = 0\<rparr>"

definition redo_content :: "RedoLog \<Rightarrow> byte list" where
  "redo_content st = (case rl_file st of None \<Rightarrow> [] | Some b \<Rightarrow> b)"

text \<open>Opening the append handle when it is closed; the size is read once.\<close>

definition redo_open :: "io_env \<Rightarrow> RedoLog \<Rightarrow> io_error option \<times> RedoLog" where
  "redo_open env st =
     (if rl_open st then (None, st)
      else if \<not> env_opens env then (Some OpenFailed, st)
      else let st = st\<lparr>rl_open := True, rl_file := Some (redo_content st)\<rparr>
           in if rl_size_known st then (None, st)
              else (None, st\<lparr>rl_bytes := (if env_read_ok env then word_of_nat (length (redo_content st)) else 0),
                             rl_size_known := True\<rparr>))"

definition redo_append_batch :: "io_env \<Rightarrow> RedoOp list \<Rightarrow> RedoLog \<Rightarrow> (io_error + u64) \<times> RedoLog" where
  "redo_append_batch env ops st =
     (if ops = [] then (Inr (rl_appended st), st)
      else let rec = redo_encode ops in
        case redo_open env st of
          (Some e, st) \<Rightarrow> (Inl e, st)
        | (None, st) \<Rightarrow>
            if \<not> env_write_ok env \<or> \<not> env_flush_ok env
            then (Inl WriteFailed, st\<lparr>rl_file := Some (redo_content st @ take (env_short env) rec), rl_open := False\<rparr>)
            else (Inr (rl_appended st + 1),
                  st\<lparr>rl_file := Some (redo_content st @ rec), rl_bytes := rl_bytes st + word_of_nat (length rec),
                     rl_appended := rl_appended st + 1\<rparr>))"

text \<open>A successful \<^verbatim>\<open>fsync\<close> makes every byte of the file durable.\<close>

definition redo_sync :: "io_env \<Rightarrow> u64 \<Rightarrow> RedoLog \<Rightarrow> io_error option \<times> RedoLog" where
  "redo_sync env seq st =
     (if rl_synced st \<ge> seq then (None, st)
      else let target = rl_appended st in
        if \<not> rl_open st then (None, st)
        else if \<not> env_sync_ok env then (Some SyncFailed, st)
        else (None, st\<lparr>rl_synced := target, rl_durable := length (redo_content st)\<rparr>))"

definition redo_read_all :: "io_env \<Rightarrow> RedoLog \<Rightarrow> RedoOp list" where
  "redo_read_all env st =
     (case rl_file st of
        None \<Rightarrow> []
      | Some buf \<Rightarrow> if env_read_ok env then concat (redo_read_batches buf 0) else [])"

definition redo_clear :: "io_env \<Rightarrow> RedoLog \<Rightarrow> RedoLog" where
  "redo_clear env st =
     st\<lparr>rl_open := False,
        rl_file := (if env_remove_ok env then None else rl_file st),
        rl_durable := (if env_remove_ok env then 0 else rl_durable st),
        rl_bytes := 0, rl_checkpoint_at := 0, rl_size_known := True, rl_synced := rl_appended st\<rparr>"

definition set_checkpoint_at :: "u64 \<Rightarrow> RedoLog \<Rightarrow> RedoLog" where
  "set_checkpoint_at b st = st\<lparr>rl_checkpoint_at := b\<rparr>"

text \<open>
  A crash and restart: of the bytes that no \<^verbatim>\<open>fsync\<close> covered some prefix survives (\<open>n\<close> bytes of the file, no
  fewer than the durable ones), and a new \<^verbatim>\<open>RedoLog\<close> is constructed over what is left.
\<close>

definition redo_crash :: "nat \<Rightarrow> RedoLog \<Rightarrow> RedoLog" where
  "redo_crash n st = redo_new (map_option (take (max n (rl_durable st))) (rl_file st))"

section \<open>Batches\<close>

definition redo_op_fits :: "RedoOp \<Rightarrow> bool" where
  "redo_op_fits op \<longleftrightarrow> length (redo_table op) < 2 ^ 32 \<and> length (redo_row_json op) < 2 ^ 32 \<and> length (redo_xmax op) < 2 ^ 32"

definition redo_fits :: "RedoOp list \<Rightarrow> bool" where
  "redo_fits ops \<longleftrightarrow> (\<forall>op \<in> set ops. redo_op_fits op) \<and> length (redo_payload ops) < 2 ^ 32"

lemma length_redo_put_op:
  "length (redo_put_op op) = 13 + length (redo_table op) + length (redo_row_json op) + length (redo_xmax op)"
  by (simp add: redo_put_op_def)

lemma redo_ops_length: "length ops \<le> length (concat (map redo_put_op ops))"
  by (induction ops) (simp_all add: length_redo_put_op)

lemma redo_get_ops_put:
  assumes "\<forall>op \<in> set ops. redo_op_fits op" and "length pre + length (concat (map redo_put_op ops)) \<le> lim"
  shows "redo_get_ops (pre @ concat (map redo_put_op ops) @ post) lim (length pre) (length ops) = Some ops"
  using assms
proof (induction ops arbitrary: pre)
  case (Cons op ops)
  let ?buf = "pre @ concat (map redo_put_op (op # ops)) @ post" and ?n = "length pre"
  let ?t = "redo_table op" and ?j = "redo_row_json op" and ?x = "redo_xmax op"
  let ?rest = "concat (map redo_put_op ops) @ post"
  have buf: "?buf = pre @ [redo_kind op] @ put_string ?t @ put_string ?j @ put_string ?x @ ?rest"
    by (simp add: redo_put_op_def)
  have k: "?buf ! ?n = redo_kind op" unfolding buf by (simp add: nth_append)
  have t: "read_string ?buf (?n + 1) = Some (?t, ?n + 1 + 4 + length ?t)"
    by (rule read_string_at [where pre = "pre @ [redo_kind op]"])
      (use Cons.prems in \<open>simp_all add: redo_put_op_def redo_op_fits_def\<close>)
  have j: "read_string ?buf (?n + 1 + 4 + length ?t) = Some (?j, ?n + 1 + 4 + length ?t + 4 + length ?j)"
    by (rule read_string_at [where pre = "pre @ [redo_kind op] @ put_string ?t"])
      (use Cons.prems in \<open>simp_all add: redo_put_op_def redo_op_fits_def\<close>)
  have x: "read_string ?buf (?n + 1 + 4 + length ?t + 4 + length ?j) =
      Some (?x, ?n + 1 + 4 + length ?t + 4 + length ?j + 4 + length ?x)"
    by (rule read_string_at [where pre = "pre @ [redo_kind op] @ put_string ?t @ put_string ?j"])
      (use Cons.prems in \<open>simp_all add: redo_put_op_def redo_op_fits_def\<close>)
  have "redo_get_ops ((pre @ redo_put_op op) @ concat (map redo_put_op ops) @ post) lim
      (length (pre @ redo_put_op op)) (length ops) = Some ops"
    using Cons.prems by (intro Cons.IH) auto
  moreover have "length (pre @ redo_put_op op) = ?n + 1 + 4 + length ?t + 4 + length ?j + 4 + length ?x"
    by (simp add: length_redo_put_op)
  ultimately have rest: "redo_get_ops ?buf lim (?n + 1 + 4 + length ?t + 4 + length ?j + 4 + length ?x) (length ops) = Some ops"
    by (simp add: ac_simps)
  have "\<not> lim \<le> ?n" using Cons.prems(2) by (simp add: length_redo_put_op)
  then show ?case using k t j x rest by simp
qed simp

lemma redo_decode_encode:
  assumes "redo_fits ops"
  shows "redo_decode (pre @ redo_encode ops @ post) (length pre) = Some (ops, length pre + length (redo_encode ops))"
proof -
  let ?buf = "pre @ redo_encode ops @ post" and ?n = "length pre"
  let ?pay = "redo_payload ops" and ?ops = "concat (map redo_put_op ops)"
  let ?sum = "push_u32_le (fnv1a32 ?pay)"
  have buf: "?buf = pre @ push_u32_le (word_of_nat (length ?pay)) @ ?pay @ ?sum @ post"
    by (simp add: redo_encode_def Let_def)
  have pay: "?pay = push_u32_le (word_of_nat (length ops)) @ ?ops" by (simp add: redo_payload_def)
  have small: "length ?pay < 2 ^ 32" "length ops < 2 ^ 32"
    using assms redo_ops_length [of ops] by (simp_all add: redo_fits_def pay)
  have len: "read_u32_le ?buf ?n = Some (word_of_nat (length ?pay))"
    by (rule read_u32_le_at [where pre = pre]) (simp_all add: buf)
  have sum: "read_u32_le ?buf (?n + 4 + length ?pay) = Some (fnv1a32 ?pay)"
    by (rule read_u32_le_at [where pre = "pre @ push_u32_le (word_of_nat (length ?pay)) @ ?pay"]) (simp_all add: buf)
  have count: "read_u32_le ?buf (?n + 4) = Some (word_of_nat (length ops))"
    by (rule read_u32_le_at [where pre = "pre @ push_u32_le (word_of_nat (length ?pay))"
          and post = "?ops @ ?sum @ post"]) (simp_all add: buf pay)
  have covered: "take (length ?pay) (drop (?n + 4) ?buf) = ?pay" by (simp add: buf)
  have "redo_get_ops ((pre @ push_u32_le (word_of_nat (length ?pay)) @ push_u32_le (word_of_nat (length ops))) @ ?ops @ (?sum @ post))
      (?n + 4 + length ?pay) (length (pre @ push_u32_le (word_of_nat (length ?pay)) @ push_u32_le (word_of_nat (length ops))))
      (length ops) = Some ops"
    using assms by (intro redo_get_ops_put) (simp_all add: redo_fits_def pay)
  then have ops: "redo_get_ops ?buf (?n + 4 + length ?pay) (?n + 4 + 4) (length ops) = Some ops"
    by (simp add: buf pay add.commute)
  have "\<not> ?n \<ge> length ?buf" "\<not> ?n + 4 + length ?pay + 4 > length ?buf" "length (redo_encode ops) = 4 + length ?pay + 4"
    by (simp_all add: redo_encode_def Let_def)
  then show ?thesis
    using len sum count covered ops small
    by (simp only: redo_decode_def Let_def unat_u32 if_False option.case add.assoc) simp
qed

lemma redo_get_ops_append:
  "redo_get_ops buf lim p n = Some ops \<Longrightarrow> lim \<le> length buf \<Longrightarrow> redo_get_ops (buf @ ext) lim p n = Some ops"
proof (induction buf lim p n arbitrary: ops rule: redo_get_ops.induct)
  case (2 buf lim p n)
  from "2.prems" obtain t p1 j p2 x p3 rest where
    lim: "\<not> p \<ge> lim" and t: "read_string buf (p + 1) = Some (t, p1)" and j: "read_string buf p1 = Some (j, p2)" and
    x: "read_string buf p2 = Some (x, p3)" and rest: "redo_get_ops buf lim p3 n = Some rest" and
    ops: "ops = \<lparr>redo_kind = buf ! p, redo_table = t, redo_row_json = j, redo_xmax = x\<rparr> # rest"
    by (auto split: if_splits option.splits)
  have "redo_get_ops (buf @ ext) lim p3 n = Some rest"
    using "2.IH" lim t j x rest "2.prems"(2) by auto
  moreover have "(buf @ ext) ! p = buf ! p" using lim "2.prems"(2) by (simp add: nth_append)
  ultimately show ?case
    using lim ops read_string_append [OF t, of ext] read_string_append [OF j, of ext] read_string_append [OF x, of ext]
    by simp
qed simp

lemma redo_decode_append:
  assumes "redo_decode buf pos = Some (b, p)"
  shows "redo_decode (buf @ ext) pos = Some (b, p)"
proof -
  from assms obtain n stored count where
    pos: "\<not> pos \<ge> length buf" and n: "read_u32_le buf pos = Some n" and
    fit: "\<not> pos + 4 + unat n + 4 > length buf" and
    s: "read_u32_le buf (pos + 4 + unat n) = Some stored" and
    sum: "fnv1a32 (take (unat n) (drop (pos + 4) buf)) = stored" and
    c: "read_u32_le buf (pos + 4) = Some count" and
    ops: "redo_get_ops buf (pos + 4 + unat n) (pos + 4 + 4) (unat count) = Some b" and
    p: "p = pos + 4 + unat n + 4"
    by (auto simp: redo_decode_def Let_def split: if_splits option.splits)
  have ops': "redo_get_ops (buf @ ext) (pos + 4 + unat n) (pos + 4 + 4) (unat count) = Some b"
    using redo_get_ops_append [OF ops] fit by simp
  have "take (unat n) (drop (pos + 4) (buf @ ext)) = take (unat n) (drop (pos + 4) buf)"
    using fit by (intro slice_append) simp
  then show ?thesis
    using pos fit sum p ops' read_u32_le_append [OF n, of ext] read_u32_le_append [OF s, of ext]
      read_u32_le_append [OF c, of ext]
    by (simp add: redo_decode_def Let_def del: drop_append take_append)
qed

interpretation redo: record_log redo_encode redo_decode redo_read_batches redo_fits
proof unfold_locales
  show "redo_read_batches buf pos =
    (case redo_decode buf pos of None \<Rightarrow> [] | Some (b, p) \<Rightarrow> b # redo_read_batches buf p)" for buf pos
    by (rule redo_read_batches.simps)
qed (fact redo_decode_encode redo_decode_append redo_decode_advances)+

section \<open>Histories and crashes\<close>

definition redo_batches :: "RedoLog \<Rightarrow> RedoOp list list" where
  "redo_batches st = redo_read_batches (redo_content st) 0"

definition redo_intact :: "RedoLog \<Rightarrow> bool" where
  "redo_intact st \<longleftrightarrow> (\<forall>b \<in> set (redo_batches st). redo_fits b) \<and>
     redo_content st = concat (map redo_encode (redo_batches st))"

text \<open>What other committers may do between an append and its \<^verbatim>\<open>sync\<close>: anything but clear the log.\<close>

inductive redo_steps :: "RedoLog \<Rightarrow> RedoLog \<Rightarrow> bool" where
  refl: "redo_steps st st"
| append: "redo_steps st st' \<Longrightarrow> redo_steps st (snd (redo_append_batch env ops st'))"
| sync: "redo_steps st st' \<Longrightarrow> redo_steps st (snd (redo_sync env seq st'))"
| checkpoint_at: "redo_steps st st' \<Longrightarrow> redo_steps st (set_checkpoint_at b st')"

text \<open>The bytes \<open>P\<close> are in the file, and durable once the counter of synced batches has reached \<open>seq\<close>.\<close>

definition redo_covered :: "byte list \<Rightarrow> u64 \<Rightarrow> RedoLog \<Rightarrow> bool" where
  "redo_covered P seq st \<longleftrightarrow> (\<exists>rest. redo_content st = P @ rest) \<and>
     (rl_synced st \<ge> seq \<longrightarrow> length P \<le> rl_durable st)"

lemma redo_open_spec:
  assumes "redo_open env st = (e, st')"
  shows "redo_content st' = redo_content st" "rl_synced st' = rl_synced st" "rl_durable st' = rl_durable st"
    "rl_appended st' = rl_appended st" "e = None \<longleftrightarrow> rl_open st'" "e = None \<Longrightarrow> rl_file st' \<noteq> None \<or> rl_open st"
  using assms by (auto simp: redo_open_def redo_content_def Let_def split: if_splits)

lemma redo_append_batch_cases:
  assumes "redo_append_batch env ops st = (res, st')"
  obtains n where "redo_content st' = redo_content st @ take n (redo_encode ops)"
      "rl_synced st' = rl_synced st" "rl_durable st' = rl_durable st"
      "\<And>seq. res = Inr seq \<Longrightarrow> ops \<noteq> [] \<Longrightarrow> n = length (redo_encode ops) \<and> seq = rl_appended st + 1"
proof -
  obtain e st1 where o: "redo_open env st = (e, st1)" by fastforce
  note spec = redo_open_spec [OF o]
  show ?thesis
  proof (cases "ops = [] \<or> e \<noteq> None")
    case True
    then show ?thesis using assms o spec by (intro that [of 0]) (auto simp: redo_append_batch_def split: if_splits)
  next
    case False
    then show ?thesis
      using assms o spec that [of "env_short env"] that [of "length (redo_encode ops)"]
      by (auto simp: redo_append_batch_def Let_def redo_content_def split: if_splits)
  qed
qed

lemma redo_covered_append: "redo_covered P seq st \<Longrightarrow> redo_covered P seq (snd (redo_append_batch env ops st))"
proof -
  assume c: "redo_covered P seq st"
  obtain res st' where s: "redo_append_batch env ops st = (res, st')" by fastforce
  from s show ?thesis by (rule redo_append_batch_cases) (use c s in \<open>auto simp: redo_covered_def\<close>)
qed

lemma redo_covered_sync: "redo_covered P seq st \<Longrightarrow> redo_covered P seq (snd (redo_sync env seq' st))"
  by (auto simp: redo_covered_def redo_sync_def Let_def redo_content_def)

lemma redo_covered_steps: "redo_steps st st' \<Longrightarrow> redo_covered P seq st \<Longrightarrow> redo_covered P seq st'"
proof (induction rule: redo_steps.induct)
  case (checkpoint_at st st' b)
  then show ?case by (simp add: redo_covered_def set_checkpoint_at_def redo_content_def)
qed (simp_all add: redo_covered_append redo_covered_sync)

lemma redo_sync_covers:
  assumes "redo_covered P seq st" and "redo_sync env seq st = (None, st')" and "rl_open st \<or> rl_synced st \<ge> seq"
  shows "length P \<le> rl_durable st' \<and> (\<exists>rest. redo_content st' = P @ rest)"
  using assms by (auto simp: redo_covered_def redo_sync_def Let_def redo_content_def split: if_splits)

lemma redo_crash_keeps:
  assumes "length P \<le> rl_durable st" and "redo_content st = P @ rest"
  shows "\<exists>rest. redo_content (redo_crash n st) = P @ rest"
proof -
  have "redo_content (redo_crash n st) = take (max n (rl_durable st)) (redo_content st)"
    by (simp add: redo_crash_def redo_new_def redo_content_def split: option.splits)
  then show ?thesis using assms by simp
qed

lemma redo_read_prefix:
  "\<forall>b \<in> set bs. redo_fits b \<Longrightarrow> \<exists>rest. redo_read_batches (concat (map redo_encode bs) @ post) 0 = bs @ rest"
  using redo.rd_log_of [of bs "[]" post] by auto

text \<open>
  C2: Durability of a commit. A batch that was appended to an intact log and for which \<^verbatim>\<open>sync\<close>
  then returned normally with the append handle open is read back after every crash, behind all batches that were in the
  log before it, whatever other committers appended or synced in between (also when their calls failed).
\<close>

theorem redo_commit_durable:
  assumes "redo_intact st" and "redo_fits ops" and "ops \<noteq> []"
    and "rl_synced st \<le> rl_appended st" and "rl_appended st < rl_appended st + 1"
    and "redo_append_batch env ops st = (Inr seq, st1)"
    and "redo_steps st1 st2"
    and "redo_sync env2 seq st2 = (None, st3)" and "rl_open st2 \<or> rl_synced st2 \<ge> seq"
  shows "\<exists>rest. redo_batches (redo_crash n st3) = redo_batches st @ [ops] @ rest"
proof -
  let ?P = "concat (map redo_encode (redo_batches st @ [ops]))"
  obtain k where k: "redo_content st1 = redo_content st @ take k (redo_encode ops)" "rl_synced st1 = rl_synced st"
      "k = length (redo_encode ops)" "seq = rl_appended st + 1"
    using assms(3,6) by (metis redo_append_batch_cases)
  have c1: "redo_content st1 = ?P" using k(1,3) assms(1) by (simp add: redo_intact_def)
  have s1: "\<not> rl_synced st1 \<ge> seq" using le_less_trans [OF assms(4,5)] k(2,4) by simp
  have "redo_covered ?P seq st2"
    by (rule redo_covered_steps [OF assms(7)]) (simp add: redo_covered_def c1 s1)
  then obtain rest where "redo_content (redo_crash n st3) = ?P @ rest"
    using redo_sync_covers [OF _ assms(8,9)] redo_crash_keeps by blast
  moreover have "\<forall>b \<in> set (redo_batches st @ [ops]). redo_fits b"
    using assms(1,2) by (auto simp: redo_intact_def)
  ultimately show ?thesis
    using redo_read_prefix [of "redo_batches st @ [ops]" rest] by (simp add: redo_batches_def [of "redo_crash n st3"])
qed


text \<open>An operation to log, a batch of one and a batch that is longer.\<close>

definition small_op :: RedoOp where
  "small_op = \<lparr>redo_kind = InsertVersion, redo_table = ''t'', redo_row_json = '''', redo_xmax = ''''\<rparr>"

definition big_op :: RedoOp where
  "big_op = \<lparr>redo_kind = InsertVersion, redo_table = ''a_table_with_a_longer_name'', redo_row_json = '''', redo_xmax = ''''\<rparr>"

lemma redo_ex_fits [simp]: "redo_fits [small_op]" "redo_fits [big_op]"
  by (simp_all add: redo_fits_def redo_op_fits_def redo_payload_def redo_put_op_def small_op_def big_op_def)

lemma redo_ex_length [simp]: "length (redo_encode [small_op]) = 26" "length (redo_encode [big_op]) = 51"
  by (simp_all add: redo_encode_def Let_def redo_payload_def redo_put_op_def small_op_def big_op_def)

lemma redo_new_empty [simp]:
  "redo_content (redo_new None) = []" "redo_batches (redo_new None) = []" "redo_intact (redo_new None)"
  "rl_synced (redo_new None) = 0" "rl_appended (redo_new None) = 0"
  using redo.rd_at_end [of "[]"] by (simp_all add: redo_content_def redo_new_def redo_batches_def redo_intact_def)

theorem redo_commit_durable_witness:
  "\<exists>rest. redo_batches (redo_crash 0 (snd (redo_sync env_ok 1 (snd (redo_append_batch env_ok [small_op] (redo_new None)))))) =
     redo_batches (redo_new None) @ [[small_op]] @ rest"
proof (rule redo_commit_durable [where env = env_ok and ?env2.0 = env_ok])
  show "redo_append_batch env_ok [small_op] (redo_new None) = (Inr 1, snd (redo_append_batch env_ok [small_op] (redo_new None)))"
    by (simp add: redo_append_batch_def redo_open_def env_ok_def redo_new_def Let_def)
  show "redo_sync env_ok 1 (snd (redo_append_batch env_ok [small_op] (redo_new None))) =
      (None, snd (redo_sync env_ok 1 (snd (redo_append_batch env_ok [small_op] (redo_new None)))))"
    by (simp add: redo_append_batch_def redo_open_def redo_sync_def env_ok_def redo_new_def Let_def)
  show "rl_open (snd (redo_append_batch env_ok [small_op] (redo_new None))) \<or>
      1 \<le> rl_synced (snd (redo_append_batch env_ok [small_op] (redo_new None)))"
    by (simp add: redo_append_batch_def redo_open_def env_ok_def redo_new_def Let_def)
qed (simp_all add: redo_steps.refl)



text \<open>
  \<^verbatim>\<open>sync\<close> can report success for a batch that is not durable: when between the append of one
  commit and its \<^verbatim>\<open>sync\<close> the append of another commit fails and closes the handle, \<^verbatim>\<open>sync\<close> returns normally without
  an \<^verbatim>\<open>fsync\<close>, and a crash then loses the first commit's batch.
\<close>

theorem redo_sync_after_failed_append_not_durable:
  assumes "ops1 \<noteq> []" and "ops2 \<noteq> []" and "\<not> env_write_ok bad"
  shows "fst (redo_append_batch env_ok ops1 (redo_new None)) = Inr 1 \<and>
    fst (redo_append_batch bad ops2 (snd (redo_append_batch env_ok ops1 (redo_new None)))) = Inl WriteFailed \<and>
    fst (redo_sync env_ok 1 (snd (redo_append_batch bad ops2 (snd (redo_append_batch env_ok ops1 (redo_new None)))))) = None \<and>
    redo_batches (redo_crash 0 (snd (redo_sync env_ok 1
      (snd (redo_append_batch bad ops2 (snd (redo_append_batch env_ok ops1 (redo_new None)))))))) = []"
  using assms redo.rd_at_end [of "[]"]
  by (simp add: redo_append_batch_def redo_open_def redo_sync_def env_ok_def redo_new_def Let_def redo_crash_def
      redo_batches_def redo_content_def)

theorem redo_sync_after_failed_append_not_durable_witness:
  "fst (redo_append_batch env_ok [small_op] (redo_new None)) = Inr 1 \<and>
    fst (redo_append_batch (env_ok\<lparr>env_write_ok := False\<rparr>) [big_op] (snd (redo_append_batch env_ok [small_op] (redo_new None)))) =
      Inl WriteFailed \<and>
    fst (redo_sync env_ok 1 (snd (redo_append_batch (env_ok\<lparr>env_write_ok := False\<rparr>) [big_op]
      (snd (redo_append_batch env_ok [small_op] (redo_new None)))))) = None \<and>
    redo_batches (redo_crash 0 (snd (redo_sync env_ok 1 (snd (redo_append_batch (env_ok\<lparr>env_write_ok := False\<rparr>) [big_op]
      (snd (redo_append_batch env_ok [small_op] (redo_new None)))))))) = []"
  by (rule redo_sync_after_failed_append_not_durable) simp_all

lemma redo_decode_overlong:
  assumes "redo_fits ops" and "4 \<le> k" and "k + length rest < length (redo_encode ops)"
  shows "redo_decode (pre @ take k (redo_encode ops) @ rest) (length pre) = None"
proof -
  let ?len = "push_u32_le (word_of_nat (length (redo_payload ops)))"
  have "take k (redo_encode ops) = ?len @ take (k - 4) (redo_payload ops @ push_u32_le (fnv1a32 (redo_payload ops)))"
    using assms(2) by (simp add: redo_encode_def Let_def)
  then have "read_u32_le (pre @ take k (redo_encode ops) @ rest) (length pre) = Some (word_of_nat (length (redo_payload ops)))"
    by (intro read_u32_le_at [where pre = pre]) simp_all
  moreover have "unat (word_of_nat (length (redo_payload ops)) :: u32) = length (redo_payload ops)"
    using assms(1) by (simp add: redo_fits_def unat_u32)
  moreover have "length (redo_encode ops) = length (redo_payload ops) + 8" by (simp add: redo_encode_def Let_def)
  ultimately show ?thesis using assms(3) by (simp add: redo_decode_def Let_def)
qed

text \<open>
  A short write leaves its bytes in the log, and batches appended behind them are never read again: when an append fails
  after at least the length field has reached the file, a later commit whose batch fits in the missing part of
  the torn one is appended and synced with success, yet the log reads as if it had never been made.
\<close>

theorem redo_torn_append_hides_commit:
  assumes "redo_intact st" and "redo_fits ops1" and "ops1 \<noteq> []" and "ops2 \<noteq> []" and "\<not> env_write_ok bad" and "env_opens bad"
    and "4 \<le> env_short bad" and "env_short bad + length (redo_encode ops2) < length (redo_encode ops1)"
  shows "(let st1 = snd (redo_append_batch bad ops1 st); st2 = snd (redo_append_batch env_ok ops2 st1) in
    isl (fst (redo_append_batch bad ops1 st)) \<and>
    fst (redo_append_batch env_ok ops2 st1) = Inr (rl_appended st + 1) \<and>
    fst (redo_sync env_ok (rl_appended st + 1) st2) = None \<and>
    redo_batches st2 = redo_batches st)"
proof -
  let ?torn = "take (env_short bad) (redo_encode ops1)"
  define st1 where "st1 = snd (redo_append_batch bad ops1 st)"
  define st2 where "st2 = snd (redo_append_batch env_ok ops2 st1)"
  have fails: "isl (fst (redo_append_batch bad ops1 st))"
    and s1: "redo_content st1 = redo_content st @ ?torn" "\<not> rl_open st1" "rl_appended st1 = rl_appended st"
    using assms(3,5,6) unfolding st1_def
    by (auto simp: redo_append_batch_def Let_def redo_open_def redo_content_def split: if_splits)
  have ok: "fst (redo_append_batch env_ok ops2 st1) = Inr (rl_appended st + 1)"
    and s2: "redo_content st2 = redo_content st1 @ redo_encode ops2"
    using assms(4) s1(2,3) unfolding st2_def
    by (auto simp: redo_append_batch_def Let_def redo_open_def redo_content_def env_ok_def)
  have "redo_read_batches (concat (map redo_encode (redo_batches st)) @ (?torn @ redo_encode ops2)) 0 = redo_batches st"
  proof (rule redo.rd_behind_garbage)
    show "redo_decode (concat (map redo_encode (redo_batches st)) @ ?torn @ redo_encode ops2)
        (length (concat (map redo_encode (redo_batches st)))) = None"
      using assms(2,7,8) by (intro redo_decode_overlong) simp_all
  qed (use assms(1) in \<open>simp add: redo_intact_def\<close>)
  then have "redo_batches st2 = redo_batches st"
    using assms(1) s1 s2 by (simp add: redo_batches_def [of st2] redo_intact_def)
  moreover have "fst (redo_sync env_ok (rl_appended st + 1) st2) = None" by (simp add: redo_sync_def Let_def env_ok_def)
  ultimately show ?thesis using fails ok by (simp add: Let_def st1_def st2_def)
qed

theorem redo_torn_append_hides_commit_witness:
  "(let bad = env_ok\<lparr>env_write_ok := False, env_short := 6\<rparr>; st = redo_new None;
        st1 = snd (redo_append_batch bad [big_op] st); st2 = snd (redo_append_batch env_ok [small_op] st1) in
    isl (fst (redo_append_batch bad [big_op] st)) \<and>
    fst (redo_append_batch env_ok [small_op] st1) = Inr (rl_appended st + 1) \<and>
    fst (redo_sync env_ok (rl_appended st + 1) st2) = None \<and>
    redo_batches st2 = redo_batches st)"
  unfolding Let_def [of "env_ok\<lparr>env_write_ok := False, env_short := 6\<rparr>"] Let_def [of "redo_new None"]
  by (rule redo_torn_append_hides_commit) simp_all

end
