(* ===== verification/RowJson.thy ===== *)
theory RowJson
  imports Prelude
begin

unbundle bit_operations_syntax

text \<open>
  The JSON text of a row (\<^verbatim>\<open>core/src/storage/row_json.cpp\<close>): the writer and the direct reader of flat objects
  of strings that every stored row image goes through (table files, B+Tree entries, redo, undo and WAL records).

  The code hands a string that is not UTF-8 and a text that is not a flat object with increasing keys
  to the library nlohmann::json; that library is the arguments \<open>dump\<close> and \<open>parse\<close> here (\<^const>\<open>None\<close>: it
  throws). A position in a text is represented by the rest of the text from there on.
\<close>

section \<open>Definitions\<close>

definition uchar :: "char \<Rightarrow> nat" where
  "uchar c = of_char c"

definition cont :: "string \<Rightarrow> nat \<Rightarrow> nat \<Rightarrow> nat \<Rightarrow> bool" where
  "cont s k lo hi \<longleftrightarrow> k < length s \<and> lo \<le> uchar (s ! k) \<and> uchar (s ! k) \<le> hi"

definition utf8_sequence_length :: "string \<Rightarrow> nat" where
  "utf8_sequence_length s =
     (let b = uchar (hd s) in
      if 0xC2 \<le> b \<and> b \<le> 0xDF then (if cont s 1 0x80 0xBF then 2 else 0)
      else if b = 0xE0 then (if cont s 1 0xA0 0xBF \<and> cont s 2 0x80 0xBF then 3 else 0)
      else if b = 0xED then (if cont s 1 0x80 0x9F \<and> cont s 2 0x80 0xBF then 3 else 0)
      else if (0xE1 \<le> b \<and> b \<le> 0xEC) \<or> b = 0xEE \<or> b = 0xEF then (if cont s 1 0x80 0xBF \<and> cont s 2 0x80 0xBF then 3 else 0)
      else if b = 0xF0 then (if cont s 1 0x90 0xBF \<and> cont s 2 0x80 0xBF \<and> cont s 3 0x80 0xBF then 4 else 0)
      else if 0xF1 \<le> b \<and> b \<le> 0xF3 then (if cont s 1 0x80 0xBF \<and> cont s 2 0x80 0xBF \<and> cont s 3 0x80 0xBF then 4 else 0)
      else if b = 0xF4 then (if cont s 1 0x80 0x8F \<and> cont s 2 0x80 0xBF \<and> cont s 3 0x80 0xBF then 4 else 0)
      else 0)"

definition hex_digit :: "nat \<Rightarrow> char" where
  "hex_digit n = ''0123456789abcdef'' ! n"

text \<open>\<^verbatim>\<open>\\\<close> and the characters that have an escape of their own; the rest of the control characters as \<^verbatim>\<open>\u00xx\<close>.\<close>

definition escape_char :: "char \<Rightarrow> string" where
  "escape_char c =
     (if uchar c = 0x22 then [CHR 0x5C, CHR 0x22]
      else if uchar c = 0x5C then [CHR 0x5C, CHR 0x5C]
      else if uchar c = 0x08 then [CHR 0x5C, CHR ''b'']
      else if uchar c = 0x0C then [CHR 0x5C, CHR ''f'']
      else if uchar c = 0x0A then [CHR 0x5C, CHR ''n'']
      else if uchar c = 0x0D then [CHR 0x5C, CHR ''r'']
      else if uchar c = 0x09 then [CHR 0x5C, CHR ''t'']
      else [CHR 0x5C, CHR ''u'', CHR ''0'', CHR ''0'', hex_digit (uchar c div 16), hex_digit (uchar c mod 16)])"

text \<open>The loop of \<^verbatim>\<open>append_json_string\<close>; \<^const>\<open>None\<close> at a byte that starts no valid UTF-8 sequence.\<close>

function json_escape :: "string \<Rightarrow> string option" where
  "json_escape [] = Some []"
| "json_escape (c # cs) =
     (if uchar c \<ge> 0x20 \<and> uchar c \<noteq> 0x22 \<and> uchar c \<noteq> 0x5C \<and> uchar c < 0x80
      then map_option (\<lambda>t. c # t) (json_escape cs)
      else if uchar c \<ge> 0x80 then
        (let len = utf8_sequence_length (c # cs)
         in if len = 0 then None
            else map_option (\<lambda>t. take len (c # cs) @ t) (json_escape (drop len (c # cs))))
      else map_option (\<lambda>t. escape_char c @ t) (json_escape cs))"
  by pat_completeness auto
termination by (relation "measure length") auto

definition append_json_string :: "(string \<Rightarrow> string option) \<Rightarrow> string \<Rightarrow> string option" where
  "append_json_string dump s =
     (case json_escape s of Some t \<Rightarrow> Some (CHR 0x22 # t @ [CHR 0x22]) | None \<Rightarrow> dump s)"

definition skip_ws :: "string \<Rightarrow> string" where
  "skip_ws s = dropWhile (\<lambda>c. uchar c = 0x20 \<or> uchar c = 0x09 \<or> uchar c = 0x0A \<or> uchar c = 0x0D) s"

definition hex_value :: "char \<Rightarrow> nat option" where
  "hex_value c =
     (let n = uchar c in
      if 0x30 \<le> n \<and> n \<le> 0x39 then Some (n - 0x30)
      else if 0x61 \<le> n \<and> n \<le> 0x66 then Some (n - 0x61 + 10)
      else if 0x41 \<le> n \<and> n \<le> 0x46 then Some (n - 0x41 + 10)
      else None)"

fun read_hex4 :: "string \<Rightarrow> nat option" where
  "read_hex4 (a # b # c # d # _) =
     (case (hex_value a, hex_value b, hex_value c, hex_value d) of
        (Some w, Some x, Some y, Some z) \<Rightarrow> Some (((w * 16 + x) * 16 + y) * 16 + z)
      | _ \<Rightarrow> None)"
| "read_hex4 _ = None"

definition append_utf8 :: "nat \<Rightarrow> string" where
  "append_utf8 cp =
     (if cp < 0x80 then [char_of cp]
      else if cp < 0x800 then [char_of (0xC0 OR drop_bit 6 cp), char_of (0x80 OR (cp AND 0x3F))]
      else if cp < 0x10000 then
        [char_of (0xE0 OR drop_bit 12 cp), char_of (0x80 OR (drop_bit 6 cp AND 0x3F)), char_of (0x80 OR (cp AND 0x3F))]
      else [char_of (0xF0 OR drop_bit 18 cp), char_of (0x80 OR (drop_bit 12 cp AND 0x3F)),
            char_of (0x80 OR (drop_bit 6 cp AND 0x3F)), char_of (0x80 OR (cp AND 0x3F))])"

text \<open>The escape after a backslash: what it stands for and the text behind it.\<close>

definition read_escape :: "string \<Rightarrow> (string \<times> string) option" where
  "read_escape s =
     (case s of
        [] \<Rightarrow> None
      | c # cs \<Rightarrow>
          if uchar c = 0x22 then Some ([CHR 0x22], cs)
          else if uchar c = 0x5C then Some ([CHR 0x5C], cs)
          else if uchar c = 0x2F then Some ([CHR 0x2F], cs)
          else if uchar c = 0x62 then Some ([CHR 0x08], cs)
          else if uchar c = 0x66 then Some ([CHR 0x0C], cs)
          else if uchar c = 0x6E then Some ([CHR 0x0A], cs)
          else if uchar c = 0x72 then Some ([CHR 0x0D], cs)
          else if uchar c = 0x74 then Some ([CHR 0x09], cs)
          else if uchar c = 0x75 then
            (case read_hex4 cs of
               None \<Rightarrow> None
             | Some cp \<Rightarrow>
                 let r = drop 4 cs in
                 if 0xD800 \<le> cp \<and> cp \<le> 0xDBFF then
                   (if 1 < length r \<and> uchar (r ! 0) = 0x5C \<and> uchar (r ! 1) = 0x75 then
                      (case read_hex4 (drop 2 r) of
                         None \<Rightarrow> None
                       | Some lo \<Rightarrow>
                           if 0xDC00 \<le> lo \<and> lo \<le> 0xDFFF
                           then Some (append_utf8 (0x10000 + (cp - 0xD800) * 1024 + (lo - 0xDC00)), drop 6 r)
                           else None)
                    else None)
                 else if 0xDC00 \<le> cp \<and> cp \<le> 0xDFFF then None
                 else Some (append_utf8 cp, r))
          else None)"

lemma read_escape_shorter: "read_escape s = Some (v, r) \<Longrightarrow> length r < length s"
  by (auto simp: read_escape_def Let_def split: list.splits if_splits option.splits)

text \<open>From behind the opening quote: the value of the literal and the text behind the closing quote.\<close>

function read_json_string :: "string \<Rightarrow> (string \<times> string) option" where
  "read_json_string [] = None"
| "read_json_string (c # cs) =
     (if uchar c = 0x22 then Some ([], cs)
      else if uchar c < 0x20 then None
      else if uchar c = 0x5C then
        (case read_escape cs of
           None \<Rightarrow> None
         | Some (v, r) \<Rightarrow> map_option (\<lambda>(w, rest). (v @ w, rest)) (read_json_string r))
      else if uchar c \<ge> 0x80 then
        (let len = utf8_sequence_length (c # cs)
         in if len = 0 then None
            else map_option (\<lambda>(w, rest). (take len (c # cs) @ w, rest)) (read_json_string (drop len (c # cs))))
      else map_option (\<lambda>(w, rest). (c # w, rest)) (read_json_string cs))"
  by pat_completeness auto
termination by (relation "measure length") (auto dest: read_escape_shorter)

lemma read_json_string_shorter: "read_json_string s = Some (v, r) \<Longrightarrow> length r < length s"
  by (induction s arbitrary: v rule: read_json_string.induct)
    (fastforce simp: Let_def dest: read_escape_shorter split: if_splits option.splits)+

lemma length_skip_ws: "length (skip_ws s) \<le> length s"
  by (simp add: skip_ws_def length_dropWhile_le)

text \<open>\<^verbatim>\<open>row.emplace\<close> does not replace an entry.\<close>

definition row_emplace :: "string \<Rightarrow> string \<Rightarrow> row \<Rightarrow> row" where
  "row_emplace k v r = (if row_get r k = None then row_set k v r else r)"

text \<open>One \<^verbatim>\<open>"key": "value"\<close> pair; \<open>prev\<close> is the key before it, if there is one.\<close>

definition read_pair :: "string option \<Rightarrow> string \<Rightarrow> (string \<times> string \<times> string) option" where
  "read_pair prev s =
     (case s of
        [] \<Rightarrow> None
      | q # s1 \<Rightarrow>
          if uchar q \<noteq> 0x22 then None else
          case read_json_string s1 of None \<Rightarrow> None | Some (key, s2) \<Rightarrow>
          if (case prev of None \<Rightarrow> False | Some p \<Rightarrow> \<not> p < key) then None else
          case skip_ws s2 of
            [] \<Rightarrow> None
          | c # s3 \<Rightarrow>
              if uchar c \<noteq> 0x3A then None else
              case skip_ws s3 of
                [] \<Rightarrow> None
              | q2 # s4 \<Rightarrow>
                  if uchar q2 \<noteq> 0x22 then None else
                  map_option (\<lambda>(v, r). (key, v, r)) (read_json_string s4))"

lemma read_pair_shorter: "read_pair prev s = Some (k, v, r) \<Longrightarrow> length r < length s"
proof -
  assume "read_pair prev s = Some (k, v, r)"
  then obtain q s1 s2 c s3 q2 s4 where "s = q # s1" "read_json_string s1 = Some (k, s2)"
    "skip_ws s2 = c # s3" "skip_ws s3 = q2 # s4" "read_json_string s4 = Some (v, r)"
    by (auto simp: read_pair_def split: list.splits if_splits option.splits)
  then show ?thesis
    using read_json_string_shorter [of s1 k s2] read_json_string_shorter [of s4 v r] length_skip_ws [of s2] length_skip_ws [of s3]
    by simp
qed

function read_pairs :: "string option \<Rightarrow> string \<Rightarrow> row \<Rightarrow> (row \<times> string) option" where
  "read_pairs prev s row =
     (case read_pair prev s of
        None \<Rightarrow> None
      | Some (key, value, s1) \<Rightarrow>
          let row = row_emplace key value row in
          case skip_ws s1 of
            [] \<Rightarrow> None
          | c # s2 \<Rightarrow>
              if uchar c = 0x7D then Some (row, s2)
              else if uchar c \<noteq> 0x2C then None
              else read_pairs (Some key) (skip_ws s2) row)"
  by pat_completeness auto
termination
proof (relation "measure (\<lambda>(prev, s, row). length s)", goal_cases)
  case (2 prev s row p key q v s1 row' c s2)
  then show ?case
    using read_pair_shorter [of prev s key v s1] length_skip_ws [of s1] length_skip_ws [of s2] by simp
qed simp

declare read_pairs.simps [simp del]

text \<open>From behind the opening brace.\<close>

definition read_flat_object :: "string \<Rightarrow> (row \<times> string) option" where
  "read_flat_object s =
     (case skip_ws s of
        [] \<Rightarrow> read_pairs None [] []
      | c # s1 \<Rightarrow> if uchar c = 0x7D then Some ([], s1) else read_pairs None (c # s1) [])"

definition row_from_json :: "(string \<Rightarrow> row option) \<Rightarrow> string \<Rightarrow> row option" where
  "row_from_json parse text =
     (case skip_ws text of
        [] \<Rightarrow> parse text
      | c # s \<Rightarrow>
          if uchar c = 0x7B then
            (case read_flat_object s of
               None \<Rightarrow> parse text
             | Some (row, rest) \<Rightarrow> if skip_ws rest = [] then Some row else parse text)
          else parse text)"

fun append_pairs_json :: "(string \<Rightarrow> string option) \<Rightarrow> bool \<Rightarrow> (string \<times> string) list \<Rightarrow> string option" where
  "append_pairs_json dump first [] = Some []"
| "append_pairs_json dump first ((k, v) # kvs) =
     (case append_json_string dump k of None \<Rightarrow> None | Some a \<Rightarrow>
      case append_json_string dump v of None \<Rightarrow> None | Some b \<Rightarrow>
      map_option (\<lambda>t. (if first then [] else [CHR 0x2C]) @ a @ [CHR 0x3A] @ b @ t) (append_pairs_json dump False kvs))"

definition append_row_json :: "(string \<Rightarrow> string option) \<Rightarrow> row \<Rightarrow> string option" where
  "append_row_json dump row =
     map_option (\<lambda>t. [CHR 0x7B] @ t @ [CHR 0x7D]) (append_pairs_json dump True (sort_key fst row))"

definition row_to_json :: "(string \<Rightarrow> string option) \<Rightarrow> row \<Rightarrow> string option" where
  "row_to_json dump row = append_row_json dump row"

lemma read_pairs_shorter: "read_pairs prev s row = Some (row', r) \<Longrightarrow> length r < length s"
proof (induction prev s row rule: read_pairs.induct)
  case (1 prev s row)
  from "1.prems" obtain key v s1 c s2 where p: "read_pair prev s = Some (key, v, s1)" "skip_ws s1 = c # s2"
    and c: "uchar c = 0x7D \<and> r = s2 \<or> uchar c = 0x2C \<and> read_pairs (Some key) (skip_ws s2) (row_emplace key v row) = Some (row', r)"
    by (subst (asm) read_pairs.simps) (auto simp: Let_def split: option.splits list.splits if_splits)
  have "length s2 < length s" using read_pair_shorter [OF p(1)] length_skip_ws [of s1] p(2) by simp
  moreover have "length r < length (skip_ws s2)" if "r \<noteq> s2"
    using "1.IH" [OF p(1) refl refl _ p(2)] c that by auto
  ultimately show ?case using length_skip_ws [of s2] by fastforce
qed

lemma read_flat_object_shorter:
  assumes "read_flat_object s = Some (row, r)" shows "length r < length s"
proof -
  obtain c s1 where s: "skip_ws s = c # s1" "r = s1 \<or> read_pairs None (c # s1) [] = Some (row, r)"
    using assms by (auto simp: read_flat_object_def read_pairs.simps [of None "[]"] read_pair_def split: list.splits if_splits)
  then show ?thesis using read_pairs_shorter [of None "c # s1" "[]" row r] length_skip_ws [of s] by auto
qed

text \<open>The array of rows: \<^verbatim>\<open>rows\<close> are the rows read so far.\<close>

function read_rows :: "string \<Rightarrow> row list \<Rightarrow> (row list \<times> string) option" where
  "read_rows s rows =
     (case s of
        [] \<Rightarrow> None
      | c # s1 \<Rightarrow>
          if uchar c \<noteq> 0x7B then None else
          case read_flat_object s1 of
            None \<Rightarrow> None
          | Some (row, s2) \<Rightarrow>
              let rows = rows @ [row] in
              case skip_ws s2 of
                [] \<Rightarrow> None
              | d # s3 \<Rightarrow>
                  if uchar d = 0x5D then Some (rows, s3)
                  else if uchar d \<noteq> 0x2C then None
                  else read_rows (skip_ws s3) rows)"
  by pat_completeness auto
termination
proof (relation "measure (\<lambda>(s, rows). length s)", goal_cases)
  case (2 s rows c s1 p row s2 rows' d s3)
  then show ?case
    using read_flat_object_shorter [of s1 row s2] length_skip_ws [of s2] length_skip_ws [of s3] by simp
qed simp

declare read_rows.simps [simp del]

definition rows_from_json :: "(string \<Rightarrow> row list option) \<Rightarrow> string \<Rightarrow> row list option" where
  "rows_from_json parse text =
     (case skip_ws text of
        [] \<Rightarrow> parse text
      | c # s \<Rightarrow>
          if uchar c = 0x5B then
            (case (case skip_ws s of
                     [] \<Rightarrow> read_rows [] []
                   | d # s1 \<Rightarrow> if uchar d = 0x5D then Some ([], s1) else read_rows (d # s1) []) of
               None \<Rightarrow> parse text
             | Some (rows, rest) \<Rightarrow> if skip_ws rest = [] then Some rows else parse text)
          else parse text)"

fun append_rows_json :: "(string \<Rightarrow> string option) \<Rightarrow> bool \<Rightarrow> row list \<Rightarrow> string option" where
  "append_rows_json dump first [] = Some []"
| "append_rows_json dump first (row # rows) =
     (case append_row_json dump row of None \<Rightarrow> None | Some a \<Rightarrow>
      map_option (\<lambda>t. (if first then [] else [CHR 0x2C]) @ a @ t) (append_rows_json dump False rows))"

definition rows_to_json :: "(string \<Rightarrow> string option) \<Rightarrow> row list \<Rightarrow> string option" where
  "rows_to_json dump rows = map_option (\<lambda>t. [CHR 0x5B] @ t @ [CHR 0x5D]) (append_rows_json dump True rows)"

section \<open>Strings\<close>

lemma uchar_lt [simp]: "uchar c < 256"
  by (simp add: uchar_def)

lemma uchar_char_of [simp]: "n < 256 \<Longrightarrow> uchar (char_of n) = n"
  by (simp add: uchar_def)

lemma char_of_uchar [simp]: "char_of (uchar c) = c"
  by (simp add: uchar_def)

lemma uchar_inject: "uchar c = uchar d \<longleftrightarrow> c = d"
  by (simp add: uchar_def)

lemma cont_take: "k < n \<Longrightarrow> n \<le> length s \<Longrightarrow> cont (take n s @ x) k lo hi = cont s k lo hi"
  by (auto simp: cont_def nth_append)

lemma utf8_sequence_length_last:
  "utf8_sequence_length s = 0 \<or>
   utf8_sequence_length s \<in> {2, 3, 4} \<and> cont s (utf8_sequence_length s - 1) 0x80 0xBF"
proof -
  let ?P = "\<lambda>n. n = 0 \<or> n \<in> {2, 3, 4} \<and> cont s (n - 1) 0x80 0xBF"
  have ifI: "?P (if c then a else b)" if "c \<Longrightarrow> ?P a" "\<not> c \<Longrightarrow> ?P b" for a b c
    using that by (cases c) simp_all
  show ?thesis unfolding utf8_sequence_length_def Let_def
    by ((rule ifI)+; (elim conjE)?; simp only: refl simp_thms insert_iff numeral_eq_iff) simp_all
qed

lemma utf8_sequence_length_bounds:
  "utf8_sequence_length s \<le> length s" "utf8_sequence_length s \<in> {0, 2, 3, 4}"
  using utf8_sequence_length_last [of s] by (auto simp: cont_def)

lemma utf8_sequence_length_take:
  assumes n: "utf8_sequence_length s = n" "n \<noteq> 0" "s \<noteq> []"
  shows "utf8_sequence_length (take n s @ x) = n"
proof -
  have le: "n \<le> length s" using utf8_sequence_length_bounds(1) [of s] n by simp
  have hd: "hd (take n s @ x) = hd s" using n by (cases s; cases n) auto
  have "n \<in> {2, 3, 4}" using utf8_sequence_length_bounds(2) [of s] n by auto
  then show ?thesis
    using n(1) le unfolding utf8_sequence_length_def Let_def hd
    by (auto simp: cont_take split: if_splits)
qed

lemma hex_digit_value:
  assumes "n < 16" shows "hex_value (hex_digit n) = Some n"
proof -
  have "n \<in> set [0..<16]" using assms by simp
  then show ?thesis by (auto simp: upt_rec hex_digit_def hex_value_def uchar_def)
qed

lemma escape_char_cases:
  assumes "uchar c < 0x20 \<or> uchar c = 0x22 \<or> uchar c = 0x5C"
  obtains "uchar c \<in> {0x22, 0x5C, 0x08, 0x0C, 0x0A, 0x0D, 0x09}"
    | "uchar c < 0x20" "escape_char c =
        [CHR 0x5C, CHR ''u'', CHR ''0'', CHR ''0'', hex_digit (uchar c div 16), hex_digit (uchar c mod 16)]"
  using assms by (cases "uchar c \<in> {0x22, 0x5C, 0x08, 0x0C, 0x0A, 0x0D, 0x09}") (simp_all add: escape_char_def)

lemma read_escape_char:
  assumes "uchar c < 0x20 \<or> uchar c = 0x22 \<or> uchar c = 0x5C"
  shows "\<exists>e. escape_char c = CHR 0x5C # e \<and> read_escape (e @ s) = Some ([c], s)"
  using assms
proof (cases rule: escape_char_cases)
  case 1
  then have "uchar c \<in> {uchar (CHR 0x22), uchar (CHR 0x5C), uchar (CHR 0x08), uchar (CHR 0x0C), uchar (CHR 0x0A),
      uchar (CHR 0x0D), uchar (CHR 0x09)}"
    by (simp add: uchar_def)
  then consider "c = CHR 0x22" | "c = CHR 0x5C" | "c = CHR 0x08" | "c = CHR 0x0C" | "c = CHR 0x0A" | "c = CHR 0x0D" | "c = CHR 0x09"
    by (auto simp: uchar_inject)
  then show ?thesis by cases (simp_all add: escape_char_def read_escape_def uchar_def)
next
  case 2
  then have "read_hex4 (CHR ''0'' # CHR ''0'' # hex_digit (uchar c div 16) # hex_digit (uchar c mod 16) # s) = Some (uchar c)"
    by (simp add: hex_digit_value) (simp add: hex_value_def uchar_def)
  moreover have "append_utf8 (uchar c) = [c]" using 2 by (simp add: append_utf8_def)
  ultimately show ?thesis using 2 by (simp add: read_escape_def) (simp add: uchar_def)
qed

lemma read_json_string_escape:
  "json_escape s = Some t \<Longrightarrow> read_json_string (t @ CHR 0x22 # rest) = Some (s, rest)"
proof (induction s arbitrary: t rule: json_escape.induct)
  case 1
  then show ?case by (simp add: uchar_def)
next
  case (2 c cs)
  consider (plain) "uchar c \<ge> 0x20 \<and> uchar c \<noteq> 0x22 \<and> uchar c \<noteq> 0x5C \<and> uchar c < 0x80"
    | (utf8) "uchar c \<ge> 0x80" | (esc) "uchar c < 0x20 \<or> uchar c = 0x22 \<or> uchar c = 0x5C" by linarith
  then show ?case
  proof cases
    case plain
    with "2.prems" obtain t' where t: "json_escape cs = Some t'" "t = c # t'" by auto
    from "2.IH"(1) [OF plain t(1)] show ?thesis using plain t by simp
  next
    case utf8
    define n where "n = utf8_sequence_length (c # cs)"
    from utf8 "2.prems" obtain t' where t: "n \<noteq> 0" "json_escape (drop n (c # cs)) = Some t'" "t = take n (c # cs) @ t'"
      by (auto simp: Let_def n_def split: if_splits)
    have len: "utf8_sequence_length (t @ x) = n" for x
      using utf8_sequence_length_take [of "c # cs" n "t' @ x"] t n_def by simp
    have n: "n \<le> length (c # cs)" using utf8_sequence_length_bounds(1) [of "c # cs"] n_def by auto
    obtain t2 where t2: "t = c # t2" using t by (cases n) auto
    have "read_json_string (t' @ CHR 0x22 # rest) = Some (drop n (c # cs), rest)"
      using "2.IH"(2) utf8 t n_def by (auto simp: Let_def)
    moreover have "drop n (t @ CHR 0x22 # rest) = t' @ CHR 0x22 # rest" "take n (t @ CHR 0x22 # rest) = take n (c # cs)"
      using t(3) n by simp_all
    ultimately show ?thesis
      using utf8 len [of "CHR 0x22 # rest"] t(1) append_take_drop_id [of n "c # cs"] by (simp add: t2 Let_def)
  next
    case esc
    then have g: "\<not> (uchar c \<ge> 0x20 \<and> uchar c \<noteq> 0x22 \<and> uchar c \<noteq> 0x5C \<and> uchar c < 0x80)" "\<not> uchar c \<ge> 0x80" by auto
    with "2.prems" obtain t' where t: "json_escape cs = Some t'" "t = escape_char c @ t'" by auto
    obtain e where e: "escape_char c = CHR 0x5C # e" "read_escape (e @ t' @ CHR 0x22 # rest) = Some ([c], t' @ CHR 0x22 # rest)"
      using read_escape_char [OF esc] by blast
    from "2.IH"(3) [OF g t(1)] e show ?thesis using t by (simp add: uchar_def)
  qed
qed

section \<open>Rows\<close>

text \<open>A row whose strings are all valid UTF-8.\<close>

definition utf8_row :: "row \<Rightarrow> bool" where
  "utf8_row row \<longleftrightarrow> (\<forall>(k, v) \<in> set row. json_escape k \<noteq> None \<and> json_escape v \<noteq> None)"

lemma append_json_string_utf8:
  "json_escape s \<noteq> None \<Longrightarrow> append_json_string dump s = Some (CHR 0x22 # the (json_escape s) @ [CHR 0x22])"
  by (auto simp: append_json_string_def)

lemma read_json_string_the:
  "json_escape s \<noteq> None \<Longrightarrow> read_json_string (the (json_escape s) @ CHR 0x22 # rest) = Some (s, rest)"
  using read_json_string_escape by auto

lemma skip_ws_Cons: "uchar c \<notin> {0x20, 0x09, 0x0A, 0x0D} \<Longrightarrow> skip_ws (c # s) = c # s"
  by (simp add: skip_ws_def)

lemma uchar_punctuation [simp]:
  "uchar (CHR 0x22) = 0x22" "uchar (CHR 0x2C) = 0x2C" "uchar (CHR 0x3A) = 0x3A"
  "uchar (CHR 0x5B) = 0x5B" "uchar (CHR 0x5D) = 0x5D" "uchar (CHR 0x7B) = 0x7B" "uchar (CHR 0x7D) = 0x7D"
  by (simp_all add: uchar_def)

lemma skip_ws_punctuation [simp]:
  "skip_ws (CHR 0x22 # s) = CHR 0x22 # s" "skip_ws (CHR 0x2C # s) = CHR 0x2C # s" "skip_ws (CHR 0x3A # s) = CHR 0x3A # s"
  "skip_ws (CHR 0x5B # s) = CHR 0x5B # s" "skip_ws (CHR 0x5D # s) = CHR 0x5D # s" "skip_ws (CHR 0x7B # s) = CHR 0x7B # s"
  "skip_ws (CHR 0x7D # s) = CHR 0x7D # s" "skip_ws [] = []"
  by (simp_all add: skip_ws_Cons) (simp add: skip_ws_def)

lemma read_pair_written:
  assumes "json_escape k \<noteq> None" "json_escape v \<noteq> None" and "case prev of None \<Rightarrow> True | Some p \<Rightarrow> p < k"
  shows "read_pair prev (CHR 0x22 # the (json_escape k) @ CHR 0x22 # CHR 0x3A # CHR 0x22 # the (json_escape v) @ CHR 0x22 # rest)
    = Some (k, v, rest)"
  using assms by (auto simp: read_pair_def read_json_string_the split: option.splits)

lemma append_pairs_json_comma:
  "append_pairs_json dump False (kv # kvs) = map_option (\<lambda>t. CHR 0x2C # t) (append_pairs_json dump True (kv # kvs))"
  by (cases kv) (auto simp: option.map_comp comp_def split: option.splits)

lemma row_emplace_end:
  assumes "\<forall>(k', v') \<in> set row. k' < k" shows "row_emplace k v row = row @ [(k, v)]"
proof -
  have "row_get row k = None" using assms by (auto simp: map_of_eq_None_iff)
  moreover have "row_set k v row = row @ [(k, v)]"
    using assms by (induction row) auto
  ultimately show ?thesis by (simp add: row_emplace_def)
qed

lemma read_pairs_written:
  assumes "utf8_row kvs" and "kvs \<noteq> []" and "row_wf (row @ kvs)"
    and "case prev of None \<Rightarrow> True | Some p \<Rightarrow> p < fst (hd kvs)"
  shows "\<exists>t. append_pairs_json dump True kvs = Some t \<and> t \<noteq> [] \<and> hd t = CHR 0x22 \<and>
    read_pairs prev (t @ CHR 0x7D # rest) row = Some (row @ kvs, rest)"
  using assms
proof (induction kvs arbitrary: prev row)
  case (Cons kv kvs)
  obtain k v where kv: "kv = (k, v)" by (cases kv)
  let ?a = "CHR 0x22 # the (json_escape k) @ CHR 0x22 # CHR 0x3A # CHR 0x22 # the (json_escape v) @ [CHR 0x22]"
  have u: "json_escape k \<noteq> None" "json_escape v \<noteq> None" "utf8_row kvs"
    using Cons.prems(1) kv by (auto simp: utf8_row_def)
  have emplace: "row_emplace k v row = row @ [(k, v)]"
    using Cons.prems(3) kv by (intro row_emplace_end) (auto simp: row_wf_def sorted_wrt_append)
  have pair: "read_pair prev (?a @ s) = Some (k, v, s)" for s
    using read_pair_written [OF u(1,2), of prev s] Cons.prems(4) kv by (simp split: option.splits)
  show ?case
  proof (cases kvs)
    case Nil
    have "append_pairs_json dump True (kv # kvs) = Some ?a"
      using u by (simp add: kv Nil append_json_string_utf8)
    moreover have "read_pairs prev (?a @ CHR 0x7D # rest) row = Some (row @ [(k, v)], rest)"
      using pair [of "CHR 0x7D # rest"] emplace by (subst read_pairs.simps) (simp add: Let_def)
    ultimately show ?thesis using Nil kv by simp
  next
    case (Cons kv' kvs')
    obtain t where t: "append_pairs_json dump True kvs = Some t" "t \<noteq> []" "hd t = CHR 0x22"
      "read_pairs (Some k) (t @ CHR 0x7D # rest) (row @ [(k, v)]) = Some ((row @ [(k, v)]) @ kvs, rest)"
      using Cons.IH [of "row @ [(k, v)]" "Some k"] u(3) Cons Cons.prems(3) kv by (auto simp: row_wf_def sorted_wrt_append)
    have "append_pairs_json dump False kvs = Some (CHR 0x2C # t)"
      using t(1) append_pairs_json_comma [of dump kv' kvs'] Cons by simp
    then have "append_pairs_json dump True (kv # kvs) = Some (?a @ CHR 0x2C # t)"
      using u by (simp add: kv append_json_string_utf8)
    moreover have "skip_ws (t @ CHR 0x7D # rest) = t @ CHR 0x7D # rest" using t(2,3) by (cases t) auto
    then have "read_pairs prev ((?a @ CHR 0x2C # t) @ CHR 0x7D # rest) row = Some (row @ kv # kvs, rest)"
      using pair [of "CHR 0x2C # t @ CHR 0x7D # rest"] emplace t(4) kv by (subst read_pairs.simps) (simp add: Let_def)
    ultimately show ?thesis by auto
  qed
qed simp

lemma sort_key_row: "row_wf row \<Longrightarrow> sort_key fst row = row"
  by (rule sort_key_id_if_sorted) (auto simp: row_wf_def strict_sorted_iff)

lemma read_flat_object_written:
  assumes "row_wf row" and "utf8_row row"
  shows "\<exists>t. append_row_json dump row = Some (CHR 0x7B # t) \<and> read_flat_object (t @ rest) = Some (row, rest)"
proof (cases row)
  case Nil
  then show ?thesis by (simp add: append_row_json_def read_flat_object_def)
next
  case (Cons kv kvs)
  then obtain t where t: "append_pairs_json dump True row = Some t" "t \<noteq> []" "hd t = CHR 0x22"
      "read_pairs None (t @ CHR 0x7D # rest) [] = Some (row, rest)"
    using read_pairs_written [of row "[]" None] assms by auto
  obtain t2 where t2: "t = CHR 0x22 # t2" using t(2,3) by (cases t) auto
  show ?thesis
    using t(1,4) by (simp add: append_row_json_def sort_key_row [OF assms(1)] read_flat_object_def t2)
qed

lemma row_json_text:
  assumes "row_wf row" and "utf8_row row"
  obtains s where "row_to_json dump row = Some s" "row_from_json parse s = Some row"
proof -
  obtain t where "append_row_json dump row = Some (CHR 0x7B # t)" "read_flat_object (t @ []) = Some (row, [])"
    using read_flat_object_written [OF assms] by blast
  then show ?thesis
    by (intro that [of "CHR 0x7B # t"]) (simp_all add: row_to_json_def row_from_json_def skip_ws_def uchar_def)
qed

text \<open>
  C9: A row is read back from its JSON text as it was written, by the direct reader alone: whatever
  the general parser would do with the text, it is not called. (A \<^verbatim>\<open>Row\<close> is any row whose strings are UTF-8, and for every
  such row there is a text.)
\<close>

theorem row_json_roundtrip:
  assumes "row_wf row" and "utf8_row row"
  shows "\<exists>text. row_to_json dump row = Some text \<and> row_from_json parse text = Some row"
  using row_json_text [OF assms] by metis

theorem row_json_roundtrip_witness:
  "\<exists>text. row_to_json (\<lambda>_. None) [(''id'', ''7''), (''name'', ''a'' @ [CHR 0x22, CHR 0x0A, CHR 0xC3, CHR 0xA9])] = Some text \<and>
    row_from_json (\<lambda>_. None) text = Some [(''id'', ''7''), (''name'', ''a'' @ [CHR 0x22, CHR 0x0A, CHR 0xC3, CHR 0xA9])]"
  by (rule row_json_roundtrip) code_simp+

lemma append_row_json_brace: "append_row_json dump row = Some t \<Longrightarrow> t \<noteq> [] \<and> hd t = CHR 0x7B"
  by (auto simp: append_row_json_def)

lemma append_rows_json_comma:
  "append_rows_json dump False (row # rows) = map_option (\<lambda>t. CHR 0x2C # t) (append_rows_json dump True (row # rows))"
  by (auto simp: option.map_comp comp_def split: option.splits)

lemma read_rows_written:
  assumes "\<forall>row \<in> set rows. row_wf row \<and> utf8_row row" and "rows \<noteq> []"
  shows "\<exists>t. append_rows_json dump True rows = Some t \<and> t \<noteq> [] \<and> hd t = CHR 0x7B \<and>
    read_rows (t @ CHR 0x5D # rest) acc = Some (acc @ rows, rest)"
  using assms
proof (induction rows arbitrary: acc)
  case (Cons row rows)
  have ok: "row_wf row" "utf8_row row" using Cons.prems by auto
  show ?case
  proof (cases rows)
    case Nil
    obtain a where "append_row_json dump row = Some (CHR 0x7B # a)"
      "read_flat_object (a @ CHR 0x5D # rest) = Some (row, CHR 0x5D # rest)"
      using read_flat_object_written [OF ok] by blast
    then show ?thesis using Nil by (simp add: read_rows.simps Let_def)
  next
    case (Cons row' rows')
    obtain t where t: "append_rows_json dump True rows = Some t" "t \<noteq> []" "hd t = CHR 0x7B"
      "read_rows (t @ CHR 0x5D # rest) (acc @ [row]) = Some ((acc @ [row]) @ rows, rest)"
      using Cons.IH [of "acc @ [row]"] Cons Cons.prems by auto
    obtain a where a: "append_row_json dump row = Some (CHR 0x7B # a)"
      "read_flat_object (a @ CHR 0x2C # t @ CHR 0x5D # rest) = Some (row, CHR 0x2C # t @ CHR 0x5D # rest)"
      using read_flat_object_written [OF ok] by blast
    have "append_rows_json dump False rows = Some (CHR 0x2C # t)"
      using t(1) append_rows_json_comma [of dump row' rows'] Cons by simp
    moreover have "skip_ws (t @ CHR 0x5D # rest) = t @ CHR 0x5D # rest" using t(2,3) by (cases t) auto
    ultimately show ?thesis using a t(4) by (subst read_rows.simps) (simp add: Let_def)
  qed
qed simp

text \<open>
  The same for the array of rows a table file holds: every list of rows whose strings are UTF-8 is read
  back as written, by the direct reader alone.
\<close>

theorem rows_json_roundtrip:
  assumes "\<forall>row \<in> set rows. row_wf row \<and> utf8_row row"
  shows "\<exists>text. rows_to_json dump rows = Some text \<and> rows_from_json parse text = Some rows"
proof (cases rows)
  case Nil
  then show ?thesis by (simp add: rows_to_json_def rows_from_json_def)
next
  case (Cons row rows')
  then obtain t where t: "append_rows_json dump True rows = Some t" "t \<noteq> []" "hd t = CHR 0x7B"
    "read_rows (t @ CHR 0x5D # []) [] = Some (rows, [])"
    using read_rows_written [OF assms, of dump "[]" "[]"] by auto
  obtain t2 where t2: "t = CHR 0x7B # t2" using t(2,3) by (cases t) auto
  show ?thesis using t(1,4) by (simp add: rows_to_json_def rows_from_json_def t2)
qed

theorem rows_json_roundtrip_witness:
  "\<exists>text. rows_to_json (\<lambda>_. None) [[(''id'', ''7'')], [], [(''id'', ''8''), (''x'', [CHR 0x09])]] = Some text \<and>
    rows_from_json (\<lambda>_. None) text = Some [[(''id'', ''7'')], [], [(''id'', ''8''), (''x'', [CHR 0x09])]]"
  by (rule rows_json_roundtrip) code_simp

end
