(* ===== verification/Mvcc.thy ===== *)
theory Mvcc
  imports Prelude
begin

text \<open>
  Multi-version visibility: which version of a row a reader sees, which versions a vacuum may remove and what undoing a
  transaction does to the versions (\<^verbatim>\<open>core/src/transaction/txn_manager.cpp\<close>: \<^verbatim>\<open>visible_under\<close>;
  \<^verbatim>\<open>core/src/engine/executor/executor_ddl.cpp\<close>: \<^verbatim>\<open>is_visible\<close>, \<^verbatim>\<open>is_visible_for_read\<close>, \<^verbatim>\<open>oldest_active_txn_id\<close>,
  \<^verbatim>\<open>is_vacuumable\<close>; \<^verbatim>\<open>executor_dml.cpp\<close>: the row pass of \<^verbatim>\<open>maybe_auto_vacuum\<close>; \<^verbatim>\<open>executor_txn.cpp\<close>: the row
  pass of \<^verbatim>\<open>apply_rollback\<close>). A version carries the ids of the transactions that created and ended it as decimal
  texts in its columns \<^verbatim>\<open>_xmin\<close> and \<^verbatim>\<open>_xmax\<close>.
\<close>

section \<open>Definitions\<close>

text \<open>\<^verbatim>\<open>std::to_string\<close> of an unsigned number.\<close>

fun to_string :: "nat \<Rightarrow> string" where
  "to_string n = (if n < 10 then [char_of (48 + n)] else to_string (n div 10) @ [char_of (48 + n mod 10)])"

declare to_string.simps [simp del]

text \<open>
  \<^verbatim>\<open>std::stoull\<close> in base 10: white space, a sign, then as many digits as there are; no digit and a value over 64
  bits throw (\<^const>\<open>None\<close>), and a minus sign negates modulo 2^64.
\<close>

definition is_digit :: "char \<Rightarrow> bool" where
  "is_digit c \<longleftrightarrow> 48 \<le> (of_char c :: nat) \<and> (of_char c :: nat) \<le> 57"

definition is_space :: "char \<Rightarrow> bool" where
  "is_space c \<longleftrightarrow> (of_char c :: nat) = 32 \<or> 9 \<le> (of_char c :: nat) \<and> (of_char c :: nat) \<le> 13"

definition digits_value :: "string \<Rightarrow> nat" where
  "digits_value ds = fold (\<lambda>c v. v * 10 + (of_char c - 48)) ds 0"

definition unsigned_value :: "bool \<Rightarrow> string \<Rightarrow> u64 option" where
  "unsigned_value neg s =
     (let ds = takeWhile is_digit s; v = digits_value ds
      in if ds = [] \<or> v \<ge> 2 ^ 64 then None
         else Some (if neg then - word_of_nat v else word_of_nat v))"

definition stoull :: "string \<Rightarrow> u64 option" where
  "stoull s =
     (case dropWhile is_space s of
        [] \<Rightarrow> None
      | c # r \<Rightarrow> if c = CHR ''-'' then unsigned_value True r
                else if c = CHR ''+'' then unsigned_value False r
                else unsigned_value False (c # r))"

definition parse_txn_id :: "row \<Rightarrow> string \<Rightarrow> u64" where
  "parse_txn_id row col =
     (case row_get row col of
        None \<Rightarrow> 0
      | Some v \<Rightarrow> (case stoull v of None \<Rightarrow> 0 | Some n \<Rightarrow> n))"

record SnapshotCtx =
  self_txn_id :: u64
  cutoff :: u64
  in_progress :: "u64 set"

definition committed_as_of :: "SnapshotCtx \<Rightarrow> u64 \<Rightarrow> bool" where
  "committed_as_of ctx i \<longleftrightarrow> i = 0 \<or> i < cutoff ctx \<and> i \<notin> in_progress ctx"

definition visible_under :: "row \<Rightarrow> SnapshotCtx \<Rightarrow> bool" where
  "visible_under row ctx =
     (let xmin = parse_txn_id row ''_xmin'' in
      if xmin \<noteq> self_txn_id ctx \<and> \<not> committed_as_of ctx xmin then False
      else case row_get row ''_xmax'' of
        None \<Rightarrow> True
      | Some s \<Rightarrow>
          if s = ''0'' then True
          else let xmax = parse_txn_id row ''_xmax'' in
            if xmax = self_txn_id ctx then False
            else if committed_as_of ctx xmax then False
            else True)"

definition is_visible :: "row \<Rightarrow> bool" where
  "is_visible row = (case row_get row ''_xmax'' of None \<Rightarrow> True | Some s \<Rightarrow> s = ''0'')"

text \<open>The executor's copy of the same rule.\<close>

definition is_visible_for_read :: "row \<Rightarrow> SnapshotCtx \<Rightarrow> bool" where
  "is_visible_for_read row ctx = visible_under row ctx"

definition oldest_active_txn_id :: "u64 set \<Rightarrow> u64 \<Rightarrow> u64" where
  "oldest_active_txn_id active next_id = (if active = {} then next_id else Min active)"

definition is_vacuumable :: "row \<Rightarrow> u64 \<Rightarrow> bool" where
  "is_vacuumable row oldest =
     (case row_get row ''_xmax'' of
        None \<Rightarrow> False
      | Some s \<Rightarrow>
          if s = ''0'' then False
          else let xmax = parse_txn_id row ''_xmax'' in xmax \<noteq> 0 \<and> xmax < oldest)"

definition vacuum_rows :: "u64 \<Rightarrow> row list \<Rightarrow> row list" where
  "vacuum_rows horizon rows = filter (\<lambda>r. \<not> is_vacuumable r horizon) rows"

text \<open>\<^verbatim>\<open>apply_rollback\<close>: drop what the transaction created, revive what it ended.\<close>

definition revive :: "string \<Rightarrow> row \<Rightarrow> row" where
  "revive txn row = (if row_get row ''_xmax'' = Some txn then row_set ''_xmax'' ''0'' row else row)"

definition rollback_rows :: "u64 \<Rightarrow> row list \<Rightarrow> row list" where
  "rollback_rows txn_id rows =
     (let id_str = to_string (unat txn_id)
      in map (revive id_str) (filter (\<lambda>r. row_get r ''_xmin'' \<noteq> Some id_str) rows))"

section \<open>Transaction ids as text\<close>

lemma is_digit_char_of [simp]: "(n :: nat) < 10 \<Longrightarrow> is_digit (char_of (48 + n))"
  by (simp add: is_digit_def)

lemma to_string_digits: "\<forall>c \<in> set (to_string n). is_digit c"
  by (induction n rule: to_string.induct) (subst to_string.simps, simp)

lemma to_string_nonempty: "to_string n \<noteq> []"
  by (subst to_string.simps) simp

lemma digits_value_append: "digits_value (ds @ [c]) = digits_value ds * 10 + (of_char c - 48)"
  by (simp add: digits_value_def)

lemma digits_value_to_string [simp]: "digits_value (to_string n) = n"
proof (induction n rule: to_string.induct)
  case (1 n)
  show ?case
  proof (cases "n < 10")
    case True
    then show ?thesis by (subst to_string.simps) (simp add: digits_value_def)
  next
    case False
    then have "digits_value (to_string n) = n div 10 * 10 + n mod 10"
      using 1 by (subst to_string.simps) (simp add: digits_value_append)
    then show ?thesis by simp
  qed
qed

lemma is_digit_not_sign: "is_digit c \<Longrightarrow> \<not> is_space c \<and> c \<noteq> CHR ''-'' \<and> c \<noteq> CHR ''+''"
  by (auto simp: is_digit_def is_space_def)

lemma stoull_to_string [simp]: "stoull (to_string (unat t)) = Some t"
proof -
  obtain c r where cr: "to_string (unat t) = c # r" using to_string_nonempty by (cases "to_string (unat t)") auto
  have c: "is_digit c" using to_string_digits [of "unat t"] cr by simp
  have tw: "takeWhile is_digit (c # r) = c # r" using to_string_digits [of "unat t"] cr by (auto simp: takeWhile_eq_all_conv)
  have v: "digits_value (c # r) = unat t" using cr digits_value_to_string [of "unat t"] by simp
  have "unat t < 2 ^ 64" using unsigned_less [of t] by simp
  then have "unsigned_value False (c # r) = Some t"
    by (simp only: unsigned_value_def Let_def tw v) simp
  then show ?thesis using is_digit_not_sign [OF c] cr by (simp add: stoull_def)
qed

lemma to_string_inject [simp]: "to_string m = to_string n \<longleftrightarrow> m = n"
  by (metis digits_value_to_string)

lemma to_string_0: "to_string 0 = ''0''"
  by code_simp

section \<open>Visibility\<close>

text \<open>A transaction whose effects the reader sees: its own, or one committed as of the snapshot.\<close>

definition seen :: "SnapshotCtx \<Rightarrow> u64 \<Rightarrow> bool" where
  "seen ctx i \<longleftrightarrow> i = self_txn_id ctx \<or> committed_as_of ctx i"

abbreviation xmin_of :: "row \<Rightarrow> u64" where
  "xmin_of r \<equiv> parse_txn_id r ''_xmin''"

abbreviation xmax_of :: "row \<Rightarrow> u64" where
  "xmax_of r \<equiv> parse_txn_id r ''_xmax''"

lemma visible_under_iff:
  "visible_under row ctx \<longleftrightarrow> seen ctx (xmin_of row) \<and> (is_visible row \<or> \<not> seen ctx (xmax_of row))"
  by (auto simp: visible_under_def seen_def is_visible_def Let_def split: option.splits)

lemma seen_0: "seen ctx 0"
  by (simp add: seen_def committed_as_of_def)

lemma is_visible_xmax: "xmax_of row \<noteq> 0 \<Longrightarrow> \<not> is_visible row"
  by (auto simp: is_visible_def parse_txn_id_def stoull_def unsigned_value_def digits_value_def is_space_def is_digit_def
      split: option.splits)

text \<open>The versions of one row, oldest first: each was ended by the transaction that created the next.\<close>

fun version_chain :: "row list \<Rightarrow> bool" where
  "version_chain (v # w # vs) \<longleftrightarrow> xmax_of v = xmin_of w \<and> xmax_of v \<noteq> 0 \<and> version_chain (w # vs)"
| "version_chain _ \<longleftrightarrow> True"

text \<open>A writer ends only a version it can see: a reader that sees a writer sees those before it in the chain.\<close>

definition sees_history :: "SnapshotCtx \<Rightarrow> row list \<Rightarrow> bool" where
  "sees_history ctx vs \<longleftrightarrow> sorted_wrt (\<lambda>v w. seen ctx (xmin_of w) \<longrightarrow> seen ctx (xmin_of v)) vs"

lemma chain_visible:
  assumes "version_chain (v # vs)" and "sees_history ctx (v # vs)"
  shows "length (filter (\<lambda>r. visible_under r ctx) (v # vs)) \<le> 1 \<and>
    (seen ctx (xmin_of v) \<and> is_visible (last (v # vs)) \<longrightarrow> length (filter (\<lambda>r. visible_under r ctx) (v # vs)) = 1)"
  using assms
proof (induction vs arbitrary: v)
  case Nil
  then show ?case by (simp add: visible_under_iff)
next
  case (Cons w vs)
  have IH: "length (filter (\<lambda>r. visible_under r ctx) (w # vs)) \<le> 1 \<and>
    (seen ctx (xmin_of w) \<and> is_visible (last (w # vs)) \<longrightarrow> length (filter (\<lambda>r. visible_under r ctx) (w # vs)) = 1)"
    using Cons by (intro Cons.IH) (simp_all add: sees_history_def)
  have x: "xmax_of v = xmin_of w" "\<not> is_visible v" using Cons.prems(1) is_visible_xmax by auto
  show ?case
  proof (cases "seen ctx (xmin_of w)")
    case True
    then have "\<not> visible_under v ctx" using x by (simp add: visible_under_iff)
    then show ?thesis using IH True by simp
  next
    case False
    then have "\<forall>r \<in> set (w # vs). \<not> seen ctx (xmin_of r)"
      using Cons.prems(2) by (auto simp: sees_history_def)
    then have "filter (\<lambda>r. visible_under r ctx) (w # vs) = []" by (auto simp: visible_under_iff filter_empty_conv)
    moreover have "visible_under v ctx \<longleftrightarrow> seen ctx (xmin_of v)" using x False by (simp add: visible_under_iff)
    ultimately show ?thesis by (auto simp del: filter.simps simp: filter.simps(2) [of _ v])
  qed
qed

lemmas parse_txn_id_eval =
  parse_txn_id_def stoull_def unsigned_value_def digits_value_def is_digit_def is_space_def



section \<open>Vacuum\<close>

lemma vacuumable_invisible:
  assumes "is_vacuumable row horizon" and "horizon \<le> cutoff ctx" and "\<forall>i \<in> in_progress ctx. horizon \<le> i"
  shows "\<not> visible_under row ctx"
proof -
  have x: "xmax_of row \<noteq> 0" "xmax_of row < horizon"
    using assms(1) by (auto simp: is_vacuumable_def Let_def split: option.splits if_splits)
  then have "committed_as_of ctx (xmax_of row)" using assms(2,3) by (auto simp: committed_as_of_def)
  then show ?thesis using x is_visible_xmax by (simp add: visible_under_iff seen_def)
qed

lemma oldest_active_bounds:
  assumes "finite active" and "\<forall>i \<in> active. i < next"
  shows "oldest_active_txn_id active next \<le> next" and "\<forall>i \<in> active. oldest_active_txn_id active next \<le> i"
  using assms Min_in [of active] by (auto simp: oldest_active_txn_id_def less_imp_le)

lemma filter_vacuum:
  assumes "\<And>r. is_vacuumable r horizon \<Longrightarrow> \<not> P r"
  shows "filter P (vacuum_rows horizon rows) = filter P rows"
  using assms by (auto simp: vacuum_rows_def intro: filter_cong)

text \<open>
  C14: A vacuum takes nothing from a reader whose snapshot is taken at that moment (read committed, and every autocommit
  statement): the rows it sees are the same, in order, with and without the vacuum.
\<close>

theorem vacuum_keeps_current_reads:
  assumes "finite active" and "\<forall>i \<in> active. i < next"
  shows "filter (\<lambda>r. is_visible_for_read r \<lparr>self_txn_id = self, cutoff = next, in_progress = active\<rparr>)
      (vacuum_rows (oldest_active_txn_id active next) rows) =
    filter (\<lambda>r. is_visible_for_read r \<lparr>self_txn_id = self, cutoff = next, in_progress = active\<rparr>) rows"
  using oldest_active_bounds [OF assms]
  by (intro filter_vacuum) (auto simp: is_visible_for_read_def dest!: vacuumable_invisible)

theorem vacuum_keeps_current_reads_witness:
  "filter (\<lambda>r. is_visible_for_read r \<lparr>self_txn_id = 0, cutoff = 9, in_progress = {6}\<rparr>)
      (vacuum_rows (oldest_active_txn_id {6} 9) [[(''_xmax'', ''5''), (''_xmin'', ''3'')], [(''_xmax'', ''0''), (''_xmin'', ''5'')]]) =
    filter (\<lambda>r. is_visible_for_read r \<lparr>self_txn_id = 0, cutoff = 9, in_progress = {6}\<rparr>)
      [[(''_xmax'', ''5''), (''_xmin'', ''3'')], [(''_xmax'', ''0''), (''_xmin'', ''5'')]]"
  by (rule vacuum_keeps_current_reads) simp_all

section \<open>Rollback\<close>

text \<open>The ids of a version are written by \<^verbatim>\<open>std::to_string\<close>.\<close>

definition tagged :: "row \<Rightarrow> bool" where
  "tagged r \<longleftrightarrow> row_get r ''_xmin'' = Some (to_string (unat (xmin_of r))) \<and>
     (case row_get r ''_xmax'' of None \<Rightarrow> True | Some s \<Rightarrow> s = to_string (unat (xmax_of r)))"

lemma row_get_revive:
  "c \<noteq> ''_xmax'' \<Longrightarrow> row_get (revive i r) c = row_get r c"
  "row_get (revive i r) ''_xmax'' = (if row_get r ''_xmax'' = Some i then Some ''0'' else row_get r ''_xmax'')"
  by (simp_all add: revive_def)

lemma rolled_back_visible:
  assumes "tagged r" and t: "\<not> seen ctx t"
  shows "row_get r ''_xmin'' = Some (to_string (unat t)) \<Longrightarrow> \<not> visible_under r ctx"
    and "visible_under (revive (to_string (unat t)) r) ctx \<longleftrightarrow> visible_under r ctx"
proof -
  show "row_get r ''_xmin'' = Some (to_string (unat t)) \<Longrightarrow> \<not> visible_under r ctx"
    using t by (auto simp: visible_under_iff parse_txn_id_def)
  have min: "xmin_of (revive (to_string (unat t)) r) = xmin_of r"
    by (simp add: parse_txn_id_def row_get_revive)
  show "visible_under (revive (to_string (unat t)) r) ctx \<longleftrightarrow> visible_under r ctx"
  proof (cases "row_get r ''_xmax'' = Some (to_string (unat t))")
    case True
    then have "xmax_of r = t" by (simp add: parse_txn_id_def)
    moreover have "is_visible (revive (to_string (unat t)) r)" using True by (simp add: is_visible_def row_get_revive)
    ultimately show ?thesis using t min by (simp add: visible_under_iff)
  qed (simp add: revive_def)
qed



end
