(* ===== verification/TxnManager.thy ===== *)
theory TxnManager
  imports UndoLog RedoLog RowJson Mvcc
begin

text \<open>
  The transaction of one session (\<^verbatim>\<open>class TransactionManager\<close>, \<^verbatim>\<open>core/src/transaction/txn_manager.cpp\<close>):
  begin, commit, rollback, savepoints, the change log it keeps in memory, in the undo file and for the redo log, and the
  check of what a serializable transaction has read.

  Every operation takes the manager and the state all sessions share (\<^typ>\<open>TxnIoShared\<close>) and gives a result,
  \<open>Ok\<close> or \<open>Err\<close> as in the source or \<open>Throw\<close> for an I/O error that leaves the function, with both states as they are then.
  \<open>envs i\<close> are the answers of the operating system to the \<open>i\<close>-th log operation of the call, \<open>parse\<close> is the general JSON parser that
  \<open>row_from_json\<close> falls back to. A \<^verbatim>\<open>std::unordered_set\<close> that is iterated is a list without repetitions.
\<close>

section \<open>Definitions\<close>

datatype IsolationLevel = ReadUncommitted | ReadCommitted | RepeatableRead | Serializable

datatype 'a txn_result = Ok 'a | Err string | Throw io_error

record TransactionManager =
  tm_dir :: string
  tm_active :: bool
  tm_txn_id :: u64
  tm_undo_log :: "UndoEntry list"
  tm_isolation_level :: IsolationLevel
  tm_frozen_ctx :: "SnapshotCtx option"
  tm_read_set :: "string list"
  tm_savepoints :: "(string \<times> nat) list"
  tm_redo_ops :: "RedoOp list"
  tm_redo_marks :: "nat list"
  tm_redo_incomplete :: bool

definition tm_new :: "string \<Rightarrow> TransactionManager" where
  "tm_new dir = \<lparr>tm_dir = dir, tm_active = False, tm_txn_id = 0, tm_undo_log = [], tm_isolation_level = ReadCommitted,
     tm_frozen_ctx = None, tm_read_set = [], tm_savepoints = [], tm_redo_ops = [], tm_redo_marks = [],
     tm_redo_incomplete = False\<rparr>"

definition wal_path :: "TransactionManager \<Rightarrow> string" where
  "wal_path tm = tm_dir tm @ ''/rusql.wal''"

definition undo_path :: "TransactionManager \<Rightarrow> string" where
  "undo_path tm = tm_dir tm @ ''/_undo.log''"

definition current_txn_id :: "TransactionManager \<Rightarrow> u64" where
  "current_txn_id tm = (if tm_active tm then tm_txn_id tm else 0)"

definition set_isolation_level :: "IsolationLevel \<Rightarrow> TransactionManager \<Rightarrow> TransactionManager" where
  "set_isolation_level level tm = tm\<lparr>tm_isolation_level := level\<rparr>"

definition discard_redo_ops :: "TransactionManager \<Rightarrow> TransactionManager" where
  "discard_redo_ops tm = tm\<lparr>tm_redo_ops := [], tm_redo_marks := []\<rparr>"

definition mark_redo_incomplete :: "TransactionManager \<Rightarrow> TransactionManager" where
  "mark_redo_incomplete tm = tm\<lparr>tm_redo_incomplete := True\<rparr>"

definition begin_with_snapshot ::
  "u64 set \<Rightarrow> TransactionManager \<Rightarrow> TxnIoShared \<Rightarrow> u64 txn_result \<times> TransactionManager \<times> TxnIoShared" where
  "begin_with_snapshot active_txn_ids tm io =
     (if tm_active tm then (Err ''Transaction already active. COMMIT or ROLLBACK first.'', tm, io)
      else
        let (t, io) = next_id io;
            tm = (discard_redo_ops (tm\<lparr>tm_txn_id := t, tm_active := True, tm_undo_log := [], tm_read_set := []\<rparr>))
                   \<lparr>tm_redo_incomplete := False\<rparr>;
            tm = tm\<lparr>tm_frozen_ctx :=
                   (if tm_isolation_level tm = RepeatableRead \<or> tm_isolation_level tm = Serializable
                    then Some \<lparr>self_txn_id = t, cutoff = peek_next_id io, in_progress = active_txn_ids\<rparr>
                    else None)\<rparr>
        in (Ok t, tm, io))"

definition tm_begin ::
  "TransactionManager \<Rightarrow> TxnIoShared \<Rightarrow> u64 txn_result \<times> TransactionManager \<times> TxnIoShared" where
  "tm_begin tm io =
     (if tm_active tm then (Err ''Transaction already active. COMMIT or ROLLBACK first.'', tm, io)
      else
        let (t, io) = next_id io;
            tm = (discard_redo_ops (tm\<lparr>tm_txn_id := t, tm_active := True, tm_undo_log := []\<rparr>))\<lparr>tm_redo_incomplete := False\<rparr>
        in (Ok t, tm, io))"

definition encode_read :: "string \<Rightarrow> string \<Rightarrow> string \<Rightarrow> string" where
  "encode_read table pk_col key = table @ [CHR 0x00] @ pk_col @ [CHR 0x00] @ key"

definition record_read :: "string \<Rightarrow> string \<Rightarrow> string \<Rightarrow> TransactionManager \<Rightarrow> TransactionManager" where
  "record_read table pk_col key tm =
     (if \<not> tm_active tm \<or> tm_isolation_level tm \<noteq> Serializable then tm
      else let e = encode_read table pk_col key
           in if e \<in> set (tm_read_set tm) then tm else tm\<lparr>tm_read_set := tm_read_set tm @ [e]\<rparr>)"

text \<open>Splitting at the first two zero bytes.\<close>

definition decode_read :: "string \<Rightarrow> string \<times> string \<times> string" where
  "decode_read encoded =
     (let table = takeWhile (\<lambda>c. c \<noteq> CHR 0x00) encoded;
          r = drop (length table + 1) encoded;
          pk_col = takeWhile (\<lambda>c. c \<noteq> CHR 0x00) r
      in (table, pk_col, drop (length pk_col + 1) r))"

definition read_conflict :: "SnapshotCtx \<Rightarrow> SnapshotCtx \<Rightarrow> string \<Rightarrow> string \<Rightarrow> row \<Rightarrow> bool" where
  "read_conflict frozen now pk_col key row \<longleftrightarrow>
     row_get row pk_col = Some key \<and> visible_under row frozen \<noteq> visible_under row now"

fun validate_reads ::
  "SnapshotCtx \<Rightarrow> SnapshotCtx \<Rightarrow> (string \<rightharpoonup> row list) \<Rightarrow> string list \<Rightarrow> unit txn_result" where
  "validate_reads frozen now live_tables [] = Ok ()"
| "validate_reads frozen now live_tables (encoded # rest) =
     (case decode_read encoded of (table, pk_col, key) \<Rightarrow>
        case live_tables table of
          None \<Rightarrow> validate_reads frozen now live_tables rest
        | Some rows \<Rightarrow>
            if \<exists>row \<in> set rows. read_conflict frozen now pk_col key row
            then Err (''Serialization failure: table '' @ [CHR 0x27] @ table @ [CHR 0x27] @ '' row '' @ [CHR 0x27] @ key @ [CHR 0x27] @
                      '' was modified by another transaction since this one started. ROLLBACK required.'')
            else validate_reads frozen now live_tables rest)"

definition validate_serializable ::
  "(string \<rightharpoonup> row list) \<Rightarrow> u64 set \<Rightarrow> TransactionManager \<Rightarrow> unit txn_result" where
  "validate_serializable live_tables active_txn_ids_now tm =
     (if tm_isolation_level tm \<noteq> Serializable then Ok ()
      else case tm_frozen_ctx tm of
        None \<Rightarrow> Ok ()
      | Some frozen \<Rightarrow>
          validate_reads frozen \<lparr>self_txn_id = tm_txn_id tm, cutoff = - 1, in_progress = active_txn_ids_now\<rparr>
            live_tables (tm_read_set tm))"

definition dirty_tables :: "TransactionManager \<Rightarrow> string list" where
  "dirty_tables tm = remdups_adj (sort (map undo_table (tm_undo_log tm)))"

text \<open>The common end of \<^verbatim>\<open>commit\<close>, \<^verbatim>\<open>commit_finalize\<close>, \<^verbatim>\<open>rollback\<close> and \<^verbatim>\<open>abort\<close>.\<close>

definition end_txn :: "TransactionManager \<Rightarrow> TransactionManager" where
  "end_txn tm = (discard_redo_ops (tm\<lparr>tm_frozen_ctx := None, tm_read_set := []\<rparr>))
     \<lparr>tm_redo_incomplete := False, tm_savepoints := [], tm_active := False\<rparr>"

text \<open>From the removal of the transaction's WAL records on; \<open>result\<close> is what the caller returns at the end.\<close>

definition finish_txn ::
  "(nat \<Rightarrow> io_env) \<Rightarrow> 'a \<Rightarrow> TransactionManager \<Rightarrow> TxnIoShared \<Rightarrow> 'a txn_result \<times> TransactionManager \<times> TxnIoShared" where
  "finish_txn envs result tm io =
     (case wal_remove_txn (envs 1) (envs 2) (wal_path tm) (tm_txn_id tm) io of
        (Some e, io) \<Rightarrow> (Throw e, tm, io)
      | (None, io) \<Rightarrow>
          let tm = tm\<lparr>tm_undo_log := []\<rparr> in
          case undo_remove_txn (envs 3) (envs 4) (undo_path tm) (tm_txn_id tm) io of
            (Some e, io) \<Rightarrow> (Throw e, tm, io)
          | (None, io) \<Rightarrow> (Ok result, end_txn tm, io))"

definition tm_commit ::
  "(nat \<Rightarrow> io_env) \<Rightarrow> TransactionManager \<Rightarrow> TxnIoShared \<Rightarrow> unit txn_result \<times> TransactionManager \<times> TxnIoShared" where
  "tm_commit envs tm io =
     (if \<not> tm_active tm then (Err ''No active transaction.'', tm, io)
      else case wal_log_commit (envs 0) (wal_path tm) (tm_txn_id tm) io of
        (Some e, io) \<Rightarrow> (Throw e, tm, io)
      | (None, io) \<Rightarrow> finish_txn envs () tm io)"

definition commit_write_record ::
  "(nat \<Rightarrow> io_env) \<Rightarrow> TransactionManager \<Rightarrow> TxnIoShared \<Rightarrow> unit txn_result \<times> TransactionManager \<times> TxnIoShared" where
  "commit_write_record envs tm io =
     (if \<not> tm_active tm then (Err ''No active transaction.'', tm, io)
      else case wal_log_commit_no_sync (envs 0) (wal_path tm) (tm_txn_id tm) io of
        (Some e, io) \<Rightarrow> (Throw e, tm, io)
      | (None, io) \<Rightarrow> (Ok (), tm, io))"

definition commit_finalize ::
  "(nat \<Rightarrow> io_env) \<Rightarrow> TransactionManager \<Rightarrow> TxnIoShared \<Rightarrow> unit txn_result \<times> TransactionManager \<times> TxnIoShared" where
  "commit_finalize envs tm io = finish_txn envs () tm io"

definition tm_rollback ::
  "(nat \<Rightarrow> io_env) \<Rightarrow> TransactionManager \<Rightarrow> TxnIoShared \<Rightarrow> UndoEntry list txn_result \<times> TransactionManager \<times> TxnIoShared" where
  "tm_rollback envs tm io =
     (case wal_log_rollback (envs 0) (wal_path tm) (tm_txn_id tm) io of
        (Some e, io) \<Rightarrow> (Throw e, tm, io)
      | (None, io) \<Rightarrow> finish_txn envs (rev (tm_undo_log tm)) tm io)"

definition tm_abort ::
  "(nat \<Rightarrow> io_env) \<Rightarrow> TransactionManager \<Rightarrow> TxnIoShared \<Rightarrow> UndoEntry list txn_result \<times> TransactionManager \<times> TxnIoShared" where
  "tm_abort envs tm io =
     (if \<not> tm_active tm then (Err ''No active transaction.'', tm, io) else tm_rollback envs tm io)"

definition create_savepoint :: "string \<Rightarrow> TransactionManager \<Rightarrow> unit txn_result \<times> TransactionManager" where
  "create_savepoint name tm =
     (if \<not> tm_active tm then (Err ''No active transaction. Use BEGIN first.'', tm)
      else (Ok (), tm\<lparr>tm_savepoints := filter (\<lambda>p. fst p \<noteq> name) (tm_savepoints tm) @ [(name, length (tm_undo_log tm))]\<rparr>))"

text \<open>\<^verbatim>\<open>std::find_if\<close> from the end: the position of the last savepoint with this name.\<close>

definition find_savepoint :: "string \<Rightarrow> TransactionManager \<Rightarrow> nat option" where
  "find_savepoint name tm =
     (case filter (\<lambda>i. fst (tm_savepoints tm ! i) = name) (rev [0..<length (tm_savepoints tm)]) of
        [] \<Rightarrow> None
      | i # _ \<Rightarrow> Some i)"

definition savepoint_not_found :: "string \<Rightarrow> string" where
  "savepoint_not_found name = ''Savepoint '' @ [CHR 0x27] @ name @ [CHR 0x27] @ '' not found''"

text \<open>Cutting the logs in memory back to the savepoint at position \<open>pos\<close>.\<close>

definition truncate_to :: "nat \<Rightarrow> TransactionManager \<Rightarrow> TransactionManager" where
  "truncate_to pos tm =
     (let undo_len = snd (tm_savepoints tm ! pos)
      in tm\<lparr>tm_undo_log := take undo_len (tm_undo_log tm),
            tm_redo_ops := take (if undo_len = 0 then 0 else tm_redo_marks tm ! (undo_len - 1)) (tm_redo_ops tm),
            tm_redo_marks := take undo_len (tm_redo_marks tm),
            tm_savepoints := take (pos + 1) (tm_savepoints tm)\<rparr>)"

definition rollback_to_savepoint ::
  "(nat \<Rightarrow> io_env) \<Rightarrow> string \<Rightarrow> TransactionManager \<Rightarrow> TxnIoShared \<Rightarrow>
   UndoEntry list txn_result \<times> TransactionManager \<times> TxnIoShared" where
  "rollback_to_savepoint envs name tm io =
     (if \<not> tm_active tm then (Err ''No active transaction.'', tm, io)
      else case find_savepoint name tm of
        None \<Rightarrow> (Err (savepoint_not_found name), tm, io)
      | Some pos \<Rightarrow>
          let entries = rev (drop (snd (tm_savepoints tm ! pos)) (tm_undo_log tm));
              tm = truncate_to pos tm
          in case undo_rewrite_txn (envs 0) (undo_path tm) (tm_txn_id tm) (tm_undo_log tm) io of
               (Some e, io) \<Rightarrow> (Throw e, tm, io)
             | (None, io) \<Rightarrow> (Ok entries, tm, io))"

definition release_savepoint :: "string \<Rightarrow> TransactionManager \<Rightarrow> unit txn_result \<times> TransactionManager" where
  "release_savepoint name tm =
     (if \<not> tm_active tm then (Err ''No active transaction.'', tm)
      else case find_savepoint name tm of
        None \<Rightarrow> (Err (savepoint_not_found name), tm)
      | Some pos \<Rightarrow> (Ok (), tm\<lparr>tm_savepoints := take pos (tm_savepoints tm) @ drop (pos + 1) (tm_savepoints tm)\<rparr>))"

definition take_redo_ops :: "string \<Rightarrow> TransactionManager \<Rightarrow> RedoOp list \<times> TransactionManager" where
  "take_redo_ops fallback_xmax tm =
     (map (\<lambda>op. if redo_kind op = SetXmax \<and> redo_xmax op = [] then op\<lparr>redo_xmax := fallback_xmax\<rparr> else op) (tm_redo_ops tm),
      discard_redo_ops tm)"

definition xmin_of_image :: "(string \<Rightarrow> row option) \<Rightarrow> string \<Rightarrow> string" where
  "xmin_of_image parse json =
     (case row_from_json parse json of
        None \<Rightarrow> []
      | Some row \<Rightarrow> (case row_get row ''_xmin'' of None \<Rightarrow> [] | Some v \<Rightarrow> v))"

text \<open>The redo operations of a change, and its mark when a transaction is open.\<close>

definition capture_redo :: "RedoOp list \<Rightarrow> TransactionManager \<Rightarrow> TransactionManager" where
  "capture_redo ops tm =
     (let tm = tm\<lparr>tm_redo_ops := tm_redo_ops tm @ ops\<rparr>
      in if tm_active tm then tm\<lparr>tm_redo_marks := tm_redo_marks tm @ [length (tm_redo_ops tm)]\<rparr> else tm)"

text \<open>The undo file and then the undo log in memory, once the WAL record is written (\<open>err\<close>: writing it threw).\<close>

definition log_undo ::
  "(nat \<Rightarrow> io_env) \<Rightarrow> UndoEntry \<Rightarrow> io_error option \<Rightarrow> TransactionManager \<Rightarrow> TxnIoShared \<Rightarrow>
   unit txn_result \<times> TransactionManager \<times> TxnIoShared" where
  "log_undo envs entry err tm io =
     (case err of
        Some e \<Rightarrow> (Throw e, tm, io)
      | None \<Rightarrow>
          (case undo_append (envs 1) (undo_path tm) entry io of
             (Some e, io) \<Rightarrow> (Throw e, tm, io)
           | (None, io) \<Rightarrow> (Ok (), tm\<lparr>tm_undo_log := tm_undo_log tm @ [entry]\<rparr>, io)))"

definition log_insert ::
  "(nat \<Rightarrow> io_env) \<Rightarrow> string \<Rightarrow> string \<Rightarrow> string \<Rightarrow> TransactionManager \<Rightarrow> TxnIoShared \<Rightarrow>
   unit txn_result \<times> TransactionManager \<times> TxnIoShared" where
  "log_insert envs table key data tm io =
     (let tm = capture_redo [\<lparr>redo_kind = InsertVersion, redo_table = table, redo_row_json = data, redo_xmax = []\<rparr>] tm
      in if \<not> tm_active tm then (Ok (), tm, io)
         else let (err, io) = wal_log_insert (envs 0) (wal_path tm) (tm_txn_id tm) table key data io
              in log_undo envs \<lparr>undo_txn_id = tm_txn_id tm, undo_operation = ''INSERT'', undo_table = table, undo_key = key,
                                undo_old_data = None, undo_new_key = None\<rparr> err tm io)"

definition log_update ::
  "(string \<Rightarrow> row option) \<Rightarrow> (nat \<Rightarrow> io_env) \<Rightarrow> string \<Rightarrow> string \<Rightarrow> string \<Rightarrow> string \<Rightarrow> string \<Rightarrow> TransactionManager \<Rightarrow>
   TxnIoShared \<Rightarrow> unit txn_result \<times> TransactionManager \<times> TxnIoShared" where
  "log_update parse envs table key old_data new_data new_key tm io =
     (let tm = capture_redo [\<lparr>redo_kind = SetXmax, redo_table = table, redo_row_json = old_data, redo_xmax = xmin_of_image parse new_data\<rparr>,
                             \<lparr>redo_kind = InsertVersion, redo_table = table, redo_row_json = new_data, redo_xmax = []\<rparr>] tm
      in if \<not> tm_active tm then (Ok (), tm, io)
         else let (err, io) = wal_log_update (envs 0) (wal_path tm) (tm_txn_id tm) table key new_data io
              in log_undo envs \<lparr>undo_txn_id = tm_txn_id tm, undo_operation = ''UPDATE'', undo_table = table, undo_key = key,
                                undo_old_data = Some old_data,
                                undo_new_key = (if new_key = [] \<or> new_key = key then None else Some new_key)\<rparr> err tm io)"

definition log_delete ::
  "(nat \<Rightarrow> io_env) \<Rightarrow> string \<Rightarrow> string \<Rightarrow> string \<Rightarrow> TransactionManager \<Rightarrow> TxnIoShared \<Rightarrow>
   unit txn_result \<times> TransactionManager \<times> TxnIoShared" where
  "log_delete envs table key old_data tm io =
     (let tm = capture_redo [\<lparr>redo_kind = SetXmax, redo_table = table, redo_row_json = old_data, redo_xmax = []\<rparr>] tm
      in if \<not> tm_active tm then (Ok (), tm, io)
         else let (err, io) = wal_log_delete (envs 0) (wal_path tm) (tm_txn_id tm) table key io
              in log_undo envs \<lparr>undo_txn_id = tm_txn_id tm, undo_operation = ''DELETE'', undo_table = table, undo_key = key,
                                undo_old_data = Some old_data, undo_new_key = None\<rparr> err tm io)"

definition do_checkpoint ::
  "(nat \<Rightarrow> io_env) \<Rightarrow> bool \<Rightarrow> TransactionManager \<Rightarrow> TxnIoShared \<Rightarrow> unit txn_result \<times> TxnIoShared" where
  "do_checkpoint envs safe_to_truncate tm io =
     (if \<not> safe_to_truncate then (Ok (), io)
      else case wal_log_checkpoint (envs 0) (wal_path tm) io of
        (Some e, io) \<Rightarrow> (Throw e, io)
      | (None, io) \<Rightarrow>
          (case wal_truncate_to_last_checkpoint (envs 1) (wal_path tm) io of
             (Some e, io) \<Rightarrow> (Throw e, io)
           | (None, io) \<Rightarrow> (Ok (), io)))"

definition release_file_handles :: "TxnIoShared \<Rightarrow> TxnIoShared" where
  "release_file_handles io = close_undo_handle_locked (close_wal_handle_locked io)"

section \<open>The change log in memory\<close>

text \<open>The three kinds of change, to speak of a sequence of them.\<close>

datatype Change =
    ChInsert string string string
  | ChUpdate string string string string string
  | ChDelete string string string

fun log_change ::
  "(string \<Rightarrow> row option) \<Rightarrow> (nat \<Rightarrow> io_env) \<Rightarrow> Change \<Rightarrow> TransactionManager \<Rightarrow> TxnIoShared \<Rightarrow>
   unit txn_result \<times> TransactionManager \<times> TxnIoShared" where
  "log_change parse envs (ChInsert table key data) tm io = log_insert envs table key data tm io"
| "log_change parse envs (ChUpdate table key old_data new_data new_key) tm io =
     log_update parse envs table key old_data new_data new_key tm io"
| "log_change parse envs (ChDelete table key old_data) tm io = log_delete envs table key old_data tm io"

fun log_changes ::
  "(string \<Rightarrow> row option) \<Rightarrow> ((nat \<Rightarrow> io_env) \<times> Change) list \<Rightarrow> TransactionManager \<Rightarrow> TxnIoShared \<Rightarrow>
   unit txn_result \<times> TransactionManager \<times> TxnIoShared" where
  "log_changes parse [] tm io = (Ok (), tm, io)"
| "log_changes parse ((envs, c) # cs) tm io =
     (case log_change parse envs c tm io of
        (Ok _, tm, io) \<Rightarrow> log_changes parse cs tm io
      | (r, tm, io) \<Rightarrow> (r, tm, io))"

fun change_entry :: "u64 \<Rightarrow> Change \<Rightarrow> UndoEntry" where
  "change_entry t (ChInsert table key data) = \<lparr>undo_txn_id = t, undo_operation = ''INSERT'', undo_table = table,
     undo_key = key, undo_old_data = None, undo_new_key = None\<rparr>"
| "change_entry t (ChUpdate table key old_data new_data new_key) = \<lparr>undo_txn_id = t, undo_operation = ''UPDATE'',
     undo_table = table, undo_key = key, undo_old_data = Some old_data,
     undo_new_key = (if new_key = [] \<or> new_key = key then None else Some new_key)\<rparr>"
| "change_entry t (ChDelete table key old_data) = \<lparr>undo_txn_id = t, undo_operation = ''DELETE'', undo_table = table,
     undo_key = key, undo_old_data = Some old_data, undo_new_key = None\<rparr>"

fun change_ops :: "(string \<Rightarrow> row option) \<Rightarrow> Change \<Rightarrow> RedoOp list" where
  "change_ops parse (ChInsert table key data) =
     [\<lparr>redo_kind = InsertVersion, redo_table = table, redo_row_json = data, redo_xmax = []\<rparr>]"
| "change_ops parse (ChUpdate table key old_data new_data new_key) =
     [\<lparr>redo_kind = SetXmax, redo_table = table, redo_row_json = old_data, redo_xmax = xmin_of_image parse new_data\<rparr>,
      \<lparr>redo_kind = InsertVersion, redo_table = table, redo_row_json = new_data, redo_xmax = []\<rparr>]"
| "change_ops parse (ChDelete table key old_data) =
     [\<lparr>redo_kind = SetXmax, redo_table = table, redo_row_json = old_data, redo_xmax = []\<rparr>]"

text \<open>
  While a transaction is open, each undo entry has the mark of where its redo operations end, the last mark is the
  end of all of them, and the savepoints are positions in the undo log, in order and with different names.
\<close>

definition savepoints_wf :: "nat \<Rightarrow> (string \<times> nat) list \<Rightarrow> bool" where
  "savepoints_wf n sps \<longleftrightarrow> sorted (map snd sps) \<and> distinct (map fst sps) \<and> (\<forall>p \<in> set sps. snd p \<le> n)"

definition tm_wf :: "TransactionManager \<Rightarrow> bool" where
  "tm_wf tm \<longleftrightarrow>
     (tm_active tm \<longrightarrow> length (tm_redo_marks tm) = length (tm_undo_log tm) \<and>
        length (tm_redo_ops tm) = (if tm_redo_marks tm = [] then 0 else last (tm_redo_marks tm))) \<and>
     sorted (tm_redo_marks tm) \<and>
     savepoints_wf (length (tm_undo_log tm)) (tm_savepoints tm) \<and>
     (\<not> tm_active tm \<longrightarrow> tm_savepoints tm = [] \<and> tm_undo_log tm = [])"

definition with_change :: "(string \<Rightarrow> row option) \<Rightarrow> Change \<Rightarrow> TransactionManager \<Rightarrow> TransactionManager" where
  "with_change parse c tm = tm\<lparr>tm_undo_log := tm_undo_log tm @ [change_entry (tm_txn_id tm) c],
     tm_redo_ops := tm_redo_ops tm @ change_ops parse c,
     tm_redo_marks := tm_redo_marks tm @ [length (tm_redo_ops tm @ change_ops parse c)]\<rparr>"

lemma capture_redo_simps [simp]:
  "tm_active (capture_redo ops tm) = tm_active tm" "tm_txn_id (capture_redo ops tm) = tm_txn_id tm"
  "tm_undo_log (capture_redo ops tm) = tm_undo_log tm" "undo_path (capture_redo ops tm) = undo_path tm"
  "wal_path (capture_redo ops tm) = wal_path tm"
  by (simp_all add: capture_redo_def Let_def undo_path_def wal_path_def)

lemma log_undo_ok:
  "log_undo envs entry err tm io = (Ok (), tm', io') \<Longrightarrow>
   err = None \<and> undo_append (envs 1) (undo_path tm) entry io = (None, io') \<and> tm' = tm\<lparr>tm_undo_log := tm_undo_log tm @ [entry]\<rparr>"
  by (auto simp: log_undo_def split: option.splits prod.splits)

fun change_record :: "u64 \<Rightarrow> Change \<Rightarrow> WalRecord" where
  "change_record t (ChInsert table key data) =
     \<lparr>wal_op = Insert, wal_txn_id = t, wal_table_name = table, wal_key = key, wal_data = data\<rparr>"
| "change_record t (ChUpdate table key old_data new_data new_key) =
     \<lparr>wal_op = Update, wal_txn_id = t, wal_table_name = table, wal_key = key, wal_data = new_data\<rparr>"
| "change_record t (ChDelete table key old_data) =
     \<lparr>wal_op = Delete, wal_txn_id = t, wal_table_name = table, wal_key = key, wal_data = []\<rparr>"

lemma log_change_eq:
  "tm_active tm \<Longrightarrow> log_change parse envs c tm io =
     (case wal_append (envs 0) (wal_path tm) (change_record (tm_txn_id tm) c) io of (err, io1) \<Rightarrow>
        log_undo envs (change_entry (tm_txn_id tm) c) err (capture_redo (change_ops parse c) tm) io1)"
  by (cases c) (simp_all add: log_insert_def log_update_def log_delete_def wal_log_insert_def wal_log_update_def
      wal_log_delete_def Let_def)

text \<open>What one logged change does, when nothing is thrown.\<close>

lemma log_change_ok:
  assumes "tm_active tm" and "log_change parse envs c tm io = (Ok (), tm', io')"
  shows "tm' = with_change parse c tm \<and>
    (\<exists>io1. wal_append (envs 0) (wal_path tm) (change_record (tm_txn_id tm) c) io = (None, io1) \<and>
       undo_append (envs 1) (undo_path tm) (change_entry (tm_txn_id tm) c) io1 = (None, io'))"
proof -
  let ?tm = "capture_redo (change_ops parse c) tm"
  obtain err io1 where w: "wal_append (envs 0) (wal_path tm) (change_record (tm_txn_id tm) c) io = (err, io1)" by fastforce
  then have "log_undo envs (change_entry (tm_txn_id tm) c) err ?tm io1 = (Ok (), tm', io')"
    using assms(2) by (simp add: log_change_eq [OF assms(1)])
  note * = log_undo_ok [OF this]
  then have "tm' = ?tm\<lparr>tm_undo_log := tm_undo_log tm @ [change_entry (tm_txn_id tm) c]\<rparr>" by simp
  then have "tm' = with_change parse c tm"
    using assms(1) by (simp add: with_change_def capture_redo_def Let_def)
  then show ?thesis using * w by simp
qed

lemma log_changes_ok:
  assumes "tm_active tm" and "log_changes parse ecs tm io = (Ok (), tm', io')"
  shows "tm' = fold (\<lambda>(envs, c). with_change parse c) ecs tm"
  using assms
proof (induction ecs arbitrary: tm io)
  case (Cons ec ecs)
  obtain envs c where ec: "ec = (envs, c)" by (cases ec)
  obtain r tm1 io1 where c: "log_change parse envs c tm io = (r, tm1, io1)" by (metis prod_cases3)
  have r: "r = Ok ()"
    using Cons.prems(2) unfolding ec log_changes.simps c prod.case by (cases r) simp_all
  have rest: "log_changes parse ecs tm1 io1 = (Ok (), tm', io')"
    using Cons.prems(2) unfolding ec log_changes.simps c prod.case r by simp
  have tm1: "tm1 = with_change parse c tm" using log_change_ok [OF Cons.prems(1)] c r by blast
  then have "tm_active tm1" using Cons.prems(1) by (simp add: with_change_def)
  from Cons.IH [OF this rest] show ?case by (simp add: ec tm1)
qed simp

lemma with_changes_appends:
  "\<exists>es ops marks. fold (\<lambda>(envs, c). with_change parse c) ecs tm =
     tm\<lparr>tm_undo_log := tm_undo_log tm @ es, tm_redo_ops := tm_redo_ops tm @ ops, tm_redo_marks := tm_redo_marks tm @ marks\<rparr> \<and>
     es = map (\<lambda>(envs, c). change_entry (tm_txn_id tm) c) ecs"
proof (induction ecs arbitrary: tm)
  case (Cons ec ecs)
  obtain envs c where ec: "ec = (envs, c)" by (cases ec)
  from Cons.IH [of "with_change parse c tm"] show ?case
    by (auto simp: ec with_change_def)
qed (auto intro!: exI [of _ "[]"])

section \<open>Savepoints\<close>

lemma find_savepoint_last:
  "tm_savepoints tm = sps @ [(name, n)] \<Longrightarrow> find_savepoint name tm = Some (length sps)"
  by (simp add: find_savepoint_def)

text \<open>
  C6: Rolling back to a savepoint undoes exactly what was logged since it was set: the transaction is in the state it had
  right after the savepoint was created (undo log, redo operations and their marks, savepoints), and the entries handed back
  for undoing are those of the changes made since, the latest first.
\<close>

theorem savepoint_rollback_restores:
  assumes "tm_wf tm" and "tm_active tm" and "create_savepoint name tm = (Ok (), tm1)"
    and "log_changes parse ecs tm1 io = (Ok (), tm2, io2)"
    and "rollback_to_savepoint envs name tm2 io2 = (Ok entries, tm3, io3)"
  shows "tm3 = tm1 \<and> entries = rev (map (\<lambda>(envs, c). change_entry (tm_txn_id tm) c) ecs)"
proof -
  let ?n = "length (tm_undo_log tm)"
  define sps where "sps = filter (\<lambda>p. fst p \<noteq> name) (tm_savepoints tm)"
  have tm1: "tm1 = tm\<lparr>tm_savepoints := sps @ [(name, ?n)]\<rparr>"
    using assms(2,3) by (simp add: create_savepoint_def sps_def)
  have a1: "tm_active tm1" using assms(2) tm1 by simp
  obtain es ops marks where
    tm2: "tm2 = tm1\<lparr>tm_undo_log := tm_undo_log tm1 @ es, tm_redo_ops := tm_redo_ops tm1 @ ops,
      tm_redo_marks := tm_redo_marks tm1 @ marks\<rparr>" and es: "es = map (\<lambda>(envs, c). change_entry (tm_txn_id tm) c) ecs"
    using log_changes_ok [OF a1 assms(4)] with_changes_appends [of parse ecs tm1] tm1 by auto
  have find: "find_savepoint name tm2 = Some (length sps)"
    using find_savepoint_last [of tm2 sps name ?n] tm1 tm2 by simp
  have marks: "length (tm_redo_marks tm) = ?n"
    "length (tm_redo_ops tm) = (if ?n = 0 then 0 else (tm_redo_marks tm @ marks) ! (?n - 1))"
    using assms(1,2) by (auto simp: tm_wf_def last_conv_nth nth_append)
  have "tm_redo_ops tm = []" if "tm_undo_log tm = []" using marks(2) that by simp
  then have "take (if ?n = 0 then 0 else (tm_redo_marks tm @ marks) ! (?n - 1)) (tm_redo_ops tm @ ops) = tm_redo_ops tm"
    using marks(2) by (cases "tm_undo_log tm = []") (simp_all split: if_splits)
  then show ?thesis
    using assms(5) a1 find marks(1) es
    by (auto simp: rollback_to_savepoint_def truncate_to_def Let_def tm2 tm1 nth_append split: prod.splits option.splits)
qed

text \<open>Where every call of the operating system succeeds, nothing is thrown.\<close>

lemma log_write_encoded_env_ok: "fst (log_write_encoded env_ok path bs sync t lf) = None"
  by (simp add: log_write_encoded_def Let_def log_append_handle_def env_ok_def)

lemma log_change_env_ok:
  "\<exists>tm' io'. log_change parse (\<lambda>_. env_ok) c tm io = (Ok (), tm', io')"
proof (cases "tm_active tm")
  case True
  then show ?thesis
    using log_write_encoded_env_ok
    by (auto simp: log_change_eq log_undo_def wal_append_def wal_write_encoded_locked_def undo_append_def prod_eq_iff
        split: prod.splits option.splits)
next
  case False
  then show ?thesis by (cases c) (simp_all add: log_insert_def log_update_def log_delete_def Let_def)
qed

lemma undo_rewrite_env_ok: "fst (undo_rewrite_txn env_ok path t es io) = None"
  by (simp add: undo_rewrite_txn_def Let_def log_rewrite_def write_bytes_atomic_def env_ok_def)

lemma rollback_to_savepoint_env_ok:
  assumes "tm_active tm" and "find_savepoint name tm = Some pos"
  shows "\<exists>entries tm' io'. rollback_to_savepoint (\<lambda>_. env_ok) name tm io = (Ok entries, tm', io')"
proof -
  have "e = None" if "undo_rewrite_txn env_ok path t es io = (e, io')" for path t es e io'
    using undo_rewrite_env_ok [of path t es io] that by simp
  then show ?thesis
    using assms by (fastforce simp: rollback_to_savepoint_def Let_def split: prod.splits option.splits)
qed

definition begun :: "TransactionManager \<times> TxnIoShared" where
  "begun = snd (begin_with_snapshot {} (tm_new ''d'') (fresh_io Map.empty Map.empty))"

lemma begun_simps [simp]:
  "tm_active (fst begun)" "tm_txn_id (fst begun) = 1" "tm_undo_log (fst begun) = []" "tm_redo_ops (fst begun) = []"
  "tm_redo_marks (fst begun) = []" "tm_savepoints (fst begun) = []" "tm_wf (fst begun)"
  by (simp_all add: begun_def begin_with_snapshot_def tm_new_def next_id_def fresh_io_def discard_redo_ops_def Let_def tm_wf_def savepoints_wf_def)

theorem savepoint_rollback_restores_witness:
  "\<exists>tm1 tm2 io2 entries tm3 io3. create_savepoint ''s'' (fst begun) = (Ok (), tm1) \<and>
     log_changes (\<lambda>_. None) [(\<lambda>_. env_ok, ChInsert ''t'' ''k'' ''{}'')] tm1 (snd begun) = (Ok (), tm2, io2) \<and>
     rollback_to_savepoint (\<lambda>_. env_ok) ''s'' tm2 io2 = (Ok entries, tm3, io3) \<and>
     tm3 = tm1 \<and> entries = [change_entry 1 (ChInsert ''t'' ''k'' ''{}'')]"
proof -
  let ?c = "ChInsert ''t'' ''k'' ''{}''"
  let ?ecs = "[(\<lambda>_. env_ok, ?c)] :: ((nat \<Rightarrow> io_env) \<times> Change) list"
  obtain tm1 where s: "create_savepoint ''s'' (fst begun) = (Ok (), tm1)" "tm1 = fst begun\<lparr>tm_savepoints := [(''s'', 0)]\<rparr>"
    by (simp add: create_savepoint_def)
  obtain tm2 io2 where c: "log_change (\<lambda>_. None) (\<lambda>_. env_ok) ?c tm1 (snd begun) = (Ok (), tm2, io2)"
    using log_change_env_ok by blast
  then have l: "log_changes (\<lambda>_. None) ?ecs tm1 (snd begun) = (Ok (), tm2, io2)" by simp
  have "tm2 = with_change (\<lambda>_. None) ?c tm1" using log_change_ok [OF _ c] s(2) by simp
  then have "tm_active tm2" "find_savepoint ''s'' tm2 = Some 0"
    using s(2) by (simp_all add: with_change_def find_savepoint_def)
  then obtain entries tm3 io3 where r: "rollback_to_savepoint (\<lambda>_. env_ok) ''s'' tm2 io2 = (Ok entries, tm3, io3)"
    using rollback_to_savepoint_env_ok by blast
  show ?thesis
    using savepoint_rollback_restores [OF _ _ s(1) l r] s(1) l r by auto
qed

section \<open>Histories of a session\<close>

text \<open>
  The calls of a session, one after the other, as far as none of them throws. A group commit takes the redo
  operations and then finalizes.
\<close>

inductive tm_reach :: "TransactionManager \<Rightarrow> bool" where
  new: "tm_reach (tm_new dir)"
| isolation: "tm_reach tm \<Longrightarrow> tm_reach (set_isolation_level level tm)"
| begin_snapshot: "tm_reach tm \<Longrightarrow> begin_with_snapshot active tm io = (r, tm', io') \<Longrightarrow> tm_reach tm'"
| begin_plain: "tm_reach tm \<Longrightarrow> tm_begin tm io = (r, tm', io') \<Longrightarrow> tm_reach tm'"
| read: "tm_reach tm \<Longrightarrow> tm_reach (record_read table pk_col key tm)"
| change: "tm_reach tm \<Longrightarrow> log_change parse envs c tm io = (Ok (), tm', io') \<Longrightarrow> tm_reach tm'"
| savepoint: "tm_reach tm \<Longrightarrow> create_savepoint name tm = (r, tm') \<Longrightarrow> tm_reach tm'"
| rollback_to: "tm_reach tm \<Longrightarrow> rollback_to_savepoint envs name tm io = (r, tm', io') \<Longrightarrow> tm_reach tm'"
| release: "tm_reach tm \<Longrightarrow> release_savepoint name tm = (r, tm') \<Longrightarrow> tm_reach tm'"
| commit: "tm_reach tm \<Longrightarrow> tm_commit envs tm io = (Ok (), tm', io') \<Longrightarrow> tm_reach tm'"
| group_commit: "tm_reach tm \<Longrightarrow> commit_finalize envs (snd (take_redo_ops xmax tm)) io = (Ok (), tm', io') \<Longrightarrow> tm_reach tm'"
| abort: "tm_reach tm \<Longrightarrow> tm_abort envs tm io = (Ok entries, tm', io') \<Longrightarrow> tm_reach tm'"

lemma finish_txn_ok:
  "finish_txn envs x tm io = (Ok y, tm', io') \<Longrightarrow> y = x \<and> tm' = end_txn (tm\<lparr>tm_undo_log := []\<rparr>)"
  by (auto simp: finish_txn_def Let_def split: prod.splits option.splits)

lemma savepoints_wf_Nil [simp]: "savepoints_wf n []"
  by (simp add: savepoints_wf_def)

lemma savepoints_wf_mono: "savepoints_wf n sps \<Longrightarrow> n \<le> m \<Longrightarrow> savepoints_wf m sps"
  by (auto simp: savepoints_wf_def)

lemma savepoints_wf_add:
  "savepoints_wf n sps \<Longrightarrow> savepoints_wf n (filter (\<lambda>p. fst p \<noteq> name) sps @ [(name, n)])"
  by (fastforce simp: savepoints_wf_def sorted_append sorted_filter distinct_map_filter)

lemma savepoints_wf_split:
  assumes "savepoints_wf n (a @ p # b)"
  shows "savepoints_wf n (a @ b)" and "savepoints_wf (snd p) (a @ [p])" and "snd p \<le> n"
  using assms by (fastforce simp: savepoints_wf_def sorted_append)+

lemma find_savepoint_split:
  assumes "find_savepoint name tm = Some pos"
  obtains a p b where "tm_savepoints tm = a @ p # b" "length a = pos" "fst p = name"
proof -
  have "pos \<in> set (filter (\<lambda>i. fst (tm_savepoints tm ! i) = name) (rev [0..<length (tm_savepoints tm)]))"
    using assms unfolding find_savepoint_def
    by (cases "filter (\<lambda>i. fst (tm_savepoints tm ! i) = name) (rev [0..<length (tm_savepoints tm)])") simp_all
  then have pos: "pos < length (tm_savepoints tm)" "fst (tm_savepoints tm ! pos) = name" by simp_all
  show thesis by (rule that [OF id_take_nth_drop [OF pos(1)]]) (use pos in simp_all)
qed

lemma tm_wf_end_txn: "tm_wf (end_txn (tm\<lparr>tm_undo_log := []\<rparr>))"
  by (simp add: tm_wf_def end_txn_def discard_redo_ops_def)

lemma tm_wf_begun:
  "tm_wf tm \<Longrightarrow> begin_with_snapshot active tm io = (r, tm', io') \<Longrightarrow> tm_wf tm'"
  "tm_wf tm \<Longrightarrow> tm_begin tm io = (r, tm', io') \<Longrightarrow> tm_wf tm'"
  by (auto simp: begin_with_snapshot_def tm_begin_def next_id_def discard_redo_ops_def Let_def tm_wf_def split: if_splits)

lemma sorted_marks_last: "sorted (ms @ [n]) \<longleftrightarrow> sorted ms \<and> (ms = [] \<or> last ms \<le> (n :: nat))"
  by (cases ms rule: rev_cases) (auto simp: sorted_append)

lemma tm_wf_with_change: "tm_wf tm \<Longrightarrow> tm_active tm \<Longrightarrow> tm_wf (with_change parse c tm)"
  by (auto simp: tm_wf_def with_change_def sorted_marks_last elim: savepoints_wf_mono)

lemma tm_wf_log_change:
  assumes "tm_wf tm" and "log_change parse envs c tm io = (Ok (), tm', io')"
  shows "tm_wf tm'"
proof (cases "tm_active tm")
  case True
  then show ?thesis using tm_wf_with_change assms log_change_ok [OF True assms(2)] by simp
next
  case False
  then have "tm' = capture_redo (change_ops parse c) tm"
    using assms(2) by (cases c) (simp_all add: log_insert_def log_update_def log_delete_def Let_def)
  then show ?thesis using assms(1) False by (simp add: tm_wf_def capture_redo_def Let_def)
qed

lemma tm_wf_create_savepoint: "tm_wf tm \<Longrightarrow> create_savepoint name tm = (r, tm') \<Longrightarrow> tm_wf tm'"
  by (auto simp: create_savepoint_def tm_wf_def savepoints_wf_add split: if_splits)

lemma tm_wf_release_savepoint:
  assumes "tm_wf tm" and "release_savepoint name tm = (r, tm')"
  shows "tm_wf tm'"
proof (cases "tm_active tm \<and> find_savepoint name tm \<noteq> None")
  case True
  then obtain pos where f1: "find_savepoint name tm = Some pos" by blast
  obtain a p b where f2: "tm_savepoints tm = a @ p # b" "length a = pos" using f1 by (rule find_savepoint_split)
  have "release_savepoint name tm = (Ok (), tm\<lparr>tm_savepoints := a @ b\<rparr>)"
    using True f2(1) by (simp add: release_savepoint_def f1 f2(2) [symmetric])
  then have "tm' = tm\<lparr>tm_savepoints := a @ b\<rparr>" using assms(2) by simp
  then show ?thesis
    using assms(1) True savepoints_wf_split(1) [of _ a p b] unfolding tm_wf_def f2(1) by simp
next
  case False
  then have "snd (release_savepoint name tm) = tm" by (auto simp: release_savepoint_def)
  then show ?thesis using assms by simp
qed

lemma tm_wf_truncated:
  assumes wf: "tm_wf tm" and act: "tm_active tm" and sp: "tm_savepoints tm = a @ p # b"
  shows "tm_wf (truncate_to (length a) tm)"
proof -
  have n: "snd p \<le> length (tm_undo_log tm)" and w: "savepoints_wf (snd p) (a @ [p])"
    using wf savepoints_wf_split(2,3) [of _ a p b] unfolding tm_wf_def sp by blast+
  have ms: "length (tm_redo_marks tm) = length (tm_undo_log tm)" "sorted (tm_redo_marks tm)"
    "tm_redo_marks tm \<noteq> [] \<Longrightarrow> length (tm_redo_ops tm) = last (tm_redo_marks tm)"
    using wf act by (auto simp: tm_wf_def)
  have "tm_redo_marks tm ! (snd p - 1) \<le> length (tm_redo_ops tm)" if "snd p \<noteq> 0"
  proof -
    have "tm_redo_marks tm \<noteq> []" "snd p - 1 \<le> length (tm_redo_marks tm) - 1" using n ms(1) that by auto
    then show ?thesis using sorted_nth_mono [OF ms(2)] ms(3) by (simp add: last_conv_nth)
  qed
  moreover have "last (take (snd p) (tm_redo_marks tm)) = tm_redo_marks tm ! (snd p - 1)" if "snd p \<noteq> 0"
    using n ms(1) that by (subst last_conv_nth) (auto simp: min_def)
  moreover have "tm_savepoints tm ! length a = p" "take (length a + 1) (tm_savepoints tm) = a @ [p]"
    using sp by (auto simp: nth_append)
  ultimately show ?thesis
    using n w ms act by (auto simp: tm_wf_def truncate_to_def sorted_wrt_take min_def Let_def simp del: take_append)
qed

lemma rollback_to_savepoint_tm:
  assumes "tm_active tm" and "find_savepoint name tm = Some pos"
  shows "fst (snd (rollback_to_savepoint envs name tm io)) = truncate_to pos tm"
  using assms by (simp add: rollback_to_savepoint_def Let_def split: prod.split option.split)

lemma tm_wf_rollback_to_savepoint:
  assumes "tm_wf tm" and "rollback_to_savepoint envs name tm io = (r, tm', io')"
  shows "tm_wf tm'"
proof (cases "tm_active tm \<and> find_savepoint name tm \<noteq> None")
  case True
  then obtain pos where f1: "find_savepoint name tm = Some pos" by blast
  obtain a p b where f2: "tm_savepoints tm = a @ p # b" "length a = pos" using f1 by (rule find_savepoint_split)
  have "tm' = truncate_to pos tm" using rollback_to_savepoint_tm [OF _ f1, of envs io] True assms(2) by simp
  then show ?thesis using tm_wf_truncated [OF assms(1) _ f2(1)] f2(2) True by simp
next
  case False
  then have "fst (snd (rollback_to_savepoint envs name tm io)) = tm" by (auto simp: rollback_to_savepoint_def)
  then show ?thesis using assms by simp
qed

lemma tm_wf_new: "tm_wf (tm_new dir)"
  by (simp add: tm_wf_def tm_new_def)

lemma tm_wf_other:
  "tm_wf (set_isolation_level level tm) = tm_wf tm" "tm_wf (record_read table pk_col key tm) = tm_wf tm"
  by (simp_all add: tm_wf_def set_isolation_level_def record_read_def Let_def)

lemma tm_wf_finished:
  "tm_commit envs tm io = (Ok x, tm', io') \<Longrightarrow> tm_wf tm'"
  "commit_finalize envs tm io = (Ok x, tm', io') \<Longrightarrow> tm_wf tm'"
  "tm_abort envs tm io = (Ok y, tm', io') \<Longrightarrow> tm_wf tm'"
  by (auto simp: tm_commit_def commit_finalize_def tm_abort_def tm_rollback_def tm_wf_end_txn
      split: if_splits prod.splits option.splits dest!: finish_txn_ok)



section \<open>The end of a transaction\<close>

lemma finish_txn_logs:
  assumes "wal_inv (wal_path tm) io" and "undo_inv (undo_path tm) io"
    and "env_read_ok (envs 2)" "env_remove_ok (envs 2)" "env_read_ok (envs 4)" "env_remove_ok (envs 4)"
    and "finish_txn envs x tm io = (Ok y, tm', io')"
  shows "wal_records (wal_path tm) io' = filter (\<lambda>r. wal_txn_id r \<noteq> tm_txn_id tm) (wal_records (wal_path tm) io) \<and>
    undo_records (undo_path tm) io' = filter (\<lambda>e. undo_txn_id e \<noteq> tm_txn_id tm) (undo_records (undo_path tm) io)"
proof -
  let ?tm = "tm\<lparr>tm_undo_log := []\<rparr>"
  obtain e1 io1 where w: "wal_remove_txn (envs 1) (envs 2) (wal_path tm) (tm_txn_id tm) io = (e1, io1)" by fastforce
  obtain e2 io2 where u: "undo_remove_txn (envs 3) (envs 4) (undo_path ?tm) (tm_txn_id ?tm) io1 = (e2, io2)" by fastforce
  have e: "e1 = None" using assms(7) w by (cases e1) (simp_all add: finish_txn_def)
  then have e2: "e2 = None" "io' = io2" using assms(7) w u by (cases e2; simp add: finish_txn_def Let_def)+
  have p: "undo_path ?tm = undo_path tm" by (simp add: undo_path_def)
  note ws = wal_remove_txn_spec [OF assms(1,3,4) w]
  then have "undo_inv (undo_path tm) io1" using assms(2) by simp
  from undo_remove_txn_spec [OF this assms(5,6) u [unfolded p]] show ?thesis
    using ws e e2 by simp
qed

text \<open>
  C12: A commit that returns normally leaves no trace of the transaction in the logs and nothing else is lost: the records and undo entries
  that remain are those of the other transactions, in order; the session is back to having no transaction, with empty logs in memory.
\<close>

theorem commit_cleans_up:
  assumes "wal_inv (wal_path tm) io" and "wal_intact (wal_path tm) io" and "undo_inv (undo_path tm) io"
    and "\<forall>i. env_read_ok (envs i) \<and> env_remove_ok (envs i)"
    and "tm_commit envs tm io = (Ok (), tm', io')"
  shows "wal_records (wal_path tm) io' = filter (\<lambda>r. wal_txn_id r \<noteq> tm_txn_id tm) (wal_records (wal_path tm) io) \<and>
    undo_records (undo_path tm) io' = filter (\<lambda>e. undo_txn_id e \<noteq> tm_txn_id tm) (undo_records (undo_path tm) io) \<and>
    \<not> tm_active tm' \<and> tm_undo_log tm' = [] \<and> tm_redo_ops tm' = [] \<and> tm_savepoints tm' = []"
proof -
  let ?r = "wal_mark Commit (tm_txn_id tm)"
  obtain e io1 where c: "wal_log_commit (envs 0) (wal_path tm) (tm_txn_id tm) io = (e, io1)" by fastforce
  have act: "tm_active tm" using assms(5) by (auto simp: tm_commit_def split: if_splits)
  have e: "e = None" using assms(5) act c by (cases e) (simp_all add: tm_commit_def)
  then have f: "finish_txn envs () tm io1 = (Ok (), tm', io')" using assms(5) act c by (simp add: tm_commit_def)
  obtain lf where lf: "log_write_encoded (envs 0) (wal_path tm) (wal_encode ?r) True (wal_txn_id ?r) (wal_file io) = (None, lf)"
      "io1 = io\<lparr>wal_file := lf\<rparr>"
    using c e by (auto simp: wal_log_commit_def wal_write_encoded_locked_def split: prod.splits)
  have "wal_inv (wal_path tm) io1" "wal_records (wal_path tm) io1 = wal_records (wal_path tm) io @ [?r]"
    using wal.write_encoded_inv [OF assms(1) _ lf(1)] wal.append_all_or_nothing [OF assms(2) _ lf(1)] lf(2) by simp_all
  moreover have "undo_inv (undo_path tm) io1" "undo_file io1 = undo_file io" using assms(3) lf(2) by simp_all
  ultimately show ?thesis
    using finish_txn_logs [OF _ _ _ _ _ _ f] assms(4) finish_txn_ok [OF f]
    by (simp add: end_txn_def discard_redo_ops_def)
qed

lemma log_remove_txn_env_ok: "fst (log_remove_txn enc rd txn env_ok env_ok path t lf) = None"
  by (simp add: log_remove_txn_def log_remove_txn_slow_def log_truncate_in_place_def log_append_handle_def log_rewrite_def
      write_bytes_atomic_def env_ok_def Let_def)

lemma tm_commit_env_ok:
  assumes "tm_active tm"
  shows "\<exists>tm' io'. tm_commit (\<lambda>_. env_ok) tm io = (Ok (), tm', io')"
  using assms
  by (auto simp: tm_commit_def finish_txn_def Let_def wal_log_commit_def wal_write_encoded_locked_def wal_remove_txn_def
      undo_remove_txn_def prod_eq_iff log_write_encoded_env_ok log_remove_txn_env_ok split: prod.splits option.splits)

theorem commit_cleans_up_witness:
  "\<exists>tm' io'. tm_commit (\<lambda>_. env_ok) (fst begun) (snd begun) = (Ok (), tm', io') \<and>
     wal_records (wal_path (fst begun)) io' = filter (\<lambda>r. wal_txn_id r \<noteq> 1) (wal_records (wal_path (fst begun)) (snd begun)) \<and>
     \<not> tm_active tm'"
proof -
  obtain tm' io' where c: "tm_commit (\<lambda>_. env_ok) (fst begun) (snd begun) = (Ok (), tm', io')"
    using tm_commit_env_ok [OF begun_simps(1)] by blast
  have io: "wal_file (snd begun) = fresh_log Map.empty" "undo_file (snd begun) = fresh_log Map.empty"
    by (simp_all add: begun_def begin_with_snapshot_def tm_new_def next_id_def fresh_io_def Let_def)
  have "log_intact wal_encode wal_read_records p (fresh_log Map.empty)" for p
    using wal.rd_at_end [of "[]"] by (simp add: log_intact_def log_records_def file_bytes_def fresh_log_def)
  then show ?thesis using commit_cleans_up [OF _ _ _ _ c] c io by auto
qed

section \<open>What a serializable transaction has read\<close>

lemma decode_encode_read:
  assumes "CHR 0x00 \<notin> set table" and "CHR 0x00 \<notin> set pk_col"
  shows "decode_read (encode_read table pk_col key) = (table, pk_col, key)"
proof -
  have tw: "takeWhile (\<lambda>c. c \<noteq> CHR 0x00) (xs @ CHR 0x00 # ys) = xs" if "CHR 0x00 \<notin> set xs" for xs ys
    using that by (subst takeWhile_append2) auto
  show ?thesis using assms by (simp add: decode_read_def encode_read_def tw Let_def)
qed

lemma validate_reads_ok:
  assumes "validate_reads frozen now live rs = Ok ()" and "e \<in> set rs" and "decode_read e = (table, pk_col, key)"
    and "live table = Some rows" and "row \<in> set rows" and "row_get row pk_col = Some key"
  shows "visible_under row frozen = visible_under row now"
  using assms
proof (induction rs)
  case (Cons e' rs)
  then show ?case by (auto simp: read_conflict_def split: prod.splits option.splits if_splits)
qed simp

text \<open>
  C7: If a serializable transaction passes its check at commit, then for every row key it has read the versions it saw in the snapshot
  frozen when it began are exactly the versions visible now, whatever others have committed since.
\<close>

theorem validated_reads_unchanged:
  assumes "validate_serializable live active_now tm = Ok ()"
    and "tm_isolation_level tm = Serializable" and "tm_frozen_ctx tm = Some frozen"
    and "encode_read table pk_col key \<in> set (tm_read_set tm)" and "CHR 0x00 \<notin> set table" and "CHR 0x00 \<notin> set pk_col"
    and "live table = Some rows"
  shows "filter (\<lambda>r. row_get r pk_col = Some key \<and> visible_under r frozen) rows =
    filter (\<lambda>r. row_get r pk_col = Some key \<and>
      visible_under r \<lparr>self_txn_id = tm_txn_id tm, cutoff = - 1, in_progress = active_now\<rparr>) rows"
proof (rule filter_cong)
  fix row assume row: "row \<in> set rows"
  have "validate_reads frozen \<lparr>self_txn_id = tm_txn_id tm, cutoff = - 1, in_progress = active_now\<rparr> live (tm_read_set tm) = Ok ()"
    using assms(1-3) by (simp add: validate_serializable_def)
  from validate_reads_ok [OF this assms(4) decode_encode_read [OF assms(5,6)] assms(7) row]
  show "(row_get row pk_col = Some key \<and> visible_under row frozen) =
    (row_get row pk_col = Some key \<and>
      visible_under row \<lparr>self_txn_id = tm_txn_id tm, cutoff = - 1, in_progress = active_now\<rparr>)"
    by blast
qed simp

definition serial_tm :: TransactionManager where
  "serial_tm = (tm_new ''d'')\<lparr>tm_active := True, tm_txn_id := 5, tm_isolation_level := Serializable,
     tm_frozen_ctx := Some \<lparr>self_txn_id = 5, cutoff = 6, in_progress = {4}\<rparr>, tm_read_set := [encode_read ''t'' ''id'' ''7'']\<rparr>"

theorem validated_reads_unchanged_witness:
  "filter (\<lambda>r. row_get r ''id'' = Some ''7'' \<and> visible_under r \<lparr>self_txn_id = 5, cutoff = 6, in_progress = {4}\<rparr>)
      [[(''_xmin'', ''3''), (''id'', ''7'')]] =
    filter (\<lambda>r. row_get r ''id'' = Some ''7'' \<and> visible_under r \<lparr>self_txn_id = 5, cutoff = - 1, in_progress = {}\<rparr>)
      [[(''_xmin'', ''3''), (''id'', ''7'')]]"
proof -
  let ?rows = "[[(''_xmin'', ''3''), (''id'', ''7'')]] :: row list"
  have "decode_read (encode_read ''t'' ''id'' ''7'') = (''t'', ''id'', ''7'')" by (rule decode_encode_read) simp_all
  then have "validate_serializable [''t'' \<mapsto> ?rows] {} serial_tm = Ok ()"
    by (simp add: validate_serializable_def serial_tm_def tm_new_def read_conflict_def visible_under_iff seen_def
        committed_as_of_def is_visible_def parse_txn_id_eval)
  from validated_reads_unchanged [OF this, of _ "''t''" "''id''" "''7''" ?rows] show ?thesis
    by (simp add: serial_tm_def tm_new_def)
qed

section \<open>Two faults\<close>

text \<open>
  A vacuum can take a version away from a snapshot that still has to see it. A repeatable-read transaction begins (id 2) while another (id 1)
  is open; the other ends a version and commits. The vacuum horizon is the smallest id still active, 2, so the version with
  \<^verbatim>\<open>_xmax\<close> 1 is removed, although the snapshot of transaction 2, in which 1 is still in progress, sees it.
\<close>

theorem vacuum_breaks_repeatable_read:
  "(case begin_with_snapshot {} (tm_new dir) (fresh_io wfs ufs) of (r1, tm1, io1) \<Rightarrow>
    case begin_with_snapshot {tm_txn_id tm1} (set_isolation_level RepeatableRead (tm_new dir)) io1 of (r2, tm2, io2) \<Rightarrow>
      r1 = Ok 1 \<and> r2 = Ok 2 \<and>
      (\<exists>ctx. tm_frozen_ctx tm2 = Some ctx \<and>
        is_visible_for_read [(''_xmax'', ''1''), (''_xmin'', ''0''), (''id'', ''7'')] ctx \<and>
        vacuum_rows (oldest_active_txn_id {tm_txn_id tm2} (peek_next_id io2))
          [[(''_xmax'', ''1''), (''_xmin'', ''0''), (''id'', ''7'')]] = []))"
  by (simp add: begin_with_snapshot_def set_isolation_level_def tm_new_def fresh_io_def next_id_def peek_next_id_def
      discard_redo_ops_def Let_def is_visible_for_read_def visible_under_iff seen_def committed_as_of_def is_visible_def
      vacuum_rows_def is_vacuumable_def oldest_active_txn_id_def parse_txn_id_eval)

text \<open>
  A change whose WAL record could not be written stays in the redo operations with a mark of its own, and shifts the marks of the
  changes after it: after a rollback to a savepoint set behind a later change, the redo operations hold the failed change and not
  the later one, which the undo log still has and which the transaction will commit.
\<close>

theorem failed_log_shifts_redo:
  assumes "tm_active tm" and "tm_undo_log tm = []" and "tm_redo_ops tm = []" and "tm_redo_marks tm = []"
    and "log_change parse envs1 (ChInsert tA kA dA) tm io = (Throw e, tmA, ioA)"
    and "log_change parse envs2 (ChInsert tB kB dB) tmA ioA = (Ok (), tmB, ioB)"
    and "create_savepoint name tmB = (Ok (), tmC)"
    and "rollback_to_savepoint envs3 name tmC ioB = (Ok es, tmD, ioD)"
  shows "tm_undo_log tmD = [change_entry (tm_txn_id tm) (ChInsert tB kB dB)] \<and>
    tm_redo_ops tmD = change_ops parse (ChInsert tA kA dA)"
proof -
  have A: "tmA = capture_redo (change_ops parse (ChInsert tA kA dA)) tm"
    using assms(5) unfolding log_change_eq [OF assms(1)] by (auto simp: log_undo_def split: prod.splits option.splits)
  then have aA: "tm_active tmA" using assms(1) by simp
  have B: "tmB = with_change parse (ChInsert tB kB dB) tmA" using log_change_ok [OF aA assms(6)] by simp
  define sps where "sps = filter (\<lambda>p. fst p \<noteq> name) (tm_savepoints tmB)"
  have C: "tmC = tmB\<lparr>tm_savepoints := sps @ [(name, length (tm_undo_log tmB))]\<rparr>" "tm_active tmC"
    using assms(7) aA B by (auto simp: create_savepoint_def sps_def with_change_def)
  have "tmD = truncate_to (length sps) tmC"
    using rollback_to_savepoint_tm [OF C(2) find_savepoint_last, of sps name "length (tm_undo_log tmB)" envs3 ioB] assms(8) C(1)
    by simp
  then show ?thesis
    using assms(1-4) by (simp add: truncate_to_def C(1) B A with_change_def capture_redo_def Let_def nth_append)
qed

lemma log_change_write_error:
  assumes "tm_active tm"
  shows "\<exists>tm' io'. log_change parse (\<lambda>_. env_ok\<lparr>env_write_ok := False\<rparr>) c tm io = (Throw WriteFailed, tm', io')"
proof -
  have "fst (log_write_encoded (env_ok\<lparr>env_write_ok := False\<rparr>) path bs sync t lf) = Some WriteFailed" for path bs sync t lf
    by (simp add: log_write_encoded_def log_append_handle_def env_ok_def Let_def)
  then show ?thesis
    unfolding log_change_eq [OF assms]
    by (auto simp: log_undo_def wal_append_def wal_write_encoded_locked_def prod_eq_iff split: prod.splits option.splits)
qed

theorem failed_log_shifts_redo_witness:
  "\<exists>tmA ioA tmB ioB tmC es tmD ioD.
     log_change (\<lambda>_. None) (\<lambda>_. env_ok\<lparr>env_write_ok := False\<rparr>) (ChInsert ''t'' ''a'' ''{}'') (fst begun) (snd begun) =
       (Throw WriteFailed, tmA, ioA) \<and>
     log_change (\<lambda>_. None) (\<lambda>_. env_ok) (ChInsert ''t'' ''b'' ''{}'') tmA ioA = (Ok (), tmB, ioB) \<and>
     create_savepoint ''s'' tmB = (Ok (), tmC) \<and>
     rollback_to_savepoint (\<lambda>_. env_ok) ''s'' tmC ioB = (Ok es, tmD, ioD) \<and>
     tm_undo_log tmD = [change_entry 1 (ChInsert ''t'' ''b'' ''{}'')] \<and>
     tm_redo_ops tmD = change_ops (\<lambda>_. None) (ChInsert ''t'' ''a'' ''{}'')"
proof -
  let ?A = "ChInsert ''t'' ''a'' ''{}''" and ?B = "ChInsert ''t'' ''b'' ''{}''"
  obtain tmA ioA where A: "log_change (\<lambda>_. None) (\<lambda>_. env_ok\<lparr>env_write_ok := False\<rparr>) ?A (fst begun) (snd begun) = (Throw WriteFailed, tmA, ioA)"
    using log_change_write_error [OF begun_simps(1)] by blast
  have "tmA = capture_redo (change_ops (\<lambda>_. None) ?A) (fst begun)"
    using A unfolding log_change_eq [OF begun_simps(1)] by (auto simp: log_undo_def split: prod.splits option.splits)
  then have aA: "tm_active tmA" by simp
  obtain tmB ioB where B: "log_change (\<lambda>_. None) (\<lambda>_. env_ok) ?B tmA ioA = (Ok (), tmB, ioB)" using log_change_env_ok by blast
  have aB: "tm_active tmB" using log_change_ok [OF aA B] aA by (simp add: with_change_def)
  obtain tmC where C: "create_savepoint ''s'' tmB = (Ok (), tmC)" "tm_active tmC" "find_savepoint ''s'' tmC \<noteq> None"
    using aB find_savepoint_last by (fastforce simp: create_savepoint_def)
  obtain es tmD ioD where D: "rollback_to_savepoint (\<lambda>_. env_ok) ''s'' tmC ioB = (Ok es, tmD, ioD)"
    using rollback_to_savepoint_env_ok [OF C(2)] C(3) by blast
  show ?thesis using failed_log_shifts_redo [OF _ _ _ _ A B C(1) D] A B C(1) D by auto
qed

end
