(* ===== verification/OrdMap.thy ===== *)
theory OrdMap
  imports Prelude
begin

text \<open>
  The associative containers of the engine (\<^verbatim>\<open>std::map\<close>, and \<^verbatim>\<open>std::unordered_map\<close> where the order of iteration does not
  matter): association lists with their keys in increasing order, one list for each finite map. \<open>om_set\<close> is
  \<^verbatim>\<open>m[k] = v\<close>, \<open>om_erase\<close> is \<^verbatim>\<open>m.erase(k)\<close>; erasing while iterating is \<^const>\<open>filter\<close>, or \<open>om_update\<close> where the
  loop also changes the values it keeps. A \<^verbatim>\<open>std::unordered_set\<close> is a list without repetitions.
\<close>

definition om_wf :: "('k::linorder \<times> 'v) list \<Rightarrow> bool" where
  "om_wf m \<longleftrightarrow> sorted_wrt (<) (map fst m)"

fun om_set :: "'k::linorder \<Rightarrow> 'v \<Rightarrow> ('k \<times> 'v) list \<Rightarrow> ('k \<times> 'v) list" where
  "om_set k v [] = [(k, v)]"
| "om_set k v ((k', v') # m) =
     (if k < k' then (k, v) # (k', v') # m
      else if k = k' then (k, v) # m
      else (k', v') # om_set k v m)"

definition om_erase :: "'k \<Rightarrow> ('k \<times> 'v) list \<Rightarrow> ('k \<times> 'v) list" where
  "om_erase k m = filter (\<lambda>kv. fst kv \<noteq> k) m"

definition om_update :: "('k \<Rightarrow> 'v \<Rightarrow> 'v option) \<Rightarrow> ('k \<times> 'v) list \<Rightarrow> ('k \<times> 'v) list" where
  "om_update f m = concat (map (\<lambda>(k, v). case f k v of None \<Rightarrow> [] | Some v' \<Rightarrow> [(k, v')]) m)"

definition set_insert :: "'a \<Rightarrow> 'a list \<Rightarrow> 'a list" where
  "set_insert x xs = (if x \<in> set xs then xs else xs @ [x])"

lemma om_wf_Nil [simp]: "om_wf []"
  by (simp add: om_wf_def)

lemma om_wf_distinct: "om_wf m \<Longrightarrow> distinct (map fst m)"
  by (simp add: om_wf_def strict_sorted_iff)

lemma map_of_om_set [simp]: "map_of (om_set k v m) k' = (if k' = k then Some v else map_of m k')"
  by (induction m) auto

lemma fst_set_om_set: "fst ` set (om_set k v m) = insert k (fst ` set m)"
  by (induction k v m rule: om_set.induct) (simp_all add: insert_commute)

lemma om_wf_om_set: "om_wf m \<Longrightarrow> om_wf (om_set k v m)"
  unfolding om_wf_def
proof (induction m)
  case (Cons a m)
  obtain k' v' where a: "a = (k', v')" by (cases a)
  consider "k < k'" | "k = k'" | "k' < k" by fastforce
  then show ?case
  proof cases
    case 3
    have "\<forall>x \<in> fst ` set (om_set k v m). k' < x"
      using Cons.prems 3 a by (auto simp: fst_set_om_set)
    then show ?thesis using 3 Cons a by auto
  qed (use Cons.prems a in auto)
qed simp

lemma map_of_om_erase [simp]: "map_of (om_erase k m) k' = (if k' = k then None else map_of m k')"
  by (induction m) (auto simp: om_erase_def)

lemma om_wf_filter: "om_wf m \<Longrightarrow> om_wf (filter P m)"
  unfolding om_wf_def by (induction m) auto

lemma om_wf_om_erase: "om_wf m \<Longrightarrow> om_wf (om_erase k m)"
  by (simp add: om_erase_def om_wf_filter)

lemma map_of_filter_distinct:
  "distinct (map fst m) \<Longrightarrow> map_of (filter P m) k = (case map_of m k of None \<Rightarrow> None | Some v \<Rightarrow> if P (k, v) then Some v else None)"
  by (induction m) (auto split: option.splits simp: map_of_eq_None_iff)

lemma map_of_om_update:
  "distinct (map fst m) \<Longrightarrow> map_of (om_update f m) k = (case map_of m k of None \<Rightarrow> None | Some v \<Rightarrow> f k v)"
proof (induction m)
  case (Cons a m)
  obtain k' v' where a: "a = (k', v')" by (cases a)
  show ?case
  proof (cases "k = k'")
    case True
    then have "map_of m k = None" using Cons.prems a by (simp add: map_of_eq_None_iff)
    then have "map_of (om_update f m) k = None" using Cons by simp
    then show ?thesis using True a by (auto simp: om_update_def split: option.splits)
  next
    case False
    then show ?thesis using Cons a by (auto simp: om_update_def split: option.splits)
  qed
qed (simp add: om_update_def)

lemma fst_om_update: "fst ` set (om_update f m) \<subseteq> fst ` set m"
  by (force simp: om_update_def split: option.splits)

lemma om_wf_om_update: "om_wf m \<Longrightarrow> om_wf (om_update f m)"
proof (induction m)
  case (Cons a m)
  have "\<forall>x \<in> fst ` set (om_update f m). fst a < x"
  proof -
    have "\<forall>x \<in> fst ` set m. fst a < x" using Cons.prems by (simp add: om_wf_def)
    then show ?thesis using fst_om_update [of f m] by blast
  qed
  then show ?case using Cons by (cases a) (auto simp: om_wf_def om_update_def split: option.splits)
qed (simp add: om_update_def)

lemma set_set_insert [simp]: "set (set_insert x xs) = insert x (set xs)"
  by (auto simp: set_insert_def)

lemma distinct_set_insert: "distinct xs \<Longrightarrow> distinct (set_insert x xs)"
  by (simp add: set_insert_def)

lemma length_om_erase: "om_wf m \<Longrightarrow> k \<in> fst ` set m \<Longrightarrow> length m = Suc (length (om_erase k m))"
proof (induction m)
  case (Cons a m)
  show ?case
  proof (cases "fst a = k")
    case True
    then have "\<forall>x \<in> set m. fst x \<noteq> k"
      using Cons.prems(1) by (auto simp: om_wf_def)
    then show ?thesis
      using True by (simp add: om_erase_def)
  next
    case False
    then have "om_wf m" "k \<in> fst ` set m"
      using Cons.prems by (auto simp: om_wf_def)
    then show ?thesis
      using Cons.IH False by (simp add: om_erase_def)
  qed
qed simp

lemma length_om_set: "length (om_set k v m) \<le> Suc (length m)"
  by (induction k v m rule: om_set.induct) auto

lemma fst_om_erase: "fst ` set (om_erase k m) = fst ` set m - {k}"
  by (auto simp: om_erase_def)

lemma set_om_set: "set (om_set k v m) \<subseteq> insert (k, v) (set m)"
  by (induction k v m rule: om_set.induct) auto

lemma length_om_set_old: "om_wf m \<Longrightarrow> map_of m k \<noteq> None \<Longrightarrow> length (om_set k v m) = length m"
proof (induction k v m rule: om_set.induct)
  case (2 k v k' v' m)
  have "\<not> k < k'"
    using 2(2,3) by (fastforce simp: om_wf_def dest: map_of_SomeD split: if_splits)
  then show ?case
    using 2 by (auto simp: om_wf_def)
qed simp

end
