(* ===== verification/Comparison.thy ===== *)
theory Comparison
  imports Prelude
begin

text \<open>
  The three-way comparisons of the engine: a function that gives \<open>-1\<close>, \<open>0\<close> or \<open>1\<close>, as \<^verbatim>\<open>collation::compare\<close>,
  \<^verbatim>\<open>compare_numbers\<close> and the key comparison of the B-tree do. The locale \<open>comparison\<close> is what a client that sorts or searches
  by such a function relies on: it is a total preorder. \<open>three_way\<close> is the comparison that a linear order gives.
\<close>

definition three_way :: "'a::linorder \<Rightarrow> 'a \<Rightarrow> int" where
  "three_way x y = (if x < y then -1 else if y < x then 1 else 0)"

locale comparison =
  fixes cmp :: "'a \<Rightarrow> 'a \<Rightarrow> int"
  assumes cmp_range: "cmp a b \<in> {-1, 0, 1}"
    and cmp_swap: "cmp b a = - cmp a b"
    and cmp_trans: "cmp a b \<le> 0 \<Longrightarrow> cmp b c \<le> 0 \<Longrightarrow> cmp a c \<le> 0"
begin

lemma cmp_refl: "cmp a a = 0"
  using cmp_swap [of a a] by simp

lemma cmp_eq_sym: "cmp a b = 0 \<longleftrightarrow> cmp b a = 0"
  using cmp_swap [of a b] by simp

lemma cmp_ge: "cmp a b \<ge> 0 \<longleftrightarrow> cmp b a \<le> 0"
  using cmp_swap [of b a] by simp

lemma cmp_gt: "cmp a b > 0 \<longleftrightarrow> cmp b a < 0"
  using cmp_swap [of b a] by simp

lemma cmp_less_le_trans: "cmp a b < 0 \<Longrightarrow> cmp b c \<le> 0 \<Longrightarrow> cmp a c < 0"
  by (rule ccontr) (metis cmp_ge cmp_gt cmp_trans less_le_not_le not_less)

lemma cmp_le_less_trans: "cmp a b \<le> 0 \<Longrightarrow> cmp b c < 0 \<Longrightarrow> cmp a c < 0"
  by (rule ccontr) (metis cmp_ge cmp_gt cmp_trans less_le_not_le not_less)

lemma cmp_eq_left: "cmp a b = 0 \<Longrightarrow> cmp a c = cmp b c"
proof -
  assume e: "cmp a b = 0"
  then have e': "cmp b a = 0" using cmp_eq_sym by blast
  have "cmp a c \<le> 0 \<longleftrightarrow> cmp b c \<le> 0" using cmp_trans [of a b c] cmp_trans [of b a c] e e' by auto
  moreover have "cmp c a \<le> 0 \<longleftrightarrow> cmp c b \<le> 0" using cmp_trans [of c a b] cmp_trans [of c b a] e e' by auto
  moreover note cmp_range [of a c] cmp_range [of b c] cmp_swap [of a c] cmp_swap [of b c]
  ultimately show ?thesis by auto
qed

lemma cmp_eq_right: "cmp b c = 0 \<Longrightarrow> cmp a b = cmp a c"
  using cmp_eq_left [of b c a] cmp_swap [of a b] cmp_swap [of a c] by simp

lemma cmp_eq_equiv: "equivp (\<lambda>a b. cmp a b = 0)"
  by (rule equivpI; intro reflpI sympI transpI) (use cmp_refl cmp_eq_sym cmp_eq_left in metis)+

end

lemma three_way_0 [simp]: "three_way x y = 0 \<longleftrightarrow> x = y"
  by (auto simp: three_way_def)

lemma comparison_three_way: "comparison (\<lambda>a b. three_way (f a) (f b))"
  by unfold_locales (auto simp: three_way_def split: if_splits)

lemma comparison_lex:
  assumes "comparison c" "comparison d"
  shows "comparison (\<lambda>a b. if c a b \<noteq> 0 then c a b else d a b)"
proof
  fix x y z
  note c = comparison.cmp_range [OF assms(1)] comparison.cmp_swap [OF assms(1)] comparison.cmp_trans [OF assms(1)]
  note d = comparison.cmp_range [OF assms(2)] comparison.cmp_swap [OF assms(2)] comparison.cmp_trans [OF assms(2)]
  show "(if c x y \<noteq> 0 then c x y else d x y) \<in> {-1, 0, 1}"
    using c(1) [of x y] d(1) [of x y] by auto
  show "(if c y x \<noteq> 0 then c y x else d y x) = - (if c x y \<noteq> 0 then c x y else d x y)"
    using c(2) [of y x] d(2) [of y x] by simp
  assume xy: "(if c x y \<noteq> 0 then c x y else d x y) \<le> 0" and yz: "(if c y z \<noteq> 0 then c y z else d y z) \<le> 0"
  then have "c x y \<le> 0" "c y z \<le> 0"
    by (auto split: if_splits)
  then have "c x z \<le> 0"
    by (rule c(3))
  moreover have "d x z \<le> 0" if "c x z = 0"
  proof -
    have "c x y = 0"
      using that \<open>c x y \<le> 0\<close> \<open>c y z \<le> 0\<close> comparison.cmp_less_le_trans [OF assms(1), of x y z] by force
    moreover have "c y z = 0"
      using that \<open>c x y \<le> 0\<close> \<open>c y z \<le> 0\<close> comparison.cmp_le_less_trans [OF assms(1), of x y z] by force
    ultimately show ?thesis
      using xy yz d(3) [of x y z] by simp
  qed
  ultimately show "(if c x z \<noteq> 0 then c x z else d x z) \<le> 0"
    by simp
qed

text \<open>Classes of values, each with a comparison of its own.\<close>

lemma comparison_classes:
  assumes "\<And>k. comparison (c k)"
  shows "comparison (\<lambda>a b. if k a = k b then c (k a) a b else three_way (k a) (k b))"
proof
  fix x y z
  note c = comparison.cmp_range [OF assms] comparison.cmp_swap [OF assms] comparison.cmp_trans [OF assms]
  show "(if k x = k y then c (k x) x y else three_way (k x) (k y)) \<in> {-1, 0, 1}"
    using c(1) by (simp add: three_way_def)
  show "(if k y = k x then c (k y) y x else three_way (k y) (k x)) = - (if k x = k y then c (k x) x y else three_way (k x) (k y))"
    using c(2) [of "k x" y x] by (auto simp: three_way_def)
  assume "(if k x = k y then c (k x) x y else three_way (k x) (k y)) \<le> 0" "(if k y = k z then c (k y) y z else three_way (k y) (k z)) \<le> 0"
  then show "(if k x = k z then c (k x) x z else three_way (k x) (k z)) \<le> 0"
    using c(3) [of "k x" x y z] by (auto simp: three_way_def split: if_splits)
qed

end
