(* ===== verification/Collation.thy ===== *)
theory Collation
  imports Comparison "HOL-Library.Product_Lexorder" "HOL-Library.Option_ord"
begin

text \<open>
  The default collation (\<^verbatim>\<open>core/src/collation.cpp\<close>): how the engine decides that two texts are the same value, in which order
  they stand, and whether a text matches a \<^verbatim>\<open>LIKE\<close> pattern. The weight tables \<^verbatim>\<open>kRuns\<close> and \<^verbatim>\<open>kPool\<close> are generated
  (\<^verbatim>\<open>collation_data.inc\<close>), so they are an argument of the definitions (\<open>collation_data\<close>); \<open>ascii_data\<close> is their first part, the
  rows of the code points below 128.

  A code point is a \<^typ>\<open>nat\<close> (at most \<^verbatim>\<open>0x10FFFF\<close>), a weight is a 16-bit word. A position in a text is the text that
  is left from there.
\<close>

section \<open>Weights of a code point\<close>

record Run =
  run_start :: nat
  run_count :: nat
  run_kind :: nat
  run_n :: nat
  run_pool :: nat

record collation_data =
  kRuns :: "Run list"
  kPool :: "u16 list"

definition is_null_text :: "string \<Rightarrow> bool" where
  "is_null_text s \<longleftrightarrow> s = ''NULL''"

function upper_run :: "Run list \<Rightarrow> nat \<Rightarrow> nat \<Rightarrow> nat \<Rightarrow> nat" where
  "upper_run runs cp lo hi =
     (if lo < hi then
        let mid = lo + (hi - lo) div 2 in
        if run_start (runs ! mid) \<le> cp then upper_run runs cp (mid + 1) hi
        else upper_run runs cp lo mid
      else lo)"
  by pat_completeness auto
termination
  by (relation "measure (\<lambda>(runs, cp, lo, hi). hi - lo)") auto

declare upper_run.simps [simp del]

definition run_weights :: "collation_data \<Rightarrow> Run \<Rightarrow> nat \<Rightarrow> u16 list" where
  "run_weights D run cp =
     (let out = map (\<lambda>i. kPool D ! (run_pool run + i)) [0..<run_n run] in
      if run_kind run = 1 \<and> run_n run > 0
      then out[run_n run - 1 := out ! (run_n run - 1) + word_of_nat (cp - run_start run)]
      else out)"

definition from_runs :: "collation_data \<Rightarrow> nat \<Rightarrow> u16 list option" where
  "from_runs D cp =
     (let lo = upper_run (kRuns D) cp 0 (length (kRuns D)) in
      if lo = 0 then None
      else let run = kRuns D ! (lo - 1) in
        if cp \<ge> run_start run + run_count run then None
        else Some (run_weights D run cp))"

definition implicit_weights :: "nat \<Rightarrow> u16 list" where
  "implicit_weights cp =
     (let base :: nat =
        (if (0x4E00 \<le> cp \<and> cp \<le> 0x9FFF) \<or>
            cp \<in> set [0xFA0E, 0xFA0F, 0xFA11, 0xFA13, 0xFA14, 0xFA1F, 0xFA21, 0xFA23, 0xFA24, 0xFA27, 0xFA28, 0xFA29]
         then 0xFB40
         else if (0x3400 \<le> cp \<and> cp \<le> 0x4DBF) \<or> (0x20000 \<le> cp \<and> cp \<le> 0x2A6DF) \<or> (0x2A700 \<le> cp \<and> cp \<le> 0x2EBEF)
         then 0xFB80
         else 0xFBC0) in
      [word_of_nat (base + cp div 2 ^ 15), word_of_nat (cp mod 2 ^ 15) OR 0x8000])"

definition jamo_weights :: "collation_data \<Rightarrow> nat \<Rightarrow> u16 list" where
  "jamo_weights D cp = (case from_runs D cp of Some ws \<Rightarrow> ws | None \<Rightarrow> [])"

definition weights_of :: "collation_data \<Rightarrow> nat \<Rightarrow> u16 list" where
  "weights_of D cp =
     (case from_runs D cp of
        Some ws \<Rightarrow> ws
      | None \<Rightarrow>
          if 0xAC00 \<le> cp \<and> cp \<le> 0xD7A3 then
            let s = cp - 0xAC00;
                jamo = [0x1100 + s div 588, 0x1161 + (s mod 588) div 28, 0x11A7 + s mod 28];
                cnt = (if s mod 28 = 0 then 2 else 3) in
            concat (map (jamo_weights D) (take cnt jamo))
          else implicit_weights cp)"

text \<open>The table of the code points below 128: the weight of a character, \<^const>\<open>None\<close> for one that is ignored.\<close>

definition ascii_table :: "collation_data \<Rightarrow> nat \<Rightarrow> u16 option" where
  "ascii_table D c =
     (case (if c = 0 then [] else weights_of D c) of [] \<Rightarrow> None | w # _ \<Rightarrow> Some w)"

section \<open>Code points of a text\<close>

fun cont_bytes :: "nat \<Rightarrow> string \<Rightarrow> nat \<Rightarrow> nat option" where
  "cont_bytes 0 s cp = Some cp"
| "cont_bytes (Suc k) [] cp = None"
| "cont_bytes (Suc k) (d # s) cp =
     (if (of_char d :: nat) AND 0xC0 \<noteq> 0x80 then None
      else cont_bytes k s (cp * 64 + (of_char d AND 0x3F)))"

definition decode :: "string \<Rightarrow> nat \<times> nat" where
  "decode s =
     (let c = (of_char (hd s) :: nat) in
      if c < 0x80 then (c, 1)
      else if c < 0xC2 \<or> c > 0xF4 then (0xFFFD, 1)
      else
        let len = (if c \<le> 0xDF then 2 else if c \<le> 0xEF then 3 else 4);
            cp = (if len = 2 then c AND 0x1F else if len = 3 then c AND 0x0F else c AND 0x07) in
        if len > length s then (0xFFFD, 1)
        else case cont_bytes (len - 1) (tl s) cp of
            None \<Rightarrow> (0xFFFD, 1)
          | Some cp \<Rightarrow>
              if (len = 3 \<and> cp < 0x800) \<or> (len = 4 \<and> (cp < 0x10000 \<or> cp > 0x10FFFF))
              then (0xFFFD, 1) else (cp, len))"

lemma decode_advances: "0 < snd (decode s)"
  by (simp add: decode_def Let_def split: option.splits)

function code_points :: "string \<Rightarrow> nat list" where
  "code_points [] = []"
| "code_points (c # s) = (let (cp, len) = decode (c # s) in cp # code_points (drop len (c # s)))"
  by pat_completeness auto
termination
proof (relation "measure length", goal_cases)
  case (2 c s x cp len)
  then show ?case using decode_advances [of "c # s"] by (cases "decode (c # s)") simp
qed simp

section \<open>The cursor over the weights of a text\<close>

record Cursor =
  cur_rest :: string
  cur_buf :: "u16 list"

definition cursor_at :: "string \<Rightarrow> Cursor" where
  "cursor_at s = \<lparr>cur_rest = s, cur_buf = []\<rparr>"

text \<open>\<open>cur_buf\<close> is what is left of \<^verbatim>\<open>buf_[i_ .. n_)\<close>, \<open>cur_rest\<close> the text from \<^verbatim>\<open>pos_\<close>.\<close>

function next_weight :: "collation_data \<Rightarrow> u16 list \<Rightarrow> string \<Rightarrow> (u16 \<times> Cursor) option" where
  "next_weight D (w # ws) s = Some (w, \<lparr>cur_rest = s, cur_buf = ws\<rparr>)"
| "next_weight D [] [] = None"
| "next_weight D [] (c # s) =
     (if (of_char c :: nat) < 0x80 then
        (case ascii_table D (of_char c) of
           Some w \<Rightarrow> Some (w, \<lparr>cur_rest = s, cur_buf = []\<rparr>)
         | None \<Rightarrow> next_weight D [] s)
      else let (cp, len) = decode (c # s) in next_weight D (weights_of D cp) (drop len (c # s)))"
  by pat_completeness auto
termination
proof (relation "measure (\<lambda>(D, b, s). length s)", goal_cases)
  case (3 D c s x cp len)
  then show ?case using decode_advances [of "c # s"] by (cases "decode (c # s)") simp
qed auto

definition cursor_next :: "collation_data \<Rightarrow> Cursor \<Rightarrow> (u16 \<times> Cursor) option" where
  "cursor_next D c = next_weight D (cur_buf c) (cur_rest c)"

text \<open>What the cursor yields in all.\<close>

function text_weights :: "collation_data \<Rightarrow> string \<Rightarrow> u16 list" where
  "text_weights D [] = []"
| "text_weights D (c # s) =
     (if (of_char c :: nat) < 0x80 then
        (case ascii_table D (of_char c) of Some w \<Rightarrow> w # text_weights D s | None \<Rightarrow> text_weights D s)
      else let (cp, len) = decode (c # s) in weights_of D cp @ text_weights D (drop len (c # s)))"
  by pat_completeness auto
termination
proof (relation "measure (\<lambda>(D, s). length s)", goal_cases)
  case (4 D c s x cp len)
  then show ?case using decode_advances [of "c # s"] by (cases "decode (c # s)") simp
qed auto

definition cursor_weights :: "collation_data \<Rightarrow> Cursor \<Rightarrow> u16 list" where
  "cursor_weights D c = cur_buf c @ text_weights D (cur_rest c)"

lemma next_weight_yields:
  "b @ text_weights D s = (case next_weight D b s of None \<Rightarrow> [] | Some (w, c) \<Rightarrow> w # cursor_weights D c)"
proof (induction D b s rule: next_weight.induct)
  case (3 D c s)
  show ?case
  proof (cases "(of_char c :: nat) < 0x80")
    case True
    then show ?thesis using 3(1) by (auto simp: cursor_weights_def split: option.splits)
  next
    case False
    obtain cp len where d: "decode (c # s) = (cp, len)" by (cases "decode (c # s)")
    show ?thesis using 3(2) [OF False d [symmetric] refl] False d by simp
  qed
qed (simp_all add: cursor_weights_def)

lemma cursor_next_None: "cursor_next D c = None \<longleftrightarrow> cursor_weights D c = []"
  using next_weight_yields [of "cur_buf c" D "cur_rest c"]
  by (auto simp: cursor_next_def cursor_weights_def split: option.splits)

lemma cursor_next_Some: "cursor_next D c = Some (w, c') \<Longrightarrow> cursor_weights D c = w # cursor_weights D c'"
  using next_weight_yields [of "cur_buf c" D "cur_rest c"] by (simp add: cursor_next_def cursor_weights_def)

lemma cursor_weights_at [simp]: "cursor_weights D (cursor_at s) = text_weights D s"
  by (simp add: cursor_weights_def cursor_at_def)

section \<open>Comparison, keys, sort keys\<close>

function compare_cursors :: "collation_data \<Rightarrow> Cursor \<Rightarrow> Cursor \<Rightarrow> int" where
  "compare_cursors D ca cb =
     (case (cursor_next D ca, cursor_next D cb) of
        (None, None) \<Rightarrow> 0
      | (Some _, None) \<Rightarrow> 1
      | (None, Some _) \<Rightarrow> -1
      | (Some (wa, ca'), Some (wb, cb')) \<Rightarrow>
          if wa \<noteq> wb then (if wa < wb then -1 else 1) else compare_cursors D ca' cb')"
  by pat_completeness auto
termination
  by (relation "measure (\<lambda>(D, ca, cb). length (cursor_weights D ca))") (auto dest: cursor_next_Some [OF sym])

declare compare_cursors.simps [simp del]

definition collation_compare :: "collation_data \<Rightarrow> string \<Rightarrow> string \<Rightarrow> int" where
  "collation_compare D a b =
     (if is_null_text a \<or> is_null_text b
      then (if is_null_text a then (if is_null_text b then 0 else -1) else 1)
      else compare_cursors D (cursor_at a) (cursor_at b))"

definition collation_equal :: "collation_data \<Rightarrow> string \<Rightarrow> string \<Rightarrow> bool" where
  "collation_equal D a b \<longleftrightarrow> a = b \<or> collation_compare D a b = 0"

text \<open>The loop \<^verbatim>\<open>while (c.next(w))\<close> that collects the weights.\<close>

function collect :: "collation_data \<Rightarrow> Cursor \<Rightarrow> u16 list" where
  "collect D c = (case cursor_next D c of None \<Rightarrow> [] | Some (w, c') \<Rightarrow> w # collect D c')"
  by pat_completeness auto
termination
  by (relation "measure (\<lambda>(D, c). length (cursor_weights D c))") (auto dest: cursor_next_Some)

declare collect.simps [simp del]

definition weight_bytes :: "u16 \<Rightarrow> string" where
  "weight_bytes w = [char_of (unat (drop_bit 8 w)), char_of (unat (w AND 0xFF))]"

definition collation_sort_key :: "collation_data \<Rightarrow> string \<Rightarrow> string" where
  "collation_sort_key D s = concat (map weight_bytes (collect D (cursor_at s)))"

definition printable :: "char \<Rightarrow> bool" where
  "printable c \<longleftrightarrow> 0x20 \<le> (of_char c :: nat) \<and> (of_char c :: nat) \<le> 0x7E"

definition lower :: "char \<Rightarrow> char" where
  "lower c = (if 65 \<le> (of_char c :: nat) \<and> (of_char c :: nat) \<le> 90 then char_of ((of_char c :: nat) + 32) else c)"

definition key_chars :: "nat list" where
  "key_chars = filter (\<lambda>c. \<not> (65 \<le> c \<and> c \<le> 90)) [0x20..<0x7F]"

definition ascii_of_weight :: "collation_data \<Rightarrow> (u16 \<times> char) list" where
  "ascii_of_weight D =
     sort (map (\<lambda>c. (case ascii_table D c of Some w \<Rightarrow> w | None \<Rightarrow> 0, char_of c)) key_chars)"

definition lower_bound :: "('a::linorder) list \<Rightarrow> 'a \<Rightarrow> 'a option" where
  "lower_bound xs x = (case dropWhile (\<lambda>y. y < x) xs of [] \<Rightarrow> None | y # _ \<Rightarrow> Some y)"

fun plain_key :: "(u16 \<times> char) list \<Rightarrow> u16 list \<Rightarrow> string option" where
  "plain_key t [] = Some []"
| "plain_key t (w # ws) =
     (case lower_bound t (w, char_of (0::nat)) of
        None \<Rightarrow> None
      | Some (w', ch) \<Rightarrow> if w' \<noteq> w then None else map_option ((#) ch) (plain_key t ws))"

definition collation_key :: "collation_data \<Rightarrow> string \<Rightarrow> string" where
  "collation_key D s =
     (if is_null_text s then [char_of (2::nat), CHR ''N'']
      else if list_all printable s then map lower s
      else let weights = collect D (cursor_at s) in
        case plain_key (ascii_of_weight D) weights of
          Some plain \<Rightarrow> plain
        | None \<Rightarrow> char_of (1::nat) # concat (map weight_bytes weights))"

section \<open>The search for a run\<close>

definition runs_ok :: "Run list \<Rightarrow> bool" where
  "runs_ok runs \<longleftrightarrow> sorted_wrt (\<lambda>r r'. run_start r + run_count r \<le> run_start r') runs"

definition run_has :: "nat \<Rightarrow> Run \<Rightarrow> bool" where
  "run_has cp r \<longleftrightarrow> run_start r \<le> cp \<and> cp < run_start r + run_count r"

lemma upper_run_bounds:
  assumes "lo \<le> hi" "hi \<le> length runs" "runs_ok runs"
    "\<forall>i < lo. run_start (runs ! i) \<le> cp" "\<forall>i. hi \<le> i \<and> i < length runs \<longrightarrow> cp < run_start (runs ! i)"
  shows "upper_run runs cp lo hi \<le> length runs \<and>
    (\<forall>i < length runs. run_start (runs ! i) \<le> cp \<longleftrightarrow> i < upper_run runs cp lo hi)"
  using assms
proof (induction runs cp lo hi rule: upper_run.induct)
  case (1 runs cp lo hi)
  define mid where "mid = lo + (hi - lo) div 2"
  have mono: "run_start (runs ! i) \<le> run_start (runs ! j)" if "i \<le> j" "j < length runs" for i j
    using 1(5) that unfolding runs_ok_def by (cases "i = j") (auto dest: sorted_wrt_nth_less [of _ _ i j])
  show ?case
  proof (cases "lo < hi")
    case True
    then have mid: "lo \<le> mid" "mid < hi" by (auto simp: mid_def)
    show ?thesis
    proof (cases "run_start (runs ! mid) \<le> cp")
      case left: True
      have "\<forall>i < mid + 1. run_start (runs ! i) \<le> cp"
        using left mono [of _ mid] mid 1(4) by (auto simp: less_Suc_eq_le intro: le_trans)
      then show ?thesis
        using 1(1) [OF True mid_def left] mid 1(4,5,7) left True by (subst (1 2) upper_run.simps) (simp add: mid_def Let_def)
    next
      case right: False
      have "\<forall>i. mid \<le> i \<and> i < length runs \<longrightarrow> cp < run_start (runs ! i)"
        using right mono [of mid] by (meson le_less_trans not_le less_le_trans)
      then show ?thesis
        using 1(2) [OF True mid_def right] mid 1(4,5,6) right True by (subst (1 2) upper_run.simps) (simp add: mid_def Let_def)
    qed
  next
    case False
    then have "lo = hi" using 1(3) by simp
    then show ?thesis using 1(4,6,7) by (subst (1 2) upper_run.simps) (auto simp: not_le [symmetric])
  qed
qed

lemma runs_ok_unique:
  assumes "runs_ok runs" "i < length runs" "run_has cp (runs ! i)" "j < length runs" "run_start (runs ! j) \<le> cp"
  shows "j \<le> i"
proof (rule ccontr)
  assume "\<not> j \<le> i"
  then have "run_start (runs ! i) + run_count (runs ! i) \<le> run_start (runs ! j)"
    using assms(1,4) sorted_wrt_nth_less [of _ runs i j] by (auto simp: runs_ok_def)
  then show False using assms(3,5) by (simp add: run_has_def)
qed

lemma from_runs_find:
  assumes "runs_ok (kRuns D)"
  shows "from_runs D cp = map_option (\<lambda>r. run_weights D r cp) (find (run_has cp) (kRuns D))"
proof -
  define lo where "lo = upper_run (kRuns D) cp 0 (length (kRuns D))"
  have lo: "lo \<le> length (kRuns D)" "\<And>i. i < length (kRuns D) \<Longrightarrow> run_start (kRuns D ! i) \<le> cp \<longleftrightarrow> i < lo"
    using upper_run_bounds [of 0 "length (kRuns D)" "kRuns D" cp] assms by (auto simp: lo_def)
  have eq: "from_runs D cp = (if lo = 0 then None else
      if run_has cp (kRuns D ! (lo - 1)) then Some (run_weights D (kRuns D ! (lo - 1)) cp) else None)"
    using lo(1) lo(2) [of "lo - 1"] by (auto simp: from_runs_def lo_def [symmetric] run_has_def Let_def)
  show ?thesis
  proof (cases "find (run_has cp) (kRuns D)")
    case None
    then have "\<forall>r \<in> set (kRuns D). \<not> run_has cp r" by (simp add: find_None_iff)
    then show ?thesis using eq None lo(1) by (auto simp: nth_mem)
  next
    case (Some r)
    then obtain i where i: "i < length (kRuns D)" "run_has cp (kRuns D ! i)" "r = kRuns D ! i"
      by (auto simp: find_Some_iff)
    then have "i < lo" using lo(2) by (simp add: run_has_def)
    moreover have "lo - 1 \<le> i" using runs_ok_unique [OF assms i(1,2), of "lo - 1"] lo calculation by auto
    ultimately have "lo \<noteq> 0" "lo - 1 = i" by auto
    then show ?thesis using eq Some i by simp
  qed
qed

section \<open>Comparison and keys by the weights\<close>

lemma collect_eq: "collect D c = cursor_weights D c"
proof (induction D c rule: collect.induct)
  case (1 D c)
  then show ?case
    using cursor_next_None [of D c] cursor_next_Some [of D c]
    by (subst collect.simps) (auto split: option.splits)
qed

lemma compare_cursors_eq: "compare_cursors D ca cb = three_way (cursor_weights D ca) (cursor_weights D cb)"
proof (induction D ca cb rule: compare_cursors.induct)
  case (1 D ca cb)
  show ?case
  proof (cases "cursor_next D ca")
    case None
    then show ?thesis
      using cursor_next_None [of D ca] cursor_next_None [of D cb] cursor_next_Some [of D cb]
      by (subst compare_cursors.simps) (auto simp: three_way_def split: option.splits)
  next
    case (Some a)
    obtain wa ca' where a: "a = (wa, ca')" by (cases a)
    have wa: "cursor_weights D ca = wa # cursor_weights D ca'" using Some a cursor_next_Some by simp
    show ?thesis
    proof (cases "cursor_next D cb")
      case None
      then show ?thesis
        using wa Some a cursor_next_None [of D cb]
        by (subst compare_cursors.simps) (auto simp: three_way_def)
    next
      case (Some b)
      obtain wb cb' where b: "b = (wb, cb')" by (cases b)
      have wb: "cursor_weights D cb = wb # cursor_weights D cb'" using Some b cursor_next_Some by simp
      show ?thesis
        using wa wb \<open>cursor_next D ca = Some a\<close> Some a b 1
        by (subst compare_cursors.simps) (auto simp: three_way_def)
    qed
  qed
qed

text \<open>The place of a text in the order: NULL first, then by the weights.\<close>

definition text_rank :: "collation_data \<Rightarrow> string \<Rightarrow> u16 list option" where
  "text_rank D s = (if is_null_text s then None else Some (text_weights D s))"

lemma collation_compare_rank: "collation_compare D a b = three_way (text_rank D a) (text_rank D b)"
  by (auto simp: collation_compare_def text_rank_def compare_cursors_eq three_way_def)

interpretation coll: comparison "collation_compare D" for D
  unfolding collation_compare_rank by (rule comparison_three_way)

lemma collation_equal_rank: "collation_equal D a b \<longleftrightarrow> text_rank D a = text_rank D b"
  by (auto simp: collation_equal_def collation_compare_rank)

subsection \<open>Sort keys\<close>

lemma unat_low_byte: "unat ((w :: u16) AND 0xFF) = unat w mod 256"
proof -
  have "unat w AND 255 = take_bit 8 (unat w)" by (simp add: take_bit_eq_mask mask_eq_exp_minus_1)
  then show ?thesis by (simp add: unsigned_and_eq take_bit_eq_mod)
qed

lemma unat_high_byte: "unat (drop_bit 8 (w :: u16)) = unat w div 256"
  by (simp add: drop_bit_eq_div unat_div)

lemma unat_weight_less: "unat (w :: u16) < 65536"
  using unsigned_less [of w, where ?'a = nat] by simp

lemma of_char_weight_bytes:
  "map of_char (weight_bytes w) = [unat w div 256, unat w mod 256]"
proof -
  have "unat w div 256 < 256" using unat_weight_less [of w] by simp
  then show ?thesis by (simp add: weight_bytes_def unat_low_byte unat_high_byte of_char_of)
qed

lemma char_less_iff: "(c :: char) < d \<longleftrightarrow> (of_char c :: nat) < of_char d"
  by (simp add: less_char_def)

lemma weight_bytes_shape:
  "\<exists>h l. weight_bytes w = [h, l] \<and> of_char h = unat w div 256 \<and> of_char l = unat w mod 256"
  using of_char_weight_bytes [of w] by (auto simp: weight_bytes_def)

lemma weight_bytes_inj: "weight_bytes w = weight_bytes w' \<Longrightarrow> w = w'"
proof -
  assume "weight_bytes w = weight_bytes w'"
  then have "unat w div 256 = unat w' div 256" "unat w mod 256 = unat w' mod 256"
    using weight_bytes_shape [of w] weight_bytes_shape [of w'] by (metis list.inject)+
  then have "unat w = unat w'" by (metis div_mult_mod_eq)
  then show ?thesis by (simp add: word_unat_eq_iff)
qed

lemma less_by_digits: "(a :: nat) < b \<longleftrightarrow> a div 256 < b div 256 \<or> (a div 256 = b div 256 \<and> a mod 256 < b mod 256)"
proof -
  have "a = a div 256 * 256 + a mod 256" "b = b div 256 * 256 + b mod 256" by simp_all
  moreover have "a mod 256 < 256" "b mod 256 < 256" by simp_all
  ultimately show ?thesis by linarith
qed

lemma weight_bytes_less_iff:
  "weight_bytes w @ s < weight_bytes w' @ t \<longleftrightarrow> w < w' \<or> (w = w' \<and> s < t)"
proof -
  obtain h l h' l' where e: "weight_bytes w = [h, l]" "weight_bytes w' = [h', l']"
    and c: "of_char h = unat w div 256" "of_char l = unat w mod 256"
      "of_char h' = unat w' div 256" "of_char l' = unat w' mod 256"
    using weight_bytes_shape by metis
  have eq: "h = h' \<and> l = l' \<longleftrightarrow> w = w'" using weight_bytes_inj [of w w'] e by auto
  have "w < w' \<longleftrightarrow> unat w div 256 < unat w' div 256 \<or>
      (unat w div 256 = unat w' div 256 \<and> unat w mod 256 < unat w' mod 256)"
    unfolding word_less_nat_alt by (rule less_by_digits)
  also have "\<dots> \<longleftrightarrow> h < h' \<or> (h = h' \<and> l < l')"
    unfolding char_less_iff c(1) [symmetric] c(2) [symmetric] c(3) [symmetric] c(4) [symmetric] of_char_eq_iff ..
  finally show ?thesis using e eq by auto
qed

lemma concat_weight_bytes_less_iff:
  "concat (map weight_bytes ws) < concat (map weight_bytes vs) \<longleftrightarrow> ws < vs"
proof (induction ws arbitrary: vs)
  case Nil
  then show ?case by (cases vs) (auto simp: weight_bytes_def)
next
  case (Cons w ws)
  then show ?case by (cases vs) (auto simp: weight_bytes_less_iff)
qed

subsection \<open>Keys\<close>

text \<open>
  What \<^verbatim>\<open>key\<close> needs of the tables: every printable character has a weight, an upper case letter has the weight of its
  lower case one, and no two other printable characters have the same.
\<close>

definition ascii_ok :: "collation_data \<Rightarrow> bool" where
  "ascii_ok D \<longleftrightarrow>
     list_all (\<lambda>c. ascii_table D c \<noteq> None) [0x20..<0x7F] \<and>
     list_all (\<lambda>c. ascii_table D c = ascii_table D (c + 32)) [65..<91] \<and>
     distinct (map (ascii_table D) key_chars)"

lemma lower_bound_in: "lower_bound xs x = Some y \<Longrightarrow> y \<in> set xs"
  by (auto simp: lower_bound_def split: list.splits dest: set_dropWhileD) (metis list.set_intros(1) set_dropWhileD)

lemma lower_bound_found:
  assumes "sorted t" "distinct (map fst t)" "(w, ch) \<in> set t"
  shows "lower_bound t (w :: u16, char_of (0::nat)) = Some (w, ch)"
  using assms
proof (induction t)
  case (Cons p t)
  have zero: "\<not> (c :: char) < char_of (0::nat)" for c by (simp add: char_less_iff)
  show ?case
  proof (cases "(w, ch) = p")
    case True
    then show ?thesis using zero by (auto simp: lower_bound_def)
  next
    case False
    then have t: "(w, ch) \<in> set t" using Cons.prems by auto
    then have "w \<in> fst ` set t" by (metis fst_conv imageI)
    then have "fst p \<noteq> w" using Cons.prems(2) by (metis distinct.simps(2) list.simps(9) list.set_map)
    moreover have "p \<le> (w, ch)" using t Cons.prems by auto
    ultimately have "p < (w, char_of (0::nat))" by (cases p) auto
    then show ?thesis using Cons.IH t Cons.prems by (auto simp: lower_bound_def)
  qed
qed simp

lemma plain_key_iff:
  assumes "sorted t" "distinct (map fst t)"
  shows "plain_key t ws = Some p \<longleftrightarrow> list_all2 (\<lambda>w ch. (w, ch) \<in> set t) ws p"
proof (induction ws arbitrary: p)
  case (Cons w ws)
  show ?case
  proof (cases "\<exists>ch. (w, ch) \<in> set t")
    case True
    then obtain ch where ch: "(w, ch) \<in> set t" ..
    have "(w, ch') \<in> set t \<longleftrightarrow> ch' = ch" for ch'
      using ch assms(2) by (auto dest: eq_key_imp_eq_value)
    then show ?thesis
      using Cons lower_bound_found [OF assms ch] by (cases p) auto
  next
    case False
    then have "plain_key t (w # ws) = None"
      using lower_bound_in [of t "(w, char_of 0)"] by (auto split: option.splits)
    then show ?thesis using False by (cases p) auto
  qed
qed (auto)

lemma set_key_chars: "c \<in> set key_chars \<longleftrightarrow> 0x20 \<le> c \<and> c < 0x7F \<and> \<not> (65 \<le> c \<and> c \<le> 90)"
  unfolding key_chars_def set_filter set_upt by auto

lemma ascii_ok_weight: "ascii_ok D \<Longrightarrow> 0x20 \<le> c \<Longrightarrow> c < 0x7F \<Longrightarrow> \<exists>w. ascii_table D c = Some w"
  unfolding ascii_ok_def list_all_iff set_upt by fastforce

lemma ascii_ok_case:
  assumes "ascii_ok D" "65 \<le> c" "c < 91"
  shows "ascii_table D c = ascii_table D (c + 32)"
proof -
  have "list_all (\<lambda>c. ascii_table D c = ascii_table D (c + 32)) [65..<91]" using assms(1) unfolding ascii_ok_def by blast
  then show ?thesis using assms(2,3) unfolding list_all_iff set_upt by simp
qed

lemma lower_id_iff: "lower ch = ch \<longleftrightarrow> \<not> (65 \<le> (of_char ch :: nat) \<and> (of_char ch :: nat) \<le> 90)"
proof -
  have "char_of ((of_char ch :: nat) + 32) \<noteq> ch" if "(of_char ch :: nat) \<le> 90"
  proof
    assume "char_of ((of_char ch :: nat) + 32) = ch"
    then have "of_char (char_of ((of_char ch :: nat) + 32) :: char) = (of_char ch :: nat)" by simp
    then show False using that by (simp add: of_char_of)
  qed
  then show ?thesis by (auto simp: lower_def)
qed

lemma set_ascii_of_weight:
  assumes "ascii_ok D"
  shows "(w, ch) \<in> set (ascii_of_weight D) \<longleftrightarrow>
    printable ch \<and> lower ch = ch \<and> ascii_table D (of_char ch) = Some w"
proof -
  have 1: "\<exists>w. ascii_table D c = Some w" if "0x20 \<le> c" "c < 0x7F" for c
    by (rule ascii_ok_weight [OF assms that])
  show ?thesis
  proof
    assume "(w, ch) \<in> set (ascii_of_weight D)"
    then obtain c where c: "c \<in> set key_chars" "ch = char_of c" "w = (case ascii_table D c of Some w \<Rightarrow> w | None \<Rightarrow> 0)"
      by (auto simp: ascii_of_weight_def)
    then show "printable ch \<and> lower ch = ch \<and> ascii_table D (of_char ch) = Some w"
      using 1 [of c] by (auto simp: set_key_chars printable_def lower_id_iff of_char_of)
  next
    assume a: "printable ch \<and> lower ch = ch \<and> ascii_table D (of_char ch) = Some w"
    then have "(of_char ch :: nat) \<in> set key_chars" by (auto simp: set_key_chars printable_def lower_id_iff)
    then have "(\<lambda>c. (case ascii_table D c of Some w \<Rightarrow> w | None \<Rightarrow> 0, char_of c)) (of_char ch) \<in> set (ascii_of_weight D)"
      unfolding ascii_of_weight_def set_sort set_map by (rule imageI)
    then show "(w, ch) \<in> set (ascii_of_weight D)" using a by simp
  qed
qed

lemma distinct_ascii_of_weight:
  assumes "ascii_ok D"
  shows "distinct (map fst (ascii_of_weight D))"
proof -
  have all: "\<exists>w. ascii_table D c = Some w" if "c \<in> set key_chars" for c
    using that ascii_ok_weight [OF assms] by (simp only: set_key_chars)
  have inj: "inj_on (ascii_table D) (set key_chars)" using assms unfolding ascii_ok_def by (simp only: distinct_map)
  define f where "f c = (case ascii_table D c of Some w \<Rightarrow> w | None \<Rightarrow> 0, char_of c :: char)" for c
  have w: "c = d" if c: "c \<in> set key_chars" and d: "d \<in> set key_chars" and e: "fst (f c) = fst (f d)" for c d
  proof -
    obtain x y where "ascii_table D c = Some x" "ascii_table D d = Some y" using all c d by metis
    then have "ascii_table D c = ascii_table D d" using e by (simp add: f_def)
    then show ?thesis by (rule inj_onD [OF inj _ c d])
  qed
  have "distinct key_chars" unfolding key_chars_def by (intro distinct_filter distinct_upt)
  moreover have "inj_on f (set key_chars)" by (rule inj_onI) (rule w, simp_all)
  ultimately have "distinct (map f key_chars)" unfolding distinct_map ..
  moreover have "inj_on fst (set (map f key_chars))"
    unfolding set_map by (rule inj_onI) (metis (no_types, lifting) imageE w)
  ultimately show ?thesis
    unfolding ascii_of_weight_def f_def [abs_def, symmetric] distinct_map distinct_sort set_sort by simp
qed

text \<open>The key as a function of the weights, and that it takes no two weight sequences to one key.\<close>

definition weight_key :: "collation_data \<Rightarrow> u16 list \<Rightarrow> string" where
  "weight_key D ws =
     (case plain_key (ascii_of_weight D) ws of
        Some plain \<Rightarrow> plain
      | None \<Rightarrow> char_of (1::nat) # concat (map weight_bytes ws))"

lemma plain_key_ascii:
  assumes "ascii_ok D"
  shows "plain_key (ascii_of_weight D) ws = Some p \<longleftrightarrow> list_all2 (\<lambda>w ch. (w, ch) \<in> set (ascii_of_weight D)) ws p"
  by (rule plain_key_iff [OF _ distinct_ascii_of_weight [OF assms]]) (simp add: ascii_of_weight_def)

lemma plain_key_weights:
  assumes "ascii_ok D" "plain_key (ascii_of_weight D) ws = Some p"
  shows "map Some ws = map (\<lambda>ch. ascii_table D (of_char ch)) p \<and> list_all printable p"
proof -
  have "list_all2 (\<lambda>w ch. (w, ch) \<in> set (ascii_of_weight D)) ws p" using assms by (simp add: plain_key_ascii)
  then show ?thesis by (induction rule: list_all2_induct) (auto simp: set_ascii_of_weight [OF assms(1)])
qed

lemma concat_weight_bytes_inj: "concat (map weight_bytes ws) = concat (map weight_bytes vs) \<Longrightarrow> ws = vs"
  using concat_weight_bytes_less_iff [of ws vs] concat_weight_bytes_less_iff [of vs ws] by (metis linorder_neqE less_irrefl)

lemma printable_not_control: "(n :: nat) < 32 \<Longrightarrow> \<not> printable (char_of n)"
  by (simp add: printable_def of_char_of)

lemma weight_key_inj:
  assumes "ascii_ok D" "weight_key D ws = weight_key D vs"
  shows "ws = vs"
proof (cases "plain_key (ascii_of_weight D) ws")
  case None
  show ?thesis
  proof (cases "plain_key (ascii_of_weight D) vs")
    case None
    then show ?thesis
      using assms(2) \<open>plain_key (ascii_of_weight D) ws = None\<close> by (simp add: weight_key_def concat_weight_bytes_inj)
  next
    case (Some p)
    then show ?thesis
      using assms(2) None plain_key_weights [OF assms(1) Some] printable_not_control [of 1, simplified] by (auto simp: weight_key_def)
  qed
next
  case (Some p)
  show ?thesis
  proof (cases "plain_key (ascii_of_weight D) vs")
    case None
    then show ?thesis
      using assms(2) Some plain_key_weights [OF assms(1) Some] printable_not_control [of 1, simplified] by (auto simp: weight_key_def)
  next
    case (Some q)
    then have "p = q" using assms(2) \<open>plain_key (ascii_of_weight D) ws = Some p\<close> by (simp add: weight_key_def)
    then have "map Some ws = map Some vs"
      using plain_key_weights [OF assms(1) Some] plain_key_weights [OF assms(1) \<open>plain_key (ascii_of_weight D) ws = Some p\<close>]
      by simp
    then show ?thesis using inj_map_eq_map [OF inj_Some] by blast
  qed
qed

lemma lower_weight:
  assumes "ascii_ok D" "printable c"
  shows "printable (lower c) \<and> lower (lower c) = lower c \<and> ascii_table D (of_char (lower c)) = ascii_table D (of_char c)"
proof (cases "65 \<le> (of_char c :: nat) \<and> (of_char c :: nat) \<le> 90")
  case True
  then have "ascii_table D (of_char c) = ascii_table D (of_char c + 32)"
    using ascii_ok_case [OF assms(1), of "of_char c"] by simp
  then show ?thesis using True by (auto simp: lower_def printable_def of_char_of)
next
  case False
  then show ?thesis using assms(2) by (auto simp: lower_def)
qed

lemma text_weights_printable:
  assumes "ascii_ok D" "list_all printable s"
  shows "plain_key (ascii_of_weight D) (text_weights D s) = Some (map lower s)"
  unfolding plain_key_ascii [OF assms(1)] using assms(2)
proof (induction s)
  case (Cons c s)
  then have p: "printable c" by simp
  then have c: "(of_char c :: nat) < 0x80" by (simp add: printable_def)
  obtain w where w: "ascii_table D (of_char c) = Some w"
    using ascii_ok_weight [OF assms(1), of "of_char c"] p by (auto simp: printable_def)
  have "(w, lower c) \<in> set (ascii_of_weight D)"
    using w lower_weight [OF assms(1) p] by (simp add: set_ascii_of_weight [OF assms(1)])
  then show ?case using Cons c w by simp
qed simp

lemma collation_key_weights:
  assumes "ascii_ok D" "\<not> is_null_text s"
  shows "collation_key D s = weight_key D (text_weights D s)"
  using assms text_weights_printable [OF assms(1), of s]
  by (auto simp: collation_key_def weight_key_def collect_eq split: option.splits)

lemma weight_key_not_null: "ascii_ok D \<Longrightarrow> weight_key D ws \<noteq> [char_of (2::nat), CHR ''N'']"
proof
  assume ok: "ascii_ok D" and e: "weight_key D ws = [char_of (2::nat), CHR ''N'']"
  show False
  proof (cases "plain_key (ascii_of_weight D) ws")
    case None
    then have "char_of (1::nat) = (char_of (2::nat) :: char)" using e by (simp add: weight_key_def)
    then have "of_char (char_of (1::nat) :: char) = (of_char (char_of (2::nat) :: char) :: nat)" by (rule arg_cong)
    then show False by (simp add: of_char_of)
  next
    case (Some p)
    then show False
      using plain_key_weights [OF ok Some] e printable_not_control [of 2] by (auto simp: weight_key_def)
  qed
qed

lemma collation_key_rank:
  assumes "ascii_ok D"
  shows "collation_key D a = collation_key D b \<longleftrightarrow> text_rank D a = text_rank D b"
proof -
  have null: "collation_key D s = [char_of (2::nat), CHR ''N'']" if "is_null_text s" for s
    using that by (simp add: collation_key_def)
  show ?thesis
    using null collation_key_weights [OF assms] weight_key_not_null [OF assms] weight_key_inj [OF assms]
    by (cases "is_null_text a"; cases "is_null_text b") (auto simp: text_rank_def, metis)
qed

section \<open>LIKE\<close>

definition same_weights :: "collation_data \<Rightarrow> nat \<Rightarrow> nat \<Rightarrow> bool" where
  "same_weights D a b \<longleftrightarrow> a = b \<or> weights_of D a = weights_of D b"

definition all_ascii :: "string \<Rightarrow> bool" where
  "all_ascii s \<longleftrightarrow> list_all (\<lambda>c. (of_char c :: nat) < 0x80) s"

definition same_ascii :: "collation_data \<Rightarrow> nat \<Rightarrow> nat \<Rightarrow> bool" where
  "same_ascii D a b \<longleftrightarrow> a = b \<or> ascii_table D a = ascii_table D b"

text \<open>
  The loop that \<^verbatim>\<open>like_ascii\<close> runs over bytes and \<^verbatim>\<open>like\<close> over code points: \<open>37\<close> is the percent sign, \<open>92\<close> the backslash, \<open>95\<close> the
  underscore. It jumps back to the last percent sign, so that it returns is a theorem; \<^const>\<open>None\<close> would be a loop that does not.
\<close>

partial_function (option) like_loop ::
  "(nat \<Rightarrow> nat \<Rightarrow> bool) \<Rightarrow> nat list \<Rightarrow> nat list \<Rightarrow> nat \<Rightarrow> nat \<Rightarrow> nat option \<Rightarrow> nat \<Rightarrow> bool option" where
  "like_loop same v p vi pi star mark =
     (if vi < length v then
        (if pi < length p \<and> p ! pi = 37 then like_loop same v p vi (pi + 1) (Some pi) vi
         else if (pi + 1 < length p \<and> p ! pi = 92) \<and> same (p ! (pi + 1)) (v ! vi)
         then like_loop same v p (vi + 1) (pi + 2) star mark
         else if \<not> (pi + 1 < length p \<and> p ! pi = 92) \<and> pi < length p \<and> (p ! pi = 95 \<or> same (p ! pi) (v ! vi))
         then like_loop same v p (vi + 1) (pi + 1) star mark
         else (case star of
             Some s \<Rightarrow> like_loop same v p (mark + 1) (s + 1) (Some s) (mark + 1)
           | None \<Rightarrow> Some False))
      else Some (dropWhile (\<lambda>c. c = 37) (drop pi p) = []))"

definition like_ascii :: "collation_data \<Rightarrow> string \<Rightarrow> string \<Rightarrow> bool option" where
  "like_ascii D v p = like_loop (same_ascii D) (map of_char v) (map of_char p) 0 0 None 0"

definition like :: "collation_data \<Rightarrow> string \<Rightarrow> string \<Rightarrow> bool option" where
  "like D v p =
     (if is_null_text v then Some False
      else if all_ascii v \<and> all_ascii p then like_ascii D v p
      else like_loop (same_weights D) (code_points v) (code_points p) 0 0 None 0)"

text \<open>The meaning of a pattern: a sequence of tokens, each of which takes any run of characters or one character.\<close>

datatype like_token = Any | One | Lit nat

definition simple_token :: "nat \<Rightarrow> like_token" where
  "simple_token c = (if c = 37 then Any else if c = 95 then One else Lit c)"

fun like_tokens :: "nat list \<Rightarrow> like_token list" where
  "like_tokens [] = []"
| "like_tokens [c] = [simple_token c]"
| "like_tokens (c # d # p) =
     (if c = 92 then Lit d # like_tokens p else simple_token c # like_tokens (d # p))"

fun token_takes :: "(nat \<Rightarrow> nat \<Rightarrow> bool) \<Rightarrow> like_token \<Rightarrow> nat \<Rightarrow> bool" where
  "token_takes same Any x = True"
| "token_takes same One x = True"
| "token_takes same (Lit c) x = same c x"

fun like_matches :: "(nat \<Rightarrow> nat \<Rightarrow> bool) \<Rightarrow> like_token list \<Rightarrow> nat list \<Rightarrow> bool" where
  "like_matches same [] v = (v = [])"
| "like_matches same (Any # ts) [] = like_matches same ts []"
| "like_matches same (Any # ts) (x # v) = (like_matches same ts (x # v) \<or> like_matches same (Any # ts) v)"
| "like_matches same (t # ts) [] = False"
| "like_matches same (t # ts) (x # v) = (token_takes same t x \<and> like_matches same ts v)"

lemma ex_le_Suc: "(\<exists>k \<le> Suc n. P k) \<longleftrightarrow> P 0 \<or> (\<exists>k \<le> n. P (Suc k))"
  by (metis Suc_le_mono nat.exhaust zero_le)

lemma ex_shift: "(m :: nat) \<le> n \<Longrightarrow> (\<exists>k \<le> n - m. P (k + m)) \<longleftrightarrow> (\<exists>k. m \<le> k \<and> k \<le> n \<and> P k)"
  by (safe; rename_tac k) (rule_tac x = "k + m" in exI, simp, rule_tac x = "k - m" in exI, simp)

lemma like_matches_Any: "like_matches same (Any # ts) v \<longleftrightarrow> (\<exists>k \<le> length v. like_matches same ts (drop k v))"
proof (induction v)
  case (Cons x v)
  have "(\<exists>k \<le> length (x # v). like_matches same ts (drop k (x # v))) \<longleftrightarrow>
      like_matches same ts (x # v) \<or> (\<exists>k \<le> length v. like_matches same ts (drop k v))"
    by (simp add: ex_le_Suc)
  then show ?case using Cons by simp
qed simp

lemma like_matches_single: "t \<noteq> Any \<Longrightarrow> like_matches same (t # ts) (x # v) \<longleftrightarrow> token_takes same t x \<and> like_matches same ts v"
  "t \<noteq> Any \<Longrightarrow> \<not> like_matches same (t # ts) []"
  by (cases t; simp)+

lemma like_matches_segment:
  assumes "Any \<notin> set seg" "like_matches same (seg @ ts) v"
  shows "length seg \<le> length v \<and> like_matches same ts (drop (length seg) v)"
  using assms
proof (induction seg arbitrary: v)
  case (Cons t seg)
  then have t: "t \<noteq> Any" by auto
  then obtain x w where "v = x # w" using Cons.prems(2) by (cases v) (auto simp: like_matches_single)
  then show ?case using Cons t by (auto simp: like_matches_single)
qed simp

lemma like_matches_Nil: "like_matches same ts [] \<longleftrightarrow> list_all (\<lambda>t. t = Any) ts"
proof (induction ts)
  case (Cons t ts)
  then show ?case by (cases t) auto
qed simp

lemma simple_token_Any: "simple_token c = Any \<longleftrightarrow> c = 37"
  by (simp add: simple_token_def)

lemma like_tokens_Nil: "list_all (\<lambda>t. t = Any) (like_tokens p) \<longleftrightarrow> dropWhile (\<lambda>c. c = 37) p = []"
  by (induction p rule: like_tokens.induct) (auto simp: simple_token_Any)

lemma like_tokens_drop:
  assumes "pi < length p"
  shows "like_tokens (drop pi p) =
    (if pi + 1 < length p \<and> p ! pi = 92 then Lit (p ! (pi + 1)) # like_tokens (drop (pi + 2) p)
     else simple_token (p ! pi) # like_tokens (drop (pi + 1) p))"
proof (cases "pi + 1 < length p")
  case True
  then have "drop pi p = p ! pi # p ! (pi + 1) # drop (pi + 2) p" "drop (pi + 1) p = p ! (pi + 1) # drop (pi + 2) p"
    by (simp_all add: Cons_nth_drop_Suc)
  then show ?thesis using True by simp
next
  case False
  then have "drop pi p = [p ! pi]" "drop (pi + 1) p = []" using assms
    by (simp_all flip: Cons_nth_drop_Suc)
  then show ?thesis using False by simp
qed

text \<open>
  What is still possible in a state of the loop: the pattern from \<open>pi\<close> matches the text from \<open>vi\<close>, or the pattern behind the last
  percent sign matches the text from some position after \<open>mark\<close>.
\<close>

definition like_goal :: "(nat \<Rightarrow> nat \<Rightarrow> bool) \<Rightarrow> nat list \<Rightarrow> nat list \<Rightarrow> nat \<Rightarrow> nat \<Rightarrow> nat option \<Rightarrow> nat \<Rightarrow> bool" where
  "like_goal same v p vi pi star mark \<longleftrightarrow>
     like_matches same (like_tokens (drop pi p)) (drop vi v) \<or>
     (\<exists>s k. star = Some s \<and> mark < k \<and> k \<le> length v \<and> like_matches same (like_tokens (drop (s + 1) p)) (drop k v))"

definition like_inv :: "nat list \<Rightarrow> nat list \<Rightarrow> nat \<Rightarrow> nat \<Rightarrow> nat option \<Rightarrow> nat \<Rightarrow> bool" where
  "like_inv v p vi pi star mark \<longleftrightarrow>
     vi \<le> length v \<and> pi \<le> length p \<and>
     (\<forall>s. star = Some s \<longrightarrow> s < pi \<and> mark \<le> vi \<and>
       (\<exists>seg. like_tokens (drop (s + 1) p) = seg @ like_tokens (drop pi p) \<and> Any \<notin> set seg \<and> length seg = vi - mark))"

lemma like_inv_star:
  assumes "like_inv v p vi pi (Some s) mark"
    "mark < k" "k \<le> length v" "like_matches same (like_tokens (drop (s + 1) p)) (drop k v)"
  shows "\<exists>m. vi < m \<and> m \<le> length v \<and> like_matches same (like_tokens (drop pi p)) (drop m v)"
proof -
  obtain seg where seg: "like_tokens (drop (s + 1) p) = seg @ like_tokens (drop pi p)" "Any \<notin> set seg"
    "length seg = vi - mark" "mark \<le> vi"
    using assms(1) by (auto simp: like_inv_def)
  then have "length seg \<le> length v - k \<and> like_matches same (like_tokens (drop pi p)) (drop (length seg + k) v)"
    using like_matches_segment [OF seg(2), of same "like_tokens (drop pi p)" "drop k v"] assms(4) by (simp add: add.commute)
  then show ?thesis using assms(2,3) seg(3,4) by (intro exI [of _ "length seg + k"]) auto
qed

lemma like_goal_end:
  assumes "like_inv v p vi pi star mark" "\<not> vi < length v"
  shows "like_goal same v p vi pi star mark \<longleftrightarrow> dropWhile (\<lambda>c. c = 37) (drop pi p) = []"
proof -
  have vi: "vi = length v" using assms by (simp add: like_inv_def)
  have "\<not> (mark < k \<and> k \<le> length v \<and> like_matches same (like_tokens (drop (s + 1) p)) (drop k v))" if "star = Some s" for s k
    using like_inv_star [of v p vi pi s mark k same] assms(1) that vi by auto
  then show ?thesis using vi by (auto simp: like_goal_def like_matches_Nil like_tokens_Nil)
qed

lemma like_goal_percent:
  assumes "like_inv v p vi pi star mark" "vi < length v" "pi < length p" "p ! pi = 37"
  shows "like_goal same v p vi pi star mark \<longleftrightarrow> like_goal same v p vi (pi + 1) (Some pi) vi"
    and "like_inv v p vi (pi + 1) (Some pi) vi"
proof -
  let ?m = "\<lambda>k. like_matches same (like_tokens (drop (pi + 1) p)) (drop k v)"
  have tok: "like_tokens (drop pi p) = Any # like_tokens (drop (pi + 1) p)"
    using like_tokens_drop [OF assms(3)] assms(4) by (simp add: simple_token_def)
  have any: "like_matches same (like_tokens (drop pi p)) (drop m v) \<longleftrightarrow> (\<exists>k. m \<le> k \<and> k \<le> length v \<and> ?m k)"
    if "m \<le> length v" for m
  proof -
    show ?thesis unfolding tok like_matches_Any using ex_shift [OF that, of ?m] by simp
  qed
  have new: "like_goal same v p vi (pi + 1) (Some pi) vi \<longleftrightarrow> (\<exists>k. vi \<le> k \<and> k \<le> length v \<and> ?m k)"
    unfolding like_goal_def using assms(2) by (auto simp: le_less)
  have "\<exists>k. vi \<le> k \<and> k \<le> length v \<and> ?m k"
    if s: "star = Some s" "mark < k" "k \<le> length v" "like_matches same (like_tokens (drop (s + 1) p)) (drop k v)" for s k
    using like_inv_star [of v p vi pi s mark k same] assms(1) s any by (metis le_trans less_imp_le)
  then show "like_goal same v p vi pi star mark \<longleftrightarrow> like_goal same v p vi (pi + 1) (Some pi) vi"
    unfolding new using any [of vi] assms(2) by (auto simp: like_goal_def)
  show "like_inv v p vi (pi + 1) (Some pi) vi" using assms by (auto simp: like_inv_def)
qed

lemma like_goal_take:
  assumes inv: "like_inv v p vi pi star mark" and vi: "vi < length v" and pi: "pi' \<le> length p" "pi < pi'"
    and tok: "like_tokens (drop pi p) = t # like_tokens (drop pi' p)" "t \<noteq> Any" "token_takes same t (v ! vi)"
  shows "like_goal same v p vi pi star mark \<longleftrightarrow> like_goal same v p (vi + 1) pi' star mark"
    and "like_inv v p (vi + 1) pi' star mark"
proof -
  have "drop vi v = v ! vi # drop (vi + 1) v" using vi by (simp add: Cons_nth_drop_Suc)
  then show "like_goal same v p vi pi star mark \<longleftrightarrow> like_goal same v p (vi + 1) pi' star mark"
    using tok by (simp add: like_goal_def like_matches_single)
  have "\<exists>seg'. like_tokens (drop (s + 1) p) = seg' @ like_tokens (drop pi' p) \<and> Any \<notin> set seg' \<and> length seg' = vi + 1 - mark"
    if "like_tokens (drop (s + 1) p) = seg @ like_tokens (drop pi p)" "Any \<notin> set seg" "length seg = vi - mark" "mark \<le> vi" for s seg
    using that tok by (intro exI [of _ "seg @ [t]"]) auto
  then show "like_inv v p (vi + 1) pi' star mark" using inv vi pi unfolding like_inv_def by fastforce
qed

lemma like_goal_back:
  assumes "like_inv v p vi pi (Some s) mark" "vi < length v"
    "\<not> like_matches same (like_tokens (drop pi p)) (drop vi v)"
  shows "like_goal same v p vi pi (Some s) mark \<longleftrightarrow> like_goal same v p (mark + 1) (s + 1) (Some s) (mark + 1)"
    and "like_inv v p (mark + 1) (s + 1) (Some s) (mark + 1)"
proof -
  have "mark \<le> vi" "s < pi" "pi \<le> length p" using assms(1) by (auto simp: like_inv_def)
  then show "like_inv v p (mark + 1) (s + 1) (Some s) (mark + 1)" using assms(2) by (auto simp: like_inv_def)
  have "(\<exists>k. mark < k \<and> k \<le> length v \<and> P k) \<longleftrightarrow> P (mark + 1) \<or> (\<exists>k. mark + 1 < k \<and> k \<le> length v \<and> P k)" for P
    using \<open>mark \<le> vi\<close> assms(2) by (metis Suc_eq_plus1 Suc_leI Suc_lessD le_less_trans le_neq_implies_less lessI)
  then show "like_goal same v p vi pi (Some s) mark \<longleftrightarrow> like_goal same v p (mark + 1) (s + 1) (Some s) (mark + 1)"
    using assms(3) by (simp add: like_goal_def)
qed

lemma like_no_match:
  assumes "vi < length v" "\<not> (pi < length p \<and> p ! pi = 37)"
    "\<not> ((pi + 1 < length p \<and> p ! pi = 92) \<and> same (p ! (pi + 1)) (v ! vi))"
    "\<not> (\<not> (pi + 1 < length p \<and> p ! pi = 92) \<and> pi < length p \<and> (p ! pi = 95 \<or> same (p ! pi) (v ! vi)))"
  shows "\<not> like_matches same (like_tokens (drop pi p)) (drop vi v)"
proof -
  have v: "drop vi v = v ! vi # drop (vi + 1) v" using assms(1) by (simp add: Cons_nth_drop_Suc)
  show ?thesis
  proof (cases "pi < length p")
    case True
    then show ?thesis using assms(2-4) v like_tokens_drop [OF True] by (auto simp: simple_token_def)
  qed (use v in simp)
qed

lemma like_loop_goal:
  assumes "like_inv v p vi pi star mark"
  shows "like_loop same v p vi pi star mark = Some (like_goal same v p vi pi star mark)"
  using assms
proof (induction "(case star of None \<Rightarrow> length p + 1 | Some s \<Rightarrow> length p - s, length v - mark, length v - vi)"
    arbitrary: vi pi star mark rule: wf_induct_rule [OF wf_lex_prod [OF wf_less_than wf_lex_prod [OF wf_less_than wf_less_than]]])
  case (1 vi star mark pi)
  note inv = 1(2)
  show ?case
  proof (cases "vi < length v")
    case False
    then show ?thesis using like_goal_end [OF inv False] by (subst like_loop.simps) simp
  next
    case vi: True
    let ?esc = "pi + 1 < length p \<and> p ! pi = 92"
    consider (percent) "pi < length p" "p ! pi = 37"
      | (esc) "\<not> (pi < length p \<and> p ! pi = 37)" "?esc" "same (p ! (pi + 1)) (v ! vi)"
      | (one) "\<not> (pi < length p \<and> p ! pi = 37)" "\<not> ?esc" "pi < length p" "p ! pi = 95 \<or> same (p ! pi) (v ! vi)"
      | (none) "\<not> (pi < length p \<and> p ! pi = 37)" "\<not> (?esc \<and> same (p ! (pi + 1)) (v ! vi))"
          "\<not> (\<not> ?esc \<and> pi < length p \<and> (p ! pi = 95 \<or> same (p ! pi) (v ! vi)))"
      by blast
    then show ?thesis
    proof cases
      case percent
      note g = like_goal_percent [OF inv vi percent]
      have "like_loop same v p vi (pi + 1) (Some pi) vi = Some (like_goal same v p vi (pi + 1) (Some pi) vi)"
      proof (rule 1(1) [OF _ g(2)])
        have "length p - pi < (case star of None \<Rightarrow> length p + 1 | Some s \<Rightarrow> length p - s)"
          using percent(1) inv by (cases star) (auto simp: like_inv_def)
        then show "((case Some pi of None \<Rightarrow> length p + 1 | Some s \<Rightarrow> length p - s, length v - vi, length v - vi),
            (case star of None \<Rightarrow> length p + 1 | Some s \<Rightarrow> length p - s, length v - mark, length v - vi))
            \<in> less_than <*lex*> less_than <*lex*> less_than" by simp
      qed
      then show ?thesis using vi percent g(1) by (subst like_loop.simps) simp
    next
      case esc
      have "like_tokens (drop pi p) = Lit (p ! (pi + 1)) # like_tokens (drop (pi + 2) p)"
        using like_tokens_drop [of pi p] esc by simp
      note g = like_goal_take [OF inv vi _ _ this, of same]
      have "like_loop same v p (vi + 1) (pi + 2) star mark = Some (like_goal same v p (vi + 1) (pi + 2) star mark)"
        using 1(1) [OF _ g(2)] esc vi by simp
      then show ?thesis using vi esc g(1) by (subst like_loop.simps) simp
    next
      case one
      have "like_tokens (drop pi p) = simple_token (p ! pi) # like_tokens (drop (pi + 1) p)"
        using like_tokens_drop [OF one(3)] one(2) by (simp only: if_not_P if_False simp_thms)
      note g = like_goal_take [OF inv vi _ _ this, of same]
      have t: "simple_token (p ! pi) \<noteq> Any" "token_takes same (simple_token (p ! pi)) (v ! vi)"
        using one by (auto simp: simple_token_def)
      have "like_loop same v p (vi + 1) (pi + 1) star mark = Some (like_goal same v p (vi + 1) (pi + 1) star mark)"
        using 1(1) [OF _ g(2)] one vi t by simp
      then show ?thesis using vi one g(1) t by (subst like_loop.simps) auto
    next
      case none
      have no: "\<not> like_matches same (like_tokens (drop pi p)) (drop vi v)"
        using like_no_match [of vi v pi p same] vi none by blast
      show ?thesis
      proof (cases star)
        case None
        then show ?thesis using vi none no by (subst like_loop.simps) (auto simp: like_goal_def)
      next
        case (Some s)
        note g = like_goal_back [OF inv [unfolded Some] vi no]
        have "mark < length v" using inv Some vi by (auto simp: like_inv_def)
        then have "like_loop same v p (mark + 1) (s + 1) (Some s) (mark + 1) =
            Some (like_goal same v p (mark + 1) (s + 1) (Some s) (mark + 1))"
          using 1(1) [OF _ g(2)] Some diff_less_mono2 [of mark "Suc mark" "length v"] by simp
        then show ?thesis using vi none g(1) Some by (subst like_loop.simps) auto
      qed
    qed
  qed
qed

lemma like_loop_matches: "like_loop same v p 0 0 None 0 = Some (like_matches same (like_tokens p) v)"
  using like_loop_goal [of v p 0 0 None 0 same] by (simp add: like_inv_def like_goal_def)

section \<open>The rows of the ASCII characters\<close>

text \<open>The first rows of \<^verbatim>\<open>kRuns\<close> (code points 1 to 132) and the weights they refer to in \<^verbatim>\<open>kPool\<close>.\<close>

definition mk_run :: "nat \<times> nat \<times> nat \<times> nat \<times> nat \<Rightarrow> Run" where
  "mk_run = (\<lambda>(s, c, k, n, p). \<lparr>run_start = s, run_count = c, run_kind = k, run_n = n, run_pool = p\<rparr>)"

definition ascii_data :: collation_data where
  "ascii_data = \<lparr>
    kRuns = map mk_run [
      (1, 8, 0, 0, 0), (9, 5, 1, 1, 0), (14, 18, 0, 0, 1), (32, 1, 0, 1, 1), (33, 1, 0, 1, 2), (34, 1, 0, 1, 3), (35, 1, 0, 1, 4), (36, 1, 0, 1, 5),
      (37, 1, 0, 1, 6), (38, 1, 0, 1, 7), (39, 1, 0, 1, 8), (40, 2, 1, 1, 9), (42, 1, 0, 1, 10), (43, 1, 0, 1, 11), (44, 1, 0, 1, 12), (45, 1, 0, 1, 13),
      (46, 1, 0, 1, 14), (47, 1, 0, 1, 15), (48, 10, 1, 1, 16), (58, 1, 0, 1, 17), (59, 1, 0, 1, 18), (60, 3, 1, 1, 19), (63, 1, 0, 1, 20), (64, 1, 0, 1, 21),
      (65, 1, 0, 1, 22), (66, 1, 0, 1, 23), (67, 1, 0, 1, 24), (68, 1, 0, 1, 25), (69, 1, 0, 1, 26), (70, 1, 0, 1, 27), (71, 1, 0, 1, 28), (72, 1, 0, 1, 29),
      (73, 1, 0, 1, 30), (74, 1, 0, 1, 31), (75, 1, 0, 1, 32), (76, 1, 0, 1, 33), (77, 1, 0, 1, 34), (78, 1, 0, 1, 35), (79, 1, 0, 1, 36), (80, 1, 0, 1, 37),
      (81, 1, 0, 1, 38), (82, 1, 0, 1, 39), (83, 1, 0, 1, 40), (84, 1, 0, 1, 41), (85, 1, 0, 1, 42), (86, 1, 0, 1, 43), (87, 1, 0, 1, 44), (88, 1, 0, 1, 45),
      (89, 1, 0, 1, 46), (90, 1, 0, 1, 47), (91, 1, 0, 1, 48), (92, 1, 0, 1, 49), (93, 1, 0, 1, 50), (94, 1, 0, 1, 51), (95, 1, 0, 1, 52), (96, 1, 0, 1, 53),
      (97, 1, 0, 1, 54), (98, 1, 0, 1, 55), (99, 1, 0, 1, 56), (100, 1, 0, 1, 57), (101, 1, 0, 1, 58), (102, 1, 0, 1, 59), (103, 1, 0, 1, 60), (104, 1, 0, 1, 61),
      (105, 1, 0, 1, 62), (106, 1, 0, 1, 63), (107, 1, 0, 1, 64), (108, 1, 0, 1, 65), (109, 1, 0, 1, 66), (110, 1, 0, 1, 67), (111, 1, 0, 1, 68), (112, 1, 0, 1, 69),
      (113, 1, 0, 1, 70), (114, 1, 0, 1, 71), (115, 1, 0, 1, 72), (116, 1, 0, 1, 73), (117, 1, 0, 1, 74), (118, 1, 0, 1, 75), (119, 1, 0, 1, 76), (120, 1, 0, 1, 77),
      (121, 1, 0, 1, 78), (122, 1, 0, 1, 79), (123, 1, 0, 1, 80), (124, 1, 0, 1, 81), (125, 1, 0, 1, 82), (126, 1, 0, 1, 83), (127, 6, 0, 0, 84)],
    kPool = [
      0x201, 0x209, 0x260, 0x30c, 0x398, 0x1c12, 0x399, 0x396, 0x305, 0x317, 0x38f, 0x616,
      0x222, 0x20d, 0x277, 0x394, 0x1c3d, 0x239, 0x234, 0x61a, 0x266, 0x38e, 0x1c47, 0x1c60,
      0x1c7a, 0x1c8f, 0x1caa, 0x1ce5, 0x1cf4, 0x1d18, 0x1d32, 0x1d4c, 0x1d65, 0x1d77, 0x1daa, 0x1db9,
      0x1ddd, 0x1e0c, 0x1e21, 0x1e33, 0x1e71, 0x1e95, 0x1eb5, 0x1ee3, 0x1ef5, 0x1eff, 0x1f0b, 0x1f21,
      0x319, 0x395, 0x31a, 0x485, 0x20b, 0x482, 0x1c47, 0x1c60, 0x1c7a, 0x1c8f, 0x1caa, 0x1ce5,
      0x1cf4, 0x1d18, 0x1d32, 0x1d4c, 0x1d65, 0x1d77, 0x1daa, 0x1db9, 0x1ddd, 0x1e0c, 0x1e21, 0x1e33,
      0x1e71, 0x1e95, 0x1eb5, 0x1ee3, 0x1ef5, 0x1eff, 0x1f0b, 0x1f21, 0x31b, 0x61e, 0x31c, 0x620]\<rparr>"




lemma from_runs_map_of:
  assumes "runs_ok (kRuns D)"
  shows "from_runs D cp =
    map_of (concat (map (\<lambda>r. map (\<lambda>c. (c, run_weights D r c)) [run_start r..<run_start r + run_count r]) (kRuns D))) cp"
proof -
  have one: "map_of (map (\<lambda>c. (c, f c)) [a..<b]) cp = (if a \<le> cp \<and> cp < b then Some (f cp) else None)"
    for f :: "nat \<Rightarrow> u16 list" and a b
    by (auto simp: map_of_eq_None_iff map_of_map_restrict restrict_map_def)
  have "map_option (\<lambda>r. run_weights D r cp) (find (run_has cp) rs) =
    map_of (concat (map (\<lambda>r. map (\<lambda>c. (c, run_weights D r c)) [run_start r..<run_start r + run_count r]) rs)) cp" for rs
    by (induction rs) (auto simp: one run_has_def map_add_def)
  then show ?thesis by (simp add: from_runs_find [OF assms])
qed

lemma runs_ok_adjacent: "runs_ok (r # r' # rs) \<longleftrightarrow> run_start r + run_count r \<le> run_start r' \<and> runs_ok (r' # rs)"
  by (auto simp: runs_ok_def)

lemma ascii_data_runs_ok: "runs_ok (kRuns ascii_data)"
proof -
  have "runs_ok [r]" for r by (simp add: runs_ok_def)
  then show ?thesis by (simp only: ascii_data_def Collation.collation_data.select_convs list.map mk_run_def prod.case runs_ok_adjacent Run.select_convs) simp
qed

definition ascii_rows :: "u16 list list" where
  "ascii_rows = [
    [], [], [], [], [], [], [], [], [0x201], [0x202], [0x203], [0x204],
    [0x205], [], [], [], [], [], [], [], [], [], [], [],
    [], [], [], [], [], [], [], [0x209], [0x260], [0x30c], [0x398], [0x1c12],
    [0x399], [0x396], [0x305], [0x317], [0x318], [0x38f], [0x616], [0x222], [0x20d], [0x277], [0x394], [0x1c3d],
    [0x1c3e], [0x1c3f], [0x1c40], [0x1c41], [0x1c42], [0x1c43], [0x1c44], [0x1c45], [0x1c46], [0x239], [0x234], [0x61a],
    [0x61b], [0x61c], [0x266], [0x38e], [0x1c47], [0x1c60], [0x1c7a], [0x1c8f], [0x1caa], [0x1ce5], [0x1cf4], [0x1d18],
    [0x1d32], [0x1d4c], [0x1d65], [0x1d77], [0x1daa], [0x1db9], [0x1ddd], [0x1e0c], [0x1e21], [0x1e33], [0x1e71], [0x1e95],
    [0x1eb5], [0x1ee3], [0x1ef5], [0x1eff], [0x1f0b], [0x1f21], [0x319], [0x395], [0x31a], [0x485], [0x20b], [0x482],
    [0x1c47], [0x1c60], [0x1c7a], [0x1c8f], [0x1caa], [0x1ce5], [0x1cf4], [0x1d18], [0x1d32], [0x1d4c], [0x1d65], [0x1d77],
    [0x1daa], [0x1db9], [0x1ddd], [0x1e0c], [0x1e21], [0x1e33], [0x1e71], [0x1e95], [0x1eb5], [0x1ee3], [0x1ef5], [0x1eff],
    [0x1f0b], [0x1f21], [0x31b], [0x61e], [0x31c], [0x620], [], [], [], [], [], []]"

lemma ascii_rows_eq:
  "concat (map (\<lambda>r. map (\<lambda>c. (c, run_weights ascii_data r c)) [run_start r..<run_start r + run_count r]) (kRuns ascii_data)) =
    zip [1..<133] ascii_rows"
proof -
  have "[Suc 0..<9] = 1 # [2..<9]" "[Suc 0..<133] = 1 # [2..<133]" by (simp_all add: upt_conv_Cons numeral_2_eq_2)
  then show ?thesis unfolding ascii_rows_def by (simp add: ascii_data_def mk_run_def run_weights_def)
qed

lemma length_ascii_rows: "length ascii_rows = 132"
  by (simp add: ascii_rows_def)

lemma ascii_data_weights_nth:
  assumes "c < 132"
  shows "weights_of ascii_data (Suc c) = ascii_rows ! c"
proof -
  have "map_of (zip [1..<133] ascii_rows) ([1..<133] ! c) = Some (ascii_rows ! c)"
    by (rule map_of_zip_nth) (use assms in \<open>simp_all only: length_ascii_rows length_upt distinct_upt\<close>)
  moreover have "[1..<133] ! c = Suc c" using assms by (subst nth_upt) simp_all
  ultimately have "from_runs ascii_data (Suc c) = Some (ascii_rows ! c)"
    by (simp only: from_runs_map_of [OF ascii_data_runs_ok] ascii_rows_eq)
  then show ?thesis by (simp add: weights_of_def)
qed

lemma ascii_data_table_nth:
  "c < 132 \<Longrightarrow> ascii_table ascii_data (Suc c) = (case ascii_rows ! c of [] \<Rightarrow> None | w # _ \<Rightarrow> Some w)"
  by (simp add: ascii_table_def ascii_data_weights_nth)

lemma ascii_data_table_map:
  assumes "0 < a" "b \<le> 133"
  shows "map (ascii_table ascii_data) [a..<b] =
    map (\<lambda>ws. case ws of [] \<Rightarrow> None | w # _ \<Rightarrow> Some w) (take (b - a) (drop (a - 1) ascii_rows))"
proof (rule nth_equalityI)
  show "length (map (ascii_table ascii_data) [a..<b]) =
      length (map (\<lambda>ws. case ws of [] \<Rightarrow> None | w # _ \<Rightarrow> Some w) (take (b - a) (drop (a - 1) ascii_rows)))"
    using assms by (simp add: length_ascii_rows)
  fix i assume "i < length (map (ascii_table ascii_data) [a..<b])"
  then have i: "a + i < b" by simp
  then have "ascii_table ascii_data (Suc (a - 1 + i)) = (case ascii_rows ! (a - 1 + i) of [] \<Rightarrow> None | w # _ \<Rightarrow> Some w)"
    using assms by (intro ascii_data_table_nth) simp
  then show "map (ascii_table ascii_data) [a..<b] ! i =
      map (\<lambda>ws. case ws of [] \<Rightarrow> None | w # _ \<Rightarrow> Some w) (take (b - a) (drop (a - 1) ascii_rows)) ! i"
    using assms i by (simp add: length_ascii_rows)
qed

lemma ascii_data_ok: "ascii_ok ascii_data"
  unfolding ascii_ok_def
proof (intro conjI)
  have "list_all (\<lambda>w. w \<noteq> None) (map (ascii_table ascii_data) [0x20..<0x7F])"
    by (subst ascii_data_table_map) (simp_all add: ascii_rows_def)
  then show "list_all (\<lambda>c. ascii_table ascii_data c \<noteq> None) [0x20..<0x7F]" by (simp only: list.pred_map comp_def)
  have "map (ascii_table ascii_data) [65..<91] = map (ascii_table ascii_data) [97..<123]"
    by (subst (1 2) ascii_data_table_map) (simp_all add: ascii_rows_def)
  also have "[97..<123] = map (\<lambda>c. c + 32) [65..<91]" by (simp add: upt_rec_numeral)
  finally show "list_all (\<lambda>c. ascii_table ascii_data c = ascii_table ascii_data (c + 32)) [65..<91]"
    unfolding map_map comp_def map_eq_conv list_all_iff .
  have k: "key_chars = [0x20..<65] @ [91..<0x7F]" by (simp add: key_chars_def upt_rec_numeral)
  show "distinct (map (ascii_table ascii_data) key_chars)"
    unfolding k map_append by (subst (1 2) ascii_data_table_map) (simp_all add: ascii_rows_def)
qed

section \<open>The fast path of LIKE\<close>

definition ascii_single :: "collation_data \<Rightarrow> bool" where
  "ascii_single D \<longleftrightarrow> list_all (\<lambda>c. length (weights_of D c) \<le> 1) [1..<128]"

lemma code_points_ascii: "all_ascii s \<Longrightarrow> code_points s = map of_char s"
  by (induction s) (simp_all add: all_ascii_def decode_def)

lemma same_weights_ascii:
  assumes "ascii_single D" "0 < a" "a < 128" "0 < b" "b < 128"
  shows "same_weights D a b \<longleftrightarrow> same_ascii D a b"
proof -
  have "length (weights_of D a) \<le> 1" "length (weights_of D b) \<le> 1"
    using assms unfolding ascii_single_def list_all_iff set_upt by auto
  then show ?thesis
    using assms(2,4) by (auto simp: same_weights_def same_ascii_def ascii_table_def split: list.splits)
qed

lemma like_matches_cong:
  assumes "\<And>c x. Lit c \<in> set ts \<Longrightarrow> x \<in> set v \<Longrightarrow> same c x \<longleftrightarrow> same' c x"
  shows "like_matches same ts v \<longleftrightarrow> like_matches same' ts v"
  using assms
  by (induction same ts v rule: like_matches.induct) auto

lemma Lit_like_tokens: "Lit c \<in> set (like_tokens p) \<Longrightarrow> c \<in> set p"
  by (induction p rule: like_tokens.induct) (auto simp: simple_token_def split: if_splits)

lemma of_char_of_0: "char_of (0 :: nat) = CHR 0x00"
  by code_simp

lemma like_ascii_slow:
  assumes "ascii_single D" "all_ascii v" "all_ascii p" "CHR 0x00 \<notin> set v" "CHR 0x00 \<notin> set p"
  shows "like_ascii D v p = like_loop (same_weights D) (code_points v) (code_points p) 0 0 None 0"
proof -
  have byte: "0 < (of_char c :: nat) \<and> (of_char c :: nat) < 128" if "c \<in> set s" "all_ascii s" "CHR 0x00 \<notin> set s" for c s
  proof -
    have "(of_char c :: nat) \<noteq> 0" using that by (metis char_of_char of_char_of_0)
    then show ?thesis using that by (auto simp: all_ascii_def list_all_iff)
  qed
  have "like_matches (same_ascii D) (like_tokens (map of_char p)) (map of_char v) \<longleftrightarrow>
      like_matches (same_weights D) (like_tokens (map of_char p)) (map of_char v)"
    by (rule like_matches_cong) (use same_weights_ascii [OF assms(1)] byte assms in \<open>fastforce dest!: Lit_like_tokens\<close>)
  then show ?thesis by (simp add: like_ascii_def like_loop_matches code_points_ascii assms)
qed

lemma ascii_data_single: "ascii_single ascii_data"
proof -
  have "length (weights_of ascii_data c) \<le> 1" if "c \<in> {1..<128}" for c
  proof -
    have "list_all (\<lambda>ws. length ws \<le> 1) ascii_rows" by (simp add: ascii_rows_def)
    moreover have "ascii_rows ! (c - 1) \<in> set ascii_rows" using that by (intro nth_mem) (auto simp: length_ascii_rows)
    ultimately show ?thesis using ascii_data_weights_nth [of "c - 1"] that by (auto simp: list_all_iff)
  qed
  then show ?thesis unfolding ascii_single_def list_all_iff set_upt by blast
qed

lemma ascii_data_weights_one: "weights_of ascii_data (Suc 0) = []"
  using ascii_data_weights_nth [of 0] by (simp add: ascii_rows_def)

lemma ascii_data_weights_nul: "weights_of ascii_data 0 = implicit_weights 0"
proof -
  have "map_of (zip [1..<133] ascii_rows) 0 = None" by (auto simp: map_of_eq_None_iff dest: set_zip_leftD)
  then have "from_runs ascii_data 0 = None"
    by (simp only: from_runs_map_of [OF ascii_data_runs_ok] ascii_rows_eq)
  then show ?thesis by (simp add: weights_of_def)
qed

lemma ascii_data_nul: "ascii_table ascii_data 0 = None" "ascii_table ascii_data (Suc 0) = None"
  by (simp_all add: ascii_table_def ascii_data_weights_one)

section \<open>Properties\<close>

text \<open>
  C16: The key of a text decides equality: for tables whose printable characters have weights of their own (up to case), two
  texts have the same key exactly when they compare as the same value, although the key of a printable text is computed without
  looking at a weight and the key of any other text is either a text of ASCII characters or a row of weights.
\<close>
theorem collation_key_exact:
  assumes "ascii_ok D"
  shows "collation_key D a = collation_key D b \<longleftrightarrow> collation_compare D a b = 0"
  using collation_key_rank [OF assms] by (simp add: collation_compare_rank)

theorem collation_key_exact_witness:
  "collation_key ascii_data ''Bob'' = collation_key ascii_data ''bOB'' \<longleftrightarrow>
   collation_compare ascii_data ''Bob'' ''bOB'' = 0"
  by (rule collation_key_exact [OF ascii_data_ok])

text \<open>
  The byte order of two sort keys is the order of the texts, for texts that are not NULL: ORDER BY may sort the keys.
\<close>
theorem sort_key_order:
  assumes "a \<noteq> ''NULL''" "b \<noteq> ''NULL''"
  shows "collation_sort_key D a < collation_sort_key D b \<longleftrightarrow> collation_compare D a b < 0"
  using assms
  by (simp add: collation_sort_key_def collect_eq concat_weight_bytes_less_iff collation_compare_rank text_rank_def is_null_text_def three_way_def)

theorem sort_key_order_witness:
  "collation_sort_key ascii_data ''a_b'' < collation_sort_key ascii_data ''a0'' \<longleftrightarrow> collation_compare ascii_data ''a_b'' ''a0'' < 0"
  by (rule sort_key_order) simp_all

text \<open>
  C17: LIKE always returns, and its loop, which goes back to the last percent sign only, gives what the pattern means: some way to split
  the text among the tokens of the pattern exists. A NULL matches nothing.
\<close>
theorem like_correct:
  "like D v p = Some (v \<noteq> ''NULL'' \<and>
     (if all_ascii v \<and> all_ascii p
      then like_matches (same_ascii D) (like_tokens (map of_char p)) (map of_char v)
      else like_matches (same_weights D) (like_tokens (code_points p)) (code_points v)))"
  by (simp add: like_def like_ascii_def like_loop_matches is_null_text_def)

text \<open>
  The byte loop of LIKE for ASCII texts decides what the loop over code points would decide, provided no character below 128 has two
  weights and neither text has a NUL byte.
\<close>
theorem like_fast_path_agrees:
  assumes "ascii_single D" "all_ascii v" "all_ascii p" "CHR 0x00 \<notin> set v" "CHR 0x00 \<notin> set p"
  shows "like_ascii D v p = like_loop (same_weights D) (code_points v) (code_points p) 0 0 None 0"
  by (rule like_ascii_slow [OF assms])

theorem like_fast_path_agrees_witness:
  "like_ascii ascii_data ''Robert'' ''ro%T'' =
   like_loop (same_weights ascii_data) (code_points ''Robert'') (code_points ''ro%T'') 0 0 None 0"
  by (rule like_fast_path_agrees [OF ascii_data_single]) (simp_all add: all_ascii_def)

text \<open>
  With a NUL byte the two loops differ: for the fast path U+0000 and U+0001 are the same (ignored) character, for the loop over code
  points they are not, because the tables start at U+0001 and U+0000 gets an implicit weight.
\<close>
theorem like_nul_differs:
  "like_ascii ascii_data [CHR 0x00] [CHR 0x01] = Some True \<and>
   like_loop (same_weights ascii_data) (code_points [CHR 0x00]) (code_points [CHR 0x01]) 0 0 None 0 = Some False"
  by (simp add: like_ascii_def like_loop_matches decode_def same_ascii_def same_weights_def simple_token_def
      ascii_data_nul ascii_data_weights_nul ascii_data_weights_one implicit_weights_def)

end
