(* ===== verification/LockManager.thy ===== *)
theory LockManager
  imports OrdMap Collation
begin

text \<open>
  Row locks, gap locks and predicate reads (\<^verbatim>\<open>core/src/engine/lock_manager.cpp\<close>, \<^verbatim>\<open>lock_manager.hpp\<close>). Every public operation runs under
  \<^verbatim>\<open>mutex_\<close>, so it is one step on the state. A call that sleeps is two kinds of steps: the part up to
  \<^verbatim>\<open>cv_.wait_until\<close> (a result, or \<^const>\<open>None\<close> when the call goes to sleep) and the part that runs at each wake-up, which is told
  whether the deadline has passed (or KILL has asked the statement to stop).

  The iteration order of a \<^verbatim>\<open>std::unordered_set\<close> is not specified: where the code takes the first element it meets, the order is an
  argument (\<open>iter\<close>).
\<close>

section \<open>State\<close>

type_synonym lock_key = "string \<times> string"

datatype lock_data = Exclusive u64 | Shared "u64 list"

record LockEntry =
  lock_data :: lock_data
  shown :: string

datatype LockResult = Granted | Conflict u64 | Deadlock u64 | Timeout u64

record GapLockRow =
  gap_lo :: "string option"
  gap_hi :: "string option"
  lo_inclusive :: bool
  hi_inclusive :: bool
  gap_holder :: u64

record LockManager =
  row_locks :: "(lock_key \<times> LockEntry) list"
  wait_for :: "(u64 \<times> u64) list"
  deadlock_history :: "(u64 \<times> u64) list"
  gap_locks :: "(string \<times> GapLockRow list) list"
  predicate_reads :: "(string \<times> GapLockRow list) list"
  predicate_violations :: "u64 list"
  waits :: u64

definition new_lock_manager :: LockManager where
  "new_lock_manager = \<lparr>row_locks = [], wait_for = [], deadlock_history = [], gap_locks = [],
     predicate_reads = [], predicate_violations = [], waits = 0\<rparr>"

section \<open>Row locks\<close>

fun has_substring :: "string \<Rightarrow> string \<Rightarrow> bool" where
  "has_substring sub [] \<longleftrightarrow> sub = []"
| "has_substring sub (c # s) \<longleftrightarrow> take (length sub) (c # s) = sub \<or> has_substring sub s"

definition row_key :: "collation_data \<Rightarrow> string \<Rightarrow> string \<Rightarrow> lock_key" where
  "row_key D table pk = (table, if has_substring ''#ck:'' table then pk else collation_key D pk)"

definition try_grant_exclusive_locked ::
  "(u64 list \<Rightarrow> u64 list) \<Rightarrow> lock_key \<Rightarrow> string \<Rightarrow> u64 \<Rightarrow> LockManager \<Rightarrow> u64 option \<times> LockManager" where
  "try_grant_exclusive_locked iter key shw txn_id lm =
     (case map_of (row_locks lm) key of
        None \<Rightarrow> (None, lm\<lparr>row_locks := om_set key \<lparr>lock_data = Exclusive txn_id, shown = shw\<rparr> (row_locks lm)\<rparr>)
      | Some entry \<Rightarrow>
          (case lock_data entry of
             Exclusive holder \<Rightarrow> (if holder = txn_id then None else Some holder, lm)
           | Shared holders \<Rightarrow>
               if length holders = 1 \<and> txn_id \<in> set holders
               then (None, lm\<lparr>row_locks := om_set key \<lparr>lock_data = Exclusive txn_id, shown = shown entry\<rparr> (row_locks lm)\<rparr>)
               else (find (\<lambda>h. h \<noteq> txn_id) (iter holders), lm)))"

definition try_grant_shared_locked :: "lock_key \<Rightarrow> string \<Rightarrow> u64 \<Rightarrow> LockManager \<Rightarrow> u64 option \<times> LockManager" where
  "try_grant_shared_locked key shw txn_id lm =
     (case map_of (row_locks lm) key of
        None \<Rightarrow> (None, lm\<lparr>row_locks := om_set key \<lparr>lock_data = Shared [txn_id], shown = shw\<rparr> (row_locks lm)\<rparr>)
      | Some entry \<Rightarrow>
          (case lock_data entry of
             Exclusive holder \<Rightarrow> (if holder = txn_id then None else Some holder, lm)
           | Shared holders \<Rightarrow>
               (None, lm\<lparr>row_locks := om_set key (entry\<lparr>lock_data := Shared (set_insert txn_id holders)\<rparr>) (row_locks lm)\<rparr>)))"

function cycle_walk :: "(u64 \<times> u64) list \<Rightarrow> u64 \<Rightarrow> u64 \<Rightarrow> u64 list \<Rightarrow> bool" where
  "cycle_walk edges frm current visited =
     (if current = frm then True
      else if current \<in> set visited then False
      else case map_of edges current of None \<Rightarrow> False | Some nxt \<Rightarrow> cycle_walk edges frm nxt (current # visited))"
  by pat_completeness auto
termination
proof (relation "measure (\<lambda>(edges, frm, current, visited). card (fst ` set edges - set visited))", goal_cases)
  case (2 edges frm current visited nxt)
  have "current \<in> fst ` set edges" using 2(3) by (force dest: map_of_SomeD)
  then have "fst ` set edges - set (current # visited) \<subset> fst ` set edges - set visited" using 2(2) by auto
  then show ?case by (simp add: psubset_card_mono)
qed simp

declare cycle_walk.simps [simp del]

definition creates_cycle :: "u64 \<Rightarrow> u64 \<Rightarrow> LockManager \<Rightarrow> bool" where
  "creates_cycle frm to lm = cycle_walk (wait_for lm) frm to []"

text \<open>What \<^verbatim>\<open>acquire\<close>, \<^verbatim>\<open>acquire_shared\<close> and \<^verbatim>\<open>register_gap_conflict\<close> do once they know whom they would wait for.\<close>

definition blocked :: "u64 \<Rightarrow> u64 \<Rightarrow> int \<Rightarrow> LockManager \<Rightarrow> LockResult option \<times> LockManager" where
  "blocked txn_id holder timeout lm =
     (if creates_cycle txn_id holder lm
      then (Some (Deadlock holder), lm\<lparr>deadlock_history := deadlock_history lm @ [(txn_id, holder)]\<rparr>)
      else let lm' = lm\<lparr>wait_for := om_set txn_id holder (wait_for lm)\<rparr> in
        if timeout \<le> 0 then (Some (Conflict holder), lm') else (None, lm'))"

definition count_wait :: "LockResult option \<times> LockManager \<Rightarrow> LockResult option \<times> LockManager" where
  "count_wait = (\<lambda>(r, lm). (r, if r = None then lm\<lparr>waits := waits lm + 1\<rparr> else lm))"

definition acquire ::
  "collation_data \<Rightarrow> (u64 list \<Rightarrow> u64 list) \<Rightarrow> string \<Rightarrow> string \<Rightarrow> u64 \<Rightarrow> int \<Rightarrow> LockManager \<Rightarrow> LockResult option \<times> LockManager" where
  "acquire D iter table pk txn_id timeout lm =
     (case try_grant_exclusive_locked iter (row_key D table pk) pk txn_id lm of
        (None, lm') \<Rightarrow> (Some Granted, lm')
      | (Some holder, lm') \<Rightarrow> count_wait (blocked txn_id holder timeout lm'))"

definition acquire_shared :: "collation_data \<Rightarrow> string \<Rightarrow> string \<Rightarrow> u64 \<Rightarrow> int \<Rightarrow> LockManager \<Rightarrow> LockResult option \<times> LockManager" where
  "acquire_shared D table pk txn_id timeout lm =
     (case try_grant_shared_locked (row_key D table pk) pk txn_id lm of
        (None, lm') \<Rightarrow> (Some Granted, lm')
      | (Some holder, lm') \<Rightarrow> count_wait (blocked txn_id holder timeout lm'))"

definition stop_waiting :: "u64 \<Rightarrow> LockManager \<Rightarrow> LockManager" where
  "stop_waiting txn_id lm = lm\<lparr>wait_for := om_erase txn_id (wait_for lm)\<rparr>"

definition retried :: "u64 \<Rightarrow> bool \<Rightarrow> u64 option \<times> LockManager \<Rightarrow> LockResult option \<times> LockManager" where
  "retried txn_id expired = (\<lambda>(retry_holder, lm).
     case retry_holder of
       None \<Rightarrow> (Some Granted, stop_waiting txn_id lm)
     | Some h \<Rightarrow>
         if expired then (Some (Timeout h), stop_waiting txn_id lm)
         else (None, lm\<lparr>wait_for := om_set txn_id h (wait_for lm)\<rparr>))"

definition acquire_wake ::
  "collation_data \<Rightarrow> (u64 list \<Rightarrow> u64 list) \<Rightarrow> string \<Rightarrow> string \<Rightarrow> u64 \<Rightarrow> bool \<Rightarrow> LockManager \<Rightarrow> LockResult option \<times> LockManager" where
  "acquire_wake D iter table pk txn_id expired lm =
     retried txn_id expired (try_grant_exclusive_locked iter (row_key D table pk) pk txn_id lm)"

definition acquire_shared_wake :: "collation_data \<Rightarrow> string \<Rightarrow> string \<Rightarrow> u64 \<Rightarrow> bool \<Rightarrow> LockManager \<Rightarrow> LockResult option \<times> LockManager" where
  "acquire_shared_wake D table pk txn_id expired lm =
     retried txn_id expired (try_grant_shared_locked (row_key D table pk) pk txn_id lm)"

definition release_entry :: "u64 \<Rightarrow> lock_key \<Rightarrow> LockEntry \<Rightarrow> LockEntry option" where
  "release_entry txn_id key entry =
     (case lock_data entry of
        Exclusive holder \<Rightarrow> if holder \<noteq> txn_id then Some entry else None
      | Shared holders \<Rightarrow>
          let holders' = removeAll txn_id holders in
          if holders' \<noteq> [] then Some (entry\<lparr>lock_data := Shared holders'\<rparr>) else None)"

definition release_ranges :: "u64 \<Rightarrow> string \<Rightarrow> GapLockRow list \<Rightarrow> GapLockRow list option" where
  "release_ranges txn_id table rows =
     (let rows' = filter (\<lambda>r. gap_holder r \<noteq> txn_id) rows in if rows' = [] then None else Some rows')"

definition release :: "u64 \<Rightarrow> LockManager \<Rightarrow> LockManager" where
  "release txn_id lm = lm\<lparr>
     row_locks := om_update (release_entry txn_id) (row_locks lm),
     wait_for := filter (\<lambda>(a, b). \<not> (a = txn_id \<or> b = txn_id)) (wait_for lm),
     gap_locks := om_update (release_ranges txn_id) (gap_locks lm),
     predicate_reads := om_update (release_ranges txn_id) (predicate_reads lm),
     predicate_violations := removeAll txn_id (predicate_violations lm)\<rparr>"

definition guard_exit :: "bool \<Rightarrow> u64 \<Rightarrow> LockManager \<Rightarrow> LockManager" where
  "guard_exit owns txn_id lm = (if owns then release txn_id lm else lm)"

definition holder :: "collation_data \<Rightarrow> string \<Rightarrow> string \<Rightarrow> LockManager \<Rightarrow> u64 option" where
  "holder D table pk lm =
     (case map_of (row_locks lm) (row_key D table pk) of
        None \<Rightarrow> None
      | Some entry \<Rightarrow> (case lock_data entry of Exclusive h \<Rightarrow> Some h | Shared _ \<Rightarrow> None))"

definition lock_rows :: "LockManager \<Rightarrow> (string \<times> string \<times> u64) list" where
  "lock_rows lm = List.sort_key (\<lambda>(t, s, h). (t, s))
     (concat (map (\<lambda>(key, entry). case lock_data entry of
          Exclusive h \<Rightarrow> [(fst key, shown entry, h)]
        | Shared hs \<Rightarrow> map (\<lambda>h. (fst key, shown entry, h)) hs) (row_locks lm)))"

definition wait_for_rows :: "LockManager \<Rightarrow> (u64 \<times> u64) list" where
  "wait_for_rows lm = sort (wait_for lm)"

definition lm_is_empty :: "LockManager \<Rightarrow> bool" where
  "lm_is_empty lm \<longleftrightarrow> row_locks lm = []"

section \<open>Gap locks and predicate reads\<close>

definition push_range :: "string \<Rightarrow> GapLockRow \<Rightarrow> (string \<times> GapLockRow list) list \<Rightarrow> (string \<times> GapLockRow list) list" where
  "push_range table row m = om_set table ((case map_of m table of None \<Rightarrow> [] | Some rows \<Rightarrow> rows) @ [row]) m"

definition acquire_gap :: "string \<Rightarrow> string option \<Rightarrow> bool \<Rightarrow> string option \<Rightarrow> bool \<Rightarrow> u64 \<Rightarrow> LockManager \<Rightarrow> LockManager" where
  "acquire_gap table lo loi hi hii txn_id lm = lm\<lparr>gap_locks := push_range table
     \<lparr>gap_lo = lo, gap_hi = hi, lo_inclusive = loi, hi_inclusive = hii, gap_holder = txn_id\<rparr> (gap_locks lm)\<rparr>"

definition gap_locks_for :: "string \<Rightarrow> LockManager \<Rightarrow> GapLockRow list" where
  "gap_locks_for table lm = (case map_of (gap_locks lm) table of None \<Rightarrow> [] | Some rows \<Rightarrow> rows)"

definition register_gap_conflict :: "u64 \<Rightarrow> u64 \<Rightarrow> int \<Rightarrow> LockManager \<Rightarrow> LockResult option \<times> LockManager" where
  "register_gap_conflict txn_id hldr timeout lm = blocked txn_id hldr timeout lm"

definition still_held :: "string \<Rightarrow> u64 \<Rightarrow> LockManager \<Rightarrow> bool" where
  "still_held table hldr lm \<longleftrightarrow> list_ex (\<lambda>r. gap_holder r = hldr) (gap_locks_for table lm)"

definition gap_conflict_wake :: "string \<Rightarrow> u64 \<Rightarrow> u64 \<Rightarrow> bool \<Rightarrow> LockManager \<Rightarrow> LockResult option \<times> LockManager" where
  "gap_conflict_wake table txn_id hldr expired lm =
     (if \<not> still_held table hldr lm then (Some Granted, stop_waiting txn_id lm)
      else if expired then (Some (Timeout hldr), stop_waiting txn_id lm)
      else (None, lm))"

definition range_text :: "GapLockRow \<Rightarrow> string" where
  "range_text r = (if lo_inclusive r then ''['' else ''('') @ (case gap_lo r of Some s \<Rightarrow> s | None \<Rightarrow> ''-inf'') @ '', '' @
     (case gap_hi r of Some s \<Rightarrow> s | None \<Rightarrow> ''+inf'') @ (if hi_inclusive r then '']'' else '')'')"

definition range_rows :: "(string \<times> GapLockRow list) list \<Rightarrow> (string \<times> string \<times> u64) list" where
  "range_rows m = List.sort_key (\<lambda>(t, s, h). (t, s))
     (concat (map (\<lambda>(table, rows). map (\<lambda>r. (table, range_text r, gap_holder r)) rows) m))"

definition gap_lock_rows :: "LockManager \<Rightarrow> (string \<times> string \<times> u64) list" where
  "gap_lock_rows lm = range_rows (gap_locks lm)"

definition register_predicate_read :: "string \<Rightarrow> string option \<Rightarrow> bool \<Rightarrow> string option \<Rightarrow> bool \<Rightarrow> u64 \<Rightarrow> LockManager \<Rightarrow> LockManager" where
  "register_predicate_read table lo loi hi hii txn_id lm = lm\<lparr>predicate_reads := push_range table
     \<lparr>gap_lo = lo, gap_hi = hi, lo_inclusive = loi, hi_inclusive = hii, gap_holder = txn_id\<rparr> (predicate_reads lm)\<rparr>"

definition predicate_reads_for :: "string \<Rightarrow> LockManager \<Rightarrow> GapLockRow list" where
  "predicate_reads_for table lm = (case map_of (predicate_reads lm) table of None \<Rightarrow> [] | Some rows \<Rightarrow> rows)"

definition flag_predicate_violation :: "u64 \<Rightarrow> LockManager \<Rightarrow> LockManager" where
  "flag_predicate_violation txn_id lm = lm\<lparr>predicate_violations := set_insert txn_id (predicate_violations lm)\<rparr>"

definition take_predicate_violation :: "u64 \<Rightarrow> LockManager \<Rightarrow> bool \<times> LockManager" where
  "take_predicate_violation txn_id lm =
     (if txn_id \<in> set (predicate_violations lm)
      then (True, lm\<lparr>predicate_violations := removeAll txn_id (predicate_violations lm)\<rparr>)
      else (False, lm))"

definition predicate_lock_rows :: "LockManager \<Rightarrow> (string \<times> string \<times> u64) list" where
  "predicate_lock_rows lm = range_rows (predicate_reads lm)"

section \<open>The wait-for graph\<close>

definition wait_edges :: "(u64 \<times> u64) list \<Rightarrow> (u64 \<times> u64) set" where
  "wait_edges edges = {(a, b). map_of edges a = Some b}"

lemma cycle_walk_reaches:
  assumes "\<forall>v \<in> set visited. \<forall>b. map_of edges v = Some b \<longrightarrow> b \<in> set visited \<or> b = current" "frm \<notin> set visited"
  shows "cycle_walk edges frm current visited \<longleftrightarrow> (current, frm) \<in> (wait_edges edges)\<^sup>*"
  using assms
proof (induction edges frm current visited rule: cycle_walk.induct)
  case (1 edges frm current visited)
  consider "current = frm" | "current \<noteq> frm" "current \<in> set visited" | "current \<noteq> frm" "current \<notin> set visited" by blast
  then show ?case
  proof cases
    case 1
    then show ?thesis by (subst cycle_walk.simps) simp
  next
    case 2
    have closed: "x \<in> set visited" if "(current, x) \<in> (wait_edges edges)\<^sup>*" for x
      using that by (induction rule: rtrancl_induct) (use 2 "1.prems" in \<open>auto simp: wait_edges_def\<close>)
    then show ?thesis using 2 "1.prems"(2) by (subst cycle_walk.simps) auto
  next
    case 3
    show ?thesis
    proof (cases "map_of edges current")
      case None
      then have "(current, frm) \<notin> (wait_edges edges)\<^sup>*"
        using 3 by (auto simp: wait_edges_def elim: converse_rtranclE)
      then show ?thesis using 3 None by (subst cycle_walk.simps) simp
    next
      case (Some nxt)
      have "(current, frm) \<in> (wait_edges edges)\<^sup>* \<longleftrightarrow> (nxt, frm) \<in> (wait_edges edges)\<^sup>*"
        using 3 Some by (auto simp: wait_edges_def elim: converse_rtranclE intro: converse_rtrancl_into_rtrancl)
      moreover have "cycle_walk edges frm nxt (current # visited) \<longleftrightarrow> (nxt, frm) \<in> (wait_edges edges)\<^sup>*"
        using "1.IH" [OF 3(1) 3(2) Some] "1.prems" 3 Some by auto
      ultimately show ?thesis using 3 Some by (subst cycle_walk.simps) simp
    qed
  qed
qed

lemma creates_cycle_iff: "creates_cycle frm to lm \<longleftrightarrow> (to, frm) \<in> (wait_edges (wait_for lm))\<^sup>*"
  unfolding creates_cycle_def by (rule cycle_walk_reaches) simp_all

lemma wait_edges_om_set: "wait_edges (om_set a b edges) \<subseteq> insert (a, b) (wait_edges edges)"
  by (auto simp: wait_edges_def split: if_splits)

lemma wait_edges_om_erase: "wait_edges (om_erase a edges) \<subseteq> wait_edges edges"
  by (auto simp: wait_edges_def split: if_splits)

lemma blocked_acyclic:
  assumes "acyclic (wait_edges (wait_for lm))"
  shows "acyclic (wait_edges (wait_for (snd (blocked t h timeout lm))))"
proof (cases "creates_cycle t h lm")
  case False
  then have "acyclic (insert (t, h) (wait_edges (wait_for lm)))"
    using assms by (simp add: acyclic_insert creates_cycle_iff)
  then show ?thesis using False by (auto simp: blocked_def Let_def intro: acyclic_subset [OF _ wait_edges_om_set])
qed (use assms in \<open>simp add: blocked_def\<close>)

section \<open>Holders of a lock\<close>

definition lock_holders :: "LockManager \<Rightarrow> lock_key \<Rightarrow> u64 list" where
  "lock_holders lm key =
     (case map_of (row_locks lm) key of
        None \<Rightarrow> []
      | Some entry \<Rightarrow> (case lock_data entry of Exclusive h \<Rightarrow> [h] | Shared hs \<Rightarrow> hs))"

definition held_exclusive :: "LockManager \<Rightarrow> lock_key \<Rightarrow> bool" where
  "held_exclusive lm key \<longleftrightarrow>
     (case map_of (row_locks lm) key of
        None \<Rightarrow> False
      | Some entry \<Rightarrow> (case lock_data entry of Exclusive _ \<Rightarrow> True | Shared _ \<Rightarrow> False))"

definition entry_wf :: "LockEntry \<Rightarrow> bool" where
  "entry_wf entry \<longleftrightarrow> (case lock_data entry of Exclusive _ \<Rightarrow> True | Shared hs \<Rightarrow> hs \<noteq> [] \<and> distinct hs)"

definition lm_wf :: "LockManager \<Rightarrow> bool" where
  "lm_wf lm \<longleftrightarrow> om_wf (row_locks lm) \<and> om_wf (wait_for lm) \<and> om_wf (gap_locks lm) \<and> om_wf (predicate_reads lm) \<and>
     (\<forall>key entry. map_of (row_locks lm) key = Some entry \<longrightarrow> entry_wf entry)"

lemma other_holder:
  assumes "set (iter holders) = set holders" "holders \<noteq> []" "distinct holders" "\<not> (length holders = 1 \<and> t \<in> set holders)"
  shows "\<exists>h. find (\<lambda>h. h \<noteq> t) (iter holders) = Some h \<and> h \<in> set holders \<and> h \<noteq> t"
proof -
  have "\<exists>h \<in> set holders. h \<noteq> t"
  proof (rule ccontr)
    assume "\<not> (\<exists>h \<in> set holders. h \<noteq> t)"
    then have "set holders = {t}" using assms(2) by (metis empty_iff equals0I insert_iff set_empty subsetI subset_antisym)
    then have "length holders = 1" using assms(3) by (metis distinct_card is_singletonI is_singleton_altdef)
    then show False using assms(4) \<open>set holders = {t}\<close> by simp
  qed
  then have "find (\<lambda>h. h \<noteq> t) (iter holders) \<noteq> None" using assms(1) by (auto simp: find_None_iff)
  then obtain h where h: "find (\<lambda>h. h \<noteq> t) (iter holders) = Some h" by auto
  then have "h \<in> set (iter holders) \<and> h \<noteq> t" by (auto simp: find_Some_iff)
  then show ?thesis using h assms(1) by auto
qed

text \<open>The outcomes of the two attempts to grant, in terms of who holds the lock.\<close>

definition iter_ok :: "(u64 list \<Rightarrow> u64 list) \<Rightarrow> bool" where
  "iter_ok iter \<longleftrightarrow> (\<forall>xs. set (iter xs) = set xs)"

lemma lock_holders_set:
  "row_locks lm' = om_set key e (row_locks lm) \<Longrightarrow>
   lock_holders lm' = (lock_holders lm)(key := (case lock_data e of Exclusive h \<Rightarrow> [h] | Shared hs \<Rightarrow> hs))"
  "row_locks lm' = om_set key e (row_locks lm) \<Longrightarrow>
   held_exclusive lm' = (held_exclusive lm)(key := (case lock_data e of Exclusive h \<Rightarrow> True | Shared hs \<Rightarrow> False))"
  by (auto simp: lock_holders_def held_exclusive_def fun_eq_iff)

lemma lm_wf_set:
  "lm_wf lm \<Longrightarrow> entry_wf e \<Longrightarrow> lm_wf (lm\<lparr>row_locks := om_set key e (row_locks lm)\<rparr>)"
  by (auto simp: lm_wf_def om_wf_om_set)

lemma lm_wf_shared:
  assumes "lm_wf lm" "map_of (row_locks lm) key = Some e" "lock_data e = Shared hs"
  shows "hs \<noteq> [] \<and> distinct hs \<and> lock_holders lm key = hs \<and> \<not> held_exclusive lm key"
proof -
  have "entry_wf e" using assms by (cases key) (auto simp: lm_wf_def)
  then show ?thesis using assms by (simp add: entry_wf_def lock_holders_def held_exclusive_def)
qed

lemma try_exclusive_cases:
  assumes wf: "lm_wf lm" and it: "iter_ok iter" and tr: "try_grant_exclusive_locked iter key s t lm = (r, lm')"
  obtains (granted) "r = None" "set (lock_holders lm key) \<subseteq> {t}" "lock_holders lm' = (lock_holders lm)(key := [t])"
      "held_exclusive lm' = (held_exclusive lm)(key := True)" "lm_wf lm'" "wait_for lm' = wait_for lm"
    | (refused) h where "r = Some h" "h \<in> set (lock_holders lm key)" "h \<noteq> t" "lm' = lm"
proof (cases "map_of (row_locks lm) key")
  case None
  then have lm': "r = None" "lm' = lm\<lparr>row_locks := om_set key \<lparr>lock_data = Exclusive t, shown = s\<rparr> (row_locks lm)\<rparr>"
    using tr by (auto simp: try_grant_exclusive_locked_def)
  then show ?thesis
    using granted None wf lock_holders_set [of lm' key _ lm] lm_wf_set
    by (simp add: lock_holders_def [of lm key] entry_wf_def)
next
  case (Some e)
  show ?thesis
  proof (cases "lock_data e")
    case (Exclusive h)
    have "lock_holders lm = (lock_holders lm)(key := [h])" "held_exclusive lm = (held_exclusive lm)(key := True)"
      using Some Exclusive by (auto simp: lock_holders_def held_exclusive_def fun_eq_iff)
    moreover have "lock_holders lm key = [h]" using Some Exclusive by (simp add: lock_holders_def)
    ultimately show ?thesis using granted refused [of h] Some Exclusive tr wf
      by (auto simp: try_grant_exclusive_locked_def split: if_splits)
  next
    case (Shared hs)
    have hs: "hs \<noteq> []" "distinct hs" "lock_holders lm key = hs"
      using lm_wf_shared [OF wf Some Shared] by auto
    show ?thesis
    proof (cases "length hs = 1 \<and> t \<in> set hs")
      case True
      then have "hs = [t]" by (cases hs) auto
      moreover have "r = None" "lm' = lm\<lparr>row_locks := om_set key \<lparr>lock_data = Exclusive t, shown = shown e\<rparr> (row_locks lm)\<rparr>"
        using True Some Shared tr by (auto simp: try_grant_exclusive_locked_def)
      ultimately show ?thesis
        using granted hs wf lock_holders_set [of lm' key _ lm] lm_wf_set by (simp add: entry_wf_def)
    next
      case False
      then obtain h where "find (\<lambda>h. h \<noteq> t) (iter hs) = Some h" "h \<in> set hs" "h \<noteq> t"
        using other_holder [of iter hs t] hs it by (auto simp: iter_ok_def)
      moreover have "(r, lm') = (find (\<lambda>h. h \<noteq> t) (iter hs), lm)"
        using tr Some Shared False by (auto simp: try_grant_exclusive_locked_def)
      ultimately show ?thesis using refused [of h] hs by simp
    qed
  qed
qed

lemma try_shared_cases:
  assumes wf: "lm_wf lm" and tr: "try_grant_shared_locked key s t lm = (r, lm')"
  obtains (granted) "r = None" "\<not> held_exclusive lm key" "lock_holders lm' = (lock_holders lm)(key := set_insert t (lock_holders lm key))"
      "held_exclusive lm' = held_exclusive lm" "lm_wf lm'" "wait_for lm' = wait_for lm"
    | (own) "r = None" "held_exclusive lm key" "lock_holders lm key = [t]" "lm' = lm"
    | (refused) h where "r = Some h" "lock_holders lm key = [h]" "held_exclusive lm key" "h \<noteq> t" "lm' = lm"
proof (cases "map_of (row_locks lm) key")
  case None
  then have lm': "r = None" "lm' = lm\<lparr>row_locks := om_set key \<lparr>lock_data = Shared [t], shown = s\<rparr> (row_locks lm)\<rparr>"
    using tr by (auto simp: try_grant_shared_locked_def)
  moreover have "held_exclusive lm = (held_exclusive lm)(key := False)" "lock_holders lm key = []"
    using None by (auto simp: held_exclusive_def lock_holders_def fun_eq_iff)
  ultimately show ?thesis
    using granted None wf lock_holders_set [of lm' key _ lm] lm_wf_set
    by (simp add: held_exclusive_def [of lm key] entry_wf_def set_insert_def)
next
  case (Some e)
  show ?thesis
  proof (cases "lock_data e")
    case (Exclusive h)
    then show ?thesis using own refused [of h] Some tr
      by (auto simp: try_grant_shared_locked_def lock_holders_def held_exclusive_def split: if_splits)
  next
    case (Shared hs)
    have hs: "hs \<noteq> []" "distinct hs" "lock_holders lm key = hs" "\<not> held_exclusive lm key"
      using lm_wf_shared [OF wf Some Shared] by auto
    then have "entry_wf (e\<lparr>lock_data := Shared (set_insert t hs)\<rparr>)"
      by (simp add: entry_wf_def distinct_set_insert set_insert_def)
    moreover have "held_exclusive lm = (held_exclusive lm)(key := False)" using hs by (auto simp: fun_eq_iff)
    moreover have "r = None" "lm' = lm\<lparr>row_locks := om_set key (e\<lparr>lock_data := Shared (set_insert t hs)\<rparr>) (row_locks lm)\<rparr>"
      using Some Shared tr by (auto simp: try_grant_shared_locked_def)
    ultimately show ?thesis
      using granted hs wf lock_holders_set [of lm' key _ lm] lm_wf_set by simp
  qed
qed


section \<open>Release\<close>

lemma lock_holders_release:
  assumes "lm_wf lm"
  shows "lock_holders (release t lm) key = removeAll t (lock_holders lm key)"
    and "held_exclusive (release t lm) key \<longleftrightarrow> held_exclusive lm key \<and> lock_holders lm key \<noteq> [t]"
proof -
  have m: "map_of (row_locks (release t lm)) key =
      (case map_of (row_locks lm) key of None \<Rightarrow> None | Some e \<Rightarrow> release_entry t key e)"
    using assms by (simp add: release_def map_of_om_update lm_wf_def om_wf_distinct)
  show "lock_holders (release t lm) key = removeAll t (lock_holders lm key)"
    unfolding lock_holders_def m
    by (cases "map_of (row_locks lm) key") (auto simp: release_entry_def Let_def split: lock_data.splits)
  show "held_exclusive (release t lm) key \<longleftrightarrow> held_exclusive lm key \<and> lock_holders lm key \<noteq> [t]"
    unfolding held_exclusive_def lock_holders_def m
    by (cases "map_of (row_locks lm) key") (auto simp: release_entry_def Let_def split: lock_data.splits)
qed

lemma entry_wf_release: "entry_wf e \<Longrightarrow> release_entry t key e = Some e' \<Longrightarrow> entry_wf e'"
  by (auto simp: release_entry_def entry_wf_def Let_def distinct_removeAll split: lock_data.splits if_splits)

lemma lm_wf_release:
  assumes "lm_wf lm"
  shows "lm_wf (release t lm)"
proof -
  have "entry_wf e'" if "map_of (row_locks (release t lm)) key = Some e'" for key e'
  proof -
    have "map_of (row_locks (release t lm)) key =
        (case map_of (row_locks lm) key of None \<Rightarrow> None | Some e \<Rightarrow> release_entry t key e)"
      using assms by (simp add: release_def map_of_om_update lm_wf_def om_wf_distinct)
    then have "\<exists>e. map_of (row_locks lm) key = Some e \<and> release_entry t key e = Some e'"
      using that by (auto split: option.splits)
    then obtain e where e: "map_of (row_locks lm) key = Some e" "release_entry t key e = Some e'" by blast
    then have "entry_wf e" using assms by (cases key) (auto simp: lm_wf_def)
    then show ?thesis using e(2) by (rule entry_wf_release)
  qed
  then show ?thesis
    using assms by (auto simp: lm_wf_def release_def om_wf_om_update om_wf_filter)
qed

lemma wait_for_release: "wait_edges (wait_for (release t lm)) = {(a, b) \<in> wait_edges (wait_for lm). a \<noteq> t \<and> b \<noteq> t}"
  if "lm_wf lm"
  using that
  by (auto simp: release_def wait_edges_def lm_wf_def map_of_filter_distinct om_wf_distinct split: option.splits if_splits)

lemma ranges_release:
  assumes "om_wf m"
  shows "(case map_of (om_update (release_ranges t) m) table of None \<Rightarrow> [] | Some rows \<Rightarrow> rows) =
    filter (\<lambda>r. gap_holder r \<noteq> t) (case map_of m table of None \<Rightarrow> [] | Some rows \<Rightarrow> rows)"
  using assms by (auto simp: map_of_om_update om_wf_distinct release_ranges_def Let_def split: option.splits)

section \<open>Histories of calls\<close>

text \<open>
  Every interleaving of the calls of all sessions, with the set of the locks that have been granted since their owner's last
  release: \<open>(t, key, True)\<close> is an exclusive lock, \<open>(t, key, False)\<close> a shared one. A wake-up may happen at any time.
\<close>

definition record_grant :: "u64 \<Rightarrow> lock_key \<Rightarrow> bool \<Rightarrow> LockResult option \<Rightarrow> (u64 \<times> lock_key \<times> bool) set \<Rightarrow> (u64 \<times> lock_key \<times> bool) set" where
  "record_grant t key excl r G = (if r = Some Granted then insert (t, key, excl) G else G)"

inductive lock_reach :: "collation_data \<Rightarrow> (u64 list \<Rightarrow> u64 list) \<Rightarrow> LockManager \<Rightarrow> (u64 \<times> lock_key \<times> bool) set \<Rightarrow> bool"
  for D iter where
  init: "lock_reach D iter new_lock_manager {}"
| acquire: "lock_reach D iter lm G \<Longrightarrow> acquire D iter table pk t timeout lm = (r, lm') \<Longrightarrow>
    lock_reach D iter lm' (record_grant t (row_key D table pk) True r G)"
| acquire_wake: "lock_reach D iter lm G \<Longrightarrow> acquire_wake D iter table pk t expired lm = (r, lm') \<Longrightarrow>
    lock_reach D iter lm' (record_grant t (row_key D table pk) True r G)"
| acquire_shared: "lock_reach D iter lm G \<Longrightarrow> acquire_shared D table pk t timeout lm = (r, lm') \<Longrightarrow>
    lock_reach D iter lm' (record_grant t (row_key D table pk) False r G)"
| acquire_shared_wake: "lock_reach D iter lm G \<Longrightarrow> acquire_shared_wake D table pk t expired lm = (r, lm') \<Longrightarrow>
    lock_reach D iter lm' (record_grant t (row_key D table pk) False r G)"
| release: "lock_reach D iter lm G \<Longrightarrow> lock_reach D iter (release t lm) {g \<in> G. fst g \<noteq> t}"
| acquire_gap: "lock_reach D iter lm G \<Longrightarrow> lock_reach D iter (acquire_gap table lo loi hi hii t lm) G"
| gap_conflict: "lock_reach D iter lm G \<Longrightarrow> lock_reach D iter (snd (register_gap_conflict t h timeout lm)) G"
| gap_conflict_wake: "lock_reach D iter lm G \<Longrightarrow> lock_reach D iter (snd (gap_conflict_wake table t h expired lm)) G"
| predicate_read: "lock_reach D iter lm G \<Longrightarrow> lock_reach D iter (register_predicate_read table lo loi hi hii t lm) G"
| flag_violation: "lock_reach D iter lm G \<Longrightarrow> lock_reach D iter (flag_predicate_violation t lm) G"
| take_violation: "lock_reach D iter lm G \<Longrightarrow> lock_reach D iter (snd (take_predicate_violation t lm)) G"

definition grants_ok :: "LockManager \<Rightarrow> (u64 \<times> lock_key \<times> bool) set \<Rightarrow> bool" where
  "grants_ok lm G \<longleftrightarrow> (\<forall>(t, key, excl) \<in> G. t \<in> set (lock_holders lm key) \<and> (excl \<longrightarrow> held_exclusive lm key \<and> lock_holders lm key = [t]))"

lemma grants_okI:
  "(\<And>t key excl. (t, key, excl) \<in> G \<Longrightarrow>
      t \<in> set (lock_holders lm key) \<and> (excl \<longrightarrow> held_exclusive lm key \<and> lock_holders lm key = [t])) \<Longrightarrow> grants_ok lm G"
  unfolding grants_ok_def by blast

lemma grants_okD:
  "grants_ok lm G \<Longrightarrow> (t, key, excl) \<in> G \<Longrightarrow>
    t \<in> set (lock_holders lm key) \<and> (excl \<longrightarrow> held_exclusive lm key \<and> lock_holders lm key = [t])"
  unfolding grants_ok_def by blast

definition lock_inv :: "LockManager \<Rightarrow> (u64 \<times> lock_key \<times> bool) set \<Rightarrow> bool" where
  "lock_inv lm G \<longleftrightarrow> lm_wf lm \<and> grants_ok lm G"

lemma lock_inv_cong:
  assumes "lock_inv lm G" "row_locks lm' = row_locks lm" "lm_wf lm'"
  shows "lock_inv lm' G"
proof -
  have "lock_holders lm' = lock_holders lm" "held_exclusive lm' = held_exclusive lm"
    using assms(2) by (auto simp: lock_holders_def held_exclusive_def fun_eq_iff)
  then show ?thesis using assms by (simp add: lock_inv_def grants_ok_def)
qed

lemma lock_inv_maps: "lock_inv lm G \<Longrightarrow> om_wf (wait_for lm) \<and> om_wf (gap_locks lm) \<and> om_wf (predicate_reads lm)"
  by (simp add: lock_inv_def lm_wf_def)

lemma lock_inv_frame:
  assumes "lock_inv lm G" "row_locks lm' = row_locks lm" "om_wf (wait_for lm')" "om_wf (gap_locks lm')" "om_wf (predicate_reads lm')"
  shows "lock_inv lm' G"
  using assms(1,2) by (rule lock_inv_cong) (use assms in \<open>simp add: lm_wf_def lock_inv_def\<close>)

lemma blocked_frame:
  "row_locks (snd (blocked t h timeout lm)) = row_locks lm" "lm_wf lm \<Longrightarrow> lm_wf (snd (blocked t h timeout lm))"
  "fst (blocked t h timeout lm) \<noteq> Some Granted"
  by (auto simp: blocked_def lm_wf_def om_wf_om_set Let_def)

lemma count_wait_frame:
  "row_locks (snd (count_wait x)) = row_locks (snd x)" "lm_wf (snd x) \<Longrightarrow> lm_wf (snd (count_wait x))" "fst (count_wait x) = fst x"
  by (auto simp: count_wait_def lm_wf_def split: prod.splits)

lemma lm_wf_wait_for: "lm_wf lm \<Longrightarrow> om_wf e \<Longrightarrow> lm_wf (lm\<lparr>wait_for := e\<rparr>)"
  by (simp add: lm_wf_def)

lemma lock_inv_stop_waiting: "lock_inv lm G \<Longrightarrow> lock_inv (stop_waiting t lm) G"
  by (rule lock_inv_cong) (auto simp: stop_waiting_def lock_inv_def lm_wf_def om_wf_om_erase)

text \<open>The granted attempts keep the invariant.\<close>

lemma lock_inv_exclusive:
  assumes "lock_inv lm G" "iter_ok iter" "try_grant_exclusive_locked iter key s t lm = (None, lm')"
  shows "lock_inv lm' (insert (t, key, True) G)"
proof -
  have wf: "lm_wf lm" and G: "grants_ok lm G" using assms(1) by (auto simp: lock_inv_def)
  show ?thesis
  proof (rule try_exclusive_cases [OF wf assms(2,3)], goal_cases)
    case 1
    have "grants_ok lm' (insert (t, key, True) G)"
    proof (rule grants_okI)
      fix t' k excl assume "(t', k, excl) \<in> insert (t, key, True) G"
      then show "t' \<in> set (lock_holders lm' k) \<and> (excl \<longrightarrow> held_exclusive lm' k \<and> lock_holders lm' k = [t'])"
        using 1 grants_okD [OF G, of t' k excl] by (cases "k = key") auto
    qed
    then show ?case using 1 by (simp add: lock_inv_def)
  qed simp
qed

lemma lock_inv_shared:
  assumes "lock_inv lm G" "try_grant_shared_locked key s t lm = (None, lm')"
  shows "lock_inv lm' (insert (t, key, False) G)"
proof -
  have wf: "lm_wf lm" and G: "grants_ok lm G" using assms(1) by (auto simp: lock_inv_def)
  show ?thesis
  proof (rule try_shared_cases [OF wf assms(2)], goal_cases)
    case 1
    have "grants_ok lm' (insert (t, key, False) G)"
    proof (rule grants_okI)
      fix t' k excl assume "(t', k, excl) \<in> insert (t, key, False) G"
      then show "t' \<in> set (lock_holders lm' k) \<and> (excl \<longrightarrow> held_exclusive lm' k \<and> lock_holders lm' k = [t'])"
        using 1 grants_okD [OF G, of t' k excl] by (cases "k = key") auto
    qed
    then show ?case using 1 by (simp add: lock_inv_def)
  next
    case 2
    then show ?case using wf G by (auto simp: lock_inv_def intro!: grants_okI dest: grants_okD)
  qed simp
qed

lemma lock_inv_retried:
  assumes "lock_inv lm G" "\<And>lm'. attempt = (None, lm') \<Longrightarrow> lock_inv lm' (insert (t, key, excl) G)"
    "\<And>h lm'. attempt = (Some h, lm') \<Longrightarrow> lm' = lm" "retried t expired attempt = (r, lm')"
  shows "lock_inv lm' (record_grant t key excl r G)"
proof (cases attempt)
  case (Pair r0 lm0)
  show ?thesis
  proof (cases r0)
    case None
    then have "lock_inv lm0 (insert (t, key, excl) G)" using assms(2) Pair by simp
    then have "lock_inv (stop_waiting t lm0) (insert (t, key, excl) G)" by (rule lock_inv_stop_waiting)
    then show ?thesis using assms(4) None Pair by (auto simp: retried_def record_grant_def)
  next
    case (Some h)
    then have "lm0 = lm" using assms(3) Pair by simp
    then have "r \<noteq> Some Granted" "row_locks lm' = row_locks lm" "lm_wf lm'"
      using assms(1,4) Some Pair by (auto simp: retried_def stop_waiting_def lm_wf_def lock_inv_def om_wf_om_erase om_wf_om_set split: if_splits)
    then show ?thesis using lock_inv_cong [OF assms(1)] by (simp add: record_grant_def)
  qed
qed


lemma lock_inv_blocked:
  assumes "lock_inv lm G" "count_wait (blocked t h timeout lm) = (r, lm')"
  shows "lock_inv lm' (record_grant t key excl r G)"
proof -
  have "r = fst (count_wait (blocked t h timeout lm))" "lm' = snd (count_wait (blocked t h timeout lm))"
    using assms(2) by simp_all
  then have "r \<noteq> Some Granted" "row_locks lm' = row_locks lm" "lm_wf lm'"
    using assms(1) by (simp_all add: count_wait_frame blocked_frame lock_inv_def)
  then show ?thesis using lock_inv_cong [OF assms(1)] by (simp add: record_grant_def)
qed

lemma lock_inv_acquire:
  assumes "lock_inv lm G" "iter_ok iter" "acquire D iter table pk t timeout lm = (r, lm')"
  shows "lock_inv lm' (record_grant t (row_key D table pk) True r G)"
proof -
  have wf: "lm_wf lm" using assms(1) by (simp add: lock_inv_def)
  obtain r0 lm0 where a: "try_grant_exclusive_locked iter (row_key D table pk) pk t lm = (r0, lm0)" by fastforce
  show ?thesis
  proof (cases r0)
    case None
    then show ?thesis
      using assms(3) a lock_inv_exclusive [OF assms(1,2)] by (auto simp: acquire_def record_grant_def)
  next
    case (Some h)
    then have "lm0 = lm" using a by (elim try_exclusive_cases [OF wf assms(2)]) auto
    then show ?thesis using assms(1,3) a Some lock_inv_blocked by (simp add: acquire_def)
  qed
qed

lemma lock_inv_acquire_shared:
  assumes "lock_inv lm G" "acquire_shared D table pk t timeout lm = (r, lm')"
  shows "lock_inv lm' (record_grant t (row_key D table pk) False r G)"
proof -
  have wf: "lm_wf lm" using assms(1) by (simp add: lock_inv_def)
  obtain r0 lm0 where a: "try_grant_shared_locked (row_key D table pk) pk t lm = (r0, lm0)" by fastforce
  show ?thesis
  proof (cases r0)
    case None
    then show ?thesis
      using assms(2) a lock_inv_shared [OF assms(1)] by (auto simp: acquire_shared_def record_grant_def)
  next
    case (Some h)
    then have "lm0 = lm" using a by (elim try_shared_cases [OF wf]) auto
    then show ?thesis using assms(1,2) a Some lock_inv_blocked by (simp add: acquire_shared_def)
  qed
qed

lemma lock_inv_release:
  assumes "lock_inv lm G"
  shows "lock_inv (release t lm) {g \<in> G. fst g \<noteq> t}"
proof -
  have wf: "lm_wf lm" and G: "grants_ok lm G" using assms by (auto simp: lock_inv_def)
  have "grants_ok (release t lm) {g \<in> G. fst g \<noteq> t}"
    by (rule grants_okI) (use grants_okD [OF G] lock_holders_release [OF wf] in auto)
  then show ?thesis using lm_wf_release [OF wf] by (simp add: lock_inv_def)
qed

lemma lm_wf_push_range: "om_wf m \<Longrightarrow> om_wf (push_range table row m)"
  by (simp add: push_range_def om_wf_om_set)

lemma lock_reach_inv:
  assumes "lock_reach D iter lm G" "iter_ok iter"
  shows "lock_inv lm G"
  using assms
proof (induction rule: lock_reach.induct)
  case init
  then show ?case by (simp add: lock_inv_def lm_wf_def grants_ok_def new_lock_manager_def)
next
  case (acquire lm G table pk t timeout r lm')
  then show ?case by (auto intro: lock_inv_acquire)
next
  case (acquire_wake lm G table pk t expired r lm')
  then have inv: "lock_inv lm G" by simp
  show ?case
  proof (rule lock_inv_retried [OF inv _ _ acquire_wake(2) [unfolded acquire_wake_def]])
    fix lm0 assume "try_grant_exclusive_locked iter (row_key D table pk) pk t lm = (None, lm0)"
    then show "lock_inv lm0 (insert (t, row_key D table pk, True) G)" by (rule lock_inv_exclusive [OF inv acquire_wake(4)])
  next
    fix h lm0 assume a: "try_grant_exclusive_locked iter (row_key D table pk) pk t lm = (Some h, lm0)"
    show "lm0 = lm" by (rule try_exclusive_cases [OF _ acquire_wake(4) a]) (use inv in \<open>auto simp: lock_inv_def\<close>)
  qed
next
  case (acquire_shared lm G table pk t timeout r lm')
  then show ?case by (auto intro: lock_inv_acquire_shared)
next
  case (acquire_shared_wake lm G table pk t expired r lm')
  then have inv: "lock_inv lm G" by simp
  show ?case
  proof (rule lock_inv_retried [OF inv _ _ acquire_shared_wake(2) [unfolded acquire_shared_wake_def]])
    fix lm0 assume "try_grant_shared_locked (row_key D table pk) pk t lm = (None, lm0)"
    then show "lock_inv lm0 (insert (t, row_key D table pk, False) G)" by (rule lock_inv_shared [OF inv])
  next
    fix h lm0 assume a: "try_grant_shared_locked (row_key D table pk) pk t lm = (Some h, lm0)"
    show "lm0 = lm" by (rule try_shared_cases [OF _ a]) (use inv in \<open>auto simp: lock_inv_def\<close>)
  qed
next
  case (release lm G t)
  then show ?case by (simp add: lock_inv_release)
next
  case (acquire_gap lm G table lo loi hi hii t)
  then have inv: "lock_inv lm G" by simp
  show ?case by (rule lock_inv_frame [OF inv]) (simp_all add: acquire_gap_def lm_wf_push_range lock_inv_maps [OF inv])
next
  case (gap_conflict lm G t h timeout)
  then have inv: "lock_inv lm G" by simp
  then have "lm_wf lm" by (simp add: lock_inv_def)
  then show ?case unfolding register_gap_conflict_def by (intro lock_inv_cong [OF inv] blocked_frame)
next
  case (gap_conflict_wake lm G table t h expired)
  then show ?case by (simp add: gap_conflict_wake_def lock_inv_stop_waiting)
next
  case (predicate_read lm G table lo loi hi hii t)
  then have inv: "lock_inv lm G" by simp
  show ?case by (rule lock_inv_frame [OF inv]) (simp_all add: register_predicate_read_def lm_wf_push_range lock_inv_maps [OF inv])
next
  case (flag_violation lm G t)
  then have inv: "lock_inv lm G" by simp
  show ?case by (rule lock_inv_frame [OF inv]) (simp_all add: flag_predicate_violation_def lock_inv_maps [OF inv])
next
  case (take_violation lm G t)
  then have inv: "lock_inv lm G" by simp
  show ?case by (rule lock_inv_frame [OF inv]) (simp_all add: take_predicate_violation_def lock_inv_maps [OF inv])
qed


section \<open>A history\<close>

text \<open>
  Transaction 1 locks row \<open>a\<close>, transaction 3 locks row \<open>b\<close> and waits for row \<open>a\<close> (\<open>lm3\<close>); transaction 1 commits and transaction 2
  takes row \<open>a\<close> before 3 wakes up (\<open>lm5\<close>), then waits for row \<open>b\<close> (\<open>lm6\<close>); at last 3 wakes up (\<open>lm7\<close>).
\<close>

lemmas lock_eval = acquire_def acquire_wake_def try_grant_exclusive_locked_def blocked_def count_wait_def retried_def Let_def
  creates_cycle_def cycle_walk.simps release_def om_update_def release_entry_def record_grant_def new_lock_manager_def

definition exclusive_entry :: "u64 \<Rightarrow> string \<Rightarrow> LockEntry" where
  "exclusive_entry t s = \<lparr>lock_data = Exclusive t, shown = s\<rparr>"

definition lm_at :: "(lock_key \<times> LockEntry) list \<Rightarrow> (u64 \<times> u64) list \<Rightarrow> u64 \<Rightarrow> LockManager" where
  "lm_at rl edges w = new_lock_manager\<lparr>row_locks := rl, wait_for := edges, waits := w\<rparr>"

abbreviation row_a :: lock_key where "row_a \<equiv> (''t'', ''a'')"
abbreviation row_b :: lock_key where "row_b \<equiv> (''t'', ''b'')"

definition lm2 :: LockManager where
  "lm2 = lm_at [(row_a, exclusive_entry 1 ''a''), (row_b, exclusive_entry 3 ''b'')] [] 0"
definition lm3 :: LockManager where
  "lm3 = lm_at [(row_a, exclusive_entry 1 ''a''), (row_b, exclusive_entry 3 ''b'')] [(3, 1)] 1"
definition lm5 :: LockManager where
  "lm5 = lm_at [(row_a, exclusive_entry 2 ''a''), (row_b, exclusive_entry 3 ''b'')] [] 1"
definition lm6 :: LockManager where
  "lm6 = lm_at [(row_a, exclusive_entry 2 ''a''), (row_b, exclusive_entry 3 ''b'')] [(2, 3)] 2"
definition lm7 :: LockManager where
  "lm7 = lm_at [(row_a, exclusive_entry 2 ''a''), (row_b, exclusive_entry 3 ''b'')] [(2, 3), (3, 2)] 2"

lemmas lm_states = lm2_def lm3_def lm5_def lm6_def lm7_def lm_at_def exclusive_entry_def

lemma row_keys: "row_key ascii_data ''t'' ''a'' = row_a" "row_key ascii_data ''t'' ''A'' = row_a" "row_key ascii_data ''t'' ''b'' = row_b"
proof -
  have "char_of (97 :: nat) = CHR ''a''" by code_simp
  then show "row_key ascii_data ''t'' ''a'' = row_a" "row_key ascii_data ''t'' ''A'' = row_a" "row_key ascii_data ''t'' ''b'' = row_b"
    by (simp_all add: row_key_def collation_key_def is_null_text_def printable_def lower_def)
qed

lemma reach_lm2: "lock_reach ascii_data rev lm2 {(3, row_b, True), (1, row_a, True)}"
proof -
  have 1: "acquire ascii_data rev ''t'' ''a'' 1 1000 new_lock_manager = (Some Granted, lm_at [(row_a, exclusive_entry 1 ''a'')] [] 0)"
    by (simp add: lock_eval row_keys lm_states)
  have 2: "acquire ascii_data rev ''t'' ''b'' 3 1000 (lm_at [(row_a, exclusive_entry 1 ''a'')] [] 0) = (Some Granted, lm2)"
    by (simp add: lock_eval row_keys lm_states)
  show ?thesis
    using lock_reach.acquire [OF lock_reach.acquire [OF lock_reach.init 1] 2] by (simp add: record_grant_def row_keys)
qed

lemma reach_lm3: "lock_reach ascii_data rev lm3 {(3, row_b, True), (1, row_a, True)}"
proof -
  have "acquire ascii_data rev ''t'' ''a'' 3 1000 lm2 = (None, lm3)" by (simp add: lock_eval row_keys lm_states)
  from lock_reach.acquire [OF reach_lm2 this] show ?thesis by (simp add: record_grant_def)
qed

lemma reach_lm5: "lock_reach ascii_data rev lm5 {(2, row_a, True), (3, row_b, True)}"
proof -
  have 1: "release 1 lm3 = lm_at [(row_b, exclusive_entry 3 ''b'')] [] 1" by (simp add: lock_eval lm_states)
  have 2: "acquire ascii_data rev ''t'' ''a'' 2 1000 (release 1 lm3) = (Some Granted, lm5)"
    unfolding 1 by (simp add: lock_eval row_keys lm_states)
  have G: "{g \<in> {(3, row_b, True), (1, row_a, True)}. fst g \<noteq> (1::u64)} = {(3, row_b, True)}" by auto
  show ?thesis
    using lock_reach.acquire [OF lock_reach.release [OF reach_lm3, of 1] 2] unfolding G by (simp add: record_grant_def row_keys)
qed

lemma reach_lm6: "lock_reach ascii_data rev lm6 {(2, row_a, True), (3, row_b, True)}"
proof -
  have "acquire ascii_data rev ''t'' ''b'' 2 1000 lm5 = (None, lm6)" by (simp add: lock_eval row_keys lm_states)
  from lock_reach.acquire [OF reach_lm5 this] show ?thesis by (simp add: record_grant_def)
qed

lemma reach_lm7: "lock_reach ascii_data rev lm7 {(2, row_a, True), (3, row_b, True)}"
proof -
  have "acquire_wake ascii_data rev ''t'' ''a'' 3 False lm6 = (None, lm7)" by (simp add: lock_eval row_keys lm_states)
  from lock_reach.acquire_wake [OF reach_lm6 this] show ?thesis by (simp add: record_grant_def)
qed

lemma iter_ok_rev: "iter_ok rev"
  by (simp add: iter_ok_def)

section \<open>Properties\<close>

lemma row_key_same:
  assumes "ascii_ok D" "\<not> has_substring ''#ck:'' table" "collation_compare D pk pk' = 0"
  shows "row_key D table pk = row_key D table pk'"
  using assms collation_key_rank [of D pk pk'] by (simp add: row_key_def collation_compare_rank)

text \<open>
  C15: Mutual exclusion. In every interleaving of calls, when a transaction has been granted the exclusive lock of a row and has not
  released it, no other transaction has a lock, exclusive or shared, on that row, under whichever spelling of the key it asked
  (two keys that the collation takes for one value are one lock).
\<close>
theorem exclusive_lock_alone:
  assumes "lock_reach D iter lm G" "iter_ok iter" "ascii_ok D" "\<not> has_substring ''#ck:'' table" "collation_compare D pk pk' = 0"
    "(t, row_key D table pk, True) \<in> G" "(t', row_key D table pk', excl) \<in> G"
  shows "t' = t"
proof -
  have G: "grants_ok lm G" using lock_reach_inv [OF assms(1,2)] by (simp add: lock_inv_def)
  show ?thesis
    using grants_okD [OF G assms(6)] grants_okD [OF G assms(7)] row_key_same [OF assms(3-5)] by auto
qed

text \<open>
  C18: The deadlock check is exact: a call that cannot be granted is answered Deadlock exactly when whom it would wait for already waits,
  directly or through others, for the caller; otherwise the caller's edge is entered and no cycle appears. The walk always ends,
  also on a graph that has a cycle.
\<close>
theorem acquire_deadlock_exact:
  assumes "lock_reach D iter lm G" "iter_ok iter" "acquire D iter table pk t timeout lm = (r, lm')" "r \<noteq> Some Granted"
  shows "\<exists>h \<in> set (lock_holders lm (row_key D table pk)). h \<noteq> t \<and>
    (r = Some (Deadlock h) \<longleftrightarrow> (h, t) \<in> (wait_edges (wait_for lm))\<^sup>*) \<and>
    (r \<noteq> Some (Deadlock h) \<longrightarrow> (t, h) \<in> wait_edges (wait_for lm') \<and> r = (if timeout \<le> 0 then Some (Conflict h) else None)) \<and>
    (acyclic (wait_edges (wait_for lm)) \<longrightarrow> acyclic (wait_edges (wait_for lm')))"
proof -
  have wf: "lm_wf lm" using lock_reach_inv [OF assms(1,2)] by (simp add: lock_inv_def)
  obtain r0 lm0 where a: "try_grant_exclusive_locked iter (row_key D table pk) pk t lm = (r0, lm0)" by fastforce
  have "r0 \<noteq> None" using a assms(3,4) by (cases r0) (auto simp: acquire_def)
  with try_exclusive_cases [OF wf assms(2) a] obtain h where
    h: "r0 = Some h" "h \<in> set (lock_holders lm (row_key D table pk))" "h \<noteq> t" "lm0 = lm" by metis
  have b: "(r, lm') = count_wait (blocked t h timeout lm)" using a h assms(3) by (simp add: acquire_def)
  have w: "wait_for lm' = wait_for (snd (blocked t h timeout lm))" "r = fst (blocked t h timeout lm)"
    using b by (auto simp: count_wait_def split: prod.splits)
  show ?thesis
    using h w blocked_acyclic [of lm t h timeout]
    by (intro bexI [OF _ h(2)]) (auto simp: blocked_def Let_def creates_cycle_iff wait_edges_def)
qed

text \<open>
  Releasing a transaction takes it out of every lock, range and wait edge and leaves every other transaction's as they are.
\<close>
theorem release_exact:
  assumes "lock_reach D iter lm G" "iter_ok iter"
  shows "lock_holders (release t lm) key = removeAll t (lock_holders lm key) \<and>
    wait_edges (wait_for (release t lm)) = {(a, b) \<in> wait_edges (wait_for lm). a \<noteq> t \<and> b \<noteq> t} \<and>
    gap_locks_for table (release t lm) = filter (\<lambda>r. gap_holder r \<noteq> t) (gap_locks_for table lm) \<and>
    predicate_reads_for table (release t lm) = filter (\<lambda>r. gap_holder r \<noteq> t) (predicate_reads_for table lm) \<and>
    set (predicate_violations (release t lm)) = set (predicate_violations lm) - {t}"
proof -
  have inv: "lock_inv lm G" by (rule lock_reach_inv [OF assms])
  then have wf: "lm_wf lm" by (simp add: lock_inv_def)
  then show ?thesis
    using ranges_release lock_inv_maps [OF inv] lock_holders_release(1) [OF wf] wait_for_release [OF wf]
    by (auto simp: gap_locks_for_def predicate_reads_for_def release_def)
qed

lemma release_all_holders:
  "lm_wf lm \<Longrightarrow> lm_wf (fold release ts lm) \<and> set (lock_holders (fold release ts lm) key) = set (lock_holders lm key) - set ts"
  by (induction ts arbitrary: lm) (auto simp: lm_wf_release lock_holders_release)



text \<open>
  A deadlock that nobody detects: there is a history after which transactions 2 and 3 wait for each other, no call has been answered
  Deadlock, and every further wake-up of either goes back to sleep until a deadline passes. The edge that closes the cycle is entered by
  the retry loop, which does not check for cycles.
\<close>
theorem deadlock_not_detected:
  "\<exists>lm G. lock_reach ascii_data rev lm G \<and> (2, 3) \<in> wait_edges (wait_for lm) \<and> (3, 2) \<in> wait_edges (wait_for lm) \<and>
     deadlock_history lm = [] \<and>
     acquire_wake ascii_data rev ''t'' ''b'' 2 False lm = (None, lm) \<and>
     acquire_wake ascii_data rev ''t'' ''a'' 3 False lm = (None, lm)"
proof (intro exI conjI)
  show "lock_reach ascii_data rev lm7 {(2, row_a, True), (3, row_b, True)}" by (rule reach_lm7)
qed (simp_all add: lock_eval row_keys lm_states wait_edges_def)

section \<open>Witnesses\<close>

theorem exclusive_lock_alone_witness:
  "lock_reach ascii_data rev lm2 {(3, row_b, True), (1, row_a, True)} \<and> (1 :: u64) = 1"
proof
  have ck: "\<not> has_substring ''#ck:'' ''t''" by simp
  have k: "collation_key ascii_data ''a'' = collation_key ascii_data ''A''"
    using row_keys(1,2) ck by (simp add: row_key_def)
  then have "collation_compare ascii_data ''a'' ''A'' = 0"
    by (simp add: collation_key_rank [OF ascii_data_ok] collation_compare_rank)
  from exclusive_lock_alone [OF reach_lm2 iter_ok_rev ascii_data_ok ck this, of 1 1 True]
  show "(1 :: u64) = 1" by (simp add: row_keys)
qed (rule reach_lm2)

theorem acquire_deadlock_exact_witness:
  "lock_holders lm3 row_b = [3] \<and> (3, 1) \<in> (wait_edges (wait_for lm3))\<^sup>*"
proof -
  have h: "lock_holders lm3 row_b = [3]" by (simp add: lock_holders_def lm_states new_lock_manager_def)
  have "acquire ascii_data rev ''t'' ''b'' 1 1000 lm3 = (Some (Deadlock 3), lm3\<lparr>deadlock_history := [(1, 3)]\<rparr>)"
    by (simp add: lock_eval row_keys lm_states)
  from acquire_deadlock_exact [OF reach_lm3 iter_ok_rev this]
  show ?thesis by (simp add: row_keys h)
qed

theorem release_exact_witness: "lock_holders (release 1 lm3) row_a = [] \<and> lock_holders lm3 row_a = [1]"
  using release_exact [OF reach_lm3 iter_ok_rev, of 1 row_a "''t''"]
  by (simp add: lock_holders_def lm_states new_lock_manager_def)


end
