(* ===== verification/QueryCache.thy ===== *)
theory QueryCache
  imports OrdMap
begin

text \<open>
  The cache of SELECT results (\<^verbatim>\<open>core/src/engine/query_cache.cpp\<close>). Every operation holds the mutex of the cache, so a history is a
  sequence of operations. The containers are association lists (theory \<open>OrdMap\<close>); the order in which \<^verbatim>\<open>put\<close> walks the ticks does not matter,
  since no two keys have the same tick.

  An entry carries the generations its tables had when the query read them; \<^verbatim>\<open>invalidate_table\<close> counts a table's generation up. What is
  proved is that a hit is never stale: no table of the entry was invalidated since its generation was captured.
\<close>

section \<open>The cache\<close>

record CacheEntry =
  ce_result :: string
  ce_table_gens :: "(string \<times> u64) list"

record QueryResultCache =
  qc_capacity :: nat
  qc_entries :: "(string \<times> CacheEntry) list"
  qc_table_to_keys :: "(string \<times> string list) list"
  qc_insert_order :: "(string \<times> u64) list"
  qc_table_generation :: "(string \<times> u64) list"
  qc_tick :: u64

definition new_cache :: "nat \<Rightarrow> QueryResultCache" where
  "new_cache capacity = \<lparr>qc_capacity = capacity, qc_entries = [], qc_table_to_keys = [], qc_insert_order = [], qc_table_generation = [], qc_tick = 0\<rparr>"

definition table_generation :: "QueryResultCache \<Rightarrow> string \<Rightarrow> u64" where
  "table_generation c table = (case map_of (qc_table_generation c) table of Some g \<Rightarrow> g | None \<Rightarrow> 0)"

text \<open>What \<^verbatim>\<open>get\<close> and \<^verbatim>\<open>put\<close> do to evict a key.\<close>

definition evict_key :: "string \<Rightarrow> QueryResultCache \<Rightarrow> QueryResultCache" where
  "evict_key key c = c\<lparr>qc_entries := om_erase key (qc_entries c), qc_insert_order := om_erase key (qc_insert_order c),
     qc_table_to_keys := map (\<lambda>(t, keys). (t, filter (\<lambda>k. k \<noteq> key) keys)) (qc_table_to_keys c)\<rparr>"

definition cache_get :: "string \<Rightarrow> QueryResultCache \<Rightarrow> string option \<times> QueryResultCache" where
  "cache_get key c =
     (case map_of (qc_entries c) key of
        None \<Rightarrow> (None, c)
      | Some e \<Rightarrow>
          if list_ex (\<lambda>(table, gen). table_generation c table \<noteq> gen) (ce_table_gens e) then (None, evict_key key c)
          else (Some (ce_result e), c))"

fun oldest_key :: "(string \<times> u64) list \<Rightarrow> (string \<times> u64) option \<Rightarrow> (string \<times> u64) option" where
  "oldest_key [] best = best"
| "oldest_key ((k, t) # m) best =
     (case best of
        None \<Rightarrow> oldest_key m (Some (k, t))
      | Some (bk, bt) \<Rightarrow> oldest_key m (Some (if t < bt then (k, t) else (bk, bt))))"

definition keys_of_table :: "QueryResultCache \<Rightarrow> string \<Rightarrow> string list" where
  "keys_of_table c table = (case map_of (qc_table_to_keys c) table of Some ks \<Rightarrow> ks | None \<Rightarrow> [])"

definition add_table_key :: "string \<Rightarrow> string \<Rightarrow> QueryResultCache \<Rightarrow> QueryResultCache" where
  "add_table_key key table c = c\<lparr>qc_table_to_keys := om_set table (set_insert key (keys_of_table c table)) (qc_table_to_keys c)\<rparr>"

definition cache_put :: "string \<Rightarrow> string \<Rightarrow> (string \<times> u64) list \<Rightarrow> QueryResultCache \<Rightarrow> QueryResultCache" where
  "cache_put key result table_gens c =
     (if map_of (qc_entries c) key \<noteq> None then c
      else
        let c = (if length (qc_entries c) \<ge> qc_capacity c
                 then (case oldest_key (qc_insert_order c) None of None \<Rightarrow> c | Some (k, t) \<Rightarrow> evict_key k c) else c);
            c = c\<lparr>qc_tick := qc_tick c + 1\<rparr>;
            c = fold (\<lambda>(table, gen). add_table_key key table) table_gens c in
        c\<lparr>qc_insert_order := om_set key (qc_tick c) (qc_insert_order c),
          qc_entries := om_set key \<lparr>ce_result = result, ce_table_gens = table_gens\<rparr> (qc_entries c)\<rparr>)"

definition invalidate_table :: "string \<Rightarrow> QueryResultCache \<Rightarrow> QueryResultCache" where
  "invalidate_table table c0 =
     (let c = c0\<lparr>qc_table_generation := om_set table (table_generation c0 table + 1) (qc_table_generation c0)\<rparr> in
      case map_of (qc_table_to_keys c) table of
        None \<Rightarrow> c
      | Some keys \<Rightarrow>
          c\<lparr>qc_entries := fold om_erase keys (qc_entries c), qc_insert_order := fold om_erase keys (qc_insert_order c),
            qc_table_to_keys := om_erase table (qc_table_to_keys c)\<rparr>)"

definition cache_clear :: "QueryResultCache \<Rightarrow> QueryResultCache" where
  "cache_clear c = c\<lparr>qc_entries := [], qc_table_to_keys := [], qc_insert_order := [], qc_tick := 0\<rparr>"

definition cache_len :: "QueryResultCache \<Rightarrow> nat" where
  "cache_len c = length (qc_entries c)"

section \<open>Histories\<close>

datatype cache_op = Get string | Put string string "(string \<times> u64) list" | Invalidate string | Clear

fun cache_step :: "cache_op \<Rightarrow> QueryResultCache \<Rightarrow> QueryResultCache" where
  "cache_step (Get key) c = snd (cache_get key c)"
| "cache_step (Put key result gens) c = cache_put key result gens c"
| "cache_step (Invalidate table) c = invalidate_table table c"
| "cache_step Clear c = cache_clear c"

definition run_cache :: "nat \<Rightarrow> cache_op list \<Rightarrow> QueryResultCache" where
  "run_cache capacity ops = fold cache_step ops (new_cache capacity)"

lemma run_cache_Nil [simp]: "run_cache capacity [] = new_cache capacity"
  by (simp add: run_cache_def)

lemma run_cache_snoc [simp]: "run_cache capacity (ops @ [op]) = cache_step op (run_cache capacity ops)"
  by (simp add: run_cache_def)

section \<open>Generations\<close>

lemma fold_add_table_key [simp]:
  "qc_entries (fold (\<lambda>(table, gen). add_table_key key table) gs c) = qc_entries c"
  "qc_insert_order (fold (\<lambda>(table, gen). add_table_key key table) gs c) = qc_insert_order c"
  "qc_table_generation (fold (\<lambda>(table, gen). add_table_key key table) gs c) = qc_table_generation c"
  "qc_capacity (fold (\<lambda>(table, gen). add_table_key key table) gs c) = qc_capacity c"
  "qc_tick (fold (\<lambda>(table, gen). add_table_key key table) gs c) = qc_tick c"
  by (induction gs arbitrary: c) (auto simp: add_table_key_def)

lemma evict_key_simps [simp]:
  "qc_entries (evict_key k c) = om_erase k (qc_entries c)"
  "qc_insert_order (evict_key k c) = om_erase k (qc_insert_order c)"
  "qc_table_generation (evict_key k c) = qc_table_generation c"
  "qc_capacity (evict_key k c) = qc_capacity c"
  "qc_tick (evict_key k c) = qc_tick c"
  by (simp_all add: evict_key_def)

lemma generation_step:
  "table_generation (cache_step op c) t = table_generation c t + (if op = Invalidate t then 1 else 0)"
  by (cases op) (auto simp: table_generation_def cache_get_def cache_put_def cache_clear_def invalidate_table_def Let_def
      split: option.splits if_splits)

definition invalidations :: "string \<Rightarrow> cache_op list \<Rightarrow> nat" where
  "invalidations t ops = length (filter (\<lambda>op. op = Invalidate t) ops)"

lemma generation_run: "table_generation (run_cache capacity ops) t = word_of_nat (invalidations t ops)"
  by (induction ops rule: rev_induct)
    (auto simp: generation_step invalidations_def, auto simp: table_generation_def new_cache_def)

lemma generation_unchanged:
  assumes "table_generation (run_cache capacity (p @ q)) t = table_generation (run_cache capacity p) t" "length (p @ q) < 2 ^ 64"
  shows "Invalidate t \<notin> set q"
proof -
  have le: "invalidations t (p @ q) \<le> length (p @ q)" "invalidations t p \<le> length p"
    unfolding invalidations_def by (rule length_filter_le)+
  then have "invalidations t (p @ q) = invalidations t p"
    using assms unfolding generation_run by (simp add: word_of_nat_eq_iff take_bit_nat_eq_self)
  then have "filter (\<lambda>op. op = Invalidate t) q = []"
    by (simp add: invalidations_def)
  then show ?thesis
    by (auto simp: filter_empty_conv)
qed

section \<open>Entries\<close>

lemma map_of_fold_om_erase: "map_of (fold om_erase ks m) k = (if k \<in> set ks then None else map_of m k)"
  by (induction ks arbitrary: m) auto

lemma entry_step:
  assumes "map_of (qc_entries (cache_step op c)) k = Some e"
  shows "map_of (qc_entries c) k = Some e \<or> op = Put k (ce_result e) (ce_table_gens e)"
proof (cases op)
  case (Put key r gs)
  then show ?thesis
    using assms by (auto simp: cache_put_def Let_def split: if_splits option.splits)
qed (use assms in \<open>auto simp: cache_get_def cache_clear_def invalidate_table_def Let_def map_of_fold_om_erase
    split: if_splits option.splits\<close>)

lemma entry_origin:
  "map_of (qc_entries (run_cache capacity ops)) k = Some e \<Longrightarrow>
   \<exists>pre post. ops = pre @ Put k (ce_result e) (ce_table_gens e) # post"
proof (induction ops rule: rev_induct)
  case (snoc op ops)
  from entry_step [OF snoc.prems [unfolded run_cache_snoc]] show ?case
    using snoc.IH by (metis append.assoc append_Cons)
qed (simp add: new_cache_def)

text \<open>A key has a tick exactly when it has an entry, and the cache does not grow over its capacity (but for a capacity of 0).\<close>

definition cache_ok :: "QueryResultCache \<Rightarrow> bool" where
  "cache_ok c \<longleftrightarrow> om_wf (qc_entries c) \<and> om_wf (qc_insert_order c) \<and> fst ` set (qc_insert_order c) = fst ` set (qc_entries c)
     \<and> length (qc_entries c) \<le> max 1 (qc_capacity c)"

lemma oldest_key_in:
  "oldest_key m best = Some kt \<Longrightarrow> kt \<in> set m \<or> best = Some kt"
proof (induction m arbitrary: best)
  case (Cons a m)
  then show ?case
    by (cases a; cases best) (fastforce split: if_splits)+
qed simp

lemma oldest_key_None: "oldest_key m best = None \<longleftrightarrow> m = [] \<and> best = None"
  by (induction m best rule: oldest_key.induct) (auto split: option.splits)

lemma oldest_key_least:
  "oldest_key m best = Some (k, t) \<Longrightarrow> (\<forall>(k', t') \<in> set m. t \<le> t') \<and> (\<forall>bk bt. best = Some (bk, bt) \<longrightarrow> t \<le> bt)"
proof (induction m best arbitrary: k t rule: oldest_key.induct)
  case (2 k' t' m best)
  then show ?case
    by (cases best) (fastforce split: if_splits)+
qed auto

lemma cache_ok_evict: "cache_ok c \<Longrightarrow> cache_ok (evict_key k c)"
proof -
  assume c: "cache_ok c"
  have "length (om_erase k (qc_entries c)) \<le> length (qc_entries c)"
    by (simp add: om_erase_def)
  then show ?thesis
    using c unfolding cache_ok_def by (auto simp: om_wf_om_erase fst_om_erase)
qed

lemma fold_om_erase_wf: "om_wf m \<Longrightarrow> om_wf (fold om_erase ks m) \<and> fst ` set (fold om_erase ks m) = fst ` set m - set ks \<and> length (fold om_erase ks m) \<le> length m"
proof (induction ks arbitrary: m)
  case (Cons k ks)
  have "length (om_erase k m) \<le> length m"
    by (simp add: om_erase_def)
  then show ?case
    using Cons.IH [OF om_wf_om_erase [OF Cons.prems, of k]] fst_om_erase [of k m] by (auto intro: le_trans)
qed simp


lemma cache_ok_put:
  assumes c: "cache_ok c"
  shows "cache_ok (cache_put key r gs c)"
proof (cases "map_of (qc_entries c) key")
  case None
  define c1 where "c1 = (if length (qc_entries c) \<ge> qc_capacity c
    then (case oldest_key (qc_insert_order c) None of None \<Rightarrow> c | Some (k, t) \<Rightarrow> evict_key k c) else c)"
  have ok: "cache_ok c1" and cap: "qc_capacity c1 = qc_capacity c"
    using c cache_ok_evict by (auto simp: c1_def split: option.splits)
  have len: "length (qc_entries c1) < max 1 (qc_capacity c)"
  proof (cases "length (qc_entries c) \<ge> qc_capacity c")
    case True
    show ?thesis
    proof (cases "oldest_key (qc_insert_order c) None")
      case None
      then have "qc_entries c = []"
        using c by (auto simp: oldest_key_None cache_ok_def)
      then show ?thesis
        using None True by (simp add: c1_def)
    next
      case (Some kt)
      then have "fst kt \<in> fst ` set (qc_entries c)"
        using c oldest_key_in [OF Some] by (auto simp: cache_ok_def)
      then have "length (qc_entries c) = Suc (length (om_erase (fst kt) (qc_entries c)))"
        using c by (intro length_om_erase) (simp_all add: cache_ok_def)
      then have "length (qc_entries c) = Suc (length (qc_entries c1))"
        using Some True by (simp add: c1_def split: prod.splits)
      then show ?thesis
        using c by (auto simp: cache_ok_def)
    qed
  qed (use c in \<open>auto simp: c1_def\<close>)
  have "cache_put key r gs c =
    (let c2 = fold (\<lambda>(table, gen). add_table_key key table) gs (c1\<lparr>qc_tick := qc_tick c1 + 1\<rparr>) in
     c2\<lparr>qc_insert_order := om_set key (qc_tick c2) (qc_insert_order c2),
        qc_entries := om_set key \<lparr>ce_result = r, ce_table_gens = gs\<rparr> (qc_entries c2)\<rparr>)"
    using None unfolding cache_put_def c1_def by (simp add: Let_def)
  then show ?thesis
    using ok len cap length_om_set [of key "\<lparr>ce_result = r, ce_table_gens = gs\<rparr>" "qc_entries c1"]
    by (auto simp: cache_ok_def Let_def om_wf_om_set fst_set_om_set)
qed (use c in \<open>simp add: cache_put_def\<close>)

lemma cache_ok_step: "cache_ok c \<Longrightarrow> cache_ok (cache_step op c)"
proof (cases op)
  case (Get k)
  assume "cache_ok c"
  then show ?thesis
    using Get cache_ok_evict by (auto simp: cache_get_def split: option.splits)
next
  case (Invalidate t)
  assume c: "cache_ok c"
  then have "om_wf (qc_entries c)" "om_wf (qc_insert_order c)"
    by (simp_all add: cache_ok_def)
  note erase = fold_om_erase_wf [OF this(1)] fold_om_erase_wf [OF this(2)]
  show ?thesis
  proof (cases "map_of (qc_table_to_keys c) t")
    case None
    then show ?thesis
      using Invalidate c by (simp add: cache_ok_def invalidate_table_def)
  next
    case (Some keys)
    then show ?thesis
      using Invalidate c erase(1) [of keys] erase(2) [of keys] by (simp add: cache_ok_def invalidate_table_def)
  qed
qed (auto simp: cache_ok_put, auto simp: cache_ok_def cache_clear_def)

lemma cache_ok_run: "cache_ok (run_cache capacity ops) \<and> qc_capacity (run_cache capacity ops) = capacity"
proof (induction ops rule: rev_induct)
  case (snoc op ops)
  have "qc_capacity (cache_step op c) = qc_capacity c" for c
    by (cases op) (auto simp: cache_get_def cache_put_def cache_clear_def invalidate_table_def Let_def split: option.splits)
  then show ?case
    using snoc cache_ok_step by simp
qed (simp add: cache_ok_def new_cache_def)

section \<open>Properties\<close>

text \<open>
  C23: A hit is never stale. Whatever operations have run (fewer than \<open>2 ^ 64\<close>), when a lookup answers a result, that result was put under this
  key with generations of its tables, and no table of it was invalidated since any moment at which it had that generation: in
  particular not since the query captured it.
\<close>

theorem cache_hit_current:
  assumes "fst (cache_get k (run_cache capacity ops)) = Some r" "length ops < 2 ^ 64"
  shows "\<exists>gens pre post. ops = pre @ Put k r gens # post
    \<and> (\<forall>(t, g) \<in> set gens. \<forall>p q. ops = p @ q \<and> table_generation (run_cache capacity p) t = g \<longrightarrow> Invalidate t \<notin> set q)"
proof -
  obtain e where e: "map_of (qc_entries (run_cache capacity ops)) k = Some e" "r = ce_result e"
    and gens: "\<forall>(t, g) \<in> set (ce_table_gens e). table_generation (run_cache capacity ops) t = g"
    using assms(1) by (auto simp: cache_get_def list_ex_iff split: option.splits if_splits)
  obtain pre post where "ops = pre @ Put k r (ce_table_gens e) # post"
    using entry_origin [OF e(1)] e(2) by blast
  moreover have "Invalidate t \<notin> set q" if "(t, g) \<in> set (ce_table_gens e)" "ops = p @ q" "table_generation (run_cache capacity p) t = g" for t g p q
    using generation_unchanged [of capacity p q t] gens that assms(2) by auto
  ultimately show ?thesis
    by blast
qed

theorem cache_hit_current_witness:
  "fst (cache_get ''q'' (run_cache 2 [Invalidate ''u'', Put ''q'' ''rows'' [(''t'', 0)], Invalidate ''u''])) = Some ''rows''
    \<and> Invalidate ''t'' \<notin> set [Invalidate ''u'', Put ''q'' ''rows'' [(''t'', 0)], Invalidate ''u'']"
proof -
  let ?ops = "[Invalidate ''u'', Put ''q'' ''rows'' [(''t'', 0)], Invalidate ''u'']"
  have hit: "fst (cache_get ''q'' (run_cache 2 ?ops)) = Some ''rows''"
    by (simp add: run_cache_def new_cache_def cache_put_def invalidate_table_def cache_get_def table_generation_def add_table_key_def keys_of_table_def
        Let_def om_erase_def set_insert_def)
  have "\<exists>gens pre post. ?ops = pre @ Put ''q'' ''rows'' gens # post
    \<and> (\<forall>(t, g) \<in> set gens. \<forall>p q. ?ops = p @ q \<and> table_generation (run_cache 2 p) t = g \<longrightarrow> Invalidate t \<notin> set q)"
    by (rule cache_hit_current [OF hit]) simp
  then show ?thesis
    using hit by simp
qed

text \<open>
  The cache keeps its bookkeeping and its bound: every key with an entry has a tick and the other way round, and there are never more
  entries than the capacity (one, for a capacity of 0).
\<close>

theorem cache_bounded:
  "cache_ok (run_cache capacity ops) \<and> cache_len (run_cache capacity ops) \<le> max 1 capacity"
  using cache_ok_run [of capacity ops] by (auto simp: cache_ok_def cache_len_def)

end
