(* ===== verification/TableFile.thy ===== *)
theory TableFile
  imports Codec FileIo RowJson
begin

text \<open>
  Table files (\<^verbatim>\<open>core/src/storage/disk.cpp\<close>: \<^verbatim>\<open>save_table\<close>, \<^verbatim>\<open>load_rdb\<close>, \<^verbatim>\<open>load_table\<close>, \<^verbatim>\<open>delete_table\<close>): the rows
  of a table as length-prefixed JSON texts, compressed, behind the 32-byte page header, written by \<^verbatim>\<open>write_bytes_atomic\<close>. This theory puts
  together the binary codec, the JSON texts of rows and the atomic replacement of files.

  LZ4 and the JSON library are arguments (record \<open>disk_codec\<close>): \<open>lz4_compress\<close> gives the bytes \<^verbatim>\<open>LZ4_compress_default\<close> writes (none when it
  returns 0), \<open>lz4_decompress\<close> what \<^verbatim>\<open>LZ4_decompress_safe\<close> writes into a buffer of the given size (\<^const>\<open>None\<close> when it returns a
  negative number). Directories are not modelled: a file whose directory cannot be created cannot be opened.
\<close>

section \<open>Definitions\<close>

record disk_codec =
  data_dir :: string
  lz4_compress :: "byte list \<Rightarrow> byte list"
  lz4_decompress :: "byte list \<Rightarrow> nat \<Rightarrow> byte list option"
  json_dump :: "string \<Rightarrow> string option"
  json_parse_row :: "string \<Rightarrow> row option"
  json_parse_rows :: "string \<Rightarrow> row list option"

datatype disk_error = RowNotJson | DiskIo io_error

type_synonym files = "string \<rightharpoonup> byte list"

definition PAGE_SIZE :: nat where "PAGE_SIZE = 16384"

definition lz4_compress_prepend_size :: "disk_codec \<Rightarrow> byte list \<Rightarrow> byte list" where
  "lz4_compress_prepend_size C raw = push_u32_le (word_of_nat (length raw)) @ lz4_compress C raw"

definition lz4_decompress_size_prepended :: "disk_codec \<Rightarrow> byte list \<Rightarrow> byte list option" where
  "lz4_decompress_size_prepended C data =
     (if length data < 4 then None
      else
        let orig_size = unat (read_le32 data 0) in
        if orig_size = 0 then Some []
        else case lz4_decompress C (drop 4 data) orig_size of
            None \<Rightarrow> None
          | Some out \<Rightarrow> if length out \<noteq> orig_size then None else Some out)"

definition read_file_bytes :: "io_env \<Rightarrow> string \<Rightarrow> files \<Rightarrow> byte list option" where
  "read_file_bytes env path fs = (if env_read_ok env then fs path else None)"

definition parse_key :: "string \<Rightarrow> string \<times> string" where
  "parse_key key =
     (if CHR ''.'' \<in> set key
      then (takeWhile (\<lambda>c. c \<noteq> CHR ''.'') key, tl (dropWhile (\<lambda>c. c \<noteq> CHR ''.'') key))
      else (''rusql'', key))"

definition table_dir :: "disk_codec \<Rightarrow> string \<Rightarrow> string" where
  "table_dir C db = data_dir C @ ''/'' @ db"

definition table_path :: "disk_codec \<Rightarrow> string \<Rightarrow> string" where
  "table_path C table = (let (db, tbl) = parse_key table in table_dir C db @ ''/'' @ tbl @ ''.rdb'')"

fun rows_bytes :: "(string \<Rightarrow> string option) \<Rightarrow> row list \<Rightarrow> byte list option" where
  "rows_bytes dump [] = Some []"
| "rows_bytes dump (row # rows) =
     (case row_to_json dump row of
        None \<Rightarrow> None
      | Some json \<Rightarrow> map_option (\<lambda>bs. put_string json @ bs) (rows_bytes dump rows))"

definition table_bytes :: "nat \<Rightarrow> byte list \<Rightarrow> byte list" where
  "table_bytes count compressed =
     to_bytes (make_header\<lparr>row_count := word_of_nat count, flags := FLAG_COMPRESSED,
       page_count := word_of_nat (max ((length compressed + PAGE_SIZE - 1) div PAGE_SIZE) 1)\<rparr>) @ compressed"

definition save_table :: "disk_codec \<Rightarrow> io_env \<Rightarrow> string \<Rightarrow> row list \<Rightarrow> files \<Rightarrow> disk_error option \<times> files" where
  "save_table C env table rows fs =
     (case rows_bytes (json_dump C) rows of
        None \<Rightarrow> (Some RowNotJson, fs)
      | Some raw \<Rightarrow>
          (case write_bytes_atomic env (table_path C table) (table_bytes (length rows) (lz4_compress_prepend_size C raw)) fs of
             (err, fs') \<Rightarrow> (map_option DiskIo err, fs')))"

text \<open>The loop over the rows: at most \<open>n\<close> of them, from \<open>pos\<close> on; a row that does not parse is left out.\<close>

fun read_row_texts :: "(string \<Rightarrow> row option) \<Rightarrow> nat \<Rightarrow> byte list \<Rightarrow> nat \<Rightarrow> row list" where
  "read_row_texts parse 0 raw pos = []"
| "read_row_texts parse (Suc n) raw pos =
     (case read_string raw pos of
        None \<Rightarrow> []
      | Some (json, pos') \<Rightarrow>
          (case row_from_json parse json of None \<Rightarrow> [] | Some row \<Rightarrow> [row]) @ read_row_texts parse n raw pos')"

definition load_rdb :: "disk_codec \<Rightarrow> io_env \<Rightarrow> string \<Rightarrow> files \<Rightarrow> row list" where
  "load_rdb C env path fs =
     (case read_file_bytes env path fs of
        None \<Rightarrow> []
      | Some buf \<Rightarrow>
          if length buf < 32 then []
          else case from_bytes (take 32 buf) of
              None \<Rightarrow> []
            | Some header \<Rightarrow>
                (case (if is_compressed header then lz4_decompress_size_prepended C (drop 32 buf) else Some (drop 32 buf)) of
                   None \<Rightarrow> []
                 | Some raw \<Rightarrow> read_row_texts (json_parse_row C) (unat (row_count header)) raw 0))"

definition load_table :: "disk_codec \<Rightarrow> io_env \<Rightarrow> string \<Rightarrow> files \<Rightarrow> row list" where
  "load_table C env table fs =
     (let (db, tbl) = parse_key table;
          flat_rdb = data_dir C @ ''/'' @ tbl @ ''.rdb''; flat_json = data_dir C @ ''/'' @ tbl @ ''.json'' in
      if fs (table_path C table) \<noteq> None then load_rdb C env (table_path C table) fs
      else if db = ''rusql'' then
        if fs flat_rdb \<noteq> None then load_rdb C env flat_rdb fs
        else case fs flat_json of
            None \<Rightarrow> []
          | Some bs \<Rightarrow>
              let content = (if env_read_ok env then string_of bs else []) in
              (case rows_from_json (json_parse_rows C) content of None \<Rightarrow> [] | Some rows \<Rightarrow> rows)
      else [])"

definition delete_table :: "disk_codec \<Rightarrow> io_env \<Rightarrow> string \<Rightarrow> files \<Rightarrow> files" where
  "delete_table C env table fs =
     (let (db, tbl) = parse_key table;
          remove_all = (\<lambda>dir. remove_file env (dir @ ''/'' @ tbl @ ''.schema.json'') \<circ> remove_file env (dir @ ''/'' @ tbl @ ''.json'')
            \<circ> remove_file env (dir @ ''/'' @ tbl @ ''.rdb''));
          fs' = remove_all (table_dir C db) fs in
      if db = ''rusql'' then remove_all (data_dir C) fs' else fs')"

section \<open>Rows\<close>

text \<open>What is assumed of the rows: they are maps of UTF-8 texts whose JSON is shorter than 4 GB, as the length prefix needs.\<close>

definition storable_row :: "(string \<Rightarrow> string option) \<Rightarrow> row \<Rightarrow> bool" where
  "storable_row dump row \<longleftrightarrow> row_wf row \<and> utf8_row row \<and> (case row_to_json dump row of None \<Rightarrow> False | Some t \<Rightarrow> length t < 2 ^ 32)"

lemma storable_rowD:
  assumes "storable_row dump row"
  obtains t where "row_to_json dump row = Some t" "length t < 2 ^ 32" "row_from_json parse t = Some row"
  using assms row_json_text [of row dump parse] by (auto simp: storable_row_def split: option.splits)

lemma read_row_texts_bytes:
  assumes "list_all (storable_row dump) rows" "rows_bytes dump rows = Some bs"
  shows "read_row_texts parse (length rows) (pre @ bs) (length pre) = rows"
  using assms
proof (induction rows arbitrary: pre bs)
  case (Cons row rows)
  from Cons.prems(1) have "storable_row dump row"
    by simp
  then obtain t where t: "row_to_json dump row = Some t" "length t < 2 ^ 32" "row_from_json parse t = Some row"
    by (rule storable_rowD)
  obtain bs' where bs: "rows_bytes dump rows = Some bs'" "bs = put_string t @ bs'"
    using Cons.prems(2) t by auto
  have "read_string (pre @ bs) (length pre) = Some (t, length (pre @ put_string t))"
    using read_put_string [OF t(2), of pre bs'] bs by (simp add: add.assoc)
  moreover have "read_row_texts parse (length rows) (pre @ bs) (length (pre @ put_string t)) = rows"
    using Cons.IH [of bs' "pre @ put_string t"] Cons.prems(1) bs by simp
  ultimately show ?case
    using t by simp
qed simp

section \<open>Files\<close>

text \<open>What is assumed of LZ4: blocks up to its documented limit come back as they were.\<close>

definition LZ4_MAX_INPUT_SIZE :: nat where "LZ4_MAX_INPUT_SIZE = 0x7E000000"

definition lz4_ok :: "disk_codec \<Rightarrow> bool" where
  "lz4_ok C \<longleftrightarrow> (\<forall>raw. length raw \<le> LZ4_MAX_INPUT_SIZE \<longrightarrow> lz4_decompress C (lz4_compress C raw) (length raw) = Some raw)"

lemma lz4_size_prefix: "read_le32 (push_u32_le v @ bs) 0 = v"
  by (rule read_le32_at [where pre = "[]"]) simp_all

lemma lz4_prepended:
  assumes "length raw < 2 ^ 32"
  shows "lz4_decompress_size_prepended C (lz4_compress_prepend_size C raw) =
    (if raw = [] then Some []
     else case lz4_decompress C (lz4_compress C raw) (length raw) of
         None \<Rightarrow> None | Some out \<Rightarrow> if length out \<noteq> length raw then None else Some out)"
proof -
  have n: "unat (word_of_nat (length raw) :: u32) = length raw"
    using assms by (rule unat_u32)
  show ?thesis
    unfolding lz4_decompress_size_prepended_def lz4_compress_prepend_size_def Let_def lz4_size_prefix n by simp
qed

lemma table_bytes_header:
  "length (table_bytes n compressed) = 32 + length compressed"
  "drop 32 (table_bytes n compressed) = compressed"
  "from_bytes (take 32 (table_bytes n compressed)) =
     Some (make_header\<lparr>row_count := word_of_nat n, flags := FLAG_COMPRESSED,
       page_count := word_of_nat (max ((length compressed + PAGE_SIZE - 1) div PAGE_SIZE) 1)\<rparr>)"
  using page_header_roundtrip [where rest = "[]"] by (simp_all add: table_bytes_def make_header_def)

lemma load_saved:
  assumes "length rows < 2 ^ 32" "env_read_ok env"
    and "fs path = Some (table_bytes (length rows) (lz4_compress_prepend_size C raw))"
  shows "load_rdb C env path fs =
    (case lz4_decompress_size_prepended C (lz4_compress_prepend_size C raw) of
       None \<Rightarrow> [] | Some raw' \<Rightarrow> read_row_texts (json_parse_row C) (length rows) raw' 0)"
proof -
  have n: "unat (word_of_nat (length rows) :: u32) = length rows"
    using assms(1) by (rule unat_u32)
  show ?thesis
    using assms(2,3)
    by (cases "lz4_decompress_size_prepended C (lz4_compress_prepend_size C raw)")
      (simp_all add: load_rdb_def read_file_bytes_def table_bytes_header is_compressed_def FLAG_COMPRESSED_def make_header_def n)
qed

lemma save_table_file:
  assumes "save_table C env table rows fs = (None, fs')" "rows_bytes (json_dump C) rows = Some raw"
  shows "fs' (table_path C table) = Some (table_bytes (length rows) (lz4_compress_prepend_size C raw))"
  using assms write_bytes_atomic_path
  by (fastforce simp: save_table_def split: option.splits prod.splits)

lemma save_table_failed:
  assumes "save_table C env table rows fs = (Some err, fs')" "p \<noteq> table_path C table @ ''.tmp''"
  shows "fs' p = fs p"
  using assms
  by (auto simp: save_table_def write_bytes_atomic_def Let_def split: option.splits prod.splits if_splits)

lemma append_neq: "last xs \<noteq> last ys \<Longrightarrow> xs \<noteq> [] \<Longrightarrow> ys \<noteq> [] \<Longrightarrow> a @ xs \<noteq> b @ ys"
  by (metis last_append)

lemma tmp_not_read:
  "data_dir C @ ''/'' @ tbl @ ''.rdb'' \<noteq> p @ ''.tmp''" "data_dir C @ ''/'' @ tbl @ ''.json'' \<noteq> p @ ''.tmp''"
  "table_path C table \<noteq> p @ ''.tmp''"
proof -
  have "(data_dir C @ ''/'' @ tbl) @ ''.rdb'' \<noteq> p @ ''.tmp''" "(data_dir C @ ''/'' @ tbl) @ ''.json'' \<noteq> p @ ''.tmp''"
    by (rule append_neq; simp)+
  then show "data_dir C @ ''/'' @ tbl @ ''.rdb'' \<noteq> p @ ''.tmp''" "data_dir C @ ''/'' @ tbl @ ''.json'' \<noteq> p @ ''.tmp''"
    by simp_all
  obtain db tb where k: "parse_key table = (db, tb)"
    by fastforce
  have "(table_dir C db @ ''/'' @ tb) @ ''.rdb'' \<noteq> p @ ''.tmp''"
    by (rule append_neq; simp)
  then show "table_path C table \<noteq> p @ ''.tmp''"
    by (simp add: table_path_def k)
qed

lemma load_table_cong:
  assumes "\<And>p. (\<forall>q. p \<noteq> q @ ''.tmp'') \<Longrightarrow> fs' p = fs p"
  shows "load_table C env table fs' = load_table C env table fs"
proof -
  have eq: "fs' (table_path C table) = fs (table_path C table)"
    "fs' (data_dir C @ ''/'' @ tbl @ ''.rdb'') = fs (data_dir C @ ''/'' @ tbl @ ''.rdb'')"
    "fs' (data_dir C @ ''/'' @ tbl @ ''.json'') = fs (data_dir C @ ''/'' @ tbl @ ''.json'')" for tbl
    using tmp_not_read assms by blast+
  then have "load_rdb C env (table_path C table) fs' = load_rdb C env (table_path C table) fs"
    "load_rdb C env (data_dir C @ ''/'' @ tbl @ ''.rdb'') fs' = load_rdb C env (data_dir C @ ''/'' @ tbl @ ''.rdb'') fs" for tbl
    by (simp_all only: load_rdb_def read_file_bytes_def)
  then show ?thesis
    unfolding load_table_def Let_def by (simp only: eq split: prod.split)
qed

lemma load_table_saved:
  assumes "rows_bytes (json_dump C) rows = Some raw" "length rows < 2 ^ 32" "env_read_ok env"
    and "fs (table_path C table) = Some (table_bytes (length rows) (lz4_compress_prepend_size C raw))"
  shows "load_table C env table fs =
    (case lz4_decompress_size_prepended C (lz4_compress_prepend_size C raw) of
       None \<Rightarrow> [] | Some raw' \<Rightarrow> read_row_texts (json_parse_row C) (length rows) raw' 0)"
proof -
  have "load_table C env table fs = load_rdb C env (table_path C table) fs"
    using assms(4) by (simp add: load_table_def split: prod.split)
  then show ?thesis
    using load_saved [of rows env fs "table_path C table" C raw, OF assms(2-4)] by simp
qed

lemma saved_rows_load:
  assumes "list_all (storable_row (json_dump C)) rows" "length rows < 2 ^ 32"
    and "rows_bytes (json_dump C) rows = Some raw" "length raw \<le> LZ4_MAX_INPUT_SIZE" "lz4_ok C"
    and "save_table C env table rows fs = (None, fs')" "env_read_ok env'"
  shows "load_table C env' table fs' = rows"
proof -
  have "fs' (table_path C table) = Some (table_bytes (length rows) (lz4_compress_prepend_size C raw))"
    by (rule save_table_file [OF assms(6,3)])
  note load = load_table_saved [of C rows raw env' fs' table, OF assms(3,2,7) this]
  have "lz4_decompress_size_prepended C (lz4_compress_prepend_size C raw) = Some raw"
    using assms(4,5) by (subst lz4_prepended) (auto simp: lz4_ok_def LZ4_MAX_INPUT_SIZE_def)
  then show ?thesis
    using load read_row_texts_bytes [OF assms(1,3), of _ "[]"] by simp
qed

section \<open>Properties\<close>

text \<open>
  C24: What \<^verbatim>\<open>save_table\<close> has written, \<^verbatim>\<open>load_table\<close> reads back: for rows of UTF-8 texts, fewer than \<open>2 ^ 32\<close> of them, whose encoding stays
  within the block size LZ4 documents, a save that returns normally makes a later load give exactly these rows in their order,
  whatever was in the files before.
\<close>

theorem table_file_roundtrip:
  assumes "list_all (storable_row (json_dump C)) rows" "length rows < 2 ^ 32"
    and "rows_bytes (json_dump C) rows = Some raw" "length raw \<le> LZ4_MAX_INPUT_SIZE" "lz4_ok C"
    and "save_table C env table rows fs = (None, fs')" "env_read_ok env'"
  shows "load_table C env' table fs' = rows"
  using assms by (rule saved_rows_load)

text \<open>LZ4 with blocks stored as they are, and the row \<open>{"a": "1"}\<close>.\<close>

definition plain_codec :: disk_codec where
  "plain_codec = \<lparr>data_dir = ''data'', lz4_compress = (\<lambda>bs. if length bs \<le> LZ4_MAX_INPUT_SIZE then 0 # bs else []),
     lz4_decompress = (\<lambda>bs n. case bs of [] \<Rightarrow> None | _ # out \<Rightarrow> if length out \<le> n then Some out else None), json_dump = (\<lambda>_. None),
     json_parse_row = (\<lambda>_. None), json_parse_rows = (\<lambda>_. None)\<rparr>"

definition small_row :: row where "small_row = [(''a'', ''1'')]"

lemma small_row_json:
  "row_to_json (\<lambda>_. None) small_row =
    Some [CHR 0x7B, CHR 0x22, CHR ''a'', CHR 0x22, CHR 0x3A, CHR 0x22, CHR ''1'', CHR 0x22, CHR 0x7D]"
  by code_simp

lemma small_row_storable: "storable_row (\<lambda>_. None) small_row"
proof -
  have "row_wf small_row" "utf8_row small_row"
    by code_simp+
  then show ?thesis
    by (simp add: storable_row_def small_row_json)
qed

lemma plain_codec_ok: "lz4_ok plain_codec"
  by (simp add: lz4_ok_def plain_codec_def)

lemma save_table_env_ok:
  assumes "rows_bytes (json_dump C) rows = Some raw"
  shows "save_table C env_ok table rows fs = (None, snd (save_table C env_ok table rows fs))"
  using assms by (simp add: save_table_def write_bytes_atomic_def env_ok_def)

theorem table_file_roundtrip_witness:
  "load_table plain_codec env_ok ''db.t'' (snd (save_table plain_codec env_ok ''db.t'' [small_row, small_row] Map.empty)) = [small_row, small_row]"
proof -
  obtain t where t: "row_to_json (\<lambda>_. None) small_row = Some t" "length (put_string t) = 13"
    using small_row_json by simp
  then have raw: "rows_bytes (json_dump plain_codec) [small_row, small_row] = Some (put_string t @ put_string t)"
    by (simp add: plain_codec_def)
  show ?thesis
    by (rule table_file_roundtrip [OF _ _ raw _ plain_codec_ok save_table_env_ok [OF raw]])
      (use t(2) small_row_storable in \<open>simp_all add: plain_codec_def LZ4_MAX_INPUT_SIZE_def\<close>)
qed

text \<open>
  A save that fails leaves the table as it was: whatever the operating system answers, and also when a row has no JSON, loading
  any table gives afterwards what it gave before.
\<close>

theorem save_table_all_or_nothing:
  assumes "save_table C env table rows fs = (Some err, fs')"
  shows "load_table C env' other fs' = load_table C env' other fs"
  using save_table_failed [OF assms] by (intro load_table_cong) metis

theorem save_table_all_or_nothing_witness:
  "fst (save_table plain_codec (env_ok\<lparr>env_rename_ok := False\<rparr>) ''t'' [] Map.empty) = Some (DiskIo RenameFailed)
    \<and> load_table plain_codec env_ok ''t'' (snd (save_table plain_codec (env_ok\<lparr>env_rename_ok := False\<rparr>) ''t'' [] Map.empty))
      = load_table plain_codec env_ok ''t'' Map.empty"
proof -
  have "fst (save_table plain_codec (env_ok\<lparr>env_rename_ok := False\<rparr>) ''t'' [] Map.empty) = Some (DiskIo RenameFailed)"
    by (simp add: save_table_def write_bytes_atomic_def env_ok_def)
  then show ?thesis
    using save_table_all_or_nothing [where C = plain_codec and table = "''t''", OF prod_eqI] by simp
qed

text \<open>
  A table that has outgrown LZ4 is lost without an error. When the encoded rows are longer than the largest block LZ4 takes,
  \<^verbatim>\<open>LZ4_compress_default\<close> answers 0, which \<^verbatim>\<open>lz4_compress_prepend_size\<close> does not look at: the save succeeds, replaces the file of the table,
  and the next load gives no row at all.
\<close>

theorem oversized_table_lost:
  assumes "rows_bytes (json_dump C) rows = Some raw" "LZ4_MAX_INPUT_SIZE < length raw" "length raw < 2 ^ 32" "length rows < 2 ^ 32"
    and "\<And>bs. LZ4_MAX_INPUT_SIZE < length bs \<Longrightarrow> lz4_compress C bs = []" "\<And>n. 0 < n \<Longrightarrow> lz4_decompress C [] n = None"
    and "save_table C env table rows fs = (None, fs')" "env_read_ok env'"
  shows "load_table C env' table fs' = []"
proof -
  have "fs' (table_path C table) = Some (table_bytes (length rows) (lz4_compress_prepend_size C raw))"
    by (rule save_table_file [OF assms(7,1)])
  note load = load_table_saved [of C rows raw env' fs' table, OF assms(1,4,8) this]
  have "lz4_decompress_size_prepended C (lz4_compress_prepend_size C raw) = None"
    using assms(2,3) assms(5) [of raw] assms(6) [of "length raw"] by (subst lz4_prepended) auto
  then show ?thesis
    using load by simp
qed

definition many :: nat where "many = 170000000"

lemma rows_bytes_replicate:
  "row_to_json dump row = Some t \<Longrightarrow> rows_bytes dump (replicate n row) = Some (concat (replicate n (put_string t)))"
  by (induction n) simp_all

theorem oversized_table_lost_witness:
  "fst (save_table plain_codec env_ok ''t'' (replicate many small_row) Map.empty) = None
    \<and> load_table plain_codec env_ok ''t'' (snd (save_table plain_codec env_ok ''t'' (replicate many small_row) Map.empty)) = []"
proof -
  obtain t where t: "row_to_json (\<lambda>_. None) small_row = Some t" "length (put_string t) = 13"
    using small_row_json by simp
  have raw: "rows_bytes (json_dump plain_codec) (replicate many small_row) = Some (concat (replicate many (put_string t)))"
    using rows_bytes_replicate [OF t(1)] by (simp add: plain_codec_def)
  have len: "length (concat (replicate many (put_string t))) = many * 13"
    by (simp only: length_concat map_replicate t(2) sum_list_replicate of_nat_id)
  have "load_table plain_codec env_ok ''t'' (snd (save_table plain_codec env_ok ''t'' (replicate many small_row) Map.empty)) = []"
    by (rule oversized_table_lost [OF raw _ _ _ _ _ save_table_env_ok [OF raw]])
      (simp_all only: len length_replicate, simp_all add: plain_codec_def LZ4_MAX_INPUT_SIZE_def many_def)
  then show ?thesis
    using save_table_env_ok [OF raw, of "''t''" Map.empty] by (metis fst_conv)
qed

end
