(* ===== verification/BufferPool.thy ===== *)
theory BufferPool
  imports TableFile Mvcc OrdMap
begin

text \<open>
  The buffer pool (\<^verbatim>\<open>core/src/storage/buffer_pool.cpp\<close>): pages of tables with an access tick each, the least recently used one evicted, and
  \<^verbatim>\<open>write_through\<close>, by which checkpoints and commits write a table's file. Every operation holds the pool's mutex.

  The set the callback \<^verbatim>\<open>open_transactions_\<close> answers is an argument (empty when none is set). The iteration order of the
  \<^verbatim>\<open>unordered_map\<close> is that of the association list; only \<^verbatim>\<open>flush_all\<close> depends on it, and only when a save fails. What the operating system
  answers to the saves of one operation is one \<^typ>\<open>io_env\<close>.
\<close>

section \<open>Definitions\<close>

record Page =
  pg_table_name :: string
  pg_rows :: "row list"
  pg_is_dirty :: bool

record BufferPool =
  bp_capacity :: nat
  bp_hit_count :: u64
  bp_miss_count :: u64
  bp_cache :: "(string \<times> (Page \<times> u64)) list"
  bp_tick :: u64

definition new_pool :: "nat \<Rightarrow> BufferPool" where
  "new_pool capacity = \<lparr>bp_capacity = capacity, bp_hit_count = 0, bp_miss_count = 0, bp_cache = [], bp_tick = 0\<rparr>"

text \<open>\<^verbatim>\<open>std::strtoull\<close>: 0 without digits, the greatest value where \<^verbatim>\<open>std::stoull\<close> would throw for a value out of range.\<close>

definition strtoull :: "string \<Rightarrow> u64" where
  "strtoull s =
     (case stoull s of
        Some n \<Rightarrow> n
      | None \<Rightarrow>
          (case dropWhile is_space s of
             [] \<Rightarrow> 0
           | c # r \<Rightarrow> if takeWhile is_digit (if c = CHR ''-'' \<or> c = CHR ''+'' then r else c # r) = [] then 0 else - 1))"

definition txn_id_of :: "row \<Rightarrow> string \<Rightarrow> u64" where
  "txn_id_of row field =
     (case row_get row field of
        None \<Rightarrow> 0
      | Some v \<Rightarrow> if v = ''0'' then 0 else strtoull v)"

text \<open>The rows without what the open transactions have done to them.\<close>

definition committed_rows :: "u64 set \<Rightarrow> row list \<Rightarrow> row list" where
  "committed_rows opened rows =
     map (\<lambda>r. if txn_id_of r ''_xmax'' \<in> opened then row_set ''_xmax'' ''0'' r else r)
       (filter (\<lambda>r. txn_id_of r ''_xmin'' \<notin> opened) rows)"

definition save_committed ::
  "disk_codec \<Rightarrow> io_env \<Rightarrow> u64 set \<Rightarrow> string \<Rightarrow> row list \<Rightarrow> u64 \<Rightarrow> files \<Rightarrow> disk_error option \<times> files" where
  "save_committed C env open_transactions table_name rows keep_txn fs =
     (let opened = open_transactions - {keep_txn};
          affected = (opened \<noteq> {} \<and> list_ex (\<lambda>r. txn_id_of r ''_xmin'' \<in> opened \<or> txn_id_of r ''_xmax'' \<in> opened) rows) in
      if \<not> affected then save_table C env table_name rows fs
      else save_table C env table_name (committed_rows opened rows) fs)"

fun oldest_page :: "(string \<times> (Page \<times> u64)) list \<Rightarrow> (string \<times> u64) option \<Rightarrow> (string \<times> u64) option" where
  "oldest_page [] found = found"
| "oldest_page ((name, (page, tick)) # m) found =
     (case found of
        None \<Rightarrow> oldest_page m (Some (name, tick))
      | Some (victim, min_tick) \<Rightarrow> oldest_page m (Some (if tick < min_tick then (name, tick) else (victim, min_tick))))"

text \<open>The first part of \<^verbatim>\<open>insert_page\<close>: room is made when the pool is full. A dirty page is saved when there is a disk to save it to.\<close>

definition evict_page ::
  "disk_codec \<Rightarrow> io_env \<Rightarrow> u64 set \<Rightarrow> bool \<Rightarrow> BufferPool \<times> files \<Rightarrow> disk_error option \<times> BufferPool \<times> files" where
  "evict_page C env open_transactions disk = (\<lambda>(bp, fs).
     if length (bp_cache bp) \<ge> bp_capacity bp then
       (case oldest_page (bp_cache bp) None of
          None \<Rightarrow> (None, bp, fs)
        | Some (victim, _) \<Rightarrow>
            (case map_of (bp_cache bp) victim of
               None \<Rightarrow> (None, bp, fs)
             | Some (page, _) \<Rightarrow>
                 let (err, fs') = (if pg_is_dirty page \<and> disk then save_committed C env open_transactions victim (pg_rows page) 0 fs else (None, fs)) in
                 if err \<noteq> None then (err, bp, fs') else (None, bp\<lparr>bp_cache := om_erase victim (bp_cache bp)\<rparr>, fs')))
     else (None, bp, fs))"

definition insert_page ::
  "disk_codec \<Rightarrow> io_env \<Rightarrow> u64 set \<Rightarrow> string \<Rightarrow> row list \<Rightarrow> bool \<Rightarrow> bool \<Rightarrow> BufferPool \<times> files \<Rightarrow> disk_error option \<times> BufferPool \<times> files" where
  "insert_page C env open_transactions table_name rows is_dirty disk s =
     (case evict_page C env open_transactions disk s of
        (Some err, bp, fs) \<Rightarrow> (Some err, bp, fs)
      | (None, bp, fs) \<Rightarrow>
          let tick = bp_tick bp + 1 in
          (None, bp\<lparr>bp_tick := tick, bp_cache :=
             (if map_of (bp_cache bp) table_name = None
              then om_set table_name (\<lparr>pg_table_name = table_name, pg_rows = rows, pg_is_dirty = is_dirty\<rparr>, tick) (bp_cache bp)
              else bp_cache bp)\<rparr>, fs))"

definition get_page ::
  "disk_codec \<Rightarrow> io_env \<Rightarrow> u64 set \<Rightarrow> string \<Rightarrow> BufferPool \<times> files \<Rightarrow> (disk_error + row list) \<times> BufferPool \<times> files" where
  "get_page C env open_transactions table_name = (\<lambda>(bp, fs).
     case map_of (bp_cache bp) table_name of
       Some (page, _) \<Rightarrow>
         let tick = bp_tick bp + 1 in
         (Inr (pg_rows page), bp\<lparr>bp_hit_count := bp_hit_count bp + 1, bp_tick := tick, bp_cache := om_set table_name (page, tick) (bp_cache bp)\<rparr>, fs)
     | None \<Rightarrow>
         let bp = bp\<lparr>bp_miss_count := bp_miss_count bp + 1\<rparr>; rows = load_table C env table_name fs in
         (case insert_page C env open_transactions table_name rows False True (bp, fs) of
            (Some err, bp, fs) \<Rightarrow> (Inl err, bp, fs)
          | (None, bp, fs) \<Rightarrow> (Inr rows, bp, fs)))"

definition write_page :: "disk_codec \<Rightarrow> io_env \<Rightarrow> string \<Rightarrow> row list \<Rightarrow> BufferPool \<times> files \<Rightarrow> BufferPool \<times> files" where
  "write_page C env table_name rows = (\<lambda>(bp, fs).
     case map_of (bp_cache bp) table_name of
       Some (page, _) \<Rightarrow>
         let tick = bp_tick bp + 1 in
         (bp\<lparr>bp_tick := tick, bp_cache := om_set table_name (page\<lparr>pg_rows := rows, pg_is_dirty := True\<rparr>, tick) (bp_cache bp)\<rparr>, fs)
     | None \<Rightarrow> snd (insert_page C env {} table_name rows True False (bp, fs)))"

definition write_through ::
  "disk_codec \<Rightarrow> io_env \<Rightarrow> u64 set \<Rightarrow> string \<Rightarrow> row list \<Rightarrow> u64 \<Rightarrow> BufferPool \<times> files \<Rightarrow> disk_error option \<times> BufferPool \<times> files" where
  "write_through C env open_transactions table_name rows keep_txn = (\<lambda>(bp, fs).
     case save_committed C env open_transactions table_name rows keep_txn fs of
       (Some err, fs') \<Rightarrow> (Some err, bp, fs')
     | (None, fs') \<Rightarrow> (None, bp\<lparr>bp_cache := om_erase table_name (bp_cache bp)\<rparr>, fs'))"

fun flush_names ::
  "disk_codec \<Rightarrow> io_env \<Rightarrow> u64 set \<Rightarrow> string list \<Rightarrow> BufferPool \<times> files \<Rightarrow> disk_error option \<times> BufferPool \<times> files" where
  "flush_names C env open_transactions [] s = (None, s)"
| "flush_names C env open_transactions (name # names) (bp, fs) =
     (case map_of (bp_cache bp) name of
        None \<Rightarrow> flush_names C env open_transactions names (bp, fs)
      | Some (page, tick) \<Rightarrow>
          (case save_committed C env open_transactions name (pg_rows page) 0 fs of
             (Some err, fs') \<Rightarrow> (Some err, bp, fs')
           | (None, fs') \<Rightarrow>
               flush_names C env open_transactions names
                 (bp\<lparr>bp_cache := om_set name (page\<lparr>pg_is_dirty := False\<rparr>, tick) (bp_cache bp)\<rparr>, fs')))"

definition flush_all :: "disk_codec \<Rightarrow> io_env \<Rightarrow> u64 set \<Rightarrow> BufferPool \<times> files \<Rightarrow> disk_error option \<times> BufferPool \<times> files" where
  "flush_all C env open_transactions s =
     flush_names C env open_transactions (map fst (filter (\<lambda>(name, page, tick). pg_is_dirty page) (bp_cache (fst s)))) s"

definition pool_invalidate :: "string \<Rightarrow> BufferPool \<Rightarrow> BufferPool" where
  "pool_invalidate table_name bp = bp\<lparr>bp_cache := om_erase table_name (bp_cache bp)\<rparr>"

definition usage :: "BufferPool \<Rightarrow> nat" where
  "usage bp = length (bp_cache bp)"

section \<open>What a written file holds\<close>

lemma to_string_eq_0: "to_string (unat (t :: u64)) = ''0'' \<longleftrightarrow> t = 0"
  using to_string_inject [of "unat t" 0] by (simp add: to_string_0 unat_eq_zero)

lemma txn_id_of_text: "row_get r c = Some (to_string (unat t)) \<Longrightarrow> txn_id_of r c = t"
  by (simp add: txn_id_of_def strtoull_def to_string_eq_0)

lemma tagged_iff:
  "tagged r \<longleftrightarrow> (\<exists>m :: u64. row_get r ''_xmin'' = Some (to_string (unat m)))
    \<and> (row_get r ''_xmax'' = None \<or> (\<exists>x :: u64. row_get r ''_xmax'' = Some (to_string (unat x))))"
  by (auto simp: tagged_def parse_txn_id_def split: option.split intro: exI [where x = 0])

lemma txn_id_of_iff:
  assumes "tagged r" "t \<noteq> 0"
  shows "txn_id_of r ''_xmin'' = t \<longleftrightarrow> row_get r ''_xmin'' = Some (to_string (unat t))"
    and "txn_id_of r ''_xmax'' = t \<longleftrightarrow> row_get r ''_xmax'' = Some (to_string (unat t))"
proof -
  have none: "txn_id_of r ''_xmax'' \<noteq> t" if "row_get r ''_xmax'' = None"
    using that assms(2) by (simp add: txn_id_of_def)
  show "txn_id_of r ''_xmin'' = t \<longleftrightarrow> row_get r ''_xmin'' = Some (to_string (unat t))"
    using assms(1) txn_id_of_text unfolding tagged_iff by metis
  show "txn_id_of r ''_xmax'' = t \<longleftrightarrow> row_get r ''_xmax'' = Some (to_string (unat t))"
    using assms(1) txn_id_of_text none unfolding tagged_iff by metis
qed

lemma tagged_revive: "tagged r \<Longrightarrow> tagged (revive i r)"
  unfolding tagged_iff row_get_revive(2) using row_get_revive(1) [of "''_xmin''"] to_string_0 unsigned_0 by (auto; metis)

lemma tagged_rollback: "list_all tagged rows \<Longrightarrow> list_all tagged (rollback_rows t rows)"
  using tagged_revive by (auto simp: rollback_rows_def Let_def list_all_iff)

lemma committed_rows_insert:
  assumes "list_all tagged rows" "t \<noteq> 0" "0 \<notin> opened"
  shows "committed_rows (insert t opened) rows = committed_rows opened (rollback_rows t rows)"
proof -
  let ?t = "to_string (unat t)"
  have tagged: "tagged r" if "r \<in> set rows" for r
    using assms(1) that by (simp add: list_all_iff)
  have "filter (\<lambda>r. txn_id_of r ''_xmin'' \<notin> insert t opened) rows =
      filter (\<lambda>r. txn_id_of r ''_xmin'' \<notin> opened) (filter (\<lambda>r. row_get r ''_xmin'' \<noteq> Some ?t) rows)"
    using txn_id_of_iff(1) [OF tagged assms(2)] by (auto intro: filter_cong)
  moreover have "txn_id_of (revive ?t r) ''_xmin'' = txn_id_of r ''_xmin''" for r
    by (simp add: txn_id_of_def row_get_revive)
  moreover have "(if txn_id_of r ''_xmax'' \<in> insert t opened then row_set ''_xmax'' ''0'' r else r) =
      (if txn_id_of (revive ?t r) ''_xmax'' \<in> opened then row_set ''_xmax'' ''0'' (revive ?t r) else revive ?t r)" if "r \<in> set rows" for r
  proof (cases "row_get r ''_xmax'' = Some ?t")
    case True
    then have "txn_id_of r ''_xmax'' = t" "txn_id_of (revive ?t r) ''_xmax'' = 0"
      by (simp_all add: txn_id_of_text) (simp add: txn_id_of_def row_get_revive True)
    then show ?thesis
      using True assms(3) by (simp add: revive_def)
  next
    case False
    then show ?thesis
      using txn_id_of_iff(2) [OF tagged [OF that] assms(2)] by (simp add: revive_def)
  qed
  ultimately show ?thesis
    unfolding committed_rows_def rollback_rows_def Let_def by (simp add: filter_map comp_def)
qed

lemma committed_rows_rollback:
  "list_all tagged rows \<Longrightarrow> 0 \<notin> set ids \<Longrightarrow> committed_rows (set ids) rows = fold rollback_rows ids rows"
proof (induction ids arbitrary: rows)
  case (Cons t ids)
  then show ?case
    using committed_rows_insert [of rows t "set ids"] tagged_rollback by simp
qed (simp add: committed_rows_def)

lemma save_committed_eq:
  "save_committed C env open_transactions table rows keep fs = save_table C env table (committed_rows (open_transactions - {keep}) rows) fs"
proof -
  have "committed_rows opened rows = rows"
    if "\<not> (opened \<noteq> {} \<and> list_ex (\<lambda>r. txn_id_of r ''_xmin'' \<in> opened \<or> txn_id_of r ''_xmax'' \<in> opened) rows)" for opened
    using that unfolding committed_rows_def list_ex_iff by (induction rows) auto
  then show ?thesis
    unfolding save_committed_def Let_def by presburger
qed

section \<open>The pool\<close>

text \<open>Every page is filed under its name, and there are never more pages than the capacity (one, for a capacity of 0).\<close>

definition pool_ok :: "BufferPool \<Rightarrow> bool" where
  "pool_ok bp \<longleftrightarrow> om_wf (bp_cache bp) \<and> length (bp_cache bp) \<le> max 1 (bp_capacity bp)
     \<and> (\<forall>entry \<in> set (bp_cache bp). pg_table_name (fst (snd entry)) = fst entry)"

lemma oldest_page_in: "oldest_page m found = Some kt \<Longrightarrow> fst kt \<in> fst ` set m \<or> found = Some kt"
proof (induction m found rule: oldest_page.induct)
  case (2 name page tick m found)
  then show ?case
    by (cases found) (fastforce split: if_splits)+
qed simp

lemma oldest_page_None: "oldest_page m found = None \<longleftrightarrow> m = [] \<and> found = None"
  by (induction m found rule: oldest_page.induct) (auto split: option.splits)

lemma pool_ok_erase:
  assumes "pool_ok bp"
  shows "pool_ok (bp\<lparr>bp_cache := om_erase k (bp_cache bp)\<rparr>)"
proof -
  have "length (om_erase k (bp_cache bp)) \<le> length (bp_cache bp)" "set (om_erase k (bp_cache bp)) \<subseteq> set (bp_cache bp)"
    by (auto simp: om_erase_def)
  then show ?thesis
    using assms om_wf_om_erase [of "bp_cache bp" k] by (auto simp: pool_ok_def)
qed

lemma evict_page_ok:
  assumes "pool_ok bp" "evict_page C env opened disk (bp, fs) = (err, bp', fs')"
  shows "pool_ok bp' \<and> bp_capacity bp' = bp_capacity bp \<and> (err = None \<longrightarrow> length (bp_cache bp') < max 1 (bp_capacity bp))"
proof (cases "length (bp_cache bp) \<ge> bp_capacity bp")
  case full: True
  show ?thesis
  proof (cases "oldest_page (bp_cache bp) None")
    case None
    then show ?thesis
      using assms full by (simp add: evict_page_def oldest_page_None)
  next
    case (Some kt)
    obtain k t where kt: "kt = (k, t)"
      by fastforce
    have k: "k \<in> fst ` set (bp_cache bp)"
      using oldest_page_in [OF Some] kt by simp
    then obtain page tick where page: "map_of (bp_cache bp) k = Some (page, tick)"
      by (metis map_of_eq_None_iff option.exhaust surj_pair)
    have "length (bp_cache bp) = Suc (length (om_erase k (bp_cache bp)))"
      using length_om_erase [OF _ k] assms(1) by (simp add: pool_ok_def)
    moreover have "length (bp_cache bp) \<le> max 1 (bp_capacity bp)"
      using assms(1) by (simp add: pool_ok_def)
    ultimately show ?thesis
      using assms full Some kt page pool_ok_erase [OF assms(1), of k]
      by (auto simp: evict_page_def Let_def split: prod.splits if_splits)
  qed
qed (use assms in \<open>auto simp: evict_page_def\<close>)

text \<open>Putting a page under its name keeps the invariant when the page is there or the pool has room.\<close>

lemma pool_ok_set:
  assumes "pool_ok bp" "pg_table_name page = name"
    and "map_of (bp_cache bp) name \<noteq> None \<or> length (bp_cache bp) < max 1 (bp_capacity bp)"
  shows "pool_ok (bp\<lparr>bp_tick := n, bp_cache := om_set name (page, tick) (bp_cache bp)\<rparr>)"
proof -
  have "length (om_set name (page, tick) (bp_cache bp)) \<le> max 1 (bp_capacity bp)"
    using assms(1,3) length_om_set_old [of "bp_cache bp" name] length_om_set [of name "(page, tick)" "bp_cache bp"]
    by (auto simp: pool_ok_def)
  then show ?thesis
    using assms(1,2) set_om_set [of name "(page, tick)" "bp_cache bp"] om_wf_om_set [of "bp_cache bp" name]
    by (fastforce simp: pool_ok_def)
qed

lemma pool_ok_counts [simp]:
  "pool_ok (bp\<lparr>bp_tick := n\<rparr>) = pool_ok bp" "pool_ok (bp\<lparr>bp_miss_count := n\<rparr>) = pool_ok bp" "pool_ok (bp\<lparr>bp_hit_count := n\<rparr>) = pool_ok bp"
  by (simp_all add: pool_ok_def)

lemma insert_page_ok:
  assumes "pool_ok bp" "insert_page C env opened name rows dirty disk (bp, fs) = (err, bp', fs')"
  shows "pool_ok bp' \<and> bp_capacity bp' = bp_capacity bp"
proof -
  obtain err1 bp1 fs1 where e: "evict_page C env opened disk (bp, fs) = (err1, bp1, fs1)"
    by (metis surj_pair)
  note ok = evict_page_ok [OF assms(1) e]
  show ?thesis
  proof (cases err1)
    case None
    have "pool_ok (bp1\<lparr>bp_tick := bp_tick bp1 + 1, bp_cache :=
        om_set name (\<lparr>pg_table_name = name, pg_rows = rows, pg_is_dirty = dirty\<rparr>, bp_tick bp1 + 1) (bp_cache bp1)\<rparr>)"
      using ok None by (intro pool_ok_set) auto
    then show ?thesis
      using assms(2) ok None e by (auto simp: insert_page_def Let_def split: if_splits)
  qed (use assms(2) ok e in \<open>auto simp: insert_page_def\<close>)
qed

lemma pool_cached:
  assumes "pool_ok bp" "map_of (bp_cache bp) name = Some (page, tick)"
  shows "pg_table_name page = name"
  using assms by (auto simp: pool_ok_def dest!: map_of_SomeD)

lemma flush_names_ok:
  "pool_ok bp \<Longrightarrow> flush_names C env opened names (bp, fs) = (err, bp', fs') \<Longrightarrow> pool_ok bp' \<and> bp_capacity bp' = bp_capacity bp"
proof (induction names arbitrary: bp fs)
  case (Cons name names)
  show ?case
  proof (cases "map_of (bp_cache bp) name")
    case (Some pt)
    obtain page tick where pt: "pt = (page, tick)"
      by fastforce
    have "pool_ok (bp\<lparr>bp_tick := bp_tick bp, bp_cache := om_set name (page\<lparr>pg_is_dirty := False\<rparr>, tick) (bp_cache bp)\<rparr>)"
      using Cons.prems(1) Some pt pool_cached [OF Cons.prems(1)] by (intro pool_ok_set) auto
    then have "pool_ok (bp\<lparr>bp_cache := om_set name (page\<lparr>pg_is_dirty := False\<rparr>, tick) (bp_cache bp)\<rparr>)"
      by (simp add: pool_ok_def)
    then show ?thesis
      using Cons Some pt by (auto split: prod.splits option.splits)
  qed (use Cons in auto)
qed simp

text \<open>The steps of a pool: any operation, with any answers of the operating system and any set of open transactions.\<close>

inductive pool_step :: "disk_codec \<Rightarrow> BufferPool \<times> files \<Rightarrow> BufferPool \<times> files \<Rightarrow> bool" for C where
  step_get: "pool_step C s (snd (get_page C env opened name s))"
| step_write: "pool_step C s (write_page C env name rows s)"
| step_through: "pool_step C s (snd (write_through C env opened name rows keep s))"
| step_flush: "pool_step C s (snd (flush_all C env opened s))"
| step_invalidate: "pool_step C (bp, fs) (pool_invalidate name bp, fs)"

lemma pool_step_ok:
  "pool_step C s s' \<Longrightarrow> pool_ok (fst s) \<Longrightarrow> pool_ok (fst s') \<and> bp_capacity (fst s') = bp_capacity (fst s)"
proof (induction rule: pool_step.induct)
  case (step_get s env opened name)
  obtain bp fs where s: "s = (bp, fs)"
    by fastforce
  show ?case
  proof (cases "map_of (bp_cache bp) name")
    case None
    obtain err bp' fs' where i: "insert_page C env opened name (load_table C env name fs) False True (bp\<lparr>bp_miss_count := bp_miss_count bp + 1\<rparr>, fs) = (err, bp', fs')"
      by (metis surj_pair)
    have "fst (snd (get_page C env opened name s)) = bp'"
      using None s i by (cases err) (simp_all add: get_page_def)
    then show ?thesis
      using step_get s insert_page_ok [OF _ i] by simp
  next
    case (Some pt)
    obtain page tick where pt: "pt = (page, tick)"
      by fastforce
    have "pool_ok ((bp\<lparr>bp_hit_count := bp_hit_count bp + 1\<rparr>)\<lparr>bp_tick := bp_tick bp + 1, bp_cache :=
        om_set name (page, bp_tick bp + 1) (bp_cache (bp\<lparr>bp_hit_count := bp_hit_count bp + 1\<rparr>))\<rparr>)"
      using step_get s Some pt pool_cached [of bp name page tick] by (intro pool_ok_set) auto
    then show ?thesis
      using s Some pt by (simp add: get_page_def Let_def)
  qed
next
  case (step_write s env name rows)
  obtain bp fs where s: "s = (bp, fs)"
    by fastforce
  show ?case
  proof (cases "map_of (bp_cache bp) name")
    case None
    obtain err bp' fs' where i: "insert_page C env {} name rows True False (bp, fs) = (err, bp', fs')"
      by (metis surj_pair)
    then show ?thesis
      using step_write s None insert_page_ok [OF _ i] by (simp add: write_page_def)
  next
    case (Some pt)
    then show ?thesis
      using step_write s pool_ok_set [of bp "fst pt\<lparr>pg_rows := rows, pg_is_dirty := True\<rparr>" name "bp_tick bp + 1" "bp_tick bp + 1"]
        pool_cached [of bp name "fst pt" "snd pt"]
      by (auto simp: write_page_def Let_def split: prod.splits)
  qed
next
  case (step_through s env opened name rows keep)
  then show ?case
    using pool_ok_erase by (auto simp: write_through_def split: prod.splits option.splits)
next
  case (step_flush s env opened)
  obtain bp fs where s: "s = (bp, fs)"
    by fastforce
  obtain err bp' fs' where f: "flush_all C env opened s = (err, bp', fs')"
    by (metis surj_pair)
  show ?case
    using flush_names_ok [OF _ f [unfolded flush_all_def s]] step_flush f s by simp
qed (simp add: pool_invalidate_def pool_ok_erase)

section \<open>Properties\<close>

text \<open>
  C25: A file written by \<^verbatim>\<open>write_through\<close> holds committed work only. When it returns normally, loading the table gives its rows as if every
  other open transaction had been rolled back (in the sense of \<^verbatim>\<open>apply_rollback\<close>), so that a rollback that happens later, in
  memory only, has nothing to undo in the file; and the pool has no copy of the table left.
\<close>

theorem write_through_committed:
  assumes "write_through C env opened table rows keep (bp, fs) = (None, bp', fs')"
    and "list_all tagged rows" "set ids = opened - {keep}" "0 \<notin> set ids"
    and "list_all (storable_row (json_dump C)) (fold rollback_rows ids rows)" "length (fold rollback_rows ids rows) < 2 ^ 32"
    and "rows_bytes (json_dump C) (fold rollback_rows ids rows) = Some raw" "length raw \<le> LZ4_MAX_INPUT_SIZE" "lz4_ok C" "env_read_ok env'"
  shows "load_table C env' table fs' = fold rollback_rows ids rows \<and> map_of (bp_cache bp') table = None"
proof -
  have c: "committed_rows (opened - {keep}) rows = fold rollback_rows ids rows"
    using committed_rows_rollback [OF assms(2,4)] assms(3) by simp
  obtain err fs1 where sv: "save_table C env table (fold rollback_rows ids rows) fs = (err, fs1)"
    by fastforce
  have saved: "err = None" "fs1 = fs'" "map_of (bp_cache bp') table = None"
    using assms(1) sv by (cases err; auto simp: write_through_def save_committed_eq c)+
  show ?thesis
    using saved_rows_load [OF assms(5-9) _ assms(10)] sv saved by blast
qed

definition live_row :: row where "live_row = [(''_xmax'', ''0''), (''_xmin'', ''3'')]"

definition tagged_rows :: "row list" where
  "tagged_rows = [live_row, [(''_xmax'', ''5''), (''_xmin'', ''3'')], [(''_xmax'', ''0''), (''_xmin'', ''5'')]]"

lemma tagged_rows_facts:
  "list_all tagged tagged_rows" "rollback_rows 5 tagged_rows = [live_row, live_row]"
proof -
  have "to_string 0 = ''0''" "to_string 3 = ''3''" "to_string 5 = ''5''"
    by code_simp+
  then show "list_all tagged tagged_rows" "rollback_rows 5 tagged_rows = [live_row, live_row]"
    by (simp_all add: tagged_rows_def live_row_def tagged_def parse_txn_id_eval rollback_rows_def revive_def)
qed

lemma live_row_json:
  obtains t where "row_to_json (\<lambda>_. None) live_row = Some t" "length t = 25" "storable_row (\<lambda>_. None) live_row"
proof -
  have "map_option length (row_to_json (\<lambda>_. None) live_row) = Some 25" "row_wf live_row" "utf8_row live_row"
    by code_simp+
  then show ?thesis
    using that by (auto simp: storable_row_def)
qed

theorem write_through_committed_witness:
  "load_table plain_codec env_ok ''t'' (snd (snd (write_through plain_codec env_ok {5, 7} ''t'' tagged_rows 7 (new_pool 4, Map.empty))))
    = [live_row, live_row]"
proof -
  let ?w = "write_through plain_codec env_ok {5, 7} ''t'' tagged_rows 7 (new_pool 4, Map.empty)"
  obtain t where t: "row_to_json (\<lambda>_. None) live_row = Some t" "length t = 25" "storable_row (\<lambda>_. None) live_row"
    by (rule live_row_json)
  have f: "fold rollback_rows [5] tagged_rows = [live_row, live_row]"
    by (simp add: tagged_rows_facts)
  have raw: "rows_bytes (json_dump plain_codec) (fold rollback_rows [5] tagged_rows) = Some (put_string t @ put_string t)"
    unfolding f using t(1) by (simp add: plain_codec_def)
  have ids: "set [5] = {5, 7} - {7 :: u64}" "0 \<notin> set [5 :: u64]"
    by auto
  have w: "?w = (None, fst (snd ?w), snd (snd ?w))"
  proof -
    have "committed_rows ({5, 7} - {7}) tagged_rows = fold rollback_rows [5] tagged_rows"
      using committed_rows_rollback [OF tagged_rows_facts(1) ids(2)] by (simp only: ids(1))
    then have "save_committed plain_codec env_ok {5, 7} ''t'' tagged_rows 7 Map.empty =
        (None, snd (save_table plain_codec env_ok ''t'' (fold rollback_rows [5] tagged_rows) Map.empty))"
      using save_table_env_ok [OF raw, of "''t''" Map.empty] by (simp only: save_committed_eq)
    then show ?thesis
      by (simp add: write_through_def)
  qed
  have "load_table plain_codec env_ok ''t'' (snd (snd ?w)) = fold rollback_rows [5] tagged_rows \<and> map_of (bp_cache (fst (snd ?w))) ''t'' = None"
    using t(2,3)
    by (intro write_through_committed [OF w tagged_rows_facts(1) ids _ _ raw _ plain_codec_ok])
      (simp_all only: f, simp_all add: plain_codec_def LZ4_MAX_INPUT_SIZE_def)
  then show ?thesis
    by (simp add: tagged_rows_facts)
qed

text \<open>
  The pool keeps its invariant: whatever operations run, with whatever failures, every page is filed under the name it carries and there are
  never more pages than the capacity (one, for a capacity of 0), also when the page to be evicted cannot be saved.
\<close>

theorem pool_bounded:
  assumes "(pool_step C)\<^sup>*\<^sup>* (new_pool capacity, fs) (bp, fs')"
  shows "pool_ok bp \<and> usage bp \<le> max 1 capacity"
proof -
  have "pool_ok (fst s) \<and> bp_capacity (fst s) = capacity" if "(pool_step C)\<^sup>*\<^sup>* (new_pool capacity, fs) s" for s
    using that
  proof (induction rule: rtranclp_induct)
    case base
    show ?case
      by (simp add: pool_ok_def new_pool_def)
  next
    case (step s s')
    then show ?case
      using pool_step_ok by metis
  qed
  from this [OF assms] show ?thesis
    by (auto simp: pool_ok_def usage_def)
qed

theorem pool_bounded_witness:
  "usage (fst (write_page plain_codec env_ok ''b'' [] (write_page plain_codec env_ok ''a'' [] (new_pool 1, Map.empty)))) \<le> 1"
proof -
  let ?s1 = "write_page plain_codec env_ok ''a'' [] (new_pool 1, Map.empty)"
  let ?s2 = "write_page plain_codec env_ok ''b'' [] ?s1"
  have "(pool_step plain_codec)\<^sup>*\<^sup>* (new_pool 1, Map.empty) (fst ?s2, snd ?s2)"
    by (metis (no_types) prod.collapse step_write rtranclp.rtrancl_into_rtrancl rtranclp.rtrancl_refl)
  then show ?thesis
    using pool_bounded by fastforce
qed

end
