(* ===== verification/RedoReplay.thy ===== *)
theory RedoReplay
  imports RedoLog BufferPool "HOL-Library.Multiset"
begin

text \<open>
  Durability by the redo log (\<^verbatim>\<open>core/src/engine/executor/executor_redo.cpp\<close>): committing a batch, checkpoints, and the replay of the log at
  start. The part of \<^verbatim>\<open>SharedDatabase\<close> these functions work on is the record \<open>shared_db\<close>; indexes are rebuilt from the rows
  after a replay and are not part of it. Containers are maps; a \<^verbatim>\<open>std::unordered_set\<close> is a list without repetitions, in an order the model leaves
  to the insertions. Every replay step either goes on (\<^const>\<open>None\<close>) or lets an exception escape with the tables changed so far.
\<close>

section \<open>Replay\<close>

text \<open>A version's identity: its image without \<^verbatim>\<open>_xmax\<close>, as text.\<close>

definition version_identity :: "disk_codec \<Rightarrow> row \<Rightarrow> string option" where
  "version_identity C row = row_to_json (json_dump C) (row_erase ''_xmax'' row)"

type_synonym positions = "string \<rightharpoonup> nat list"

record replay =
  rp_tables :: "string \<rightharpoonup> row list"
  rp_pos :: "string \<rightharpoonup> positions"
  rp_touched :: "string list"

definition at_pos :: "positions \<Rightarrow> string \<Rightarrow> nat list" where
  "at_pos m i = (case m i of None \<Rightarrow> [] | Some ps \<Rightarrow> ps)"

fun index_rows :: "disk_codec \<Rightarrow> nat \<Rightarrow> row list \<Rightarrow> positions \<Rightarrow> positions option" where
  "index_rows C i [] m = Some m"
| "index_rows C i (row # rows) m =
     (case version_identity C row of
        None \<Rightarrow> None
      | Some v \<Rightarrow> index_rows C (Suc i) rows (m(v \<mapsto> at_pos m v @ [i])))"

text \<open>\<^verbatim>\<open>ensure_index\<close>: \<^const>\<open>None\<close> when an identity throws, otherwise the rows and positions of the table if it exists.\<close>

definition ensure_index :: "disk_codec \<Rightarrow> string \<Rightarrow> replay \<Rightarrow> ((row list \<times> positions) option \<times> replay) option" where
  "ensure_index C table st =
     (case rp_tables st table of
        None \<Rightarrow> Some (None, st)
      | Some rows \<Rightarrow>
          (case rp_pos st table of
             Some m \<Rightarrow> Some (Some (rows, m), st)
           | None \<Rightarrow>
               (case index_rows C 0 rows Map.empty of
                  None \<Rightarrow> None
                | Some m \<Rightarrow> Some (Some (rows, m), st\<lparr>rp_pos := (rp_pos st)(table \<mapsto> m)\<rparr>))))"

text \<open>The identity a logged operation names, when its row can be read.\<close>

definition op_version :: "disk_codec \<Rightarrow> RedoOp \<Rightarrow> (row \<times> string) option" where
  "op_version C op =
     (case row_from_json (json_parse_row C) (redo_row_json op) of
        None \<Rightarrow> None
      | Some row \<Rightarrow> map_option (\<lambda>v. (row, v)) (version_identity C row))"

definition insert_key :: "string \<Rightarrow> string \<Rightarrow> string" where
  "insert_key table v = table @ [CHR 0x00] @ v"

definition kill_key :: "string \<Rightarrow> string \<Rightarrow> string \<Rightarrow> string" where
  "kill_key table v xmax = table @ [CHR 0x00] @ v @ [CHR 0x00] @ xmax"

definition replay_insert ::
  "disk_codec \<Rightarrow> RedoOp \<Rightarrow> replay \<times> (string \<Rightarrow> nat) \<Rightarrow> disk_error option \<times> replay \<times> (string \<Rightarrow> nat)" where
  "replay_insert C op = (\<lambda>(st, inserts_seen).
     if redo_kind op \<noteq> InsertVersion then (None, st, inserts_seen)
     else case ensure_index C (redo_table op) st of
         None \<Rightarrow> (Some RowNotJson, st, inserts_seen)
       | Some (None, st) \<Rightarrow> (None, st, inserts_seen)
       | Some (Some (rows, m), st) \<Rightarrow>
           (case op_version C op of
              None \<Rightarrow> (None, st, inserts_seen)
            | Some (row, v) \<Rightarrow>
                let k = inserts_seen (insert_key (redo_table op) v) + 1;
                    inserts_seen = inserts_seen(insert_key (redo_table op) v := k);
                    ps = at_pos m v in
                if k \<le> length ps then (None, st, inserts_seen)
                else (None, st\<lparr>rp_tables := (rp_tables st)(redo_table op \<mapsto> rows @ [row]),
                       rp_pos := (rp_pos st)(redo_table op \<mapsto> m(v \<mapsto> ps @ [length rows])),
                       rp_touched := set_insert (redo_table op) (rp_touched st)\<rparr>, inserts_seen)))"

definition stamped_by :: "string \<Rightarrow> row \<Rightarrow> bool" where
  "stamped_by xmax row \<longleftrightarrow> row_get row ''_xmax'' = Some xmax"

record kills =
  kills_seen :: "string \<Rightarrow> nat"
  kills_present :: "string \<rightharpoonup> nat"

definition replay_kill :: "disk_codec \<Rightarrow> RedoOp \<Rightarrow> replay \<times> kills \<Rightarrow> disk_error option \<times> replay \<times> kills" where
  "replay_kill C op = (\<lambda>(st, ks).
     if redo_kind op \<noteq> SetXmax then (None, st, ks)
     else case ensure_index C (redo_table op) st of
         None \<Rightarrow> (Some RowNotJson, st, ks)
       | Some (None, st) \<Rightarrow> (None, st, ks)
       | Some (Some (rows, m), st) \<Rightarrow>
           (case op_version C op of
              None \<Rightarrow> (None, st, ks)
            | Some (_, v) \<Rightarrow>
                (case m v of
                   None \<Rightarrow> (None, st, ks)
                 | Some ps \<Rightarrow>
                     let key = kill_key (redo_table op) v (redo_xmax op);
                         present = (case kills_present ks key of
                            Some n \<Rightarrow> n
                          | None \<Rightarrow> length (filter (\<lambda>p. stamped_by (redo_xmax op) (rows ! p)) ps));
                         seen = kills_seen ks key + 1;
                         ks = ks\<lparr>kills_present := (kills_present ks)(key \<mapsto> present), kills_seen := (kills_seen ks)(key := seen)\<rparr> in
                     if seen \<le> present then (None, st, ks)
                     else case find (\<lambda>p. is_visible (rows ! p)) ps of
                         None \<Rightarrow> (None, st, ks)
                       | Some p \<Rightarrow>
                           (None, st\<lparr>rp_tables := (rp_tables st)(redo_table op \<mapsto> rows[p := row_set ''_xmax'' (redo_xmax op) (rows ! p)]),
                              rp_touched := set_insert (redo_table op) (rp_touched st)\<rparr>, ks))))"

fun replay_loop :: "('o \<Rightarrow> 's \<Rightarrow> 'e option \<times> 's) \<Rightarrow> 'o list \<Rightarrow> 's \<Rightarrow> 'e option \<times> 's" where
  "replay_loop step [] s = (None, s)"
| "replay_loop step (x # xs) s =
     (case step x s of
        (Some err, s') \<Rightarrow> (Some err, s')
      | (None, s') \<Rightarrow> replay_loop step xs s')"

text \<open>Both phases: first every version that was created, then every version that was ended.\<close>

definition replay_ops :: "disk_codec \<Rightarrow> RedoOp list \<Rightarrow> (string \<rightharpoonup> row list) \<Rightarrow> disk_error option \<times> replay" where
  "replay_ops C ops tables =
     (case replay_loop (replay_insert C) ops (\<lparr>rp_tables = tables, rp_pos = Map.empty, rp_touched = []\<rparr>, \<lambda>_. 0) of
        (Some err, st, _) \<Rightarrow> (Some err, st)
      | (None, st, _) \<Rightarrow>
          (case replay_loop (replay_kill C) ops (st, \<lparr>kills_seen = (\<lambda>_. 0), kills_present = Map.empty\<rparr>) of
             (err, st, _) \<Rightarrow> (err, st)))"

text \<open>Operations before the last flush of their table are dropped.\<close>

definition last_flush :: "RedoOp list \<Rightarrow> string \<rightharpoonup> nat" where
  "last_flush ops =
     fold (\<lambda>i m. if redo_kind (ops ! i) = TableFlushed then m(redo_table (ops ! i) \<mapsto> i) else m) [0..<length ops] Map.empty"

definition drop_flushed :: "RedoOp list \<Rightarrow> RedoOp list" where
  "drop_flushed ops =
     map ((!) ops) (filter (\<lambda>i. redo_kind (ops ! i) \<noteq> TableFlushed
       \<and> (case last_flush ops (redo_table (ops ! i)) of None \<Rightarrow> True | Some j \<Rightarrow> \<not> i < j)) [0..<length ops])"

section \<open>The database\<close>

record shared_db =
  sd_tables :: "string \<rightharpoonup> row list"
  sd_pool :: BufferPool
  sd_files :: files
  sd_redo_log :: RedoLog
  sd_redo_dirty :: "string list"
  sd_recovery_ops :: nat
  sd_recovery_tables :: nat

definition db_write_through :: "disk_codec \<Rightarrow> io_env \<Rightarrow> u64 set \<Rightarrow> string \<Rightarrow> row list \<Rightarrow> shared_db \<Rightarrow> disk_error option \<times> shared_db" where
  "db_write_through C env opened table rows db =
     (case write_through C env opened table rows 0 (sd_pool db, sd_files db) of
        (err, bp, fs) \<Rightarrow> (err, db\<lparr>sd_pool := bp, sd_files := fs\<rparr>))"

definition db_append_sync :: "io_env \<Rightarrow> RedoOp list \<Rightarrow> shared_db \<Rightarrow> disk_error option \<times> shared_db" where
  "db_append_sync env ops db =
     (case redo_append_batch env ops (sd_redo_log db) of
        (Inl err, log) \<Rightarrow> (Some (DiskIo err), db\<lparr>sd_redo_log := log\<rparr>)
      | (Inr seq, log) \<Rightarrow>
          (case redo_sync env seq log of (err, log) \<Rightarrow> (map_option DiskIo err, db\<lparr>sd_redo_log := log\<rparr>)))"

definition write_redo_batch :: "io_env \<Rightarrow> RedoOp list \<Rightarrow> shared_db \<Rightarrow> disk_error option \<times> shared_db" where
  "write_redo_batch env ops db =
     (if ops = [] then (None, db)
      else db_append_sync env ops (db\<lparr>sd_redo_dirty := fold (\<lambda>op. set_insert (redo_table op)) ops (sd_redo_dirty db)\<rparr>))"

definition redo_mark_flushed :: "io_env \<Rightarrow> string \<Rightarrow> shared_db \<Rightarrow> disk_error option \<times> shared_db" where
  "redo_mark_flushed env table db =
     (if rl_bytes (sd_redo_log db) = 0 then (None, db)
      else db_append_sync env [\<lparr>redo_kind = TableFlushed, redo_table = table, redo_row_json = [], redo_xmax = []\<rparr>] db)"

text \<open>The loop over the tables to be written; a table that is gone is passed over.\<close>

fun flush_tables :: "disk_codec \<Rightarrow> io_env \<Rightarrow> u64 set \<Rightarrow> string list \<Rightarrow> shared_db \<Rightarrow> disk_error option \<times> shared_db" where
  "flush_tables C env opened [] db = (None, db)"
| "flush_tables C env opened (table # names) db =
     (case sd_tables db table of
        None \<Rightarrow> flush_tables C env opened names db
      | Some rows \<Rightarrow>
          (case db_write_through C env opened table rows db of
             (Some err, db) \<Rightarrow> (Some err, db)
           | (None, db) \<Rightarrow> flush_tables C env opened names db))"

definition checkpoint_redo_locked :: "disk_codec \<Rightarrow> io_env \<Rightarrow> u64 set \<Rightarrow> shared_db \<Rightarrow> disk_error option \<times> shared_db" where
  "checkpoint_redo_locked C env opened db =
     (case flush_tables C env opened (sd_redo_dirty db) db of
        (Some err, db) \<Rightarrow> (Some err, db)
      | (None, db) \<Rightarrow> (None, db\<lparr>sd_redo_dirty := [], sd_redo_log := redo_clear env (sd_redo_log db)\<rparr>))"

text \<open>The two thresholds come from environment variables: they are arguments.\<close>

definition maybe_checkpoint_redo ::
  "u64 \<Rightarrow> u64 \<Rightarrow> disk_codec \<Rightarrow> io_env \<Rightarrow> u64 set \<Rightarrow> shared_db \<Rightarrow> disk_error option \<times> shared_db" where
  "maybe_checkpoint_redo redo_checkpoint_bytes redo_checkpoint_row_bytes C env opened db =
     (let log = sd_redo_log db;
          threshold = (if rl_checkpoint_at log \<noteq> 0 then rl_checkpoint_at log else redo_checkpoint_bytes) in
      if rl_bytes log < threshold then (None, db)
      else
        let rows = fold (\<lambda>table n. case sd_tables db table of None \<Rightarrow> n | Some rs \<Rightarrow> n + word_of_nat (length rs)) (sd_redo_dirty db) (0 :: u64);
            want = max redo_checkpoint_bytes (rows * redo_checkpoint_row_bytes) in
        if rl_bytes log \<ge> want then checkpoint_redo_locked C env opened db
        else (None, db\<lparr>sd_redo_log := set_checkpoint_at want log\<rparr>))"

definition recover_from_redo :: "disk_codec \<Rightarrow> io_env \<Rightarrow> u64 set \<Rightarrow> shared_db \<Rightarrow> disk_error option \<times> shared_db" where
  "recover_from_redo C env opened db =
     (let ops = redo_read_all env (sd_redo_log db) in
      if ops = [] then (None, db\<lparr>sd_redo_log := redo_clear env (sd_redo_log db)\<rparr>)
      else
        let ops = drop_flushed ops; db = db\<lparr>sd_recovery_ops := length ops\<rparr> in
        case replay_ops C ops (sd_tables db) of
          (Some err, st) \<Rightarrow> (Some err, db\<lparr>sd_tables := rp_tables st\<rparr>)
        | (None, st) \<Rightarrow>
            let db = db\<lparr>sd_tables := rp_tables st, sd_recovery_tables := length (rp_touched st)\<rparr> in
            case flush_tables C env opened (rp_touched st) db of
              (Some err, db) \<Rightarrow> (Some err, db)
            | (None, db) \<Rightarrow> (None, db\<lparr>sd_redo_log := redo_clear env (sd_redo_log db)\<rparr>))"

section \<open>Versions\<close>

text \<open>
  What a replay restores: for every identity, the multiset of the transactions that ended its copies (\<^verbatim>\<open>0\<close> for a live copy). Two lists
  of rows with the same \<open>killers\<close> hold the same versions with the same number of copies each.
\<close>

definition xmax_text :: "row \<Rightarrow> string" where
  "xmax_text row = (case row_get row ''_xmax'' of None \<Rightarrow> ''0'' | Some x \<Rightarrow> x)"

definition killers :: "disk_codec \<Rightarrow> row list \<Rightarrow> string \<Rightarrow> string multiset" where
  "killers C rows v = mset (map xmax_text (filter (\<lambda>r. version_identity C r = Some v) rows))"

definition identified :: "disk_codec \<Rightarrow> row list \<Rightarrow> bool" where
  "identified C rows \<longleftrightarrow> list_all (\<lambda>r. version_identity C r \<noteq> None) rows"

definition inserts_of :: "disk_codec \<Rightarrow> RedoOp list \<Rightarrow> string \<Rightarrow> string \<Rightarrow> nat" where
  "inserts_of C ops table v =
     length (filter (\<lambda>op. redo_kind op = InsertVersion \<and> redo_table op = table \<and> map_option snd (op_version C op) = Some v) ops)"

definition kills_of :: "disk_codec \<Rightarrow> RedoOp list \<Rightarrow> string \<Rightarrow> string \<Rightarrow> string \<Rightarrow> nat" where
  "kills_of C ops table v x =
     length (filter (\<lambda>op. redo_kind op = SetXmax \<and> redo_table op = table \<and> redo_xmax op = x \<and> map_option snd (op_version C op) = Some v) ops)"

text \<open>Well-formed logs: table names and transaction ids without NUL bytes, inserted versions live, no version ended by \<^verbatim>\<open>0\<close>.\<close>

definition log_op_ok :: "disk_codec \<Rightarrow> RedoOp \<Rightarrow> bool" where
  "log_op_ok C op \<longleftrightarrow> CHR 0x00 \<notin> set (redo_table op)
     \<and> (redo_kind op = SetXmax \<longrightarrow> CHR 0x00 \<notin> set (redo_xmax op) \<and> redo_xmax op \<noteq> ''0'')
     \<and> (redo_kind op = InsertVersion \<longrightarrow> (case op_version C op of None \<Rightarrow> True | Some (row, v) \<Rightarrow> is_visible row))"

lemma op_kinds [simp]: "InsertVersion \<noteq> SetXmax" "SetXmax \<noteq> InsertVersion" "InsertVersion \<noteq> TableFlushed" "SetXmax \<noteq> TableFlushed"
  "TableFlushed \<noteq> InsertVersion" "TableFlushed \<noteq> SetXmax"
  by (simp_all add: InsertVersion_def SetXmax_def TableFlushed_def)

lemma split_at: "a \<notin> set xs \<Longrightarrow> a \<notin> set ys \<Longrightarrow> xs @ a # us = ys @ a # vs \<longleftrightarrow> xs = ys \<and> us = vs"
proof (induction xs arbitrary: ys)
  case Nil
  then show ?case
    by (cases ys) auto
next
  case (Cons x xs)
  then show ?case
    by (cases ys) auto
qed

lemma split_at_end: "a \<notin> set us \<Longrightarrow> a \<notin> set vs \<Longrightarrow> xs @ a # us = ys @ a # vs \<longleftrightarrow> xs = ys \<and> us = vs"
  using split_at [of a "rev us" "rev vs" "rev xs" "rev ys"] by (metis rev_append rev_rev_ident rev.simps(2) append_Cons append_Nil append.assoc set_rev)

lemma insert_key_inject:
  "CHR 0x00 \<notin> set t \<Longrightarrow> CHR 0x00 \<notin> set t' \<Longrightarrow> insert_key t v = insert_key t' v' \<longleftrightarrow> t = t' \<and> v = v'"
  by (simp add: insert_key_def split_at)

lemma kill_key_inject:
  "CHR 0x00 \<notin> set t \<Longrightarrow> CHR 0x00 \<notin> set t' \<Longrightarrow> CHR 0x00 \<notin> set x \<Longrightarrow> CHR 0x00 \<notin> set x' \<Longrightarrow>
   kill_key t v x = kill_key t' v' x' \<longleftrightarrow> t = t' \<and> v = v' \<and> x = x'"
  by (simp add: kill_key_def split_at split_at_end)

lemma xmax_text_0: "is_visible r \<longleftrightarrow> xmax_text r = ''0''"
  by (simp add: is_visible_def xmax_text_def split: option.split)

lemma stamped_by_text: "x \<noteq> ''0'' \<Longrightarrow> stamped_by x r \<longleftrightarrow> xmax_text r = x"
  by (auto simp: stamped_by_def xmax_text_def split: option.split)

lemma killers_append: "killers C (xs @ ys) v = killers C xs v + killers C ys v"
  by (simp add: killers_def)

lemma identity_set_xmax [simp]: "version_identity C (row_set ''_xmax'' x r) = version_identity C r"
  by (simp add: version_identity_def)

section \<open>Positions\<close>

definition positions_of :: "disk_codec \<Rightarrow> row list \<Rightarrow> string \<Rightarrow> nat list" where
  "positions_of C rows v = filter (\<lambda>i. version_identity C (rows ! i) = Some v) [0..<length rows]"

definition index_ok :: "disk_codec \<Rightarrow> row list \<Rightarrow> positions \<Rightarrow> bool" where
  "index_ok C rows m \<longleftrightarrow> (\<forall>v. m v = (if positions_of C rows v = [] then None else Some (positions_of C rows v)))"

lemma positions_of_snoc:
  "positions_of C (rows @ [r]) v = positions_of C rows v @ (if version_identity C r = Some v then [length rows] else [])"
proof -
  have "filter (\<lambda>i. version_identity C ((rows @ [r]) ! i) = Some v) [0..<length rows] = positions_of C rows v"
    unfolding positions_of_def by (rule filter_cong) (auto simp: nth_append)
  then show ?thesis
    by (simp add: positions_of_def)
qed

lemma nth_positions: "map ((!) rows) (positions_of C rows v) = filter (\<lambda>r. version_identity C r = Some v) rows"
proof -
  have "filter P rows = map ((!) rows) (filter (\<lambda>i. P (rows ! i)) [0..<length rows])" for P
    using filter_map [of P "(!) rows" "[0..<length rows]"] by (simp add: map_nth comp_def)
  then show ?thesis
    by (simp add: positions_of_def)
qed

lemma killers_positions: "killers C rows v = mset (map (\<lambda>i. xmax_text (rows ! i)) (positions_of C rows v))"
  unfolding killers_def nth_positions [symmetric] by (simp add: comp_def)

lemma size_killers: "size (killers C rows v) = length (positions_of C rows v)"
  by (simp add: killers_positions)

lemma at_pos_ok: "index_ok C rows m \<Longrightarrow> at_pos m v = positions_of C rows v"
  by (simp add: index_ok_def at_pos_def)

lemma index_ok_snoc:
  "index_ok C rows m \<Longrightarrow> version_identity C r = Some v \<Longrightarrow> index_ok C (rows @ [r]) (m(v \<mapsto> at_pos m v @ [length rows]))"
  by (auto simp: index_ok_def positions_of_snoc at_pos_def)

lemma index_rows_ok:
  "identified C rows \<Longrightarrow> index_ok C pre m \<Longrightarrow> \<exists>m'. index_rows C (length pre) rows m = Some m' \<and> index_ok C (pre @ rows) m'"
proof (induction rows arbitrary: pre m)
  case (Cons r rows)
  then obtain v where v: "version_identity C r = Some v"
    by (auto simp: identified_def)
  then show ?case
    using Cons.IH [of "pre @ [r]", OF _ index_ok_snoc [OF Cons.prems(2) v]] Cons.prems(1) by (simp add: identified_def fun_upd_def)
qed simp

text \<open>A state in which every index is that of its rows; \<^verbatim>\<open>ensure_index\<close> keeps it so and gives the index.\<close>

definition replay_ok :: "disk_codec \<Rightarrow> replay \<Rightarrow> bool" where
  "replay_ok C st \<longleftrightarrow> (\<forall>t rows. rp_tables st t = Some rows \<longrightarrow> identified C rows)
     \<and> (\<forall>t m. rp_pos st t = Some m \<longrightarrow> (\<exists>rows. rp_tables st t = Some rows \<and> index_ok C rows m))"

lemma ensure_index_none: "rp_tables st t = None \<Longrightarrow> ensure_index C t st = Some (None, st)"
  by (simp add: ensure_index_def)

lemma ensure_index_some:
  assumes "replay_ok C st" "rp_tables st t = Some rows"
  obtains m st' where "ensure_index C t st = Some (Some (rows, m), st')" "index_ok C rows m" "replay_ok C st'"
    "rp_tables st' = rp_tables st" "rp_pos st' t = Some m" "rp_touched st' = rp_touched st"
proof (cases "rp_pos st t")
  case None
  have "index_ok C [] Map.empty"
    by (simp add: index_ok_def positions_of_def)
  then obtain m where m: "index_rows C 0 rows Map.empty = Some m" "index_ok C rows m"
    using index_rows_ok [of C rows "[]" Map.empty] assms by (auto simp: replay_ok_def)
  show ?thesis
    by (rule that [of m "st\<lparr>rp_pos := (rp_pos st)(t \<mapsto> m)\<rparr>"])
      (use assms None m in \<open>auto simp: ensure_index_def replay_ok_def\<close>)
next
  case (Some m)
  then have "index_ok C rows m"
    using assms by (fastforce simp: replay_ok_def)
  then show ?thesis
    using that [of m st] assms Some by (simp add: ensure_index_def)
qed

section \<open>The first phase\<close>

text \<open>
  The state after the operations \<open>ops\<close>, from the tables \<open>T0\<close>: a table has the versions it had, and live copies of every logged version up to the
  number of its logged copies.
\<close>

definition inserted :: "disk_codec \<Rightarrow> (string \<rightharpoonup> row list) \<Rightarrow> RedoOp list \<Rightarrow> replay \<Rightarrow> (string \<Rightarrow> nat) \<Rightarrow> bool" where
  "inserted C T0 ops st sn \<longleftrightarrow> replay_ok C st \<and> dom (rp_tables st) = dom T0
     \<and> (\<forall>t rows0 rows v. T0 t = Some rows0 \<and> rp_tables st t = Some rows \<longrightarrow>
          killers C rows v = killers C rows0 v + replicate_mset (inserts_of C ops t v - size (killers C rows0 v)) ''0'')
     \<and> (\<forall>t v. CHR 0x00 \<notin> set t \<and> T0 t \<noteq> None \<longrightarrow> sn (insert_key t v) = inserts_of C ops t v)"

lemma inserts_of_snoc:
  "inserts_of C (ops @ [op]) t v =
    inserts_of C ops t v + (if redo_kind op = InsertVersion \<and> redo_table op = t \<and> map_option snd (op_version C op) = Some v then 1 else 0)"
  by (simp add: inserts_of_def)

lemma insertedD:
  assumes "inserted C T0 ops st sn" "T0 t = Some rows0"
  obtains rows where "rp_tables st t = Some rows" "replay_ok C st"
    "\<And>v. killers C rows v = killers C rows0 v + replicate_mset (inserts_of C ops t v - size (killers C rows0 v)) ''0''"
    "CHR 0x00 \<notin> set t \<longrightarrow> (\<forall>v. sn (insert_key t v) = inserts_of C ops t v)"
proof -
  have "t \<in> dom (rp_tables st)"
    using assms by (auto simp: inserted_def)
  then obtain rows where "rp_tables st t = Some rows"
    by auto
  then show ?thesis
    using assms that unfolding inserted_def by (metis option.distinct(1))
qed

text \<open>An operation that does not count for any table, or only where the copies were there already, leaves the relation as it is.\<close>

lemma inserted_same:
  assumes "inserted C T0 ops st sn" "\<And>t v. CHR 0x00 \<notin> set t \<Longrightarrow> T0 t \<noteq> None \<Longrightarrow> sn' (insert_key t v) = inserts_of C ops' t v"
    and "\<And>t rows0 v. T0 t = Some rows0 \<Longrightarrow>
      inserts_of C ops' t v - size (killers C rows0 v) = inserts_of C ops t v - size (killers C rows0 v)"
  shows "inserted C T0 ops' st sn'"
  using assms unfolding inserted_def by simp

lemma killers_live_snoc:
  assumes "version_identity C row = Some v" "is_visible row"
  shows "killers C (rows @ [row]) v' = killers C rows v' + (if v' = v then {#''0''#} else {#}) "
  using assms by (auto simp: killers_append) (auto simp: killers_def xmax_text_0)

lemma inserted_step:
  assumes inv: "inserted C T0 ops st sn" and ok: "log_op_ok C op"
  shows "\<exists>st' sn'. replay_insert C op (st, sn) = (None, st', sn') \<and> inserted C T0 (ops @ [op]) st' sn'"
proof (cases "redo_kind op = InsertVersion \<and> T0 (redo_table op) \<noteq> None")
  case False
  have "rp_tables st t = None" if "T0 t = None" for t
    using inv that by (auto simp: inserted_def)
  then have "replay_insert C op (st, sn) = (None, st, sn)"
    using False ensure_index_none [of st "redo_table op" C] by (auto simp: replay_insert_def)
  moreover have "inserts_of C (ops @ [op]) t v = inserts_of C ops t v" if "T0 t \<noteq> None" for t v
    using False that by (auto simp: inserts_of_snoc)
  then have "inserted C T0 (ops @ [op]) st sn"
    using inv by (intro inserted_same [OF inv]) (auto simp: inserted_def)
  ultimately show ?thesis
    by blast
next
  case True
  let ?t = "redo_table op"
  obtain rows0 where T0: "T0 ?t = Some rows0"
    using True by auto
  obtain rows where rows: "rp_tables st ?t = Some rows" "replay_ok C st"
    and kl: "\<And>v. killers C rows v = killers C rows0 v + replicate_mset (inserts_of C ops ?t v - size (killers C rows0 v)) ''0''"
    and sn: "CHR 0x00 \<notin> set ?t \<longrightarrow> (\<forall>v. sn (insert_key ?t v) = inserts_of C ops ?t v)"
    using insertedD [OF inv T0] by metis
  obtain m st1 where e: "ensure_index C ?t st = Some (Some (rows, m), st1)" "index_ok C rows m" "replay_ok C st1"
      "rp_tables st1 = rp_tables st" "rp_pos st1 ?t = Some m"
    using ensure_index_some [OF rows(2,1)] by metis
  have inv1: "inserted C T0 ops st1 sn"
    using inv e(3,4) by (simp add: inserted_def)
  show ?thesis
  proof (cases "op_version C op")
    case None
    then have "replay_insert C op (st, sn) = (None, st1, sn)"
      using True e by (simp add: replay_insert_def)
    moreover have "inserts_of C (ops @ [op]) t v = inserts_of C ops t v" for t v
      using None by (simp add: inserts_of_snoc)
    ultimately show ?thesis
      using inv1 by (simp add: inserted_def)
  next
    case (Some rv)
    obtain row v where rv: "rv = (row, v)"
      by fastforce
    have nul: "CHR 0x00 \<notin> set ?t" and live: "is_visible row"
      using ok True Some rv by (auto simp: log_op_ok_def)
    have id: "version_identity C row = Some v"
      using Some rv by (auto simp: op_version_def split: option.splits)
    let ?sn = "sn(insert_key ?t v := inserts_of C ops ?t v + 1)"
    have len: "length (at_pos m v) = size (killers C rows v)"
      using at_pos_ok [OF e(2)] size_killers by simp
    have cnt: "inserts_of C (ops @ [op]) t' v' = inserts_of C ops t' v' + (if t' = ?t \<and> v' = v then 1 else 0)" for t' v'
      using True Some rv by (auto simp: inserts_of_snoc)
    have sn': "?sn (insert_key t' v') = inserts_of C (ops @ [op]) t' v'" if "CHR 0x00 \<notin> set t'" "T0 t' \<noteq> None" for t' v'
      using that inv nul insert_key_inject [OF that(1) nul] by (auto simp: cnt inserted_def)
    show ?thesis
    proof (cases "inserts_of C ops ?t v + 1 \<le> length (at_pos m v)")
      case present: True
      have "replay_insert C op (st, sn) = (None, st1, ?sn)"
        using True e Some rv sn nul present by (simp add: replay_insert_def)
      moreover have "inserts_of C ops ?t v - size (killers C rows0 v) = 0" "inserts_of C (ops @ [op]) ?t v - size (killers C rows0 v) = 0"
        using present kl [of v] by (auto simp: len cnt split: if_splits)
      then have "inserts_of C (ops @ [op]) t' v' - size (killers C rows0' v') = inserts_of C ops t' v' - size (killers C rows0' v')"
        if "T0 t' = Some rows0'" for t' rows0' v'
        using that T0 by (auto simp: cnt)
      then have "inserted C T0 (ops @ [op]) st1 ?sn"
        using sn' by (intro inserted_same [OF inv1]) auto
      ultimately show ?thesis
        by blast
    next
      case absent: False
      let ?st = "st1\<lparr>rp_tables := (rp_tables st1)(?t \<mapsto> rows @ [row]), rp_pos := (rp_pos st1)(?t \<mapsto> m(v \<mapsto> at_pos m v @ [length rows])),
        rp_touched := set_insert ?t (rp_touched st1)\<rparr>"
      have "replay_insert C op (st, sn) = (None, ?st, ?sn)"
        using True e Some rv sn nul absent by (simp add: replay_insert_def Let_def)
      moreover have "replay_ok C ?st"
        using e(3) rows(1) id index_ok_snoc [OF e(2) id] by (auto simp: replay_ok_def identified_def e(4))
      moreover have "killers C (rows @ [row]) v' = killers C rows0 v' + replicate_mset (inserts_of C (ops @ [op]) ?t v' - size (killers C rows0 v')) ''0''" for v'
        using absent kl [of v'] by (auto simp: killers_live_snoc [OF id live] len cnt Suc_diff_le not_le)
      ultimately show ?thesis
        using inv1 sn' T0 rows(1) e(4) unfolding inserted_def
        by (intro exI [of _ ?st] exI [of _ ?sn]) (auto simp: cnt dom_def)
    qed
  qed
qed

lemma replay_loop_inv:
  assumes "\<And>pre op rest s. ops = pre @ op # rest \<Longrightarrow> P pre s \<Longrightarrow> \<exists>s'. step op s = (None, s') \<and> P (pre @ [op]) s'" "P [] s"
  shows "\<exists>s'. replay_loop step ops s = (None, s') \<and> P ops s'"
proof -
  have "\<exists>s'. replay_loop step xs s = (None, s') \<and> P (pre @ xs) s'" if "ops = pre @ xs" "P pre s" for pre xs s
    using that
  proof (induction xs arbitrary: pre s)
    case (Cons op xs)
    from assms(1) [of pre op xs s] obtain s' where s': "step op s = (None, s')" "P (pre @ [op]) s'"
      using Cons.prems by blast
    from Cons.IH [of "pre @ [op]" s'] show ?case
      using Cons.prems(1) s' by simp
  qed simp
  from this [of "[]"] show ?thesis
    using assms(2) by simp
qed

lemma first_phase:
  assumes "\<forall>op \<in> set ops. log_op_ok C op" "\<And>t rows. T0 t = Some rows \<Longrightarrow> identified C rows"
  shows "\<exists>st sn. replay_loop (replay_insert C) ops (\<lparr>rp_tables = T0, rp_pos = Map.empty, rp_touched = []\<rparr>, \<lambda>_. 0) = (None, st, sn)
    \<and> inserted C T0 ops st sn"
proof -
  let ?s = "(\<lparr>rp_tables = T0, rp_pos = Map.empty, rp_touched = []\<rparr>, \<lambda>_. 0 :: nat)"
  have "\<exists>s'. replay_loop (replay_insert C) ops ?s = (None, s') \<and> inserted C T0 ops (fst s') (snd s')"
  proof (rule replay_loop_inv)
    fix pre op rest s
    assume "ops = pre @ op # rest" "inserted C T0 pre (fst s) (snd s)"
    then show "\<exists>s'. replay_insert C op s = (None, s') \<and> inserted C T0 (pre @ [op]) (fst s') (snd s')"
      using inserted_step [of C T0 pre "fst s" "snd s" op] assms(1) by fastforce
  qed (use assms(2) in \<open>auto simp: inserted_def replay_ok_def inserts_of_def\<close>)
  then show ?thesis
    by fastforce
qed

section \<open>The second phase\<close>

lemma killers_Cons: "killers C (r # rows) v = (if version_identity C r = Some v then {#xmax_text r#} else {#}) + killers C rows v"
  by (simp add: killers_def)

lemma killers_update:
  assumes "p < length rows" "is_visible (rows ! p)" "version_identity C (rows ! p) = Some v"
  shows "killers C (rows[p := row_set ''_xmax'' x (rows ! p)]) v' =
    (if v' = v then killers C rows v - {#''0''#} + {#x#} else killers C rows v')"
proof -
  have x: "xmax_text (row_set ''_xmax'' x r) = x" for r
    by (simp add: xmax_text_def)
  have "killers C rows v' = killers C (take p rows @ rows ! p # drop (Suc p) rows) v'"
    using assms(1) by (simp add: id_take_nth_drop [symmetric])
  then show ?thesis
    using assms by (auto simp: upd_conv_take_nth_drop killers_append killers_Cons x xmax_text_0)
qed

lemma positions_of_cong:
  assumes "map (version_identity C) rows = map (version_identity C) rows'"
  shows "positions_of C rows v = positions_of C rows' v"
proof -
  have "length rows = length rows'"
    using assms by (metis length_map)
  moreover have "version_identity C (rows ! i) = version_identity C (rows' ! i)" if "i < length rows" for i
    using assms that calculation by (metis nth_map)
  ultimately show ?thesis
    unfolding positions_of_def by (auto intro: filter_cong)
qed

lemma index_ok_cong: "map (version_identity C) rows = map (version_identity C) rows' \<Longrightarrow> index_ok C rows m = index_ok C rows' m"
  using positions_of_cong [of C rows rows'] by (simp add: index_ok_def)

lemma identity_update:
  "map (version_identity C) (rows[p := row_set ''_xmax'' x (rows ! p)]) = map (version_identity C) rows"
  by (cases "p < length rows") (simp_all add: map_update list_update_same_conv list_update_beyond)

lemma identified_cong: "map (version_identity C) rows = map (version_identity C) rows' \<Longrightarrow> identified C rows = identified C rows'"
proof -
  assume "map (version_identity C) rows = map (version_identity C) rows'"
  moreover have "identified C rows \<longleftrightarrow> None \<notin> set (map (version_identity C) rows)" for rows
    by (force simp: identified_def list_all_iff)
  ultimately show ?thesis
    by (simp only:)
qed

text \<open>
  The state after the operations \<open>ops\<close>, seen from the table \<open>t\<close> that had the rows \<open>rows1\<close>: of every identity, each transaction has ended as many
  copies as it had ended before, or as many as are logged.
\<close>

definition ended :: "disk_codec \<Rightarrow> string \<Rightarrow> row list \<Rightarrow> RedoOp list \<Rightarrow> replay \<Rightarrow> kills \<Rightarrow> bool" where
  "ended C t rows1 ops st ks \<longleftrightarrow> replay_ok C st
     \<and> (\<exists>rows. rp_tables st t = Some rows \<and> map (version_identity C) rows = map (version_identity C) rows1
          \<and> (\<forall>v x. killers C rows1 v \<noteq> {#} \<and> x \<noteq> ''0'' \<longrightarrow>
              count (killers C rows v) x = max (count (killers C rows1 v) x) (kills_of C ops t v x)))
     \<and> (\<forall>v x. killers C rows1 v \<noteq> {#} \<and> CHR 0x00 \<notin> set x \<and> x \<noteq> ''0'' \<longrightarrow>
          kills_seen ks (kill_key t v x) = kills_of C ops t v x
          \<and> kills_present ks (kill_key t v x) \<in> (if kills_of C ops t v x = 0 then {None, Some (count (killers C rows1 v) x)} else {Some (count (killers C rows1 v) x)}))"

lemma kills_of_snoc:
  "kills_of C (ops @ [op]) t v x = kills_of C ops t v x
    + (if redo_kind op = SetXmax \<and> redo_table op = t \<and> redo_xmax op = x \<and> map_option snd (op_version C op) = Some v then 1 else 0)"
  by (simp add: kills_of_def)

lemma kills_of_append: "kills_of C (ops @ ops') t v x = kills_of C ops t v x + kills_of C ops' t v x"
  by (simp add: kills_of_def)

lemma ended_other:
  assumes "ended C t rows1 ops st ks" "replay_ok C st'" "rp_tables st' t = rp_tables st t"
    and "\<And>v x. kills_of C (ops @ [op]) t v x = kills_of C ops t v x \<or> killers C rows1 v = {#}"
    and "\<And>v x. killers C rows1 v \<noteq> {#} \<Longrightarrow> CHR 0x00 \<notin> set x \<Longrightarrow> kills_seen ks' (kill_key t v x) = kills_seen ks (kill_key t v x)"
    and "\<And>v x. killers C rows1 v \<noteq> {#} \<Longrightarrow> CHR 0x00 \<notin> set x \<Longrightarrow> kills_present ks' (kill_key t v x) = kills_present ks (kill_key t v x)"
  shows "ended C t rows1 (ops @ [op]) st' ks'"
proof -
  have eq: "kills_of C (ops @ [op]) t v x = kills_of C ops t v x" if "killers C rows1 v \<noteq> {#}" for v x
    using assms(4) that by blast
  obtain rows where "rp_tables st t = Some rows" "map (version_identity C) rows = map (version_identity C) rows1"
    "\<And>v x. killers C rows1 v \<noteq> {#} \<Longrightarrow> x \<noteq> ''0'' \<Longrightarrow> count (killers C rows v) x = max (count (killers C rows1 v) x) (kills_of C ops t v x)"
    using assms(1) unfolding ended_def by blast
  then have "\<exists>rows. rp_tables st' t = Some rows \<and> map (version_identity C) rows = map (version_identity C) rows1
      \<and> (\<forall>v x. killers C rows1 v \<noteq> {#} \<and> x \<noteq> ''0'' \<longrightarrow>
          count (killers C rows v) x = max (count (killers C rows1 v) x) (kills_of C (ops @ [op]) t v x))"
    using assms(3) eq by auto
  then show ?thesis
    using assms(1,2,5,6) eq unfolding ended_def by auto
qed

text \<open>What one operation does to the state, for any table it may name.\<close>

lemma replay_ok_update:
  assumes "replay_ok C st" "rp_tables st t = Some rows"
  shows "replay_ok C (st\<lparr>rp_tables := (rp_tables st)(t \<mapsto> rows[p := row_set ''_xmax'' x (rows ! p)]), rp_touched := ts\<rparr>)"
  using assms index_ok_cong [OF identity_update [of C rows p x]] identified_cong [OF identity_update [of C rows p x]]
  by (auto simp: replay_ok_def; metis option.inject)

text \<open>
  If a transaction is still to end a copy in the table \<open>F\<close> the log leads to, there is a live copy it can end: as many copies as \<open>F\<close> has, none
  of them ended more often than in \<open>F\<close>, and this transaction less often.
\<close>

lemma live_copy:
  fixes M N :: "string multiset"
  assumes "size M = size N" "\<And>x. x \<noteq> ''0'' \<Longrightarrow> count M x \<le> count N x" "count M x < count N x"
  shows "''0'' \<in># M"
proof (rule ccontr)
  assume "''0'' \<notin># M"
  then have "M \<subseteq># N"
    using assms(2) by (intro mset_subset_eqI) (metis count_inI zero_le)
  then have "M = N"
    using assms(1) by (metis mset_subset_size subset_mset.le_imp_less_or_eq less_irrefl)
  then show False
    using assms(3) by simp
qed

lemma positions_in:
  "p \<in> set (positions_of C rows v) \<Longrightarrow> p < length rows \<and> version_identity C (rows ! p) = Some v"
  by (simp add: positions_of_def)

lemma find_live:
  assumes "''0'' \<in># killers C rows v"
  obtains p where "find (\<lambda>p. is_visible (rows ! p)) (positions_of C rows v) = Some p" "p \<in> set (positions_of C rows v)" "is_visible (rows ! p)"
proof (cases "find (\<lambda>p. is_visible (rows ! p)) (positions_of C rows v)")
  case None
  then show ?thesis
    using assms by (auto simp: find_None_iff killers_positions xmax_text_0)
next
  case (Some p)
  then show ?thesis
    using that by (auto simp: find_Some_iff in_set_conv_nth)
qed

lemma stamped_count:
  assumes "x \<noteq> ''0''"
  shows "length (filter (\<lambda>p. stamped_by x (rows ! p)) (positions_of C rows v)) = count (killers C rows v) x"
proof -
  have "count (mset (map f ps)) x = length (filter (\<lambda>p. f p = x) ps)" for f and ps :: "nat list"
    by (induction ps) auto
  then show ?thesis
    using assms by (simp add: killers_positions stamped_by_text)
qed

definition leads_to :: "disk_codec \<Rightarrow> string \<Rightarrow> row list \<Rightarrow> RedoOp list \<Rightarrow> row list \<Rightarrow> bool" where
  "leads_to C t rows ops F \<longleftrightarrow> (\<forall>v. killers C rows v \<noteq> {#} \<longrightarrow> size (killers C F v) = size (killers C rows v)
     \<and> (\<forall>x. x \<noteq> ''0'' \<longrightarrow> count (killers C F v) x = max (count (killers C rows v) x) (kills_of C ops t v x)))"

text \<open>The operation on a version that has copies in the table: the counters, and the row it may stamp.\<close>

definition counted :: "disk_codec \<Rightarrow> RedoOp \<Rightarrow> string \<Rightarrow> row list \<Rightarrow> kills \<Rightarrow> kills" where
  "counted C op v rows ks =
     (let key = kill_key (redo_table op) v (redo_xmax op) in
      ks\<lparr>kills_present := (kills_present ks)(key \<mapsto>
           (case kills_present ks key of Some n \<Rightarrow> n | None \<Rightarrow> length (filter (\<lambda>p. stamped_by (redo_xmax op) (rows ! p)) (positions_of C rows v)))),
         kills_seen := (kills_seen ks)(key := kills_seen ks key + 1)\<rparr>)"

definition stamp :: "disk_codec \<Rightarrow> RedoOp \<Rightarrow> string \<Rightarrow> row list \<Rightarrow> kills \<Rightarrow> replay \<Rightarrow> replay" where
  "stamp C op v rows ks st =
     (let key = kill_key (redo_table op) v (redo_xmax op) in
      if kills_seen (counted C op v rows ks) key \<le> the (kills_present (counted C op v rows ks) key) then st
      else case find (\<lambda>p. is_visible (rows ! p)) (positions_of C rows v) of
          None \<Rightarrow> st
        | Some p \<Rightarrow> st\<lparr>rp_tables := (rp_tables st)(redo_table op \<mapsto> rows[p := row_set ''_xmax'' (redo_xmax op) (rows ! p)]),
            rp_touched := set_insert (redo_table op) (rp_touched st)\<rparr>)"

lemma replay_kill_cases:
  assumes "replay_ok C st"
  shows "(\<exists>st'. replay_kill C op (st, ks) = (None, st', ks) \<and> replay_ok C st' \<and> rp_tables st' = rp_tables st \<and>
      (\<forall>row v rows. redo_kind op = SetXmax \<and> op_version C op = Some (row, v) \<and> rp_tables st (redo_table op) = Some rows \<longrightarrow> killers C rows v = {#})) \<or>
    (\<exists>st1 row v rows. replay_kill C op (st, ks) = (None, stamp C op v rows ks st1, counted C op v rows ks) \<and> redo_kind op = SetXmax \<and>
      replay_ok C st1 \<and> rp_tables st1 = rp_tables st \<and> op_version C op = Some (row, v) \<and> rp_tables st (redo_table op) = Some rows \<and> killers C rows v \<noteq> {#})"
    (is "?nothing \<or> ?copies")
proof (cases "redo_kind op = SetXmax")
  case False
  then have ?nothing
    using assms by (intro exI [of _ st]) (simp add: replay_kill_def)
  then show ?thesis ..
next
  case kind: True
  show ?thesis
  proof (cases "rp_tables st (redo_table op)")
    case None
    then have ?nothing
      using assms kind by (intro exI [of _ st]) (simp add: replay_kill_def ensure_index_none)
    then show ?thesis ..
  next
    case (Some rows)
    obtain m st1 where e: "ensure_index C (redo_table op) st = Some (Some (rows, m), st1)" "index_ok C rows m" "replay_ok C st1"
        "rp_tables st1 = rp_tables st" "rp_pos st1 (redo_table op) = Some m" "rp_touched st1 = rp_touched st"
      by (rule ensure_index_some [OF assms Some])
    show ?thesis
    proof (cases "op_version C op")
      case None
      then have ?nothing
        using kind e by (intro exI [of _ st1]) (simp add: replay_kill_def)
      then show ?thesis ..
    next
      case v: (Some rv)
      obtain row v where rv: "rv = (row, v)"
        by fastforce
      show ?thesis
      proof (cases "positions_of C rows v = []")
        case True
        then have "m v = None" "killers C rows v = {#}"
          using e(2) by (simp_all add: index_ok_def killers_positions)
        then have ?nothing
          using kind e v rv Some by (intro exI [of _ st1]) (simp add: replay_kill_def)
        then show ?thesis ..
      next
        case False
        then have "m v = Some (positions_of C rows v)"
          using e(2) by (simp add: index_ok_def)
        then have "replay_kill C op (st, ks) = (None, stamp C op v rows ks st1, counted C op v rows ks)"
          using kind e(1) v rv by (simp add: replay_kill_def stamp_def counted_def Let_def split: option.split)
        moreover have "killers C rows v \<noteq> {#}"
          using False by (simp add: killers_positions)
        ultimately have ?copies
          using kind e v rv Some by blast
        then show ?thesis ..
      qed
    qed
  qed
qed

lemma stamp_ok:
  assumes "replay_ok C st" "rp_tables st (redo_table op) = Some rows"
  shows "replay_ok C (stamp C op v rows ks st)" "t \<noteq> redo_table op \<Longrightarrow> rp_tables (stamp C op v rows ks st) t = rp_tables st t"
  using assms replay_ok_update [OF assms] by (auto simp: stamp_def Let_def split: option.split)

lemma ended_stamp:
  assumes inv: "ended C t rows1 pre st ks" and F: "leads_to C t rows1 (pre @ op # rest) F"
    and op: "redo_kind op = SetXmax" "redo_table op = t" "op_version C op = Some (row, v)" "CHR 0x00 \<notin> set (redo_xmax op)" "redo_xmax op \<noteq> ''0''"
    and st1: "replay_ok C st1" "rp_tables st1 = rp_tables st"
    and rows: "rp_tables st t = Some rows" "map (version_identity C) rows = map (version_identity C) rows1"
    and cnt: "\<And>v x. killers C rows1 v \<noteq> {#} \<Longrightarrow> x \<noteq> ''0'' \<Longrightarrow>
      count (killers C rows v) x = max (count (killers C rows1 v) x) (kills_of C pre t v x)"
    and v: "killers C rows v \<noteq> {#}" and t: "CHR 0x00 \<notin> set t"
  shows "ended C t rows1 (pre @ [op]) (stamp C op v rows ks st1) (counted C op v rows ks)"
proof -
  let ?x = "redo_xmax op" let ?c = "count (killers C rows1 v) ?x" let ?k = "kills_of C pre t v ?x"
  have size: "size (killers C rows w) = size (killers C rows1 w)" for w
    using positions_of_cong [OF rows(2)] by (simp add: size_killers)
  have v1: "killers C rows1 v \<noteq> {#}"
    using size [of v] v by auto
  have kills: "kills_of C (pre @ [op]) t w y = kills_of C pre t w y + (if w = v \<and> y = ?x then 1 else 0)" for w y
    using op by (auto simp: kills_of_snoc)
  have seen: "kills_seen ks (kill_key t v ?x) = ?k"
    and present: "kills_present ks (kill_key t v ?x) \<in> (if ?k = 0 then {None, Some ?c} else {Some ?c})"
    using inv v1 op(4,5) unfolding ended_def by blast+
  have key: "kills_present (counted C op v rows ks) (kill_key t v ?x) = Some ?c" "kills_seen (counted C op v rows ks) (kill_key t v ?x) = ?k + 1"
    using present seen stamped_count [OF op(5), of rows C v] cnt [OF v1 op(5)] op(2)
    by (auto simp: counted_def Let_def split: if_splits option.split)
  have counters: "kills_seen (counted C op v rows ks) (kill_key t w y) = kills_of C (pre @ [op]) t w y
      \<and> kills_present (counted C op v rows ks) (kill_key t w y) \<in>
        (if kills_of C (pre @ [op]) t w y = 0 then {None, Some (count (killers C rows1 w) y)} else {Some (count (killers C rows1 w) y)})"
    if "killers C rows1 w \<noteq> {#}" "CHR 0x00 \<notin> set y" "y \<noteq> ''0''" for w y
  proof (cases "w = v \<and> y = ?x")
    case True
    then show ?thesis
      using key by (simp add: kills)
  next
    case False
    then have "kill_key t w y \<noteq> kill_key t v ?x"
      using kill_key_inject [OF t t that(2) op(4)] by blast
    moreover have "kills_seen ks (kill_key t w y) = kills_of C pre t w y \<and> kills_present ks (kill_key t w y) \<in>
        (if kills_of C pre t w y = 0 then {None, Some (count (killers C rows1 w) y)} else {Some (count (killers C rows1 w) y)})"
      using inv that unfolding ended_def by blast
    ultimately show ?thesis
      using False op(2) by (simp add: kills counted_def Let_def split: if_splits)
  qed
  have "\<exists>rows'. rp_tables (stamp C op v rows ks st1) t = Some rows' \<and> map (version_identity C) rows' = map (version_identity C) rows1
      \<and> (\<forall>w y. killers C rows1 w \<noteq> {#} \<and> y \<noteq> ''0'' \<longrightarrow>
          count (killers C rows' w) y = max (count (killers C rows1 w) y) (kills_of C (pre @ [op]) t w y))"
  proof (cases "?k + 1 \<le> ?c")
    case True
    then show ?thesis
      using rows st1(2) key op(2) cnt by (auto simp: stamp_def kills)
  next
    case False
    have "''0'' \<in># killers C rows v"
    proof (rule live_copy)
      show "size (killers C rows v) = size (killers C F v)"
        using F size v1 by (simp add: leads_to_def)
      show "count (killers C rows v) ?x < count (killers C F v) ?x"
        using F v1 op False cnt [OF v1 op(5)] by (simp add: leads_to_def kills_of_append [of C pre "op # rest"]) (simp add: kills_of_def)
    qed (use F v1 cnt in \<open>auto simp: leads_to_def kills_of_append [of C pre "op # rest"]\<close>)
    then obtain p where p: "find (\<lambda>p. is_visible (rows ! p)) (positions_of C rows v) = Some p" "p \<in> set (positions_of C rows v)" "is_visible (rows ! p)"
      by (rule find_live)
    let ?rows = "rows[p := row_set ''_xmax'' ?x (rows ! p)]"
    have "rp_tables (stamp C op v rows ks st1) t = Some ?rows"
      using False key p(1) op(2) by (simp add: stamp_def)
    moreover have "count (killers C ?rows w) y = max (count (killers C rows1 w) y) (kills_of C (pre @ [op]) t w y)"
      if "killers C rows1 w \<noteq> {#}" "y \<noteq> ''0''" for w y
      using cnt [OF that] that(2) False killers_update [OF _ p(3), of C v ?x w] positions_in [OF p(2)] by (auto simp: kills)
    ultimately show ?thesis
      using rows(2) identity_update by metis
  qed
  then show ?thesis
    using counters stamp_ok(1) [OF st1(1)] st1(2) rows(1) op(2) unfolding ended_def by simp
qed

lemma ended_step:
  assumes inv: "ended C t rows1 pre st ks" and ok: "log_op_ok C op" and t: "CHR 0x00 \<notin> set t"
    and F: "leads_to C t rows1 (pre @ op # rest) F"
  shows "\<exists>st' ks'. replay_kill C op (st, ks) = (None, st', ks') \<and> ended C t rows1 (pre @ [op]) st' ks'"
proof -
  have rok: "replay_ok C st"
    using inv by (simp add: ended_def)
  obtain rows where rows: "rp_tables st t = Some rows" "map (version_identity C) rows = map (version_identity C) rows1"
    and cnt: "\<And>v x. killers C rows1 v \<noteq> {#} \<Longrightarrow> x \<noteq> ''0'' \<Longrightarrow> count (killers C rows v) x = max (count (killers C rows1 v) x) (kills_of C pre t v x)"
    using inv unfolding ended_def by blast
  have size: "size (killers C rows v) = size (killers C rows1 v)" for v
    using positions_of_cong [OF rows(2)] by (simp add: size_killers)
  consider
      (untouched) st' where "replay_kill C op (st, ks) = (None, st', ks)" "replay_ok C st'" "rp_tables st' = rp_tables st"
        "\<forall>row v rows. redo_kind op = SetXmax \<and> op_version C op = Some (row, v) \<and> rp_tables st (redo_table op) = Some rows \<longrightarrow> killers C rows v = {#}"
    | (copies) st1 row v rows' where "replay_kill C op (st, ks) = (None, stamp C op v rows' ks st1, counted C op v rows' ks)" "redo_kind op = SetXmax"
        "replay_ok C st1" "rp_tables st1 = rp_tables st" "op_version C op = Some (row, v)" "rp_tables st (redo_table op) = Some rows'" "killers C rows' v \<noteq> {#}"
    using replay_kill_cases [OF rok, of op ks] by blast
  then show ?thesis
  proof cases
    case (untouched st')
    have "killers C rows1 v = {#}" if "redo_kind op = SetXmax" "redo_table op = t" "map_option snd (op_version C op) = Some v" for v
      using untouched(4) that rows(1) size [of v] by auto
    then have "ended C t rows1 (pre @ [op]) st' ks"
      using untouched by (intro ended_other [OF inv]) (auto simp: kills_of_snoc)
    then show ?thesis
      using untouched(1) by blast
  next
    case (copies st1 row v rows')
    have x: "CHR 0x00 \<notin> set (redo_xmax op)" "redo_xmax op \<noteq> ''0''" "CHR 0x00 \<notin> set (redo_table op)"
      using ok copies(2) by (auto simp: log_op_ok_def)
    have st1: "rp_tables st1 (redo_table op) = Some rows'"
      using copies by simp
    note keys = kill_key_inject [OF t x(3) _ x(1)]
    show ?thesis
    proof (cases "redo_table op = t")
      case False
      then have "ended C t rows1 (pre @ [op]) (stamp C op v rows' ks st1) (counted C op v rows' ks)"
        using copies stamp_ok [OF copies(3) st1] keys by (intro ended_other [OF inv]) (auto simp: kills_of_snoc counted_def Let_def)
      then show ?thesis
        using copies(1) by blast
    next
      case True
      have "ended C t rows1 (pre @ [op]) (stamp C op v rows ks st1) (counted C op v rows ks)"
        using ended_stamp [OF inv F copies(2) True copies(5) x(1,2) copies(3,4) rows cnt] copies(6,7) True rows(1) t by simp
      then show ?thesis
        using copies True rows(1) by auto
    qed
  qed
qed

lemma second_phase:
  assumes "\<forall>op \<in> set ops. log_op_ok C op" "replay_ok C st" "rp_tables st t = Some rows1" "CHR 0x00 \<notin> set t" "leads_to C t rows1 ops F"
  shows "\<exists>st' ks. replay_loop (replay_kill C) ops (st, \<lparr>kills_seen = (\<lambda>_. 0), kills_present = Map.empty\<rparr>) = (None, st', ks)
    \<and> ended C t rows1 ops st' ks"
proof -
  let ?s = "(st, \<lparr>kills_seen = (\<lambda>_. 0), kills_present = Map.empty\<rparr>)"
  have "\<exists>s'. replay_loop (replay_kill C) ops ?s = (None, s') \<and> ended C t rows1 ops (fst s') (snd s')"
  proof (rule replay_loop_inv)
    fix pre op rest s
    assume "ops = pre @ op # rest" "ended C t rows1 pre (fst s) (snd s)"
    then show "\<exists>s'. replay_kill C op s = (None, s') \<and> ended C t rows1 (pre @ [op]) (fst s') (snd s')"
      using ended_step [of C t rows1 pre "fst s" "snd s" op rest F] assms(1,4,5) by fastforce
  qed (use assms in \<open>simp add: ended_def kills_of_def\<close>)
  then show ?thesis
    by fastforce
qed

text \<open>Multisets of the same size that agree but for one element are equal.\<close>

lemma multiset_but_one:
  fixes M N :: "'a multiset"
  assumes "size M = size N" "\<And>x. x \<noteq> a \<Longrightarrow> count M x = count N x"
  shows "M = N"
proof -
  have eq: "filter_mset (\<lambda>x. x \<noteq> a) M = filter_mset (\<lambda>x. x \<noteq> a) N"
    using assms(2) by (intro multiset_eqI) simp
  have split: "filter_mset (\<lambda>x. x \<noteq> a) X + replicate_mset (count X a) a = X" for X :: "'a multiset"
    by (rule multiset_eqI) simp
  then have "count M a = count N a"
    using assms(1) eq by (metis add_left_cancel size_replicate_mset size_union)
  then show ?thesis
    using eq split by metis
qed

lemma replay_result:
  assumes ops: "\<forall>op \<in> set ops. log_op_ok C op" and T: "\<And>t rows. T t = Some rows \<Longrightarrow> identified C rows"
    and t: "T t = Some rows" "CHR 0x00 \<notin> set t"
    and size: "\<And>v. size (killers C F v) = max (size (killers C rows v)) (inserts_of C ops t v)"
    and kills: "\<And>v x. killers C F v \<noteq> {#} \<Longrightarrow> x \<noteq> ''0'' \<Longrightarrow> count (killers C F v) x = max (count (killers C rows v) x) (kills_of C ops t v x)"
  shows "\<exists>st rows'. replay_ops C ops T = (None, st) \<and> rp_tables st t = Some rows' \<and> killers C rows' = killers C F"
proof -
  obtain st1 sn where st1: "replay_loop (replay_insert C) ops (\<lparr>rp_tables = T, rp_pos = Map.empty, rp_touched = []\<rparr>, \<lambda>_. 0) = (None, st1, sn)"
      "inserted C T ops st1 sn"
    using first_phase [of ops C T] ops T by blast
  obtain rows1 where rows1: "rp_tables st1 t = Some rows1" "replay_ok C st1"
    and kl: "\<And>v. killers C rows1 v = killers C rows v + replicate_mset (inserts_of C ops t v - size (killers C rows v)) ''0''"
    using insertedD [OF st1(2) t(1)] by metis
  have sz: "size (killers C rows1 v) = size (killers C F v)" for v
    using kl [of v] size [of v] by simp
  have c1: "count (killers C rows1 v) x = count (killers C rows v) x" if "x \<noteq> ''0''" for v x
    using kl [of v] that by simp
  have F: "leads_to C t rows1 ops F"
    unfolding leads_to_def using sz kills c1 by (metis size_eq_0_iff_empty)
  obtain st2 ks where st2: "replay_loop (replay_kill C) ops (st1, \<lparr>kills_seen = (\<lambda>_. 0), kills_present = Map.empty\<rparr>) = (None, st2, ks)"
      "ended C t rows1 ops st2 ks"
    using second_phase [OF ops rows1(2,1) t(2) F] by blast
  obtain rows2 where rows2: "rp_tables st2 t = Some rows2" "map (version_identity C) rows2 = map (version_identity C) rows1"
    and cnt: "\<And>v x. killers C rows1 v \<noteq> {#} \<Longrightarrow> x \<noteq> ''0'' \<Longrightarrow> count (killers C rows2 v) x = max (count (killers C rows1 v) x) (kills_of C ops t v x)"
    using st2(2) unfolding ended_def by blast
  have sz2: "size (killers C rows2 v) = size (killers C F v)" for v
    using positions_of_cong [OF rows2(2)] sz [of v] by (simp add: size_killers)
  have "killers C rows2 v = killers C F v" for v
  proof (cases "killers C F v = {#}")
    case True
    then show ?thesis
      using sz2 [of v] by simp
  next
    case False
    then have "killers C rows1 v \<noteq> {#}"
      using sz [of v] by auto
    then show ?thesis
      using False cnt [of v] kills [of v] c1 sz2 by (intro multiset_but_one [where a = "''0''"]) auto
  qed
  moreover have "replay_ops C ops T = (None, st2)"
    using st1(1) st2(1) by (simp add: replay_ops_def)
  ultimately show ?thesis
    using rows2(1) by blast
qed

section \<open>Flush markers\<close>

definition after_last_flush :: "string \<Rightarrow> RedoOp list \<Rightarrow> RedoOp list" where
  "after_last_flush t ops = rev (takeWhile (\<lambda>op. \<not> (redo_kind op = TableFlushed \<and> redo_table op = t)) (rev ops))"

lemma last_flush_snoc:
  "last_flush (ops @ [op]) = (if redo_kind op = TableFlushed then (last_flush ops)(redo_table op \<mapsto> length ops) else last_flush ops)"
proof -
  have "fold (\<lambda>i m. if redo_kind ((ops @ [op]) ! i) = TableFlushed then m(redo_table ((ops @ [op]) ! i) \<mapsto> i) else m) [0..<length ops] Map.empty = last_flush ops"
    unfolding last_flush_def by (rule fold_cong) (auto simp: nth_append fun_eq_iff)
  then show ?thesis
    unfolding last_flush_def [of "ops @ [op]"] by simp
qed

lemma last_flush_less: "last_flush ops t = Some j \<Longrightarrow> j < length ops"
proof (induction ops arbitrary: j rule: rev_induct)
  case (snoc op ops)
  then show ?case
    by (fastforce simp: last_flush_snoc split: if_splits)
qed (simp add: last_flush_def)

definition kept_index :: "RedoOp list \<Rightarrow> string \<Rightarrow> nat \<Rightarrow> bool" where
  "kept_index ops t i \<longleftrightarrow> redo_table (ops ! i) = t \<and> redo_kind (ops ! i) \<noteq> TableFlushed
     \<and> (case last_flush ops t of None \<Rightarrow> True | Some j \<Rightarrow> \<not> i < j)"

lemma drop_flushed_table:
  "filter (\<lambda>op. redo_table op = t) (drop_flushed ops) = map ((!) ops) (filter (kept_index ops t) [0..<length ops])"
  unfolding drop_flushed_def filter_map comp_def filter_filter
  by (rule arg_cong [where f = "map ((!) ops)"], rule filter_cong) (auto simp: kept_index_def)

lemma kept_snoc:
  "map ((!) (ops @ [op])) (filter (kept_index (ops @ [op]) t) [0..<length (ops @ [op])]) =
    (if redo_kind op = TableFlushed \<and> redo_table op = t then []
     else map ((!) ops) (filter (kept_index ops t) [0..<length ops]) @ (if redo_table op = t \<and> redo_kind op \<noteq> TableFlushed then [op] else []))"
proof (cases "redo_kind op = TableFlushed \<and> redo_table op = t")
  case True
  then show ?thesis
    by (auto simp: kept_index_def last_flush_snoc filter_empty_conv)
next
  case False
  then have lf: "last_flush (ops @ [op]) t = last_flush ops t"
    by (auto simp: last_flush_snoc)
  have "filter (kept_index (ops @ [op]) t) [0..<length ops] = filter (kept_index ops t) [0..<length ops]"
    by (rule filter_cong) (auto simp: kept_index_def lf nth_append)
  moreover have "map ((!) (ops @ [op])) (filter (kept_index ops t) [0..<length ops]) = map ((!) ops) (filter (kept_index ops t) [0..<length ops])"
    by (rule map_cong) (auto simp: nth_append)
  moreover have "kept_index (ops @ [op]) t (length ops) \<longleftrightarrow> redo_table op = t \<and> redo_kind op \<noteq> TableFlushed"
    using last_flush_less [of ops t] by (auto simp: kept_index_def lf split: option.split)
  ultimately show ?thesis
    using False by auto
qed

lemma drop_flushed_after:
  "filter (\<lambda>op. redo_table op = t) (drop_flushed ops) =
    filter (\<lambda>op. redo_table op = t \<and> redo_kind op \<noteq> TableFlushed) (after_last_flush t ops)"
  unfolding drop_flushed_table
proof (induction ops rule: rev_induct)
  case (snoc op ops)
  then show ?case
    unfolding kept_snoc by (auto simp: after_last_flush_def)
qed (simp add: after_last_flush_def)

lemma counts_filter:
  "inserts_of C (filter (\<lambda>op. redo_table op = t) ops) t v = inserts_of C ops t v"
  "kills_of C (filter (\<lambda>op. redo_table op = t) ops) t v x = kills_of C ops t v x"
  "inserts_of C (filter (\<lambda>op. redo_table op = t \<and> redo_kind op \<noteq> TableFlushed) ops) t v = inserts_of C ops t v"
  "kills_of C (filter (\<lambda>op. redo_table op = t \<and> redo_kind op \<noteq> TableFlushed) ops) t v x = kills_of C ops t v x"
  by (auto simp: inserts_of_def kills_of_def intro!: arg_cong [where f = length] filter_cong)

lemma counts_drop_flushed:
  "inserts_of C (drop_flushed ops) t v = inserts_of C (after_last_flush t ops) t v"
  "kills_of C (drop_flushed ops) t v x = kills_of C (after_last_flush t ops) t v x"
  using counts_filter [of C t "drop_flushed ops"] counts_filter [of C t "after_last_flush t ops"] by (simp_all only: drop_flushed_after)

lemma set_drop_flushed: "set (drop_flushed ops) \<subseteq> set ops"
  by (auto simp: drop_flushed_def)

section \<open>From the commit to the recovered tables\<close>

lemma read_intact: "redo_intact st \<Longrightarrow> env_read_ok env \<Longrightarrow> redo_read_all env st = concat (redo_batches st)"
  using redo.rd_at_end [of "[]"]
  by (cases "rl_file st") (simp_all add: redo_read_all_def redo_batches_def redo_content_def)

lemma intact_content:
  assumes "redo_content st = concat (map redo_encode bs)" "\<forall>b \<in> set bs. redo_fits b"
  shows "redo_batches st = bs" "redo_intact st"
proof -
  show "redo_batches st = bs"
    using redo.rd_log_of [of bs "[]" "[]"] redo.rd_at_end [of "concat (map redo_encode bs)"] assms by (simp add: redo_batches_def)
  then show "redo_intact st"
    using assms by (simp add: redo_intact_def)
qed

text \<open>A commit that returns has its batch at the end of an intact log, all of it durable.\<close>

lemma write_redo_batch_log:
  assumes "write_redo_batch env ops db = (None, db')" "ops \<noteq> []" "redo_intact (sd_redo_log db)" "redo_fits ops"
    and "rl_synced (sd_redo_log db) \<le> rl_appended (sd_redo_log db)" "rl_appended (sd_redo_log db) < rl_appended (sd_redo_log db) + 1"
  shows "redo_content (sd_redo_log db') = concat (map redo_encode (redo_batches (sd_redo_log db) @ [ops]))"
    "rl_durable (sd_redo_log db') = length (redo_content (sd_redo_log db'))"
proof -
  obtain seq log log' where l: "redo_append_batch env ops (sd_redo_log db) = (Inr seq, log)" "redo_sync env seq log = (None, log')"
      "sd_redo_log db' = log'"
    using assms(1,2) by (auto simp: write_redo_batch_def db_append_sync_def split: prod.splits sum.splits)
  have log: "redo_content log = redo_content (sd_redo_log db) @ redo_encode ops" "rl_synced log = rl_synced (sd_redo_log db)"
      "seq = rl_appended (sd_redo_log db) + 1" "rl_open log"
    using l(1) assms(2) redo_open_spec [of env "sd_redo_log db"]
    by (auto simp: redo_append_batch_def redo_content_def Let_def split: prod.splits option.splits if_splits)
  then have "\<not> rl_synced log \<ge> seq"
    using assms(5,6) by auto
  then have log': "redo_content log' = redo_content log" "rl_durable log' = length (redo_content log)"
    using l(2) log(4) by (auto simp: redo_sync_def redo_content_def Let_def split: if_splits)
  show "redo_content (sd_redo_log db') = concat (map redo_encode (redo_batches (sd_redo_log db) @ [ops]))"
    using log' log l(3) assms(3) by (simp add: redo_intact_def)
  show "rl_durable (sd_redo_log db') = length (redo_content (sd_redo_log db'))"
    using log' l(3) by simp
qed

lemma crash_durable: "rl_durable st = length (redo_content st) \<Longrightarrow> redo_content (redo_crash n st) = redo_content st"
  by (simp add: redo_crash_def redo_new_def redo_content_def split: option.split)

lemma flush_tables_tables: "sd_tables (snd (flush_tables C env opened names db)) = sd_tables db"
proof (induction names arbitrary: db)
  case (Cons t names)
  have "sd_tables (snd (db_write_through C env opened t rows db)) = sd_tables db" for rows
    by (simp add: db_write_through_def split: prod.split)
  then show ?case
    using Cons by (auto split: option.split prod.split) (metis snd_conv)+
qed simp

lemma recover_tables:
  assumes "redo_read_all env (sd_redo_log db) \<noteq> []" "replay_ops C (drop_flushed (redo_read_all env (sd_redo_log db))) (sd_tables db) = (None, st)"
  shows "sd_tables (snd (recover_from_redo C env opened db)) = rp_tables st"
proof -
  let ?ops = "drop_flushed (redo_read_all env (sd_redo_log db))"
  let ?db = "db\<lparr>sd_recovery_ops := length ?ops, sd_tables := rp_tables st, sd_recovery_tables := length (rp_touched st)\<rparr>"
  obtain err db2 where f: "flush_tables C env opened (rp_touched st) ?db = (err, db2)"
    by fastforce
  then have "sd_tables db2 = rp_tables st"
    using flush_tables_tables [of C env opened "rp_touched st" ?db] by simp
  then show ?thesis
    using assms f by (cases err) (simp_all add: recover_from_redo_def Let_def)
qed

section \<open>Properties\<close>

text \<open>
  C3: A replay restores the committed versions, whatever part of them the table file held and in whatever order the batches were logged. Let a
  table have had the rows \<open>B\<close> when the log was started, and let \<open>F\<close> hold of every version as many copies as \<open>B\<close> or the log says, and of the
  copies each transaction ended as many as \<open>B\<close> or the log says. If the file that is loaded holds anything between \<open>B\<close> and \<open>F\<close> (a checkpoint
  was cut short, an earlier recovery had got so far), a replay of the logged operations in any order does not fail and leaves exactly the
  versions of \<open>F\<close>: for each image, the number of copies, of live copies, and of copies ended by each transaction.
\<close>

theorem redo_replay_restores:
  assumes ops: "\<forall>op \<in> set ops. log_op_ok C op" "mset ops' = mset ops"
    and T: "\<And>t rows. T t = Some rows \<Longrightarrow> identified C rows" "T t = Some D" "CHR 0x00 \<notin> set t"
    and F: "\<And>v. size (killers C F v) = max (size (killers C B v)) (inserts_of C ops t v)"
      "\<And>v x. killers C F v \<noteq> {#} \<Longrightarrow> x \<noteq> ''0'' \<Longrightarrow> count (killers C F v) x = max (count (killers C B v) x) (kills_of C ops t v x)"
    and D: "\<And>v. size (killers C B v) \<le> size (killers C D v) \<and> size (killers C D v) \<le> size (killers C F v)"
      "\<And>v x. x \<noteq> ''0'' \<Longrightarrow> count (killers C B v) x \<le> count (killers C D v) x \<and> count (killers C D v) x \<le> count (killers C F v) x"
  shows "\<exists>st rows. replay_ops C ops' T = (None, st) \<and> rp_tables st t = Some rows \<and> killers C rows = killers C F"
proof (rule replay_result)
  have "inserts_of C ops' t v = inserts_of C ops t v" "kills_of C ops' t v x = kills_of C ops t v x" for v x
    unfolding inserts_of_def kills_of_def size_mset [symmetric] mset_filter ops(2) by simp_all
  note eq = this
  show "size (killers C F v) = max (size (killers C D v)) (inserts_of C ops' t v)" for v
    using F(1) [of v] D(1) [of v] by (auto simp: eq max_def split: if_splits)
  show "count (killers C F v) x = max (count (killers C D v) x) (kills_of C ops' t v x)" if "killers C F v \<noteq> {#}" "x \<noteq> ''0''" for v x
    using F(2) [OF that] D(2) [OF that(2), of v] by (auto simp: eq max_def split: if_splits)
  show "\<forall>op \<in> set ops'. log_op_ok C op"
    using ops(1) mset_eq_setD [OF ops(2)] by simp
  show "identified C rows" if "T t' = Some rows" for t' rows
    using T(1) that .
qed (fact T)+

text \<open>
  Of the operations on a table, recovery replays exactly those logged after the table was last flushed, in their order.
\<close>

theorem drop_flushed_exact:
  "filter (\<lambda>op. redo_table op = t) (drop_flushed ops) =
    filter (\<lambda>op. redo_table op = t \<and> redo_kind op \<noteq> TableFlushed) (after_last_flush t ops)"
  by (rule drop_flushed_after)

text \<open>
  C1: Committed work survives a crash, end to end. Let a commit write its batch to an intact log and return. After any crash, and with a
  table file that holds the rows \<open>D\<close>, the recovery at the next start leaves in memory exactly the versions the file and the log
  (since the last flush of the table) account for, this commit's among them, even if writing the recovered tables back then fails.
\<close>

theorem commit_survives_crash:
  assumes commit: "write_redo_batch env ops db = (None, db')" "ops \<noteq> []" "redo_intact (sd_redo_log db)" "redo_fits ops"
      "rl_synced (sd_redo_log db) \<le> rl_appended (sd_redo_log db)" "rl_appended (sd_redo_log db) < rl_appended (sd_redo_log db) + 1"
    and logged: "logged = concat (redo_batches (sd_redo_log db)) @ ops" "\<forall>op \<in> set logged. log_op_ok C op"
    and restart: "sd_redo_log db2 = redo_crash n (sd_redo_log db')" "env_read_ok env'" "sd_tables db2 t = Some D" "CHR 0x00 \<notin> set t"
      "\<And>t rows. sd_tables db2 t = Some rows \<Longrightarrow> identified C rows"
    and F: "\<And>v. size (killers C F v) = max (size (killers C D v)) (inserts_of C (after_last_flush t logged) t v)"
      "\<And>v x. killers C F v \<noteq> {#} \<Longrightarrow> x \<noteq> ''0'' \<Longrightarrow>
        count (killers C F v) x = max (count (killers C D v) x) (kills_of C (after_last_flush t logged) t v x)"
  shows "\<exists>rows. sd_tables (snd (recover_from_redo C env' opened db2)) t = Some rows \<and> killers C rows = killers C F"
proof -
  let ?bs = "redo_batches (sd_redo_log db) @ [ops]"
  have fits: "\<forall>b \<in> set ?bs. redo_fits b"
    using commit(3,4) by (auto simp: redo_intact_def)
  have "redo_content (sd_redo_log db2) = concat (map redo_encode ?bs)"
    using write_redo_batch_log [OF commit] restart(1) crash_durable by metis
  note intact = intact_content [OF this fits]
  have all: "redo_read_all env' (sd_redo_log db2) = logged"
    using read_intact [OF intact(2) restart(2)] intact(1) logged(1) by simp
  have "\<exists>st rows. replay_ops C (drop_flushed logged) (sd_tables db2) = (None, st) \<and> rp_tables st t = Some rows \<and> killers C rows = killers C F"
  proof (rule replay_result)
    show "\<forall>op \<in> set (drop_flushed logged). log_op_ok C op"
      using logged(2) set_drop_flushed by blast
  qed (use restart F in \<open>simp_all add: counts_drop_flushed\<close>)
  then show ?thesis
    using recover_tables [of env' db2 C] all logged(1) commit(2) by auto
qed

section \<open>Witnesses\<close>

text \<open>A table with one version; the log of a transaction that adds a version and ends the first.\<close>

definition old_version :: row where "old_version = [(''_xmax'', ''0''), (''_xmin'', ''3'')]"
definition new_version :: row where "new_version = [(''_xmax'', ''0''), (''_xmin'', ''7'')]"
definition old_ended :: row where "old_ended = [(''_xmax'', ''7''), (''_xmin'', ''3'')]"

definition old_image :: string where "old_image = the (row_to_json (\<lambda>_. None) [(''_xmin'', ''3'')])"
definition new_image :: string where "new_image = the (row_to_json (\<lambda>_. None) [(''_xmin'', ''7'')])"

definition insert_op :: RedoOp where
  "insert_op = \<lparr>redo_kind = InsertVersion, redo_table = ''t'', redo_row_json = the (row_to_json (\<lambda>_. None) new_version), redo_xmax = []\<rparr>"

definition kill_op :: RedoOp where
  "kill_op = \<lparr>redo_kind = SetXmax, redo_table = ''t'', redo_row_json = the (row_to_json (\<lambda>_. None) old_version), redo_xmax = ''7''\<rparr>"

lemma images_differ [simp]: "old_image \<noteq> new_image" "new_image \<noteq> old_image"
  by code_simp+

lemma version_images [simp]:
  "version_identity plain_codec old_version = Some old_image" "version_identity plain_codec old_ended = Some old_image"
  "version_identity plain_codec new_version = Some new_image"
proof -
  have "row_to_json (\<lambda>_. None) (row_erase ''_xmax'' old_version) = Some old_image"
    "row_to_json (\<lambda>_. None) (row_erase ''_xmax'' old_ended) = Some old_image"
    "row_to_json (\<lambda>_. None) (row_erase ''_xmax'' new_version) = Some new_image"
    by code_simp+
  then show "version_identity plain_codec old_version = Some old_image" "version_identity plain_codec old_ended = Some old_image"
    "version_identity plain_codec new_version = Some new_image"
    by (simp_all add: version_identity_def plain_codec_def)
qed

lemma op_versions [simp]:
  "op_version plain_codec insert_op = Some (new_version, new_image)" "op_version plain_codec kill_op = Some (old_version, old_image)"
proof -
  have "row_from_json (\<lambda>_. None) (redo_row_json insert_op) = Some new_version" "row_from_json (\<lambda>_. None) (redo_row_json kill_op) = Some old_version"
    by code_simp+
  moreover have "json_parse_row plain_codec = (\<lambda>_. None)"
    by (simp add: plain_codec_def)
  ultimately show "op_version plain_codec insert_op = Some (new_version, new_image)" "op_version plain_codec kill_op = Some (old_version, old_image)"
    by (simp_all only: op_version_def option.case version_images option.map)
qed

lemma example_ops:
  "\<forall>op \<in> set [insert_op, kill_op]. log_op_ok plain_codec op"
  "inserts_of plain_codec [insert_op, kill_op] ''t'' v = (if v = new_image then 1 else 0)"
  "kills_of plain_codec [insert_op, kill_op] ''t'' v x = (if v = old_image \<and> x = ''7'' then 1 else 0)"
proof -
  have "redo_kind insert_op = InsertVersion" "redo_kind kill_op = SetXmax" "redo_table insert_op = ''t''" "redo_table kill_op = ''t''"
    "redo_xmax kill_op = ''7''" "is_visible new_version"
    by (simp_all add: insert_op_def kill_op_def is_visible_def new_version_def)
  then show "\<forall>op \<in> set [insert_op, kill_op]. log_op_ok plain_codec op"
    "inserts_of plain_codec [insert_op, kill_op] ''t'' v = (if v = new_image then 1 else 0)"
    "kills_of plain_codec [insert_op, kill_op] ''t'' v x = (if v = old_image \<and> x = ''7'' then 1 else 0)"
    by (auto simp: log_op_ok_def inserts_of_def kills_of_def)
qed

lemma example_killers:
  "killers plain_codec [old_version] v = (if v = old_image then {#''0''#} else {#})"
  "killers plain_codec [old_ended, new_version] v = (if v = old_image then {#''7''#} else if v = new_image then {#''0''#} else {#})"
  by (auto simp: killers_def) (simp_all add: xmax_text_def old_version_def old_ended_def new_version_def)

theorem redo_replay_restores_witness:
  "\<exists>st rows. replay_ops plain_codec [kill_op, insert_op] [''t'' \<mapsto> [old_version]] = (None, st) \<and> rp_tables st ''t'' = Some rows
    \<and> killers plain_codec rows = killers plain_codec [old_ended, new_version]"
  by (rule redo_replay_restores [where ops = "[insert_op, kill_op]" and B = "[old_version]" and D = "[old_version]"])
    (auto simp: example_ops example_killers identified_def split: if_splits)

definition example_db :: "RedoLog \<Rightarrow> shared_db" where
  "example_db log = \<lparr>sd_tables = [''t'' \<mapsto> [old_version]], sd_pool = new_pool 4, sd_files = Map.empty, sd_redo_log = log, sd_redo_dirty = [],
     sd_recovery_ops = 0, sd_recovery_tables = 0\<rparr>"

lemma example_fits: "redo_fits [insert_op, kill_op]"
proof -
  have "length (redo_row_json insert_op) = 25" "length (redo_row_json kill_op) = 25"
    by code_simp+
  then show ?thesis
    by (simp add: redo_fits_def redo_op_fits_def redo_payload_def length_redo_put_op) (simp add: insert_op_def kill_op_def)
qed

theorem commit_survives_crash_witness:
  "\<exists>rows. sd_tables (snd (recover_from_redo plain_codec env_ok {}
      (example_db (redo_crash 0 (sd_redo_log (snd (write_redo_batch env_ok [insert_op, kill_op] (example_db (redo_new None))))))))) ''t'' = Some rows
    \<and> killers plain_codec rows = killers plain_codec [old_ended, new_version]"
proof -
  let ?ops = "[insert_op, kill_op]" let ?w = "write_redo_batch env_ok ?ops (example_db (redo_new None))"
  have w: "?w = (None, snd ?w)"
    by (simp add: write_redo_batch_def db_append_sync_def redo_append_batch_def redo_open_def redo_sync_def env_ok_def redo_new_def example_db_def Let_def)
  have after: "after_last_flush ''t'' ?ops = ?ops"
    by (simp add: after_last_flush_def insert_op_def kill_op_def)
  show ?thesis
  proof (rule commit_survives_crash [OF w _ _ example_fits])
    show "sd_tables (example_db log) ''t'' = Some [old_version]" for log
      by (simp add: example_db_def)
    show "identified plain_codec rows" if "sd_tables (example_db log) t = Some rows" for log t rows
      using that by (auto simp: example_db_def identified_def split: if_splits)
    show "size (killers plain_codec [old_ended, new_version] v) =
        max (size (killers plain_codec [old_version] v)) (inserts_of plain_codec (after_last_flush ''t'' ?ops) ''t'' v)" for v
      by (simp add: after example_ops example_killers)
    show "count (killers plain_codec [old_ended, new_version] v) x =
        max (count (killers plain_codec [old_version] v) x) (kills_of plain_codec (after_last_flush ''t'' ?ops) ''t'' v x)"
      if "x \<noteq> ''0''" for v x
      using that by (auto simp: after example_ops example_killers)
  qed (use example_ops(1) in \<open>simp_all add: example_db_def\<close>)
qed

end
