(* ===== verification/StatementSplit.thy ===== *)
theory StatementSplit
  imports Prelude "HOL-Library.Sublist"
begin

text \<open>
  Where the statements of a script or of a connection's input end (\<^verbatim>\<open>core/include/engine/statement_split.hpp\<close>). The server splits what it receives
  with \<^verbatim>\<open>find_statement_end\<close>; the client counts with \<^verbatim>\<open>count_statement_ends\<close> how many answers to wait for.

  The scanner only looks ahead, so its position is the rest of the text (\<open>s\<close> for \<^verbatim>\<open>s[i..n)\<close>), next to the index that is reported. Characters are
  classified as in the C locale. The depths are natural numbers: a text is shorter than the \<open>2 ^ 31\<close> words an \<^verbatim>\<open>int\<close> could count.
\<close>

section \<open>Definitions\<close>

abbreviation code :: "char \<Rightarrow> nat" where "code c \<equiv> of_char c"

definition blank :: "char \<Rightarrow> bool" where
  "blank c \<longleftrightarrow> code c = 32 \<or> 9 \<le> code c \<and> code c \<le> 13"

definition alpha :: "char \<Rightarrow> bool" where
  "alpha c \<longleftrightarrow> 65 \<le> code c \<and> code c \<le> 90 \<or> 97 \<le> code c \<and> code c \<le> 122"

definition word_start :: "char \<Rightarrow> bool" where
  "word_start c \<longleftrightarrow> alpha c \<or> c = CHR ''_''"

definition word_char :: "char \<Rightarrow> bool" where
  "word_char c \<longleftrightarrow> alpha c \<or> 48 \<le> code c \<and> code c \<le> 57 \<or> c = CHR ''_''"

definition upper_case :: "string \<Rightarrow> string" where
  "upper_case s = map (\<lambda>c. if 97 \<le> code c \<and> code c \<le> 122 then char_of (code c - 32) else c) s"

definition line_comment :: "string \<Rightarrow> bool" where
  "line_comment s \<longleftrightarrow> take 1 s = ''#'' \<or> take 2 s = ''--''"

definition block_comment :: "string \<Rightarrow> bool" where
  "block_comment s \<longleftrightarrow> take 2 s = ''/*''"

text \<open>The rest behind the \<^verbatim>\<open>*/\<close> that closes a comment; nothing is left when none does.\<close>

fun comment_end :: "string \<Rightarrow> string" where
  "comment_end (a # b # s) = (if a = CHR ''*'' \<and> b = CHR ''/'' then s else comment_end (b # s))"
| "comment_end [] = []"
| "comment_end [a] = []"

lemma length_comment_end: "length (comment_end s) \<le> length s"
  by (induction s rule: comment_end.induct) auto

function skip_blank :: "string \<Rightarrow> string" where
  "skip_blank s =
     (if s = [] then []
      else if blank (hd s) then skip_blank (tl s)
      else if line_comment s then skip_blank (dropWhile (\<lambda>c. c \<noteq> CHR 0x0A) s)
      else if block_comment s then skip_blank (comment_end (drop 2 s))
      else s)"
  by pat_completeness auto
termination
proof (relation "measure length")
  fix s :: string
  assume "s \<noteq> []" "\<not> blank (hd s)" "line_comment s"
  moreover have "hd s \<noteq> CHR 0x0A"
    using calculation by (auto simp: blank_def)
  ultimately have "length (dropWhile (\<lambda>c. c \<noteq> CHR 0x0A) s) \<le> length (tl s)"
    by (cases s) (auto simp: length_dropWhile_le)
  then show "(dropWhile (\<lambda>c. c \<noteq> CHR 0x0A) s, s) \<in> measure length"
    using \<open>s \<noteq> []\<close> by (cases s) auto
next
  fix s :: string
  assume "s \<noteq> []"
  then show "(comment_end (drop 2 s), s) \<in> measure length"
    using length_comment_end [of "drop 2 s"] by (cases s) auto
qed auto

declare skip_blank.simps [simp del]

definition word_at :: "string \<Rightarrow> string" where
  "word_at s = (if s = [] \<or> \<not> word_start (hd s) then [] else upper_case (takeWhile word_char s))"

definition names_before :: "string list" where
  "names_before = [''SELECT'', ''DISTINCT'', ''BY'', ''WHERE'', ''AND'', ''OR'', ''NOT'', ''SET'', ''ON'', ''HAVING'', ''WHEN'', ''AS'', ''BETWEEN'', ''IN'', ''LIKE'', ''IS'']"

definition names_after :: "string list" where
  "names_after = [''FROM'', ''AS'', ''ASC'', ''DESC'', ''IS'', ''IN'', ''BETWEEN'', ''LIKE'', ''AND'', ''OR'', ''NOT'', ''THEN'', ''INT'', ''INTEGER'', ''BIGINT'', ''SMALLINT'',
     ''TINYINT'', ''MEDIUMINT'', ''VARCHAR'', ''CHAR'', ''TEXT'', ''DATE'', ''DATETIME'', ''TIMESTAMP'', ''TIME'', ''YEAR'', ''DECIMAL'', ''NUMERIC'',
     ''FLOAT'', ''DOUBLE'', ''REAL'', ''BOOLEAN'', ''BOOL'', ''ENUM'', ''JSON'', ''BLOB'']"

definition name_follows :: "char \<Rightarrow> bool" where
  "name_follows c \<longleftrightarrow> c \<in> set '',(.=<>!+-*/%''"

definition name_precedes :: "char \<Rightarrow> bool" where
  "name_precedes c \<longleftrightarrow> c \<in> set '',).=<>!+-*/%''"

definition used_as_name :: "char \<Rightarrow> string \<Rightarrow> string \<Rightarrow> bool \<Rightarrow> bool" where
  "used_as_name prev prev_word after look_ahead =
     (if prev_word = [] \<and> name_follows prev then True
      else if prev_word \<in> set names_before then True
      else if \<not> look_ahead then False
      else let s = skip_blank after in
        if s = [] then False
        else if name_precedes (hd s) then True
        else word_at s \<in> set names_after)"

record scan_state =
  begin_depth :: nat
  case_depth :: nat
  prev :: char
  prev_word :: string

definition scan_init :: scan_state where
  "scan_init = \<lparr>begin_depth = 0, case_depth = 0, prev = CHR 0x00, prev_word = []\<rparr>"

fun string_end :: "string \<Rightarrow> string" where
  "string_end [] = []"
| "string_end (c # s) =
     (if c = CHR 0x5C \<and> s \<noteq> [] then string_end (tl s)
      else if c = CHR 0x27 then s
      else string_end s)"

definition quoted_end :: "char \<Rightarrow> string \<Rightarrow> string" where
  "quoted_end c s = tl (dropWhile (\<lambda>d. d \<noteq> c) s)"

text \<open>The word \<open>word\<close> has been read and \<open>after\<close> follows it.\<close>

definition scan_word :: "scan_state \<Rightarrow> string \<Rightarrow> string \<Rightarrow> scan_state" where
  "scan_word st word after =
     (if word = ''BEGIN'' then
        if used_as_name (prev st) (prev_word st) after True then st
        else let s = skip_blank after in
          if s = [] \<or> hd s = CHR '';'' \<or> word_at s = ''WORK'' then st
          else st\<lparr>begin_depth := begin_depth st + 1\<rparr>
      else if word = ''CASE'' then
        if prev_word st \<noteq> ''END'' then st\<lparr>case_depth := case_depth st + 1\<rparr> else st
      else if word = ''END'' then
        if prev_word st \<noteq> ''THEN'' \<and> prev_word st \<noteq> ''ELSE'' \<and> \<not> used_as_name (prev st) (prev_word st) after (case_depth st = 0) then
          let nxt = word_at (skip_blank after) in
          if nxt = ''CASE'' then if case_depth st > 0 then st\<lparr>case_depth := case_depth st - 1\<rparr> else st
          else if nxt \<in> set [''IF'', ''WHILE'', ''LOOP'', ''REPEAT''] then st
          else if case_depth st > 0 then st\<lparr>case_depth := case_depth st - 1\<rparr>
          else if begin_depth st > 0 then st\<lparr>begin_depth := begin_depth st - 1\<rparr>
          else st
        else st
      else st)"

text \<open>One turn of the loop: the state, the rest, and whether a statement ends at this character.\<close>

definition scan_turn :: "scan_state \<Rightarrow> string \<Rightarrow> scan_state \<times> string \<times> bool" where
  "scan_turn st s =
     (let c = hd s in
      if blank c then (st, tl s, False)
      else if line_comment s \<or> block_comment s then (st, skip_blank s, False)
      else if c = CHR 0x27 then (st\<lparr>prev := CHR 0x27, prev_word := []\<rparr>, string_end (tl s), False)
      else if c = CHR 0x22 \<or> c = CHR 0x60 then (st\<lparr>prev := c, prev_word := []\<rparr>, quoted_end c (tl s), False)
      else if word_start c then
        let word = upper_case (takeWhile word_char s); after = dropWhile word_char s in
        ((scan_word st word after)\<lparr>prev := last (takeWhile word_char s), prev_word := word\<rparr>, after, False)
      else if c = CHR '';'' \<and> begin_depth st = 0 then (st\<lparr>case_depth := 0, prev := c, prev_word := []\<rparr>, tl s, True)
      else (st\<lparr>prev := c, prev_word := []\<rparr>, tl s, False))"

section \<open>Every turn moves on\<close>

lemma comment_end_suffix: "suffix (comment_end s) s"
  by (induction s rule: comment_end.induct) (auto simp: suffix_ConsI)

lemma skip_blank_suffix: "suffix (skip_blank s) s"
proof (induction s rule: skip_blank.induct)
  case (1 s)
  have "suffix (dropWhile (\<lambda>c. c \<noteq> CHR 0x0A) s) s" "suffix (comment_end (drop 2 s)) s" "suffix (tl s) s"
    using comment_end_suffix [of "drop 2 s"] by (auto simp: suffix_dropWhile suffix_drop suffix_tl intro: suffix_order.trans)
  then show ?case
    using 1 by (subst skip_blank.simps) (auto intro: suffix_order.trans)
qed

lemmas skip_blank_length = suffix_length_le [OF skip_blank_suffix]

lemma word_start_char: "word_start c \<Longrightarrow> word_char c"
  by (auto simp: word_start_def word_char_def)

lemma string_end_suffix: "suffix (string_end s) s"
proof (induction s rule: string_end.induct)
  case (2 c s)
  show ?case
  proof (cases "c = CHR 0x5C \<and> s \<noteq> []")
    case True
    then have "suffix (string_end (tl s)) (tl s)" "suffix (tl s) (c # s)"
      using 2 by (auto simp: suffix_ConsI suffix_tl)
    then show ?thesis
      using True by (auto intro: suffix_order.trans)
  qed (use 2 in \<open>auto simp: suffix_ConsI\<close>)
qed simp

lemmas length_string_end = suffix_length_le [OF string_end_suffix]

lemma comment_shorter:
  assumes "s \<noteq> []" "\<not> blank (hd s)" "line_comment s \<or> block_comment s"
  shows "length (skip_blank s) < length s"
proof -
  obtain c r where s: "s = c # r"
    using assms(1) by (cases s) auto
  have "c \<noteq> CHR 0x0A"
    using assms(2) s by (auto simp: blank_def)
  then have "length (skip_blank (dropWhile (\<lambda>c. c \<noteq> CHR 0x0A) s)) \<le> length r"
    using skip_blank_length [of "dropWhile (\<lambda>c. c \<noteq> CHR 0x0A) r"] length_dropWhile_le [of "\<lambda>c. c \<noteq> CHR 0x0A" r] s by simp
  moreover have "length (skip_blank (comment_end (drop 2 s))) \<le> length r"
    using skip_blank_length [of "comment_end (drop 2 s)"] length_comment_end [of "drop 2 s"] s by simp
  ultimately show ?thesis
    using assms s by (subst skip_blank.simps) auto
qed

lemma scan_turn_shorter:
  assumes "s \<noteq> []" "scan_turn st s = (st', r, e)"
  shows "length r < length s"
proof -
  obtain c t where s: "s = c # t"
    using assms(1) by (cases s) auto
  have "length (dropWhile word_char s) < length s" if "word_start c"
    using that s word_start_char length_dropWhile_le [of word_char t] by (simp add: le_imp_less_Suc)
  moreover have "length (quoted_end c t) \<le> length t"
    using length_dropWhile_le [of "\<lambda>d. d \<noteq> c" t] by (simp add: quoted_end_def)
  ultimately show ?thesis
    using assms(2) s length_string_end [of t] comment_shorter [OF assms(1)]
    by (auto simp: scan_turn_def Let_def le_imp_less_Suc split: if_splits)
qed

lemma scan_turn_suffix: "scan_turn st s = (st', r, e) \<Longrightarrow> suffix r s"
proof -
  assume turn: "scan_turn st s = (st', r, e)"
  have "suffix (quoted_end c (tl s)) (tl s)" for c
    using suffix_order.trans [OF suffix_tl suffix_dropWhile] by (simp add: quoted_end_def)
  then have "suffix (string_end (tl s)) s" "suffix (quoted_end c (tl s)) s" "suffix (dropWhile word_char s) s" "suffix (tl s) s" for c
    using string_end_suffix [of "tl s"] by (auto simp: suffix_dropWhile suffix_tl intro: suffix_order.trans [OF _ suffix_tl])
  then show ?thesis
    using turn skip_blank_suffix [of s] by (auto simp: scan_turn_def Let_def split: if_splits)
qed

lemma scan_turn_ended:
  "scan_turn st s = (st', r, True) \<Longrightarrow> s \<noteq> [] \<Longrightarrow>
    s = CHR '';'' # r \<and> st' = st\<lparr>case_depth := 0, prev := CHR '';'', prev_word := []\<rparr> \<and> begin_depth st = 0"
  by (cases s) (auto simp: scan_turn_def Let_def split: if_splits)

text \<open>
  \<open>scan on_end i st s acc\<close> is the loop: \<open>on_end\<close> is called with the index of every \<^verbatim>\<open>;\<close> that ends a statement and what it has gathered, until it answers that it is
  done.
\<close>

function scan :: "(nat \<Rightarrow> 'a \<Rightarrow> bool \<times> 'a) \<Rightarrow> nat \<Rightarrow> scan_state \<Rightarrow> string \<Rightarrow> 'a \<Rightarrow> 'a" where
  "scan on_end i st s acc =
     (if s = [] then acc
      else case scan_turn st s of
          (st', r, ended) \<Rightarrow>
            (case (if ended then on_end i acc else (False, acc)) of
               (stop, acc') \<Rightarrow> if stop then acc' else scan on_end (i + (length s - length r)) st' r acc'))"
  by pat_completeness auto
termination
  by (relation "measure (\<lambda>(f, i, st, s, acc). length s)") (auto dest: scan_turn_shorter [OF _ sym])

declare scan.simps [simp del]

definition find_statement_end :: "string \<Rightarrow> nat option" where
  "find_statement_end input = scan (\<lambda>at _. (True, Some at)) 0 scan_init input None"

definition count_one :: "nat \<Rightarrow> nat \<Rightarrow> bool \<times> nat" where
  "count_one at count = (False, count + 1)"

definition count_statement_ends :: "string \<Rightarrow> nat" where
  "count_statement_ends input = scan count_one 0 scan_init input 0"

section \<open>The next end\<close>

text \<open>What follows the first end, and the state there.\<close>

function next_end :: "scan_state \<Rightarrow> string \<Rightarrow> (scan_state \<times> string) option" where
  "next_end st s =
     (if s = [] then None
      else case scan_turn st s of (st', r, ended) \<Rightarrow> if ended then Some (st', r) else next_end st' r)"
  by pat_completeness auto
termination
  by (relation "measure (\<lambda>(st, s). length s)") (auto dest: scan_turn_shorter [OF _ sym])

declare next_end.simps [simp del]

text \<open>The states behind an end: nothing is open.\<close>

definition ended_state :: scan_state where
  "ended_state = \<lparr>begin_depth = 0, case_depth = 0, prev = CHR '';'', prev_word = []\<rparr>"

lemma next_end_split: "next_end st s = Some (st', r) \<Longrightarrow> st' = ended_state \<and> (\<exists>p. s = p @ CHR '';'' # r)"
proof (induction st s rule: next_end.induct)
  case (1 st s)
  have s: "s \<noteq> []"
    using "1.prems" by (auto simp: next_end.simps [of st "[]"])
  obtain st1 r1 e where turn: "scan_turn st s = (st1, r1, e)"
    by (metis surj_pair)
  show ?case
  proof (cases e)
    case True
    then show ?thesis
      using "1.prems" turn s scan_turn_ended [of st s st1 r1] by (auto simp: next_end.simps [of st s] ended_state_def)
  next
    case False
    then have "next_end st1 r1 = Some (st', r)"
      using "1.prems" turn s by (simp add: next_end.simps [of st s])
    then have "st' = ended_state" "\<exists>p. r1 = p @ CHR '';'' # r"
      using "1.IH" [OF s turn [symmetric] refl False] by auto
    moreover have "suffix r1 s"
      by (rule scan_turn_suffix [OF turn])
    ultimately show ?thesis
      by (auto simp: suffix_def)
  qed
qed

lemma scan_next:
  "scan on_end i st s acc =
    (case next_end st s of
       None \<Rightarrow> acc
     | Some (st', r) \<Rightarrow>
         (case on_end (i + (length s - length r - 1)) acc of
            (stop, acc') \<Rightarrow> if stop then acc' else scan on_end (i + (length s - length r)) st' r acc'))"
proof (induction st s arbitrary: i rule: next_end.induct)
  case (1 st s)
  show ?case
  proof (cases "s = []")
    case False
    obtain st1 r1 e where turn: "scan_turn st s = (st1, r1, e)"
      by (metis surj_pair)
    have len: "length r1 < length s"
      by (rule scan_turn_shorter [OF False turn])
    show ?thesis
    proof (cases e)
      case True
      then have "length s - length r1 - 1 = 0"
        using scan_turn_ended [of st s st1 r1] turn False by simp
      then show ?thesis
        using turn False True by (simp add: scan.simps [of on_end i st s] next_end.simps [of st s])
    next
      case e: False
      have step: "scan on_end i st s acc = scan on_end (i + (length s - length r1)) st1 r1 acc" "next_end st s = next_end st1 r1"
        using turn False e by (simp_all add: scan.simps [of on_end i st s] next_end.simps [of st s])
      note IH = "1.IH" [OF False turn [symmetric] refl e, of "i + (length s - length r1)"]
      show ?thesis
      proof (cases "next_end st1 r1")
        case None
        then show ?thesis
          using step IH by simp
      next
        case (Some str)
        obtain st' r where str: "str = (st', r)"
          by fastforce
        have "length r < length r1"
          using next_end_split [of st1 r1 st' r] Some str by auto
        then have idx: "i + (length s - length r1) + (length r1 - length r - 1) = i + (length s - length r - 1)"
          "i + (length s - length r1) + (length r1 - length r) = i + (length s - length r)"
          using len by auto
        show ?thesis
          by (simp only: step IH Some str option.case prod.case idx)
      qed
    qed
  qed (simp add: scan.simps [of _ _ _ "[]"] next_end.simps [of _ "[]"])
qed

section \<open>Scanning does not look behind the end\<close>

text \<open>
  A forward scanner gives a rest of its text, and when a \<^verbatim>\<open>;\<close> is left over in the part \<open>a\<close> of the text \<open>a @ b\<close>, it has not looked at \<open>b\<close>.
\<close>

locale forward_scanner =
  fixes f :: "string \<Rightarrow> string"
  assumes rest: "suffix (f s) s"
    and unseen: "f (a @ b) = a' @ b \<Longrightarrow> CHR '';'' \<in> set a' \<Longrightarrow> f (a @ b') = a' @ b'"
begin

lemma not_longer: "length (f s) \<le> length s"
  by (rule suffix_length_le [OF rest])

lemma left_over:
  assumes "suffix (a' @ b) (f (a @ b))"
  obtains a1 where "f (a @ b) = a1 @ b" "suffix a1 a" "suffix a' a1"
proof -
  obtain p where p: "f (a @ b) = p @ a' @ b"
    using assms by (auto simp: suffix_def)
  obtain q where "a @ b = q @ p @ a' @ b"
    using rest [of "a @ b"] p by (auto simp: suffix_def)
  then have "a = q @ p @ a'"
    by (metis append_assoc append_same_eq)
  then show ?thesis
    using that [of "p @ a'"] p by (simp add: suffix_def)
qed

lemma left_over_unseen:
  assumes "suffix (a' @ b) (f (a @ b))" "CHR '';'' \<in> set a'"
  obtains a1 where "f (a @ b) = a1 @ b" "f (a @ b') = a1 @ b'" "suffix a1 a" "suffix a' a1" "CHR '';'' \<in> set a1"
proof -
  obtain a1 where a1: "f (a @ b) = a1 @ b" "suffix a1 a" "suffix a' a1"
    by (rule left_over [OF assms(1)])
  moreover have "CHR '';'' \<in> set a1"
    using assms(2) set_mono_suffix [OF a1(3)] by blast
  ultimately show ?thesis
    using that unseen by blast
qed

end

interpretation drop_scan: forward_scanner "dropWhile P" for P
proof
  show "suffix (dropWhile P s) s" for s
    by (rule suffix_dropWhile)
next
  fix a b a' b'
  assume "dropWhile P (a @ b) = a' @ b" "CHR '';'' \<in> set a'"
  then show "dropWhile P (a @ b') = a' @ b'"
  proof (induction a)
    case Nil
    then have "length (a' @ b) \<le> length b"
      using length_dropWhile_le [of P b] by simp
    then show ?case
      using Nil by simp
  qed (auto split: if_splits)
qed

interpretation comment_scan: forward_scanner comment_end
proof
  show "suffix (comment_end s) s" for s
    by (rule comment_end_suffix)
next
  fix a b a' b'
  assume "comment_end (a @ b) = a' @ b" "CHR '';'' \<in> set a'"
  then show "comment_end (a @ b') = a' @ b'"
  proof (induction a rule: comment_end.induct)
    case (3 v)
    have "length (comment_end (v # b)) \<le> length b"
      using length_comment_end [of "b"] length_comment_end [of "tl b"] by (cases b) auto
    then show ?case
      using 3 by (cases a') auto
  next
    case 2
    then show ?case
      using length_comment_end [of b] by (cases a') auto
  qed (auto split: if_splits)
qed

interpretation string_scan: forward_scanner string_end
proof
  show "suffix (string_end s) s" for s
    by (rule string_end_suffix)
next
  fix a b a' b'
  assume "string_end (a @ b) = a' @ b" "CHR '';'' \<in> set a'"
  then show "string_end (a @ b') = a' @ b'"
  proof (induction a rule: string_end.induct)
    case 1
    then show ?case
      using length_string_end [of b] by (cases a') auto
  next
    case (2 c a)
    show ?case
    proof (cases "a = []")
      case True
      have "length (string_end (c # b)) \<le> length b"
        using length_string_end [of b] length_string_end [of "tl b"] by auto
      then show ?thesis
        using 2 True by (cases a') auto
    qed (use 2 in \<open>auto split: if_splits\<close>)
  qed
qed

text \<open>What decides whether a comment starts is inside \<open>a\<close>, if \<open>a\<close> has a \<^verbatim>\<open>;\<close>.\<close>

lemma comment_unseen:
  assumes "CHR '';'' \<in> set a"
  shows "line_comment (a @ b) = line_comment (a @ b')" "block_comment (a @ b) = block_comment (a @ b')"
proof -
  consider "a = [CHR '';'']" | c d a' where "a = c # d # a'"
    using assms by (cases a; cases "tl a") auto
  then show "line_comment (a @ b) = line_comment (a @ b')" "block_comment (a @ b) = block_comment (a @ b')"
    by (cases; simp add: line_comment_def block_comment_def take_Cons')+
qed

lemma skip_blank_unseen:
  "skip_blank (a @ b) = a' @ b \<Longrightarrow> CHR '';'' \<in> set a' \<Longrightarrow> skip_blank (a @ b') = a' @ b'"
proof (induction a rule: measure_induct_rule [of length])
  case (less a)
  have "suffix (a' @ b) (a @ b)"
    using skip_blank_suffix [of "a @ b"] less.prems(1) by simp
  then have "suffix a' a"
    by (auto simp: suffix_def)
  then have a: "CHR '';'' \<in> set a"
    using less.prems(2) set_mono_suffix by blast
  then obtain c t where ct: "a = c # t"
    by (cases a) auto
  note comments = comment_unseen [OF a, of b b']
  have IH: "skip_blank (t' @ b') = a' @ b'" if "skip_blank (t' @ b) = a' @ b" "length t' \<le> length t" for t'
    using less.IH [of t'] less.prems(2) that ct by simp
  show ?case
  proof (cases "blank c")
    case True
    then show ?thesis
      using IH [of t] less.prems(1) ct by (simp add: skip_blank.simps [of "c # _"])
  next
    case c: False
    show ?thesis
    proof (cases "line_comment (a @ b)")
      case True
      let ?Q = "\<lambda>c. c \<noteq> CHR 0x0A"
      have "?Q c"
        using c by (auto simp: blank_def)
      then have "skip_blank (dropWhile ?Q (t @ b)) = a' @ b"
        using True c ct less.prems(1) by (simp add: skip_blank.simps [of "c # _"])
      then obtain t1 where t1: "dropWhile ?Q (t @ b) = t1 @ b" "dropWhile ?Q (t @ b') = t1 @ b'" "suffix t1 t"
        using drop_scan.left_over_unseen [of a' b ?Q t b'] skip_blank_suffix less.prems(2) by metis
      then have "skip_blank (t1 @ b') = a' @ b'"
        using IH [of t1] \<open>skip_blank (dropWhile ?Q (t @ b)) = a' @ b\<close> suffix_length_le by metis
      then show ?thesis
        using True c ct t1(2) comments(1) \<open>?Q c\<close> by (simp add: skip_blank.simps [of "c # _"])
    next
      case l: False
      show ?thesis
      proof (cases "block_comment (a @ b)")
        case True
        obtain d t' where t: "t = d # t'"
          using True a ct by (cases t) (auto simp: block_comment_def take_Cons' split: if_splits)
        have sk: "skip_blank (comment_end (t' @ b)) = a' @ b"
          using True c l ct t less.prems(1) by (simp add: skip_blank.simps [of "c # _"])
        then obtain t1 where t1: "comment_end (t' @ b) = t1 @ b" "comment_end (t' @ b') = t1 @ b'" "suffix t1 t'"
          using comment_scan.left_over_unseen [of a' b t' b'] skip_blank_suffix less.prems(2) by metis
        then have "skip_blank (t1 @ b') = a' @ b'"
          using IH [of t1] sk suffix_length_le [OF t1(3)] t by simp
        then show ?thesis
          using True c l ct t t1(2) comments by (simp add: skip_blank.simps [of "c # _"])
      next
        case False
        then have "skip_blank (a @ b) = a @ b" "skip_blank (a @ b') = a @ b'"
          using c l ct comments by (simp_all add: skip_blank.simps [of "c # t @ b"] skip_blank.simps [of "c # t @ b'"])
        then show ?thesis
          using less.prems(1) by simp
      qed
    qed
  qed
qed

interpretation blank_scan: forward_scanner skip_blank
  by unfold_locales (rule skip_blank_suffix, rule skip_blank_unseen)

interpretation quoted_scan: forward_scanner "quoted_end c" for c
proof
  show "suffix (quoted_end c s) s" for s
    using suffix_order.trans [OF suffix_tl suffix_dropWhile] by (simp add: quoted_end_def)
next
  fix a b a' b'
  assume q: "quoted_end c (a @ b) = a' @ b" "CHR '';'' \<in> set a'"
  then have "suffix (a' @ b) (dropWhile (\<lambda>d. d \<noteq> c) (a @ b))"
    using suffix_tl [of "dropWhile (\<lambda>d. d \<noteq> c) (a @ b)"] by (simp add: quoted_end_def)
  then obtain a1 where a1: "dropWhile (\<lambda>d. d \<noteq> c) (a @ b) = a1 @ b" "dropWhile (\<lambda>d. d \<noteq> c) (a @ b') = a1 @ b'" "CHR '';'' \<in> set a1"
    using drop_scan.left_over_unseen [of a' b _ a b'] q(2) by metis
  then show "quoted_end c (a @ b') = a' @ b'"
    using q by (cases a1) (simp_all add: quoted_end_def)
qed

section \<open>Statements end where they end, whatever follows\<close>

lemma next_end_skip: "next_end st s = next_end st (skip_blank s)"
proof (induction s rule: skip_blank.induct)
  case (1 s)
  consider "s = []" | "s \<noteq> []" "blank (hd s)" | "s \<noteq> []" "\<not> blank (hd s)" "line_comment s \<or> block_comment s"
    | "s \<noteq> []" "\<not> blank (hd s)" "\<not> line_comment s" "\<not> block_comment s"
    by blast
  then show ?case
  proof cases
    case 1
    then show ?thesis
      by (simp add: skip_blank.simps [of "[]"])
  next
    case 2
    have "next_end st s = next_end st (tl s)" "skip_blank s = skip_blank (tl s)"
      using 2 by (simp_all add: next_end.simps [of st s] scan_turn_def skip_blank.simps [of s])
    then show ?thesis
      using "1.IH"(1) 2 by simp
  next
    case 3
    then show ?thesis
      by (subst next_end.simps) (simp add: scan_turn_def)
  next
    case 4
    then show ?thesis
      by (simp add: skip_blank.simps [of s])
  qed
qed

lemma word_at_unseen:
  assumes "CHR '';'' \<in> set a"
  shows "word_at (a @ b) = word_at (a @ b')" "hd (a @ b) = hd (a @ b')"
proof -
  have "\<not> word_char (CHR '';'')"
    by (simp add: word_char_def alpha_def)
  then have "takeWhile word_char (a @ b) = takeWhile word_char (a @ b')"
    using assms by (simp add: takeWhile_append1)
  then show "word_at (a @ b) = word_at (a @ b')" "hd (a @ b) = hd (a @ b')"
    using assms by (auto simp: word_at_def hd_append)
qed

lemma scan_word_unseen:
  assumes "skip_blank (a @ b) = a' @ b" "CHR '';'' \<in> set a'"
  shows "scan_word st word (a @ b) = scan_word st word (a @ b')"
proof -
  have s: "skip_blank (a @ b') = a' @ b'"
    using skip_blank_unseen assms by blast
  have "a' \<noteq> []"
    using assms(2) by auto
  then have "used_as_name p w (a @ b) l = used_as_name p w (a @ b') l" for p w l
    unfolding used_as_name_def Let_def assms(1) s word_at_unseen [OF assms(2), of b b'] by (simp only: append_is_Nil_conv simp_thms)
  then show ?thesis
    unfolding scan_word_def Let_def assms(1) s word_at_unseen [OF assms(2), of b b'] using \<open>a' \<noteq> []\<close> by (simp only: append_is_Nil_conv simp_thms)
qed

lemma next_end_Some_suffix:
  assumes "next_end st s = Some (st', a' @ b)" "suffix s (a @ b)"
  obtains a1 where "s = a1 @ b" "CHR '';'' \<in> set a1" "suffix a1 a"
proof -
  obtain p where p: "s = p @ CHR '';'' # a' @ b"
    using next_end_split [OF assms(1)] by auto
  obtain q where "a @ b = q @ p @ CHR '';'' # a' @ b"
    using assms(2) p by (auto simp: suffix_def)
  then have "a = q @ p @ CHR '';'' # a'"
    by (metis append_Cons append_assoc append_same_eq)
  then show ?thesis
    using that [of "p @ CHR '';'' # a'"] p by (simp add: suffix_def)
qed

lemma scan_turn_semi:
  "begin_depth st = 0 \<Longrightarrow> scan_turn st (CHR '';'' # r) = (st\<lparr>case_depth := 0, prev := CHR '';'', prev_word := []\<rparr>, r, True)"
  by (simp add: scan_turn_def Let_def line_comment_def block_comment_def blank_def word_start_def alpha_def take_Cons')

lemma scan_turn_word:
  assumes "word_start (hd s)" "\<not> blank (hd s)" "\<not> line_comment s" "\<not> block_comment s" "hd s \<noteq> CHR 0x27" "hd s \<noteq> CHR 0x22" "hd s \<noteq> CHR 0x60"
  shows "scan_turn st s = ((scan_word st (upper_case (takeWhile word_char s)) (dropWhile word_char s))\<lparr>
      prev := last (takeWhile word_char s), prev_word := upper_case (takeWhile word_char s)\<rparr>, dropWhile word_char s, False)"
  using assms by (simp add: scan_turn_def Let_def)

lemma scan_turn_blank: "blank (hd s) \<Longrightarrow> scan_turn st s = (st, tl s, False)"
  by (simp add: scan_turn_def)

lemma scan_turn_comment: "\<not> blank (hd s) \<Longrightarrow> line_comment s \<or> block_comment s \<Longrightarrow> scan_turn st s = (st, skip_blank s, False)"
  by (simp add: scan_turn_def)

lemma scan_turn_string:
  "\<not> blank (hd s) \<Longrightarrow> \<not> line_comment s \<Longrightarrow> \<not> block_comment s \<Longrightarrow> hd s = CHR 0x27 \<Longrightarrow>
    scan_turn st s = (st\<lparr>prev := CHR 0x27, prev_word := []\<rparr>, string_end (tl s), False)"
  by (simp add: scan_turn_def)

lemma scan_turn_quoted:
  "\<not> blank (hd s) \<Longrightarrow> \<not> line_comment s \<Longrightarrow> \<not> block_comment s \<Longrightarrow> hd s = CHR 0x22 \<or> hd s = CHR 0x60 \<Longrightarrow>
    scan_turn st s = (st\<lparr>prev := hd s, prev_word := []\<rparr>, quoted_end (hd s) (tl s), False)"
  by (auto simp: scan_turn_def Let_def)

lemma scan_turn_other:
  "\<not> blank (hd s) \<Longrightarrow> \<not> line_comment s \<Longrightarrow> \<not> block_comment s \<Longrightarrow> hd s \<notin> {CHR 0x27, CHR 0x22, CHR 0x60} \<Longrightarrow> \<not> word_start (hd s) \<Longrightarrow>
    \<not> (hd s = CHR '';'' \<and> begin_depth st = 0) \<Longrightarrow> scan_turn st s = (st\<lparr>prev := hd s, prev_word := []\<rparr>, tl s, False)"
  by (simp add: scan_turn_def Let_def)

lemma scan_turn_unseen:
  assumes turn: "scan_turn st (a @ b) = (st1, a1 @ b, False)" and a: "a \<noteq> []" "CHR '';'' \<in> set a1" "suffix a1 a"
    and next_end: "next_end st1 (a1 @ b) = Some (st', a' @ b)"
  shows "scan_turn st (a @ b') = (st1, a1 @ b', False)"
proof -
  obtain c t where ct: "a = c # t"
    using a(1) by (cases a) auto
  have semi: "CHR '';'' \<in> set a"
    using a(2,3) set_mono_suffix by blast
  note comments = comment_unseen [OF semi, of b b']
  obtain a2 where a2: "skip_blank (a1 @ b) = a2 @ b" "CHR '';'' \<in> set a2"
    using next_end_Some_suffix [of st1 "skip_blank (a1 @ b)" st' a' b a1] next_end next_end_skip [of st1 "a1 @ b"] skip_blank_suffix by metis
  show ?thesis
  proof (cases "word_start c \<and> \<not> blank c \<and> \<not> line_comment (a @ b) \<and> \<not> block_comment (a @ b) \<and> c \<noteq> CHR 0x27 \<and> c \<noteq> CHR 0x22 \<and> c \<noteq> CHR 0x60")
    case True
    then have after: "dropWhile word_char (a @ b) = a1 @ b"
      using turn ct scan_turn_word [of "a @ b" st] by simp
    have after': "dropWhile word_char (a @ b') = a1 @ b'"
      using drop_scan.unseen [OF after a(2)] .
    have "takeWhile word_char (a @ b) @ a1 @ b = a @ b" "takeWhile word_char (a @ b') @ a1 @ b' = a @ b'"
      using takeWhile_dropWhile_id [of word_char] after after' by metis+
    then have word: "takeWhile word_char (a @ b') = takeWhile word_char (a @ b)"
      by (metis append_assoc append_same_eq)
    have hd: "hd (a @ b) = c" "hd (a @ b') = c"
      using ct by simp_all
    have "scan_turn st (a @ b') = ((scan_word st (upper_case (takeWhile word_char (a @ b))) (a1 @ b'))\<lparr>
        prev := last (takeWhile word_char (a @ b)), prev_word := upper_case (takeWhile word_char (a @ b))\<rparr>, a1 @ b', False)"
      using scan_turn_word [of "a @ b'" st, unfolded hd comments [symmetric] word after'] True by blast
    moreover have "scan_turn st (a @ b) = ((scan_word st (upper_case (takeWhile word_char (a @ b))) (a1 @ b))\<lparr>
        prev := last (takeWhile word_char (a @ b)), prev_word := upper_case (takeWhile word_char (a @ b))\<rparr>, a1 @ b, False)"
      using scan_turn_word [of "a @ b" st, unfolded hd after] True by blast
    ultimately show ?thesis
      using turn scan_word_unseen [OF a2, of st _ b'] by simp
  next
    case False
    have ends: "hd (a @ b) = c" "hd (a @ b') = c" "tl (a @ b) = t @ b" "tl (a @ b') = t @ b'"
      using ct by simp_all
    consider "blank c" | "\<not> blank c" "line_comment (a @ b) \<or> block_comment (a @ b)"
      | (plain) "\<not> blank c" "\<not> line_comment (a @ b)" "\<not> block_comment (a @ b)"
      by blast
    then show ?thesis
    proof cases
      case 1
      then show ?thesis
        using turn scan_turn_blank [of "a @ b"] scan_turn_blank [of "a @ b'"] by (simp add: ends)
    next
      case 2
      then show ?thesis
        using turn scan_turn_comment [of "a @ b"] scan_turn_comment [of "a @ b'"] comments blank_scan.unseen [OF _ a(2), of a b b'] by (simp add: ends)
    next
      case plain
      note other = plain [unfolded comments]
      show ?thesis
      proof (cases "c \<in> {CHR 0x27, CHR 0x22, CHR 0x60}")
        case True
        then show ?thesis
          using turn scan_turn_string [of "a @ b"] scan_turn_string [of "a @ b'"] scan_turn_quoted [of "a @ b"] scan_turn_quoted [of "a @ b'"]
            plain other string_scan.unseen [OF _ a(2), of t b b'] quoted_scan.unseen [OF _ a(2), of c t b b'] by (auto simp: ends)
      next
        case nq: False
        then have "\<not> word_start c"
          using False plain by blast
        moreover have "\<not> (c = CHR '';'' \<and> begin_depth st = 0)"
          using turn scan_turn_semi [of st "t @ b"] ct by (cases "begin_depth st = 0") auto
        ultimately show ?thesis
          using turn scan_turn_other [of "a @ b" st] scan_turn_other [of "a @ b'" st] plain other nq by (simp add: ends)
      qed
    qed
  qed
qed

lemma next_end_unseen: "next_end st (a @ b) = Some (st', a' @ b) \<Longrightarrow> next_end st (a @ b') = Some (st', a' @ b')"
proof (induction a arbitrary: st rule: measure_induct_rule [of length])
  case (less a)
  obtain p where p: "a = p @ CHR '';'' # a'"
    using next_end_split [OF less.prems] by auto
  then have a: "a \<noteq> []"
    by simp
  obtain st1 r e where turn: "scan_turn st (a @ b) = (st1, r, e)"
    by (metis surj_pair)
  show ?case
  proof (cases e)
    case True
    then have n: "next_end st (a @ b) = Some (st1, r)"
      using turn a by (simp add: next_end.simps [of st "a @ b"])
    have "a @ b = CHR '';'' # r" and st: "st1 = st\<lparr>case_depth := 0, prev := CHR '';'', prev_word := []\<rparr>" "begin_depth st = 0"
      using scan_turn_ended [of st "a @ b" st1 r] turn a True by simp_all
    moreover have r: "r = a' @ b" "st1 = st'"
      using n less.prems by simp_all
    ultimately have "a = CHR '';'' # a'"
      by (metis append_Cons append_same_eq)
    then show ?thesis
      using scan_turn_semi [OF st(2), of "a' @ b'"] st(1) r(2) by (simp add: next_end.simps [of st "CHR '';'' # a' @ b'"])
  next
    case False
    then have n: "next_end st1 r = Some (st', a' @ b)"
      using less.prems turn a by (simp add: next_end.simps [of st "a @ b"])
    obtain a1 where a1: "r = a1 @ b" "CHR '';'' \<in> set a1" "suffix a1 a"
      by (rule next_end_Some_suffix [OF n scan_turn_suffix [OF turn]])
    have "length a1 < length a"
      using scan_turn_shorter [OF _ turn] a a1(1) by simp
    then have "next_end st1 (a1 @ b') = Some (st', a' @ b')"
      using less.IH n a1(1) by blast
    moreover have "scan_turn st (a @ b') = (st1, a1 @ b', False)"
      by (rule scan_turn_unseen [where b = b and st' = st' and a' = a', OF _ a a1(2,3)]) (use turn n a1(1) False in simp_all)
    ultimately show ?thesis
      using a by (simp add: next_end.simps [of st "a @ b'"])
  qed
qed

section \<open>Behind an end the scanner starts anew\<close>

text \<open>Two states that differ only in a last character after which no name follows.\<close>

definition alike :: "scan_state \<Rightarrow> scan_state \<Rightarrow> bool" where
  "alike st st' \<longleftrightarrow> (\<exists>c. st' = st\<lparr>prev := c\<rparr> \<and> name_follows c = name_follows (prev st))"

lemma alike_refl: "alike st st"
  unfolding alike_def by (rule exI [of _ "prev st"]) simp

lemma scan_word_prev:
  assumes "name_follows c = name_follows (prev st)"
  shows "scan_word (st\<lparr>prev := c\<rparr>) w after = (scan_word st w after)\<lparr>prev := c\<rparr>"
proof -
  have used: "used_as_name c pw after l = used_as_name (prev st) pw after l" for pw l
    unfolding used_as_name_def assms ..
  have swap: "st\<lparr>prev := c, begin_depth := n\<rparr> = st\<lparr>begin_depth := n, prev := c\<rparr>" "st\<lparr>prev := c, case_depth := n\<rparr> = st\<lparr>case_depth := n, prev := c\<rparr>" for n
    by simp_all
  show ?thesis
    unfolding scan_word_def Let_def by (simp add: used swap if_distrib [of "\<lambda>x. x\<lparr>prev := c\<rparr>"] cong: if_cong split del: if_split)
qed

lemma alike_turn:
  assumes "alike st st'" "scan_turn st s = (st1, r, e)"
  shows "\<exists>st1'. scan_turn st' s = (st1', r, e) \<and> alike st1 st1'"
proof -
  obtain c where c: "st' = st\<lparr>prev := c\<rparr>" "name_follows c = name_follows (prev st)"
    using assms(1) by (auto simp: alike_def)
  consider "blank (hd s)" | "\<not> blank (hd s)" "line_comment s \<or> block_comment s" | "\<not> blank (hd s)" "\<not> line_comment s" "\<not> block_comment s"
    by blast
  then show ?thesis
  proof cases
    case 1
    then show ?thesis
      using assms scan_turn_blank [OF 1] by simp
  next
    case 2
    then show ?thesis
      using assms scan_turn_comment [OF 2] by simp
  next
    case 3
    consider (string) "hd s = CHR 0x27" | (quoted) "hd s = CHR 0x22 \<or> hd s = CHR 0x60"
      | (word) "word_start (hd s)" "hd s \<noteq> CHR 0x27" "hd s \<noteq> CHR 0x22" "hd s \<noteq> CHR 0x60"
      | (other) "\<not> word_start (hd s)" "hd s \<notin> {CHR 0x27, CHR 0x22, CHR 0x60}"
      by blast
    then have "scan_turn st' s = scan_turn st s"
    proof cases
      case string
      then show ?thesis
        by (simp add: c(1) scan_turn_string [OF 3])
    next
      case quoted
      then show ?thesis
        by (simp only: c(1) scan_turn_quoted [OF 3]) simp
    next
      case word
      then show ?thesis
        by (simp only: c(1) scan_turn_word [OF word(1) 3 word(2-4)] scan_word_prev [OF c(2)]) simp
    next
      case other
      then show ?thesis
        using 3 by (simp add: c(1) scan_turn_def Let_def)
    qed
    then show ?thesis
      using assms(2) alike_refl by auto
  qed
qed

lemma alike_next_end: "alike st st' \<Longrightarrow> next_end st s = next_end st' s"
proof (induction s arbitrary: st st' rule: measure_induct_rule [of length])
  case (less s)
  show ?case
  proof (cases "s = []")
    case False
    obtain st1 r e where turn: "scan_turn st s = (st1, r, e)"
      by (metis surj_pair)
    obtain st1' where turn': "scan_turn st' s = (st1', r, e)" "alike st1 st1'"
      using alike_turn [OF less.prems turn] by blast
    show ?thesis
    proof (cases e)
      case True
      then have "next_end st s = Some (st1, r)" "next_end st' s = Some (st1', r)"
        using turn turn'(1) False by (simp_all add: next_end.simps [of _ s])
      then show ?thesis
        using next_end_split by metis
    next
      case e: False
      have "next_end st s = next_end st1 r" "next_end st' s = next_end st1' r"
        using turn turn'(1) False e by (simp_all add: next_end.simps [of _ s])
      then show ?thesis
        using less.IH [OF scan_turn_shorter [OF False turn] turn'(2)] by simp
    qed
  qed (simp add: next_end.simps [of _ "[]"])
qed

lemma next_end_anew: "next_end ended_state s = next_end scan_init s"
  by (rule alike_next_end) (auto simp: alike_def ended_state_def scan_init_def name_follows_def)

lemma find_statement_end_eq: "find_statement_end s = map_option (\<lambda>(st, r). length s - length r - 1) (next_end scan_init s)"
  unfolding find_statement_end_def by (subst scan_next) (auto split: option.split)

lemma scan_count:
  "scan count_one i st s n = n + scan count_one 0 st s 0"
proof (induction s arbitrary: i st n rule: measure_induct_rule [of length])
  case (less s)
  show ?case
  proof (cases "next_end st s")
    case (Some str)
    obtain st' r where str: "str = (st', r)"
      by fastforce
    have "length r < length s"
      using next_end_split [of st s] Some str by auto
    note IH = less.IH [OF this]
    show ?thesis
      using Some str IH [of "i + (length s - length r)" st' "n + 1"] IH [of "length s - length r" st' 1]
      by (simp add: scan_next [of _ _ st s] count_one_def [of _ n] count_one_def [of _ 0])
  qed (simp add: scan_next [of _ _ st s])
qed

section \<open>Properties\<close>

text \<open>Taking the statements of an input off one by one, as the server does.\<close>

lemma find_statement_end_less: "find_statement_end s = Some e \<Longrightarrow> e < length s"
  using next_end_split [of scan_init s] by (fastforce simp: find_statement_end_eq)

function statements :: "string \<Rightarrow> string list" where
  "statements s = (case find_statement_end s of None \<Rightarrow> [] | Some e \<Rightarrow> take (e + 1) s # statements (drop (e + 1) s))"
  by pat_completeness auto
termination
  by (relation "measure length") (auto dest: find_statement_end_less)

declare statements.simps [simp del]

text \<open>
  The end of a statement does not depend on what comes after it. If the first statement of an input ends at \<open>e\<close>, there is a \<^verbatim>\<open>;\<close> at \<open>e\<close>, and with any other
  text behind it, or none, it ends there too: input that arrives in pieces is split like input that arrives at once.
\<close>

theorem statement_end_stable:
  assumes "find_statement_end s = Some e"
  shows "s ! e = CHR '';'' \<and> e < length s \<and> find_statement_end (take (e + 1) s @ further) = Some e"
proof -
  obtain st r where n: "next_end scan_init s = Some (st, r)" "e = length s - length r - 1"
    using assms by (auto simp: find_statement_end_eq)
  obtain p where p: "s = p @ CHR '';'' # r"
    using next_end_split [OF n(1)] by auto
  then have e: "e = length p"
    using n(2) by simp
  have "next_end scan_init ((p @ '';'') @ r) = Some (st, [] @ r)"
    using n(1) p by simp
  then have "next_end scan_init ((p @ '';'') @ further) = Some (st, [] @ further)"
    by (rule next_end_unseen)
  then show ?thesis
    using p e by (simp add: find_statement_end_eq nth_append)
qed

theorem statement_end_stable_witness:
  "find_statement_end (take 9 ''SELECT 1; SELECT'' @ '' FROM t;'') = Some 8"
proof -
  have "find_statement_end ''SELECT 1; SELECT'' = Some 8"
    by code_simp
  from statement_end_stable [OF this, of "'' FROM t;''"] show ?thesis
    by simp
qed

text \<open>
  C26: Counting and splitting agree. The number of ends \<^verbatim>\<open>count_statement_ends\<close> finds in one pass over an input is the number of statements taken off
  it one by one with \<^verbatim>\<open>find_statement_end\<close>, each search starting anew behind the last statement.
\<close>

theorem count_is_split: "count_statement_ends s = length (statements s)"
proof (induction s rule: statements.induct)
  case (1 s)
  show ?case
  proof (cases "next_end scan_init s")
    case None
    then have "find_statement_end s = None"
      by (simp add: find_statement_end_eq)
    moreover have "count_statement_ends s = 0"
      using None unfolding count_statement_ends_def by (subst scan_next) simp
    ultimately show ?thesis
      by (simp add: statements.simps [of s])
  next
    case (Some str)
    then obtain r p where str: "str = (ended_state, r)" "s = p @ CHR '';'' # r"
      using next_end_split [of scan_init s "fst str" "snd str"] by (cases str) auto
    have e: "find_statement_end s = Some (length p)"
      using Some str by (simp add: find_statement_end_eq)
    have "scan count_one 0 ended_state r 0 = scan count_one 0 scan_init r 0"
      by (simp only: scan_next [of _ _ ended_state] scan_next [of _ _ scan_init] next_end_anew)
    moreover have "count_statement_ends s = scan count_one (length s - length r) ended_state r 1"
      unfolding count_statement_ends_def scan_next [of count_one 0 scan_init s] using Some str(1) by (simp add: count_one_def [of _ 0])
    ultimately have "count_statement_ends s = 1 + count_statement_ends r"
      using scan_count [of _ ended_state r 1] by (simp add: count_statement_ends_def)
    then show ?thesis
      using "1.IH" [OF e] unfolding statements.simps [of s] e using str(2) by simp
  qed
qed

end
