(* ===== verification/Lexer.thy ===== *)
theory Lexer
  imports StatementSplit
begin

text \<open>
  The lexer (\<^verbatim>\<open>core/src/parser/lexer.cpp\<close>), with the functions that write a text as a literal for it to read back (\<^verbatim>\<open>fn_quote\<close>, \<^verbatim>\<open>quoted_text\<close>,
  \<^verbatim>\<open>sql_quoted\<close>). As in \<open>StatementSplit\<close> a position is the rest of the text; \<open>n\<close> is the length of the whole, so that \<^verbatim>\<open>pos_\<close> is \<open>n - length s\<close>.

  The enumerators of \<^verbatim>\<open>TokenKind\<close> that stand for keywords are \<open>Keyword\<close> with the enumerator's name. What \<^verbatim>\<open>snprintf ("%.15g", strtod (...))\<close> writes for a
  number with an exponent is the argument \<open>fmt\<close>: no property below depends on it.
\<close>

section \<open>Tokens\<close>

datatype TokenKind =
    Keyword string
  | Asterisk | Comma | Semicolon | LParen | RParen | Dot
  | Eq | Ne | Gt | Lt | Gte | Lte
  | Ident | StringLit | NumberLit
  | Plus | Minus | Slash | At | Arrow | LongArrow | Percent | PipePipe
  | Ampersand | Pipe | Caret | Tilde | ShiftLeft | ShiftRight | NullSafeEq | ColonEq

record Token =
  tk_kind :: TokenKind
  tk_text :: string
  tk_word :: string
  tk_begin :: nat
  tk_end :: nat

definition keyword_map :: "(string \<times> TokenKind) list" where
  "keyword_map = [
    (''SELECT'', Keyword ''Select''), (''FROM'', Keyword ''From''), (''WHERE'', Keyword ''Where''), (''INSERT'', Keyword ''Insert''),
    (''INTO'', Keyword ''Into''), (''VALUES'', Keyword ''Values''), (''UPDATE'', Keyword ''Update''), (''SET'', Keyword ''Set''),
    (''DELETE'', Keyword ''Delete''), (''CREATE'', Keyword ''Create''), (''TABLE'', Keyword ''Table''), (''DROP'', Keyword ''Drop''),
    (''JOIN'', Keyword ''Join''), (''LEFT'', Keyword ''Left''), (''RIGHT'', Keyword ''Right''), (''CROSS'', Keyword ''Cross''),
    (''NATURAL'', Keyword ''Natural''), (''OUTER'', Keyword ''Outer''), (''FULL'', Keyword ''Full''), (''RETURNING'', Keyword ''Returning''),
    (''ON'', Keyword ''On''), (''AND'', Keyword ''And''), (''OR'', Keyword ''Or''), (''NOT'', Keyword ''Not''), (''ALTER'', Keyword ''Alter''),
    (''ADD'', Keyword ''Add''), (''COLUMN'', Keyword ''Column''), (''RENAME'', Keyword ''Rename''), (''TO'', Keyword ''To''),
    (''ORDER'', Keyword ''Order''), (''GROUP'', Keyword ''Group''), (''BY'', Keyword ''By''), (''ASC'', Keyword ''Asc''),
    (''DESC'', Keyword ''Desc''), (''LIMIT'', Keyword ''Limit''), (''COUNT'', Keyword ''Count''), (''SUM'', Keyword ''Sum''),
    (''AVG'', Keyword ''Avg''), (''MIN'', Keyword ''Min''), (''MAX'', Keyword ''Max''), (''HAVING'', Keyword ''Having''), (''IN'', Keyword ''In''),
    (''BETWEEN'', Keyword ''Between''), (''LIKE'', Keyword ''Like''), (''INDEX'', Keyword ''Index''), (''UNIQUE'', Keyword ''Unique''),
    (''VIEW'', Keyword ''View''), (''AS'', Keyword ''As''), (''PRIMARY'', Keyword ''Primary''), (''KEY'', Keyword ''Key''),
    (''NULL'', Keyword ''Null''), (''AUTO'', Keyword ''Auto''), (''INCREMENT'', Keyword ''Increment''), (''SHOW'', Keyword ''Show''),
    (''TABLES'', Keyword ''Tables''), (''DESCRIBE'', Keyword ''Describe''), (''TRUNCATE'', Keyword ''Truncate''), (''INT'', Keyword ''Int''),
    (''TEXT'', Keyword ''Text''), (''FLOAT'', Keyword ''Float''), (''BOOLEAN'', Keyword ''Boolean''), (''REFERENCES'', Keyword ''References''),
    (''FOREIGN'', Keyword ''Foreign''), (''CONSTRAINT'', Keyword ''Constraint''), (''CASCADE'', Keyword ''Cascade''),
    (''RESTRICT'', Keyword ''Restrict''), (''IS'', Keyword ''Is''), (''CHECKPOINT'', Keyword ''Checkpoint''), (''ISOLATION'', Keyword ''Isolation''),
    (''LEVEL'', Keyword ''Level''), (''UNCOMMITTED'', Keyword ''Uncommitted''), (''COMMITTED'', Keyword ''Committed''),
    (''REPEATABLE'', Keyword ''Repeatable''), (''SERIALIZABLE'', Keyword ''Serializable''), (''VACUUM'', Keyword ''Vacuum''),
    (''FOR'', Keyword ''For''), (''LOCKS'', Keyword ''Locks''), (''DISTINCT'', Keyword ''Distinct''), (''DEFAULT'', Keyword ''Default''),
    (''MODIFY'', Keyword ''Modify''), (''EXISTS'', Keyword ''Exists''), (''SAVEPOINT'', Keyword ''Savepoint''), (''RELEASE'', Keyword ''Release''),
    (''EXPLAIN'', Keyword ''Explain''), (''VARCHAR'', Keyword ''Varchar''), (''DATE'', Keyword ''Date''), (''DATETIME'', Keyword ''Datetime''),
    (''TIMESTAMP'', Keyword ''Timestamp''), (''DECIMAL'', Keyword ''Decimal''), (''DOUBLE'', Keyword ''Double''), (''TIME'', Keyword ''Time''),
    (''YEAR'', Keyword ''Year''), (''BLOB'', Keyword ''Blob''), (''ENUM'', Keyword ''Enum''), (''DATABASE'', Keyword ''Database''),
    (''INNER'', Keyword ''Inner''), (''SCHEMA'', Keyword ''Database''), (''CHECK'', Keyword ''Check''), (''UPPER'', Keyword ''Upper''),
    (''LOWER'', Keyword ''Lower''), (''LENGTH'', Keyword ''Length''), (''TRIM'', Keyword ''Trim''), (''CONCAT'', Keyword ''Concat''),
    (''SUBSTR'', Keyword ''Substr''), (''SUBSTRING'', Keyword ''Substring''), (''NOW'', Keyword ''Now''), (''CURDATE'', Keyword ''Curdate''),
    (''DATE_FORMAT'', Keyword ''DateFormat''), (''COALESCE'', Keyword ''Coalesce''), (''IFNULL'', Keyword ''Ifnull''),
    (''REPLACE'', Keyword ''Replace''), (''ROUND'', Keyword ''Round''), (''ABS'', Keyword ''Abs''), (''CEIL'', Keyword ''Ceil''),
    (''FLOOR'', Keyword ''Floor''), (''MOD'', Keyword ''Mod''), (''INTERVAL'', Keyword ''Interval''), (''CASE'', Keyword ''Case''),
    (''WHEN'', Keyword ''When''), (''THEN'', Keyword ''Then''), (''ELSE'', Keyword ''Else''), (''END'', Keyword ''End''),
    (''UNION'', Keyword ''Union''), (''INTERSECT'', Keyword ''Intersect''), (''EXCEPT'', Keyword ''Except''), (''ALL'', Keyword ''All''),
    (''IF'', Keyword ''If''), (''GROUP_CONCAT'', Keyword ''GroupConcat''), (''IGNORE'', Keyword ''Ignore''), (''DUPLICATE'', Keyword ''Duplicate''),
    (''NULLIF'', Keyword ''Nullif''), (''LPAD'', Keyword ''Lpad''), (''RPAD'', Keyword ''Rpad''), (''CAST'', Keyword ''Cast''),
    (''DATE_ADD'', Keyword ''DateAdd''), (''DATE_SUB'', Keyword ''DateSub''), (''DATEDIFF'', Keyword ''DateDiff''),
    (''SEPARATOR'', Keyword ''Separator''), (''OFFSET'', Keyword ''Offset''), (''WITH'', Keyword ''With''), (''RECURSIVE'', Keyword ''Recursive''),
    (''USE'', Keyword ''Use''), (''USER'', Keyword ''User''), (''IDENTIFIED'', Keyword ''Identified''), (''GRANT'', Keyword ''Grant''),
    (''REVOKE'', Keyword ''Revoke''), (''PRIVILEGES'', Keyword ''Privileges''), (''GRANTS'', Keyword ''Grants''), (''OPTION'', Keyword ''OptionKw''),
    (''PASSWORD'', Keyword ''Password''), (''DATABASES'', Keyword ''Databases''), (''ANALYZE'', Keyword ''Analyze''),
    (''STDDEV'', Keyword ''Stddev''), (''STD'', Keyword ''Stddev''), (''STDDEV_POP'', Keyword ''Stddev''), (''STDDEV_SAMP'', Keyword ''Stddev''),
    (''VARIANCE'', Keyword ''Variance''), (''VAR_POP'', Keyword ''Variance''), (''VAR_SAMP'', Keyword ''Variance''),
    (''BIT_AND'', Keyword ''BitAnd''), (''BIT_OR'', Keyword ''BitOr''), (''JSON_AGG'', Keyword ''JsonAgg''), (''ARRAY_AGG'', Keyword ''ArrayAgg''),
    (''MEDIAN'', Keyword ''Median''), (''FILTER'', Keyword ''Filter''), (''LATERAL'', Keyword ''Lateral''), (''NTILE'', Keyword ''Ntile''),
    (''PERCENT_RANK'', Keyword ''PercentRank''), (''CUME_DIST'', Keyword ''CumeDist''), (''ROW_NUMBER'', Keyword ''RowNumber''),
    (''REGEXP'', Keyword ''Regexp''), (''RLIKE'', Keyword ''Regexp''), (''MERGE'', Keyword ''Merge''), (''USING'', Keyword ''Using''),
    (''MATCHED'', Keyword ''Matched''), (''PREPARE'', Keyword ''Prepare''), (''EXECUTE'', Keyword ''Execute''),
    (''DEALLOCATE'', Keyword ''Deallocate''), (''FETCH'', Keyword ''Fetch''), (''NEXT'', Keyword ''Next''), (''ONLY'', Keyword ''Only''),
    (''ROLE'', Keyword ''Role''), (''SYNONYM'', Keyword ''Synonym''), (''PROCEDURE'', Keyword ''Procedure''), (''CALL'', Keyword ''Call''),
    (''TRIGGER'', Keyword ''Trigger''), (''BEFORE'', Keyword ''Before''), (''AFTER'', Keyword ''After''), (''EACH'', Keyword ''Each''),
    (''ROW'', Keyword ''Row''), (''NEW'', Keyword ''NewKw''), (''OLD'', Keyword ''OldKw''), (''BODY'', Keyword ''Body''),
    (''SIGNAL'', Keyword ''Signal''), (''DECLARE'', Keyword ''Declare''), (''HANDLER'', Keyword ''Handler''), (''LEAVE'', Keyword ''Leave''),
    (''ITERATE'', Keyword ''Iterate''), (''LOOP'', Keyword ''Loop''), (''REPEAT'', Keyword ''Repeat''), (''UNTIL'', Keyword ''Until''),
    (''WHILE'', Keyword ''While''), (''DO'', Keyword ''Do''), (''ELSEIF'', Keyword ''ElseIfKw''), (''ROWS'', Keyword ''Rows''),
    (''RANGE'', Keyword ''Range''), (''UNBOUNDED'', Keyword ''Unbounded''), (''PRECEDING'', Keyword ''Preceding''),
    (''FOLLOWING'', Keyword ''Following''), (''CURRENT'', Keyword ''Current''), (''FIRST_VALUE'', Keyword ''FirstValue''),
    (''LAST_VALUE'', Keyword ''LastValue''), (''NTH_VALUE'', Keyword ''NthValue''), (''RANK'', Keyword ''Rank''),
    (''DENSE_RANK'', Keyword ''DenseRank''), (''LAG'', Keyword ''Lag''), (''LEAD'', Keyword ''Lead''), (''OVER'', Keyword ''Over''),
    (''PARTITION'', Keyword ''Partition''), (''BIGINT'', Keyword ''BigInt''), (''SMALLINT'', Keyword ''SmallInt''),
    (''TINYINT'', Keyword ''TinyInt''), (''JSON'', Keyword ''Json''), (''JSON_EXTRACT'', Keyword ''JsonExtract''),
    (''JSON_UNQUOTE'', Keyword ''JsonUnquote''), (''JSON_VALUE'', Keyword ''JsonValue''), (''SHARE'', Keyword ''Share''),
    (''INTEGER'', Keyword ''Int''), (''INT4'', Keyword ''Int''), (''INT8'', Keyword ''BigInt''), (''MEDIUMINT'', Keyword ''Int''),
    (''INT2'', Keyword ''Int''), (''INT3'', Keyword ''Int''), (''LONGTEXT'', Keyword ''Text''), (''MEDIUMTEXT'', Keyword ''Text''),
    (''TINYTEXT'', Keyword ''Text''), (''CLOB'', Keyword ''Text''), (''LONGBLOB'', Keyword ''Text''), (''MEDIUMBLOB'', Keyword ''Text''),
    (''TINYBLOB'', Keyword ''Text''), (''NVARCHAR'', Keyword ''Varchar''), (''NCHAR'', Keyword ''Varchar''), (''CHARACTER'', Keyword ''Varchar''),
    (''CHAR'', Keyword ''Varchar''), (''NUMERIC'', Keyword ''Decimal''), (''REAL'', Keyword ''Double''), (''BOOL'', Keyword ''Boolean''),
    (''UNKNOWN'', Keyword ''Null''), (''CURRENT_DATE'', Keyword ''Curdate''), (''CURRENT_TIMESTAMP'', Keyword ''Now''),
    (''SYSDATE'', Keyword ''Now''), (''LOCALTIME'', Keyword ''Now''), (''LOCALTIMESTAMP'', Keyword ''Now'')]"

definition is_value_or_close_paren :: "TokenKind \<Rightarrow> bool" where
  "is_value_or_close_paren k \<longleftrightarrow> k = NumberLit \<or> k = Ident \<or> k = StringLit \<or> k = RParen"

definition digit :: "char \<Rightarrow> bool" where
  "digit c \<longleftrightarrow> 48 \<le> code c \<and> code c \<le> 57"

definition hexdigit :: "char \<Rightarrow> bool" where
  "hexdigit c \<longleftrightarrow> digit c \<or> 65 \<le> code c \<and> code c \<le> 70 \<or> 97 \<le> code c \<and> code c \<le> 102"

definition lower_case :: "string \<Rightarrow> string" where
  "lower_case s = map (\<lambda>c. if 65 \<le> code c \<and> code c \<le> 90 then char_of (code c + 32) else c) s"

text \<open>\<^verbatim>\<open>peek() == c\<close>.\<close>

definition peek_is :: "char \<Rightarrow> string \<Rightarrow> bool" where
  "peek_is c s \<longleftrightarrow> s \<noteq> [] \<and> hd s = c"

section \<open>Executable comments\<close>

text \<open>The rest behind a literal or quoted name that \<open>c\<close> opened.\<close>

fun literal_end :: "char \<Rightarrow> string \<Rightarrow> string" where
  "literal_end c [] = []"
| "literal_end c (d # s) =
     (if d = c then s
      else if d = CHR 0x5C \<and> c \<noteq> CHR 0x60 \<and> s \<noteq> [] then literal_end c (tl s)
      else literal_end c s)"

text \<open>\<^verbatim>\<open>sql.find\<close>: the rest from the first occurrence on.\<close>

fun find_text :: "string \<Rightarrow> string \<Rightarrow> string option" where
  "find_text p s =
     (if take (length p) s = p then Some s
      else case s of [] \<Rightarrow> None | _ # r \<Rightarrow> find_text p r)"

declare find_text.simps [simp del]

definition kVersion :: nat where "kVersion = 80409"

definition version_value :: "string \<Rightarrow> nat" where
  "version_value ds = fold (\<lambda>c v. v * 10 + (code c - 48)) ds 0"

definition expand_comment :: "string \<Rightarrow> string \<times> string" where
  "expand_comment s =
     (let tail = find_text ''*/'' (drop 2 s);
          stop = (case tail of None \<Rightarrow> [] | Some r \<Rightarrow> drop 2 r);
          whole = take (length s - length stop) s in
      if take 3 s = ''/*!'' then
        let ds = takeWhile digit (take 5 (drop 3 s)); at = drop (3 + length ds) s;
            body = take (length at - (case tail of None \<Rightarrow> 0 | Some r \<Rightarrow> length r)) at in
        (if ds = [] \<or> version_value ds \<le> kVersion then '' '' @ body @ '' '' else [], stop)
      else if take 4 s \<noteq> ''/*M!'' then (whole, stop)
      else ([], stop))"

lemma find_text_suffix: "find_text p s = Some r \<Longrightarrow> suffix r s"
proof (induction p s rule: find_text.induct)
  case (1 p s)
  then show ?case
    by (subst (asm) (2) find_text.simps) (auto split: if_splits list.splits simp: suffix_ConsI)
qed

lemma literal_end_suffix: "suffix (literal_end c s) s"
proof (induction c s rule: literal_end.induct)
  case (2 c d s)
  have "suffix (tl s) (d # s)"
    by (simp add: suffix_ConsI suffix_tl)
  then show ?case
    using 2 by (auto simp: suffix_ConsI intro: suffix_order.trans)
qed simp

text \<open>One turn of the loop: what is copied, and the rest.\<close>

definition expand_turn :: "string \<Rightarrow> string \<times> string" where
  "expand_turn s =
     (let c = hd s in
      if c = CHR 0x27 \<or> c = CHR 0x22 \<or> c = CHR 0x60 then
        let r = literal_end c (tl s) in (take (length s - length r) s, r)
      else if line_comment s then
        let r = dropWhile (\<lambda>d. d \<noteq> CHR 0x0A) s in (take (length s - length r) s, r)
      else if block_comment s then expand_comment s
      else ([c], tl s))"

lemma expand_turn_shorter:
  assumes "s \<noteq> []" "expand_turn s = (t, r)"
  shows "length r < length s"
proof -
  obtain c u where s: "s = c # u"
    using assms(1) by (cases s) auto
  have "length (literal_end d u) \<le> length u" for d
    by (rule suffix_length_le [OF literal_end_suffix])
  moreover have "length (dropWhile (\<lambda>d. d \<noteq> CHR 0x0A) s) < length s" if "line_comment s"
    using that s length_dropWhile_le [of "\<lambda>d. d \<noteq> CHR 0x0A" u] by (auto simp: line_comment_def take_Cons' le_imp_less_Suc split: if_splits)
  moreover have "length (snd (expand_comment s)) < length s" if "block_comment s"
  proof -
    have "length (case find_text ''*/'' (drop 2 s) of None \<Rightarrow> [] | Some r \<Rightarrow> drop 2 r) \<le> length (drop 2 s)"
    proof (cases "find_text ''*/'' (drop 2 s)")
      case (Some r)
      then have "length r \<le> length (drop 2 s)"
        by (intro suffix_length_le find_text_suffix)
      then show ?thesis
        using Some by simp
    qed simp
    moreover have "snd (expand_comment s) = (case find_text ''*/'' (drop 2 s) of None \<Rightarrow> [] | Some r \<Rightarrow> drop 2 r)"
      by (simp add: expand_comment_def Let_def)
    ultimately show ?thesis
      using s by simp
  qed
  ultimately show ?thesis
    using assms(2) s by (auto simp: expand_turn_def Let_def le_imp_less_Suc split: if_splits dest: arg_cong [where f = snd])
qed

function expand_loop :: "string \<Rightarrow> string" where
  "expand_loop s = (if s = [] then [] else case expand_turn s of (t, r) \<Rightarrow> t @ expand_loop r)"
  by pat_completeness auto
termination
  by (relation "measure length") (auto dest: expand_turn_shorter [OF _ sym])

declare expand_loop.simps [simp del]

definition expand_executable_comments :: "string \<Rightarrow> string" where
  "expand_executable_comments sql =
     (if find_text ''/*!'' sql = None \<and> find_text ''/*M!'' sql = None then sql else expand_loop sql)"

section \<open>The lexer\<close>

text \<open>The rest behind the end of the line.\<close>

definition line_end :: "string \<Rightarrow> string" where
  "line_end s = tl (dropWhile (\<lambda>c. c \<noteq> CHR 0x0A) s)"

text \<open>The loop that leaves a \<^verbatim>\<open>/*\<close> comment.\<close>

fun leave_comment :: "string \<Rightarrow> string" where
  "leave_comment [] = []"
| "leave_comment (c # s) = (if c = CHR ''*'' \<and> peek_is (CHR ''/'') s then tl s else leave_comment s)"

text \<open>The characters an escape stands for.\<close>

definition escaped :: "char \<Rightarrow> string" where
  "escaped c =
     (if c = CHR ''n'' then [CHR 0x0A]
      else if c = CHR ''r'' then [CHR 0x0D]
      else if c = CHR ''t'' then [CHR 0x09]
      else if c = CHR ''0'' then [CHR 0x00]
      else if c = CHR ''b'' then [CHR 0x08]
      else if c = CHR ''Z'' then [CHR 0x1A]
      else if c = CHR ''%'' \<or> c = CHR ''_'' then [CHR 0x5C, c]
      else [c])"

text \<open>The text of a string literal, behind its opening quote, and the rest.\<close>

fun read_string :: "string \<Rightarrow> string \<times> string" where
  "read_string [] = ([], [])"
| "read_string (c # s) =
     (if c = CHR 0x27 then
        (if peek_is (CHR 0x27) s then (case read_string (tl s) of (t, r) \<Rightarrow> (CHR 0x27 # t, r)) else ([], s))
      else if c = CHR 0x5C then
        (if s = [] then ([], []) else (case read_string (tl s) of (t, r) \<Rightarrow> (escaped (hd s) @ t, r)))
      else (case read_string s of (t, r) \<Rightarrow> (c # t, r)))"

definition read_quoted_ident :: "char \<Rightarrow> string \<Rightarrow> string \<times> string" where
  "read_quoted_ident closing s = (takeWhile (\<lambda>c. c \<noteq> closing) s, tl (dropWhile (\<lambda>c. c \<noteq> closing) s))"

definition exponent_sign :: "string \<Rightarrow> string" where
  "exponent_sign s = (if peek_is (CHR ''+'') s \<or> peek_is (CHR ''-'') s then [hd s] else [])"

definition read_exponent :: "(string \<Rightarrow> string) \<Rightarrow> string \<Rightarrow> string \<Rightarrow> bool \<times> string \<times> string" where
  "read_exponent fmt s rest =
     (if s = [] \<or> last s = CHR ''.'' \<or> \<not> (peek_is (CHR ''e'') rest \<or> peek_is (CHR ''E'') rest) then (False, s, rest)
      else let r1 = tl rest;
               sign = exponent_sign r1;
               r2 = drop (length sign) r1 in
        if r2 = [] \<or> \<not> digit (hd r2) then (False, s, rest)
        else let exponent = ''e'' @ sign @ takeWhile digit r2; written = fmt (s @ exponent) in
          (True, if CHR ''e'' \<notin> set written \<and> CHR ''n'' \<notin> set written then written else s @ exponent, dropWhile digit r2))"

definition numeric :: "char \<Rightarrow> bool" where
  "numeric c \<longleftrightarrow> digit c \<or> c = CHR ''.''"

definition read_number :: "(string \<Rightarrow> string) \<Rightarrow> string \<Rightarrow> (TokenKind \<times> string) \<times> string" where
  "read_number fmt s =
     (let ds = takeWhile numeric s; r = dropWhile numeric s in
      case read_exponent fmt ds r of
        (True, t, r') \<Rightarrow> ((NumberLit, t), r')
      | (False, _, _) \<Rightarrow>
          if ds = ''0'' \<and> (peek_is (CHR ''x'') r \<or> peek_is (CHR ''X'') r)
          then ((StringLit, takeWhile hexdigit (tl r)), dropWhile hexdigit (tl r))
          else ((NumberLit, ds), r))"

definition ident_token :: "string \<Rightarrow> TokenKind \<times> string \<times> string" where
  "ident_token s =
     (let upper = upper_case s in
      if upper = ''TRUE'' then (Ident, ''true'', [])
      else if upper = ''FALSE'' then (Ident, ''false'', [])
      else case map_of keyword_map upper of
          Some k \<Rightarrow> (k, [], lower_case s)
        | None \<Rightarrow> (Ident, s, []))"

definition negative_number :: "(string \<Rightarrow> string) \<Rightarrow> string \<Rightarrow> string \<times> string" where
  "negative_number fmt r =
     (case read_exponent fmt (CHR ''-'' # takeWhile numeric r) (dropWhile numeric r) of
        (_, s, r') \<Rightarrow> (if list_all (\<lambda>c. c \<notin> set ''123456789'') s then tl s else s, r'))"

text \<open>\<^verbatim>\<open>@@name\<close>, behind the second \<^verbatim>\<open>@\<close>.\<close>

definition server_variable :: "string \<Rightarrow> string \<times> string" where
  "server_variable s =
     (let name = takeWhile word_char s; r = dropWhile word_char s in
      if peek_is (CHR ''.'') r \<and> upper_case name \<in> set [''SESSION'', ''GLOBAL'', ''LOCAL'', ''PERSIST'']
      then (CHR ''@'' # lower_case (takeWhile word_char (tl r)), dropWhile word_char (tl r))
      else (CHR ''@'' # lower_case name, r))"

text \<open>The operators: the token for the first character \<open>c\<close> with \<open>r\<close> behind it.\<close>

definition operator_token :: "char \<Rightarrow> string \<Rightarrow> (TokenKind \<times> string) option" where
  "operator_token c r =
     (if c = CHR ''+'' then Some (Plus, r)
      else if c = CHR ''*'' then Some (Asterisk, r)
      else if c = CHR '','' then Some (Comma, r)
      else if c = CHR '';'' then Some (Semicolon, r)
      else if c = CHR ''('' then Some (LParen, r)
      else if c = CHR '')'' then Some (RParen, r)
      else if c = CHR ''.'' then Some (Dot, r)
      else if c = CHR ''='' then Some (Eq, r)
      else if c = CHR ''>'' then
        Some (if peek_is (CHR ''='') r then (Gte, tl r) else if peek_is (CHR ''>'') r then (ShiftRight, tl r) else (Gt, r))
      else if c = CHR ''<'' then
        Some (if peek_is (CHR ''='') r then (if peek_is (CHR ''>'') (tl r) then (NullSafeEq, tl (tl r)) else (Lte, tl r))
              else if peek_is (CHR ''>'') r then (Ne, tl r)
              else if peek_is (CHR ''<'') r then (ShiftLeft, tl r)
              else (Lt, r))
      else if c = CHR ''!'' then Some (if peek_is (CHR ''='') r then (Ne, tl r) else (Keyword ''Not'', r))
      else if c = CHR ''%'' then Some (Percent, r)
      else if c = CHR ''|'' then Some (if peek_is (CHR ''|'') r then (PipePipe, tl r) else (Pipe, r))
      else if c = CHR ''&'' then Some (Ampersand, r)
      else if c = CHR ''^'' then Some (Caret, r)
      else if c = CHR ''~'' then Some (Tilde, r)
      else None)"

definition token :: "nat \<Rightarrow> string \<Rightarrow> string \<Rightarrow> TokenKind \<times> string \<times> string \<Rightarrow> Token" where
  "token n s r = (\<lambda>(k, t, w). \<lparr>tk_kind = k, tk_text = t, tk_word = w, tk_begin = n - length s, tk_end = n - length r\<rparr>)"

text \<open>One turn of the loop, with \<open>s\<close> not empty and not starting with a blank: the tokens it adds and the rest.\<close>

definition lex_turn :: "(string \<Rightarrow> string) \<Rightarrow> nat \<Rightarrow> Token list \<Rightarrow> string \<Rightarrow> Token list \<times> string" where
  "lex_turn fmt n tokens s =
     (let c = hd s; r = tl s; one = (\<lambda>(k, r'). ([token n s r' (k, [], [])], r')) in
      if c = CHR ''-'' then
        if peek_is (CHR ''-'') r then ([], line_end r)
        else if peek_is (CHR ''>'') r then one (if peek_is (CHR ''>'') (tl r) then (LongArrow, tl (tl r)) else (Arrow, tl r))
        else if r \<noteq> [] \<and> digit (hd r) \<and> \<not> (tokens \<noteq> [] \<and> is_value_or_close_paren (tk_kind (last tokens)))
          then (case negative_number fmt r of (t, r') \<Rightarrow> ([token n s r' (NumberLit, t, [])], r'))
        else one (Minus, r)
      else if c = CHR ''@'' then
        if peek_is (CHR ''@'') r
        then (case server_variable (tl r) of
                (name, r') \<Rightarrow> ([token n s (tl r) (At, [], []), token n s r' (Ident, name, [])], r'))
        else one (At, r)
      else if c = CHR ''#'' then ([], line_end r)
      else if c = CHR ''/'' then
        if peek_is (CHR ''*'') r then ([], leave_comment (tl r)) else one (Slash, r)
      else if c = CHR '':'' then
        if peek_is (CHR ''='') r then one (ColonEq, tl r) else ([], r)
      else if c = CHR 0x60 \<or> c = CHR 0x22
        then (case read_quoted_ident c r of (t, r') \<Rightarrow> ([token n s r' (Ident, t, [])], r'))
      else if c = CHR 0x27 then (case read_string r of (t, r') \<Rightarrow> ([token n s r' (StringLit, t, [])], r'))
      else case operator_token c r of
          Some kr \<Rightarrow> one kr
        | None \<Rightarrow>
            if digit c then (case read_number fmt s of ((k, t), r') \<Rightarrow> ([token n s r' (k, t, [])], r'))
            else if word_start c then
              (let r' = dropWhile word_char s in ([token n s r' (ident_token (takeWhile word_char s))], r'))
            else ([], r))"

section \<open>Every turn moves on\<close>

lemma read_string_suffix: "suffix (snd (read_string s)) s"
proof (induction s rule: read_string.induct)
  case (2 c s)
  have "suffix (tl s) (c # s)"
    by (simp add: suffix_ConsI suffix_tl)
  then show ?case
    using 2 by (auto simp: suffix_ConsI split: prod.split intro: suffix_order.trans)
qed simp

lemma leave_comment_suffix: "suffix (leave_comment s) s"
proof (induction s)
  case (Cons c s)
  have "suffix (tl s) (c # s)"
    by (simp add: suffix_ConsI suffix_tl)
  then show ?case
    using Cons by (auto simp: suffix_ConsI)
qed simp

lemma suffix_tl_trans: "suffix s t \<Longrightarrow> suffix (tl s) t"
  using suffix_order.trans [OF suffix_tl] by blast

lemma suffix_dropWhile_trans: "suffix s t \<Longrightarrow> suffix (dropWhile P s) t"
  using suffix_order.trans [OF suffix_dropWhile] by blast

lemma suffix_drop_trans: "suffix s t \<Longrightarrow> suffix (drop k s) t"
  using suffix_order.trans [OF suffix_drop] by blast

lemmas suffix_rests = suffix_tl_trans suffix_dropWhile_trans suffix_drop_trans

lemma read_exponent_suffix: "read_exponent fmt t s = (b, t', r) \<Longrightarrow> suffix r s"
  by (auto simp: read_exponent_def Let_def intro!: suffix_rests split: if_splits)

lemma read_number_suffix:
  assumes "s \<noteq> []" "digit (hd s)"
  shows "suffix (snd (read_number fmt s)) (tl s)"
proof -
  have d: "suffix (dropWhile numeric s) (tl s)"
    using assms by (cases s) (auto simp: numeric_def suffix_dropWhile)
  obtain b t r where e: "read_exponent fmt (takeWhile numeric s) (dropWhile numeric s) = (b, t, r)"
    by (metis surj_pair)
  then have "suffix r (tl s)"
    using read_exponent_suffix d suffix_order.trans by blast
  then show ?thesis
    using e d by (cases b) (auto simp: read_number_def Let_def intro!: suffix_rests)
qed

lemma negative_number_suffix: "suffix (snd (negative_number fmt r)) r"
  using read_exponent_suffix suffix_order.trans [OF _ suffix_dropWhile] by (fastforce simp: negative_number_def split: prod.split)

lemma server_variable_suffix: "suffix (snd (server_variable s)) s"
  by (auto simp: server_variable_def Let_def intro!: suffix_rests)

lemma operator_token_suffix: "operator_token c r = Some (k, r') \<Longrightarrow> suffix r' r"
  by (auto simp: operator_token_def intro!: suffix_rests split: if_splits)

text \<open>The turns by the first character.\<close>

lemma lex_char_cases:
  obtains (minus) "c = CHR ''-''" | (at) "c = CHR ''@''" | (hash) "c = CHR ''#''" | (slash) "c = CHR ''/''" | (colon) "c = CHR '':''"
    | (quoted) "c = CHR 0x60 \<or> c = CHR 0x22" | (string) "c = CHR 0x27"
    | (other) "c \<notin> set ''-@#/:''" "c \<noteq> CHR 0x60" "c \<noteq> CHR 0x22" "c \<noteq> CHR 0x27"
  by fastforce

lemma lex_turn_minus: "hd s = CHR ''-'' \<Longrightarrow> lex_turn fmt n tokens s =
    (if peek_is (CHR ''-'') (tl s) then ([], line_end (tl s))
     else if peek_is (CHR ''>'') (tl s) then
       (if peek_is (CHR ''>'') (tl (tl s)) then ([token n s (tl (tl (tl s))) (LongArrow, [], [])], tl (tl (tl s)))
        else ([token n s (tl (tl s)) (Arrow, [], [])], tl (tl s)))
     else if tl s \<noteq> [] \<and> digit (hd (tl s)) \<and> \<not> (tokens \<noteq> [] \<and> is_value_or_close_paren (tk_kind (last tokens)))
       then ([token n s (snd (negative_number fmt (tl s))) (NumberLit, fst (negative_number fmt (tl s)), [])], snd (negative_number fmt (tl s)))
     else ([token n s (tl s) (Minus, [], [])], tl s))"
  by (cases "peek_is (CHR ''-'') (tl s)"; cases "peek_is (CHR ''>'') (tl s)"; cases "peek_is (CHR ''>'') (tl (tl s))";
      cases "tl s \<noteq> [] \<and> digit (hd (tl s)) \<and> \<not> (tokens \<noteq> [] \<and> is_value_or_close_paren (tk_kind (last tokens)))")
    (auto simp: lex_turn_def Let_def case_prod_unfold)

lemma lex_turn_at: "hd s = CHR ''@'' \<Longrightarrow> lex_turn fmt n tokens s =
    (if peek_is (CHR ''@'') (tl s)
     then ([token n s (tl (tl s)) (At, [], []), token n s (snd (server_variable (tl (tl s)))) (Ident, fst (server_variable (tl (tl s))), [])],
       snd (server_variable (tl (tl s))))
     else ([token n s (tl s) (At, [], [])], tl s))"
  by (simp add: lex_turn_def Let_def case_prod_unfold)

lemma lex_turn_hash: "hd s = CHR ''#'' \<Longrightarrow> lex_turn fmt n tokens s = ([], line_end (tl s))"
  by (simp add: lex_turn_def Let_def case_prod_unfold)

lemma lex_turn_slash: "hd s = CHR ''/'' \<Longrightarrow> lex_turn fmt n tokens s =
    (if peek_is (CHR ''*'') (tl s) then ([], leave_comment (tl (tl s))) else ([token n s (tl s) (Slash, [], [])], tl s))"
  by (simp add: lex_turn_def Let_def case_prod_unfold)

lemma lex_turn_colon: "hd s = CHR '':'' \<Longrightarrow> lex_turn fmt n tokens s =
    (if peek_is (CHR ''='') (tl s) then ([token n s (tl (tl s)) (ColonEq, [], [])], tl (tl s)) else ([], tl s))"
  by (simp add: lex_turn_def Let_def case_prod_unfold)

lemma lex_turn_quoted: "hd s = CHR 0x60 \<or> hd s = CHR 0x22 \<Longrightarrow> lex_turn fmt n tokens s =
    ([token n s (snd (read_quoted_ident (hd s) (tl s))) (Ident, fst (read_quoted_ident (hd s) (tl s)), [])], snd (read_quoted_ident (hd s) (tl s)))"
  by (elim disjE) (simp_all add: lex_turn_def Let_def case_prod_unfold)

lemma lex_turn_string: "hd s = CHR 0x27 \<Longrightarrow> lex_turn fmt n tokens s =
    ([token n s (snd (read_string (tl s))) (StringLit, fst (read_string (tl s)), [])], snd (read_string (tl s)))"
  by (simp add: lex_turn_def Let_def case_prod_unfold)

lemmas lex_turn_simps = lex_turn_minus lex_turn_at lex_turn_hash lex_turn_slash lex_turn_colon lex_turn_quoted lex_turn_string

lemma lex_turn_other:
  assumes "hd s \<notin> set ''-@#/:''" "hd s \<noteq> CHR 0x60" "hd s \<noteq> CHR 0x22" "hd s \<noteq> CHR 0x27"
  shows "lex_turn fmt n tokens s =
    (case operator_token (hd s) (tl s) of
       Some (k, r) \<Rightarrow> ([token n s r (k, [], [])], r)
     | None \<Rightarrow>
         if digit (hd s) then ([token n s (snd (read_number fmt s)) (fst (fst (read_number fmt s)), snd (fst (read_number fmt s)), [])], snd (read_number fmt s))
         else if word_start (hd s) then ([token n s (dropWhile word_char s) (ident_token (takeWhile word_char s))], dropWhile word_char s)
         else ([], tl s))"
  using assms by (cases "operator_token (hd s) (tl s)") (simp_all add: lex_turn_def Let_def case_prod_unfold)

lemma lex_turn_suffix:
  assumes "s \<noteq> []" "lex_turn fmt n tokens s = (ts, r)"
  shows "suffix r (tl s)"
proof (cases "hd s" rule: lex_char_cases)
  case minus
  then show ?thesis
    using assms(2) negative_number_suffix [of fmt "tl s"] by (auto simp: lex_turn_simps line_end_def intro!: suffix_rests split: if_splits)
next
  case at
  then show ?thesis
    using assms(2) suffix_order.trans [OF server_variable_suffix suffix_tl, of "tl s"] by (auto simp: lex_turn_simps split: if_splits)
next
  case slash
  then show ?thesis
    using assms(2) suffix_order.trans [OF leave_comment_suffix suffix_tl, of "tl s"] by (auto simp: lex_turn_simps split: if_splits)
next
  case quoted
  then show ?thesis
    using assms(2) lex_turn_simps(6) [OF quoted, of fmt n tokens] by (auto simp: read_quoted_ident_def intro!: suffix_rests)
next
  case string
  then show ?thesis
    using assms(2) read_string_suffix [of "tl s"] by (auto simp: lex_turn_simps)
next
  case other
  have "suffix (dropWhile word_char s) (tl s)" if "word_start (hd s)"
    using assms(1) that word_start_char by (cases s) (auto simp: suffix_dropWhile)
  then show ?thesis
    using assms lex_turn_other [OF other, of fmt n tokens] operator_token_suffix [of "hd s" "tl s"] read_number_suffix [OF assms(1), of fmt]
    by (auto split: option.splits if_splits prod.splits)
qed (use assms(2) in \<open>auto simp: lex_turn_simps line_end_def intro!: suffix_rests split: if_splits\<close>)

lemma lex_loop_shorter:
  assumes "dropWhile blank s = c # s'" "(ts, r) = lex_turn fmt n tokens (c # s')"
  shows "length r < length s"
proof -
  have "length r \<le> length s'"
    using lex_turn_suffix [of "c # s'" fmt n tokens ts r] assms(2) suffix_length_le by fastforce
  moreover have "length (c # s') \<le> length s"
    using length_dropWhile_le [of blank s] assms(1) by simp
  ultimately show ?thesis
    by simp
qed

function lex_loop :: "(string \<Rightarrow> string) \<Rightarrow> nat \<Rightarrow> Token list \<Rightarrow> string \<Rightarrow> Token list" where
  "lex_loop fmt n tokens s =
     (case dropWhile blank s of
        [] \<Rightarrow> tokens
      | c # s' \<Rightarrow> (case lex_turn fmt n tokens (c # s') of (ts, r) \<Rightarrow> lex_loop fmt n (tokens @ ts) r))"
  by pat_completeness auto
termination
  by (relation "measure (\<lambda>(fmt, n, tokens, s). length s)") (auto dest: lex_loop_shorter)

declare lex_loop.simps [simp del]

definition tokenize :: "(string \<Rightarrow> string) \<Rightarrow> string \<Rightarrow> Token list" where
  "tokenize fmt input = (let sql = expand_executable_comments input in lex_loop fmt (length sql) [] sql)"

section \<open>Well-formed tokens\<close>

text \<open>A token lies in the text, has a text only when it is a name, a string or a number, and a word only when it is a keyword.\<close>

definition is_keyword :: "TokenKind \<Rightarrow> bool" where
  "is_keyword k = (case k of Keyword _ \<Rightarrow> True | _ \<Rightarrow> False)"

definition token_ok :: "nat \<Rightarrow> Token \<Rightarrow> bool" where
  "token_ok n t \<longleftrightarrow> tk_begin t < tk_end t \<and> tk_end t \<le> n \<and> (tk_text t \<noteq> [] \<longrightarrow> tk_kind t \<in> {Ident, StringLit, NumberLit}) \<and>
     (tk_word t \<noteq> [] \<longrightarrow> is_keyword (tk_kind t))"

lemma keyword_kinds: "list_all (\<lambda>(w, k). is_keyword k) keyword_map"
  by code_simp

lemma ident_token_ok:
  "ident_token s = (k, t, w) \<Longrightarrow> (t \<noteq> [] \<longrightarrow> k \<in> {Ident, StringLit, NumberLit}) \<and> (w \<noteq> [] \<longrightarrow> is_keyword k)"
  using keyword_kinds by (auto simp: ident_token_def Let_def list_all_iff split: if_splits option.splits dest!: map_of_SomeD)

lemma token_okI:
  assumes "s \<noteq> []" "suffix r (tl s)" "length s \<le> n" "t \<noteq> [] \<longrightarrow> k \<in> {Ident, StringLit, NumberLit}" "w \<noteq> [] \<longrightarrow> is_keyword k"
  shows "token_ok n (token n s r (k, t, w))"
  using assms suffix_length_le [OF assms(2)] by (cases s) (auto simp: token_ok_def token_def)

lemma read_number_kind: "fst (fst (read_number fmt s)) \<in> {Ident, StringLit, NumberLit}"
  by (simp add: read_number_def Let_def split: prod.split bool.split)

lemma lex_turn_tokens:
  assumes "s \<noteq> []" "length s \<le> n" "lex_turn fmt n tokens s = (ts, r)" "t \<in> set ts"
  shows "token_ok n t"
proof -
  have r: "suffix r (tl s)"
    by (rule lex_turn_suffix [OF assms(1,3)])
  note ok = token_okI [OF assms(1) _ assms(2)]
  show ?thesis
  proof (cases "hd s" rule: lex_char_cases)
    case at
    have "suffix (tl (tl s)) (tl s)"
      by (rule suffix_tl)
    then show ?thesis
      using at r assms(3,4) by (auto simp: lex_turn_simps intro!: ok split: if_splits)
  next
    case minus
    then show ?thesis
      using r assms(3,4) by (auto simp: lex_turn_minus intro!: ok split: if_splits)
  next
    case quoted
    then show ?thesis
      using r assms(3,4) lex_turn_quoted [OF quoted, of fmt n tokens] by (auto intro!: ok)
  next
    case other
    show ?thesis
    proof (cases "operator_token (hd s) (tl s)")
      case (Some kr)
      then show ?thesis
        using r assms(3,4) lex_turn_other [OF other, of fmt n tokens] by (auto intro!: ok split: prod.splits)
    next
      case None
      obtain k t' w where i: "ident_token (takeWhile word_char s) = (k, t', w)"
        by (metis surj_pair)
      show ?thesis
        using None r assms(3,4) lex_turn_other [OF other, of fmt n tokens] read_number_kind [of fmt s] ident_token_ok [OF i] i
        by (auto intro!: ok split: if_splits)
    qed
  qed (use r assms(3,4) in \<open>auto simp: lex_turn_simps intro!: ok split: if_splits\<close>)
qed

lemma lex_loop_tokens:
  "length s \<le> n \<Longrightarrow> list_all (token_ok n) tokens \<Longrightarrow> list_all (token_ok n) (lex_loop fmt n tokens s)"
proof (induction s arbitrary: tokens rule: measure_induct_rule [of length])
  case (less s)
  show ?case
  proof (cases "dropWhile blank s")
    case (Cons c s')
    obtain ts r where t: "lex_turn fmt n tokens (c # s') = (ts, r)"
      by fastforce
    have len: "length (c # s') \<le> n"
      using length_dropWhile_le [of blank s] less.prems(1) Cons by simp
    have r: "length r < length s"
      by (rule lex_loop_shorter [OF Cons t [symmetric]])
    have "list_all (token_ok n) (tokens @ ts)"
      using less.prems(2) lex_turn_tokens [OF _ len t] by (auto simp: list_all_iff)
    then show ?thesis
      using less.IH [OF r, of "tokens @ ts"] r less.prems(1) Cons t by (simp add: lex_loop.simps [of _ _ _ s])
  next
    case Nil
    then show ?thesis
      using less.prems(2) by (subst lex_loop.simps) (simp only: Nil list.case)
  qed
qed

section \<open>The lexer and the splitter see the same text\<close>

text \<open>The splitter comes from \<open>s\<close> to \<open>r\<close> without meeting the end of a statement.\<close>

definition passes :: "string \<Rightarrow> string \<Rightarrow> bool" where
  "passes s r \<longleftrightarrow> (\<forall>st. \<exists>st'. next_end st s = next_end st' r)"

lemma passes_refl [simp]: "passes s s"
  by (auto simp: passes_def)

lemma passes_trans [trans]: "passes s t \<Longrightarrow> passes t r \<Longrightarrow> passes s r"
  unfolding passes_def by metis

lemma passes_turn:
  assumes "s \<noteq> []" "\<And>st. \<exists>st'. scan_turn st s = (st', r, False)"
  shows "passes s r"
  unfolding passes_def
proof
  fix st
  obtain st' where "scan_turn st s = (st', r, False)"
    using assms(2) by blast
  then show "\<exists>st'. next_end st s = next_end st' r"
    using assms(1) by (auto simp: next_end.simps [of st s])
qed

definition plain_char :: "char \<Rightarrow> bool" where
  "plain_char c \<longleftrightarrow> \<not> blank c \<and> c \<notin> set ''#;'' \<and> c \<notin> {CHR 0x27, CHR 0x22, CHR 0x60} \<and> \<not> word_start c"

lemma passes_plain:
  assumes "s \<noteq> []" "plain_char (hd s)" "take 2 s \<noteq> ''--''" "take 2 s \<noteq> ''/*''"
  shows "passes s (tl s)"
proof (rule passes_turn [OF assms(1)])
  fix st
  have "\<not> line_comment s" "\<not> block_comment s"
    using assms by (cases s; auto simp: line_comment_def block_comment_def plain_char_def)+
  then show "\<exists>st'. scan_turn st s = (st', tl s, False)"
    using scan_turn_other [of s st] assms(2) by (auto simp: plain_char_def)
qed

lemma passes_operator: "plain_char c \<Longrightarrow> c \<notin> set ''-/'' \<Longrightarrow> passes (c # r) r"
  using passes_plain [of "c # r"] by (cases r) auto

lemma passes_blank: "passes s (dropWhile blank s)"
proof (induction s)
  case (Cons c s)
  have "passes (c # s) s" if "blank c"
    using that scan_turn_blank [of "c # s"] by (intro passes_turn) auto
  then show ?case
    using Cons passes_trans by auto
qed simp

lemma passes_word:
  assumes "s \<noteq> []" "word_start (hd s)"
  shows "passes s (dropWhile word_char s)"
proof (rule passes_turn [OF assms(1)])
  fix st
  have c: "hd s \<notin> {CHR ''#'', CHR ''-'', CHR ''/'', CHR 0x27, CHR 0x22, CHR 0x60}" "\<not> blank (hd s)"
    using assms(2) by (auto simp: word_start_def alpha_def blank_def)
  then have "\<not> line_comment s" "\<not> block_comment s"
    using assms(1) by (cases s; auto simp: line_comment_def block_comment_def take_Cons')+
  then show "\<exists>st'. scan_turn st s = (st', dropWhile word_char s, False)"
    using scan_turn_word [OF assms(2), of st] c by auto
qed

lemma digit_plain: "digit c \<Longrightarrow> plain_char c \<and> c \<notin> set ''-/''"
  by (auto simp: digit_def plain_char_def blank_def word_start_def alpha_def)

lemma passes_run:
  assumes "\<And>c. P c \<Longrightarrow> plain_char c \<and> c \<notin> set ''-/''"
  shows "passes s (dropWhile P s)"
proof (induction s)
  case (Cons c s)
  then show ?case
    using passes_operator [of c s] assms [of c] passes_trans by auto
qed simp

lemmas passes_digits = passes_run [of digit, OF digit_plain]

lemma passes_numeric: "passes s (dropWhile numeric s)"
  by (rule passes_run) (auto simp: numeric_def dest: digit_plain, auto simp: plain_char_def blank_def word_start_def alpha_def)

lemma passes_word_chars: "passes s (dropWhile word_char s)"
proof (induction s)
  case (Cons c s)
  show ?case
  proof (cases "word_start c")
    case True
    then show ?thesis
      by (intro passes_word) auto
  next
    case False
    then have "digit c" if "word_char c"
      using that by (auto simp: word_start_def word_char_def digit_def)
    then show ?thesis
      using Cons passes_operator [of c s] digit_plain [of c] passes_trans by auto
  qed
qed simp

lemma passes_skip: "skip_blank s = skip_blank r \<Longrightarrow> passes s r"
  unfolding passes_def using next_end_skip by metis

lemma skip_line: "skip_blank (dropWhile (\<lambda>c. c \<noteq> CHR 0x0A) s) = skip_blank (line_end s)"
proof (cases "dropWhile (\<lambda>c. c \<noteq> CHR 0x0A) s")
  case (Cons c r)
  then have "blank c"
    using hd_dropWhile [of "\<lambda>c. c \<noteq> CHR 0x0A" s] by (auto simp: blank_def)
  then show ?thesis
    using Cons by (simp add: line_end_def skip_blank.simps [of "c # r"])
next
  case Nil
  then show ?thesis
    by (simp only: line_end_def Nil list.sel)
qed

lemma line_comment_skip:
  assumes "line_comment s"
  shows "skip_blank s = skip_blank (line_end (tl s))"
proof -
  obtain c r where s: "s = c # r" "c = CHR ''#'' \<or> c = CHR ''-''"
    using assms by (cases s) (auto simp: line_comment_def take_Cons' split: if_splits)
  then have "skip_blank s = skip_blank (dropWhile (\<lambda>c. c \<noteq> CHR 0x0A) r)"
    using assms by (subst skip_blank.simps) (auto simp: blank_def)
  then show ?thesis
    using s(1) skip_line [of r] by simp
qed

lemma leave_comment_end: "leave_comment s = comment_end s"
  by (induction s rule: comment_end.induct) (auto simp: peek_is_def)

lemma passes_string: "passes (string_end s) (snd (read_string s))"
proof (induction s rule: read_string.induct)
  case (2 c s)
  show ?case
  proof (cases "c = CHR 0x27 \<and> peek_is (CHR 0x27) s")
    case True
    then have "s \<noteq> []" "hd s = CHR 0x27"
      by (auto simp: peek_is_def)
    then have "passes s (string_end (tl s))"
      using scan_turn_string [of s] by (intro passes_turn) (auto simp: blank_def line_comment_def block_comment_def take_Cons' neq_Nil_conv)
    then show ?thesis
      using True 2(1) passes_trans by (auto split: prod.splits)
  next
    case False
    then show ?thesis
      using 2 by (auto split: prod.splits)
  qed
qed simp

text \<open>
  Where the splitter is when the lexer is at \<open>r\<close>: at the same place, or already behind a word in which the lexer is (an exponent or a hexadecimal number with
  letters behind it is one word for the splitter).
\<close>

definition behind :: "string \<Rightarrow> string \<Rightarrow> bool" where
  "behind r s \<longleftrightarrow> s = r \<or> r \<noteq> [] \<and> word_start (hd r) \<and> s = dropWhile word_char r"

lemma in_word:
  assumes "r = [] \<or> \<not> digit (hd r)" "passes s (dropWhile word_char r)"
  shows "\<exists>t. behind r t \<and> passes s t"
proof (cases "r \<noteq> [] \<and> word_start (hd r)")
  case True
  then show ?thesis
    using assms(2) by (auto simp: behind_def)
next
  case False
  then have "dropWhile word_char r = r"
    using assms(1) by (cases r) (auto simp: word_char_def word_start_def digit_def)
  then show ?thesis
    using assms(2) by (auto simp: behind_def)
qed

lemma dropWhile_word: "(\<And>c. P c \<Longrightarrow> word_char c) \<Longrightarrow> dropWhile word_char (dropWhile P s) = dropWhile word_char s"
  by (induction s) auto

lemma dropWhile_head: "dropWhile P s = [] \<or> \<not> P (hd (dropWhile P s))"
  using hd_dropWhile [of P s] by auto

lemma digit_word: "digit c \<Longrightarrow> word_char c" "hexdigit c \<Longrightarrow> word_char c"
  by (auto simp: digit_def hexdigit_def word_char_def alpha_def)

lemma exponent_sync:
  assumes "read_exponent fmt t s = (b, t', r)"
  shows "b \<Longrightarrow> \<exists>u. behind r u \<and> passes s u" "\<not> b \<Longrightarrow> r = s"
proof -
  show "\<not> b \<Longrightarrow> r = s"
    using assms by (auto simp: read_exponent_def Let_def split: if_splits)
  assume b
  define r1 r2 where "r1 = tl s" and "r2 = drop (length (exponent_sign r1)) r1"
  have "s \<noteq> []" and s2: "hd s = CHR ''e'' \<or> hd s = CHR ''E''" and r2: "r2 \<noteq> []" "digit (hd r2)" and r: "r = dropWhile digit r2"
    using assms \<open>b\<close> unfolding r2_def r1_def read_exponent_def Let_def peek_is_def by (metis prod.inject)+
  then have s1: "s = hd s # r1"
    by (simp add: r1_def)
  note s = s1 s2
  have e: "word_start (hd s)" "word_char (hd s)"
    using s(2) by (auto simp: word_start_def word_char_def alpha_def)
  have w: "passes s (dropWhile word_char s)"
    using s(1) e by (intro passes_word) auto
  have head: "r = [] \<or> \<not> digit (hd r)"
    using dropWhile_head [of digit r2] r by simp
  show "\<exists>u. behind r u \<and> passes s u"
  proof (cases "exponent_sign r1 = []")
    case True
    then have "r2 = r1"
      by (simp add: r2_def)
    then have "dropWhile word_char r = dropWhile word_char r1"
      using r dropWhile_word [of digit r2, OF digit_word(1)] by simp
    also have "\<dots> = dropWhile word_char s"
      using e(2) by (subst s(1)) simp
    finally show ?thesis
      using in_word [OF head] w by simp
  next
    case False
    then have "r1 \<noteq> []" and sign: "hd r1 = CHR ''+'' \<or> hd r1 = CHR ''-''" and "r2 = tl r1"
      by (auto simp: exponent_sign_def r2_def peek_is_def drop_Suc split: if_splits)
    then have r1: "r1 = hd r1 # r2"
      by simp
    have sc: "\<not> word_char (hd r1)" "plain_char (hd r1)"
      using sign by (auto simp: word_char_def alpha_def plain_char_def blank_def word_start_def)
    have "dropWhile word_char s = dropWhile word_char r1"
      using e(2) by (subst s(1)) simp
    also have "\<dots> = r1"
      using sc(1) by (subst (1 2) r1) simp
    finally have "passes s r1"
      using w by simp
    moreover have "passes r1 r2"
    proof -
      have "hd r2 \<noteq> CHR ''-''" "hd r2 \<noteq> CHR ''*''"
        using r2(2) by (auto simp: digit_def)
      then have "take 2 r1 \<noteq> ''--''" "take 2 r1 \<noteq> ''/*''"
        using r2(1) by (subst r1, cases r2, simp_all)+
      then show ?thesis
        using passes_plain [OF \<open>r1 \<noteq> []\<close> sc(2)] \<open>r2 = tl r1\<close> by simp
    qed
    moreover have "passes r2 r"
      using passes_digits r by simp
    ultimately show ?thesis
      using passes_trans behind_def by metis
  qed
qed

lemma number_sync:
  assumes "s \<noteq> []" "digit (hd s)"
  shows "\<exists>u. behind (snd (read_number fmt s)) u \<and> passes s u"
proof -
  let ?d = "dropWhile numeric s"
  have d: "passes s ?d"
    by (rule passes_numeric)
  obtain b t r where e: "read_exponent fmt (takeWhile numeric s) ?d = (b, t, r)"
    by (metis surj_pair)
  show ?thesis
  proof (cases b)
    case True
    then have "snd (read_number fmt s) = r"
      using e by (simp add: read_number_def Let_def)
    then show ?thesis
      using exponent_sync(1) [OF e True] passes_trans [OF d] by auto
  next
    case False
    show ?thesis
    proof (cases "takeWhile numeric s = ''0'' \<and> (peek_is (CHR ''x'') ?d \<or> peek_is (CHR ''X'') ?d)")
      case True
      then have x: "?d \<noteq> []" "word_start (hd ?d)" "word_char (hd ?d)"
        by (auto simp: peek_is_def word_start_def word_char_def alpha_def)
      have r: "snd (read_number fmt s) = dropWhile hexdigit (tl ?d)"
        using e False True by (simp add: read_number_def Let_def)
      have "dropWhile word_char (dropWhile hexdigit (tl ?d)) = dropWhile word_char (tl ?d)"
        by (rule dropWhile_word) (rule digit_word)
      also have "\<dots> = dropWhile word_char ?d"
        using x by (cases ?d) auto
      finally show ?thesis
        using in_word [of "dropWhile hexdigit (tl ?d)" s] dropWhile_head [of hexdigit "tl ?d"] passes_trans [OF d passes_word [OF x(1,2)]]
        by (auto simp: r hexdigit_def)
    next
      case no_hex: False
      then have "snd (read_number fmt s) = ?d"
        using e False by (auto simp: read_number_def Let_def)
      then show ?thesis
        using d by (auto simp: behind_def)
    qed
  qed
qed

lemma negative_sync: "\<exists>u. behind (snd (negative_number fmt r)) u \<and> passes r u"
proof -
  obtain b t r' where e: "read_exponent fmt (CHR ''-'' # takeWhile numeric r) (dropWhile numeric r) = (b, t, r')"
    by (metis surj_pair)
  then have "snd (negative_number fmt r) = r'"
    by (simp add: negative_number_def)
  moreover have "\<exists>u. behind r' u \<and> passes (dropWhile numeric r) u"
    using exponent_sync [OF e] by (cases b) (auto simp: behind_def)
  ultimately show ?thesis
    using passes_trans [OF passes_numeric] by auto
qed

lemma operator_plain:
  "c \<in> set ''+*,().=><!%|&^~@:'' \<Longrightarrow> plain_char c \<and> c \<notin> set ''-/''"
  by (auto simp: plain_char_def blank_def word_start_def alpha_def)

lemma passes_peek: "peek_is c s \<Longrightarrow> c \<in> set ''+*,().=><!%|&^~@:'' \<Longrightarrow> passes s (tl s)"
  using passes_operator [of "hd s" "tl s"] operator_plain [of c] by (cases s) (auto simp: peek_is_def)

lemma operator_sync:
  assumes "operator_token c r = Some (k, r')" "c \<noteq> CHR '';''"
  shows "passes (c # r) r'"
proof -
  have c: "c \<in> set ''+*,().=><!%|&^~@:''"
    using assms by (auto simp: operator_token_def split: if_splits)
  then have "passes (c # r) r"
    using passes_operator operator_plain by blast
  moreover have "passes r r'"
    using assms passes_peek [of _ r] passes_trans [OF passes_peek [of "CHR ''=''" r] passes_peek [of "CHR ''>''" "tl r"]]
    by (auto simp: operator_token_def split: if_splits)
  ultimately show ?thesis
    by (rule passes_trans)
qed

lemma variable_sync: "passes s (snd (server_variable s))"
proof -
  let ?r = "dropWhile word_char s"
  have "passes s (dropWhile word_char (tl ?r))" if "peek_is (CHR ''.'') ?r"
    using passes_trans [OF passes_word_chars [of s] passes_trans [OF passes_peek [OF that] passes_word_chars]] by simp
  then show ?thesis
    using passes_word_chars [of s] by (auto simp: server_variable_def Let_def)
qed

lemma behind_refl [simp]: "behind r r"
  by (simp add: behind_def)

lemma minus_sync:
  assumes "s \<noteq> []" "hd s = CHR ''-''" "lex_turn fmt n tokens s = (ts, r)"
  shows "\<exists>u. behind r u \<and> passes s u"
proof (cases "peek_is (CHR ''-'') (tl s)")
  case True
  then have "line_comment s"
    using assms(1,2) by (cases s; cases "tl s") (auto simp: line_comment_def peek_is_def)
  then have "passes s (line_end (tl s))"
    by (intro passes_skip line_comment_skip)
  then show ?thesis
    using True assms by (auto simp: lex_turn_simps intro: behind_refl)
next
  case False
  then have "take 2 s \<noteq> ''--''" "take 2 s \<noteq> ''/*''" "plain_char (hd s)"
    using assms(1,2) by (cases s; cases "tl s"; auto simp: peek_is_def plain_char_def blank_def word_start_def alpha_def)+
  then have p: "passes s (tl s)"
    using passes_plain assms(1) by blast
  have gt: "passes s (tl (tl s))" if "peek_is (CHR ''>'') (tl s)"
    using passes_trans [OF p passes_peek [OF that]] by simp
  moreover have "passes s (tl (tl (tl s)))" if "peek_is (CHR ''>'') (tl s)" "peek_is (CHR ''>'') (tl (tl s))"
    using passes_trans [OF gt [OF that(1)] passes_peek [OF that(2)]] by simp
  moreover have "\<exists>u. behind (snd (negative_number fmt (tl s))) u \<and> passes s u"
    using negative_sync [of fmt "tl s"] passes_trans [OF p] by blast
  ultimately show ?thesis
    using False assms p by (auto simp: lex_turn_simps intro: behind_refl split: if_splits)
qed

lemma skip_block: "skip_blank (CHR ''/'' # CHR ''*'' # s) = skip_blank (comment_end s)"
  by (subst skip_blank.simps) (simp add: blank_def line_comment_def block_comment_def)

lemma slash_sync:
  assumes "s \<noteq> []" "hd s = CHR ''/''" "lex_turn fmt n tokens s = (ts, r)"
  shows "passes s r"
proof (cases "peek_is (CHR ''*'') (tl s)")
  case True
  then have s: "s = CHR ''/'' # CHR ''*'' # tl (tl s)"
    using assms(1,2) by (cases s; cases "tl s") (auto simp: peek_is_def)
  then have "skip_blank s = skip_blank (comment_end (tl (tl s)))"
    using skip_block [of "tl (tl s)"] by metis
  then show ?thesis
    using True assms by (auto simp: lex_turn_simps leave_comment_end intro: passes_skip)
next
  case False
  then have "take 2 s \<noteq> ''--''" "take 2 s \<noteq> ''/*''" "plain_char (hd s)"
    using assms(1,2) by (cases s; cases "tl s"; auto simp: peek_is_def plain_char_def blank_def word_start_def alpha_def)+
  then show ?thesis
    using passes_plain [OF assms(1)] False assms by (simp add: lex_turn_simps)
qed

lemma quote_sync:
  assumes "s \<noteq> []" "hd s \<in> {CHR 0x27, CHR 0x22, CHR 0x60}" "lex_turn fmt n tokens s = (ts, r)"
  shows "passes s r"
proof -
  have plain: "\<not> blank (hd s)" "\<not> line_comment s" "\<not> block_comment s"
    using assms(1,2) by (cases s; auto simp: blank_def line_comment_def block_comment_def)+
  show ?thesis
  proof (cases "hd s = CHR 0x27")
    case True
    then have "passes s (string_end (tl s))"
      using scan_turn_string [OF plain] by (intro passes_turn assms(1)) auto
    then show ?thesis
      using assms(3) True passes_trans passes_string by (auto simp: lex_turn_simps)
  next
    case False
    then have q: "hd s = CHR 0x60 \<or> hd s = CHR 0x22" "hd s = CHR 0x22 \<or> hd s = CHR 0x60"
      using assms(2) by auto
    then have "passes s (quoted_end (hd s) (tl s))"
      using scan_turn_quoted [OF plain] by (intro passes_turn assms(1)) auto
    then show ?thesis
      using assms(3) lex_turn_quoted [OF q(1), of fmt n tokens] by (auto simp: read_quoted_ident_def quoted_end_def)
  qed
qed

text \<open>A turn of the lexer on anything but a \<^verbatim>\<open>;\<close> is one the splitter makes without an end.\<close>

lemma lex_turn_sync:
  assumes "s \<noteq> []" "\<not> blank (hd s)" "hd s \<noteq> CHR '';''" "lex_turn fmt n tokens s = (ts, r)"
  shows "\<exists>u. behind r u \<and> passes s u"
proof (cases "hd s" rule: lex_char_cases)
  case minus
  then show ?thesis
    by (rule minus_sync [OF assms(1) _ assms(4)])
next
  case at
  then have p: "passes s (tl s)"
    using passes_peek [of "CHR ''@''" s] assms(1) by (auto simp: peek_is_def)
  moreover have "passes s (snd (server_variable (tl (tl s))))" if "peek_is (CHR ''@'') (tl s)"
    using passes_trans [OF passes_trans [OF p passes_peek [OF that]] variable_sync] by simp
  ultimately have "passes s r"
    using at assms(4) by (auto simp: lex_turn_simps split: if_splits)
  then show ?thesis
    using behind_refl by blast
next
  case hash
  then have "line_comment s"
    using assms(1) by (cases s) (auto simp: line_comment_def)
  then have "passes s (line_end (tl s))"
    by (intro passes_skip line_comment_skip)
  then show ?thesis
    using hash assms(4) by (auto simp: lex_turn_simps intro: behind_refl)
next
  case slash
  then show ?thesis
    using slash_sync [OF assms(1) _ assms(4)] behind_refl by blast
next
  case colon
  then have p: "passes s (tl s)"
    using passes_peek [of "CHR '':''" s] assms(1) by (auto simp: peek_is_def)
  moreover have "passes s (tl (tl s))" if "peek_is (CHR ''='') (tl s)"
    using passes_trans [OF p passes_peek [OF that]] by simp
  ultimately have "passes s r"
    using colon assms(4) by (auto simp: lex_turn_simps split: if_splits)
  then show ?thesis
    using behind_refl by blast
next
  case quoted
  then show ?thesis
    using quote_sync [OF assms(1) _ assms(4)] behind_refl by blast
next
  case string
  then show ?thesis
    using quote_sync [OF assms(1) _ assms(4)] behind_refl by blast
next
  case other
  note turn = lex_turn_other [OF other, of fmt n tokens]
  have s: "s = hd s # tl s"
    using assms(1) by simp
  show ?thesis
  proof (cases "operator_token (hd s) (tl s)")
    case (Some kr)
    then have "operator_token (hd s) (tl s) = Some (fst kr, r)"
      using turn assms(4) by (auto split: prod.splits)
    then have "passes s r"
      using operator_sync [of "hd s" "tl s"] assms(3) s by metis
    then show ?thesis
      using behind_refl by blast
  next
    case None
    consider (digit) "digit (hd s)" | (word) "\<not> digit (hd s)" "word_start (hd s)" | (none) "\<not> digit (hd s)" "\<not> word_start (hd s)"
      by blast
    then show ?thesis
    proof cases
      case digit
      then show ?thesis
        using turn assms(4) None number_sync [OF assms(1) digit, of fmt] by auto
    next
      case word
      then show ?thesis
        using turn assms(4) None word passes_word [OF assms(1) word(2)] by (auto intro: behind_refl)
    next
      case none
      then have "passes s (tl s)"
        using passes_operator [of "hd s" "tl s"] assms(1-3) other by (simp add: plain_char_def)
      then show ?thesis
        using turn assms(4) None none by (auto intro: behind_refl)
    qed
  qed
qed

lemma lex_loop_keeps: "set tokens \<subseteq> set (lex_loop fmt n tokens s)"
proof (induction fmt n tokens s rule: lex_loop.induct)
  case (1 fmt n tokens s)
  show ?case
  proof (cases "dropWhile blank s")
    case (Cons c s')
    obtain ts r where t: "lex_turn fmt n tokens (c # s') = (ts, r)"
      by fastforce
    show ?thesis
      using 1 [OF Cons t [symmetric]] Cons t by (simp add: lex_loop.simps [of _ _ _ s])
  next
    case Nil
    then show ?thesis
      by (subst lex_loop.simps) (simp only: Nil list.case subset_refl)
  qed
qed

lemma lex_turn_semi: "lex_turn fmt n tokens (CHR '';'' # r) = ([token n (CHR '';'' # r) r (Semicolon, [], [])], r)"
  by (subst lex_turn_other) (simp_all add: operator_token_def)

lemma operator_token_None: "c \<notin> set ''+*,;().=><!%|&^~'' \<Longrightarrow> operator_token c r = None"
  by (simp add: operator_token_def)

lemma word_start_head: "word_start c \<Longrightarrow> \<not> blank c \<and> \<not> digit c \<and> c \<notin> set ''-@#/:'' \<and> c \<notin> {CHR 0x60, CHR 0x22, CHR 0x27} \<and> c \<notin> set ''+*,;().=><!%|&^~''"
  by (auto simp: word_start_def alpha_def blank_def digit_def)

lemma lex_turn_word:
  assumes "s \<noteq> []" "word_start (hd s)"
  shows "snd (lex_turn fmt n tokens s) = dropWhile word_char s"
  using assms word_start_head [OF assms(2)] by (subst lex_turn_other) (simp_all add: operator_token_None)

text \<open>The end the splitter finds is a \<^verbatim>\<open>;\<close> of the lexer.\<close>

definition semicolon_before :: "nat \<Rightarrow> string \<Rightarrow> Token \<Rightarrow> bool" where
  "semicolon_before n r t \<longleftrightarrow> tk_kind t = Semicolon \<and> tk_begin t = n - Suc (length r)"

lemma lex_loop_end:
  "behind s u \<Longrightarrow> next_end st u = Some (st', r) \<Longrightarrow> \<exists>t \<in> set (lex_loop fmt n tokens s). semicolon_before n r t"
proof (induction s arbitrary: u st tokens rule: measure_induct_rule [of length])
  case (less s)
  show ?case
  proof (cases "dropWhile blank s")
    case Nil
    then have "s = [] \<or> blank (hd s)"
      by (cases s) (auto split: if_splits)
    then have "u = s"
      using less.prems(1) word_start_head by (auto simp: behind_def)
    then show ?thesis
      using passes_blank [of s] Nil less.prems(2) unfolding passes_def by (metis next_end.simps option.distinct(1))
  next
    case (Cons c s')
    obtain ts q where t: "lex_turn fmt n tokens (c # s') = (ts, q)"
      by fastforce
    have loop: "lex_loop fmt n tokens s = lex_loop fmt n (tokens @ ts) q"
      using Cons t by (simp add: lex_loop.simps [of _ _ _ s])
    have later: ?thesis if "behind q v" "next_end st1 v = Some (st', r)" for v st1
      using less.IH [OF lex_loop_shorter [OF Cons t [symmetric]] that] loop by simp
    show ?thesis
    proof (cases "u = s")
      case False
      then have w: "s \<noteq> []" "word_start (hd s)" "u = dropWhile word_char s"
        using less.prems(1) by (auto simp: behind_def)
      then have "c # s' = s"
        using Cons word_start_head by (cases s) auto
      then have "q = u"
        using lex_turn_word [OF w(1,2), of fmt n tokens] t w(3) by simp
      then show ?thesis
        using later [OF behind_refl] less.prems(2) by blast
    next
      case True
      obtain st1 where st1: "next_end st1 (c # s') = Some (st', r)"
        using passes_blank [of s] less.prems(2) True Cons unfolding passes_def by metis
      have nb: "\<not> blank c"
        using hd_dropWhile [of blank s] Cons by auto
      show ?thesis
      proof (cases "c = CHR '';''")
        case semi: True
        then have ts: "ts = [token n (c # s') s' (Semicolon, [], [])]" "q = s'"
          using t lex_turn_semi [of fmt n tokens s'] by auto
        show ?thesis
        proof (cases "begin_depth st1 = 0")
          case True
          then have "r = s'"
            using st1 scan_turn_semi [OF True, of s'] semi by (simp add: next_end.simps [of st1 "CHR '';'' # s'"])
          then have "semicolon_before n r (token n (c # s') s' (Semicolon, [], []))"
            by (simp add: semicolon_before_def token_def)
          then show ?thesis
            using lex_loop_keeps [of "tokens @ ts" fmt n q] ts loop by auto
        next
          case False
          then have "scan_turn st1 (c # s') = (st1\<lparr>prev := c, prev_word := []\<rparr>, s', False)"
            using semi by (simp add: scan_turn_def Let_def blank_def line_comment_def block_comment_def word_start_def alpha_def)
          then have "next_end (st1\<lparr>prev := c, prev_word := []\<rparr>) s' = Some (st', r)"
            using st1 by (simp add: next_end.simps [of st1 "c # s'"])
          then show ?thesis
            using later [OF behind_refl] ts(2) by blast
        qed
      next
        case False
        then obtain v where v: "behind q v" "passes (c # s') v"
          using lex_turn_sync [of "c # s'" fmt n tokens ts q] t nb by auto
        then show ?thesis
          using later [OF v(1)] st1 unfolding passes_def by metis
      qed
    qed
  qed
qed

section \<open>Writing literals\<close>

definition quote_char :: "char \<Rightarrow> string" where
  "quote_char c =
     (if c = CHR 0x5C \<or> c = CHR 0x27 then [CHR 0x5C, c]
      else if c = CHR 0x00 then CHR 0x5C # ''0''
      else if c = CHR 0x1A then CHR 0x5C # ''Z''
      else [c])"

text \<open>\<^verbatim>\<open>QUOTE\<close>: \<open>None\<close> is the error for a wrong number of arguments; the value NULL is the text \<^verbatim>\<open>NULL\<close>.\<close>

definition fn_quote :: "string list \<Rightarrow> string option" where
  "fn_quote args =
     (if length args \<noteq> 1 then None
      else if hd args = ''NULL'' then Some ''NULL''
      else Some ([CHR 0x27] @ concat (map quote_char (hd args)) @ [CHR 0x27]))"

definition double_quote :: "char \<Rightarrow> string" where
  "double_quote c = (if c = CHR 0x27 then [CHR 0x27, c] else [c])"

definition quoted_text :: "string \<Rightarrow> string" where
  "quoted_text value = [CHR 0x27] @ concat (map double_quote value) @ [CHR 0x27]"

definition literal_text :: "string \<Rightarrow> bool \<Rightarrow> string" where
  "literal_text value quoted = (if value = ''__NULL__'' then ''NULL'' else if quoted then quoted_text value else value)"

definition sql_quoted :: "string \<Rightarrow> string" where
  "sql_quoted text = [CHR 0x27] @ concat (map (\<lambda>c. if c = CHR 0x27 then [CHR 0x27, CHR 0x27] else [c]) text) @ [CHR 0x27]"

lemma take_suffix: "suffix r s \<Longrightarrow> take (length s - length r) s @ r = s"
  by (auto simp: suffix_def)

text \<open>What a way of writing characters has to give for the lexer to read a literal back: \<open>ok\<close> tells the characters it is right for.\<close>

locale literal_writer =
  fixes esc :: "char \<Rightarrow> string" and ok :: "char \<Rightarrow> bool"
  assumes reads: "ok c \<Longrightarrow> read_string (esc c @ s) = apfst (Cons c) (read_string s)"
    and ends: "ok c \<Longrightarrow> s \<noteq> [] \<Longrightarrow> literal_end (CHR 0x27) (esc c @ s) \<in> {literal_end (CHR 0x27) s, CHR 0x27 # s}"
begin

lemma read_back: "list_all ok v \<Longrightarrow> \<not> peek_is (CHR 0x27) s \<Longrightarrow> read_string (concat (map esc v) @ CHR 0x27 # s) = (v, s)"
  by (induction v) (auto simp: reads)

lemma literal_end_body:
  "list_all ok v \<Longrightarrow> literal_end (CHR 0x27) (concat (map esc v) @ [CHR 0x27]) = [] \<or>
    (\<exists>b. length b < length v \<and> list_all ok b \<and> literal_end (CHR 0x27) (concat (map esc v) @ [CHR 0x27]) = CHR 0x27 # concat (map esc b) @ [CHR 0x27])"
proof (induction v)
  case (Cons c v)
  then have "literal_end (CHR 0x27) (concat (map esc (c # v)) @ [CHR 0x27]) \<in>
      {literal_end (CHR 0x27) (concat (map esc v) @ [CHR 0x27]), CHR 0x27 # concat (map esc v) @ [CHR 0x27]}"
    using ends [of c "concat (map esc v) @ [CHR 0x27]"] by simp
  then show ?case
    using Cons by (fastforce intro: less_SucI)
qed simp

lemma expand_literal: "list_all ok v \<Longrightarrow> expand_loop (CHR 0x27 # concat (map esc v) @ [CHR 0x27]) = CHR 0x27 # concat (map esc v) @ [CHR 0x27]"
proof (induction v rule: measure_induct_rule [of length])
  case (less v)
  let ?s = "CHR 0x27 # concat (map esc v) @ [CHR 0x27]" and ?r = "literal_end (CHR 0x27) (concat (map esc v) @ [CHR 0x27])"
  have "expand_loop ?r = ?r"
    using literal_end_body [OF less.prems] less.IH by (auto simp: expand_loop.simps [of "[]"])
  moreover have "suffix ?r ?s"
    by (intro suffix_ConsI literal_end_suffix)
  then have "take (length ?s - length ?r) ?s @ ?r = ?s"
    by (rule take_suffix)
  moreover have "expand_turn ?s = (take (length ?s - length ?r) ?s, ?r)"
    by (simp add: expand_turn_def Let_def)
  ultimately show ?case
    by (subst expand_loop.simps) simp
qed

lemma tokenize_literal:
  assumes "list_all ok v"
  shows "tokenize fmt ([CHR 0x27] @ concat (map esc v) @ [CHR 0x27]) =
    [\<lparr>tk_kind = StringLit, tk_text = v, tk_word = [], tk_begin = 0, tk_end = length (concat (map esc v)) + 2\<rparr>]"
proof -
  let ?s = "CHR 0x27 # concat (map esc v) @ [CHR 0x27]"
  have "expand_executable_comments ?s = ?s"
    using expand_literal [OF assms] by (simp add: expand_executable_comments_def)
  moreover have "lex_turn fmt (length ?s) [] ?s = ([token (length ?s) ?s [] (StringLit, v, [])], [])"
    using read_back [OF assms, of "[]"] lex_turn_string [of ?s fmt "length ?s" "[]"] by (simp add: peek_is_def)
  ultimately show ?thesis
    by (simp add: tokenize_def lex_loop.simps [of _ _ _ ?s] lex_loop.simps [of _ _ _ "[]"] blank_def token_def)
qed

end

interpretation quote_writer: literal_writer quote_char "\<lambda>_. True"
  by unfold_locales (auto simp: quote_char_def escaped_def apfst_def map_prod_def split: prod.split)

interpretation double_writer: literal_writer double_quote "\<lambda>c. c \<noteq> CHR 0x5C"
  by unfold_locales (auto simp: double_quote_def peek_is_def apfst_def map_prod_def split: prod.split)

section \<open>Properties\<close>

text \<open>
  C29: Every token of any text is well-formed: it covers at least one character of the text that was lexed (the text with its executable comments expanded), carries a text only
  when it is a name, a string or a number, and the word it was typed as only when it is a keyword.
\<close>

theorem tokens_well_formed: "list_all (token_ok (length (expand_executable_comments s))) (tokenize fmt s)"
  using lex_loop_tokens [of "expand_executable_comments s" "length (expand_executable_comments s)" "[]"] by (simp add: tokenize_def Let_def)

text \<open>
  C27: The splitter and the lexer agree on where a statement ends. In a text without executable comments, the character at which \<^verbatim>\<open>find_statement_end\<close> ends the
  first statement is one the lexer reads as a \<^verbatim>\<open>;\<close> token; it is never inside what the lexer takes for a string, a quoted name, a number, a word or a comment.
\<close>

theorem statement_end_is_token:
  assumes "expand_executable_comments s = s" "find_statement_end s = Some e"
  shows "\<exists>t \<in> set (tokenize fmt s). tk_kind t = Semicolon \<and> tk_begin t = e"
proof -
  obtain st r where n: "next_end scan_init s = Some (st, r)" "e = length s - length r - 1"
    using assms(2) by (auto simp: find_statement_end_eq)
  then show ?thesis
    using lex_loop_end [OF behind_refl n(1), of fmt "length s" "[]"] assms(1) by (auto simp: tokenize_def semicolon_before_def)
qed

theorem statement_end_is_token_witness:
  "\<exists>t \<in> set (tokenize id ''SELECT 1e5x; BEGIN''). tk_kind t = Semicolon \<and> tk_begin t = 11"
proof -
  have "expand_executable_comments ''SELECT 1e5x; BEGIN'' = ''SELECT 1e5x; BEGIN''" "find_statement_end ''SELECT 1e5x; BEGIN'' = Some 11"
    by code_simp+
  then show ?thesis
    by (rule statement_end_is_token)
qed

text \<open>
  C28: \<^verbatim>\<open>QUOTE\<close> writes every text as a literal the lexer reads back: what it returns for a value that is not NULL is one string token with exactly that
  text, whatever characters the text has (quotes, backslashes, NUL, the openings of comments and of executable comments).
\<close>

theorem quote_roundtrip:
  assumes "v \<noteq> ''NULL''"
  shows "\<exists>q. fn_quote [v] = Some q \<and> map (\<lambda>t. (tk_kind t, tk_text t, tk_begin t, tk_end t)) (tokenize fmt q) = [(StringLit, v, 0, length q)]"
proof -
  have "list_all (\<lambda>_. True) v"
    by (simp add: list_all_iff)
  note this [THEN quote_writer.tokenize_literal, of fmt]
  then show ?thesis
    using assms by (simp add: fn_quote_def)
qed

theorem quote_roundtrip_witness:
  "\<exists>q. fn_quote [[CHR 0x27, CHR 0x5C] @ ''/*! x */''] = Some q \<and>
    map (\<lambda>t. (tk_kind t, tk_text t, tk_begin t, tk_end t)) (tokenize id q) = [(StringLit, [CHR 0x27, CHR 0x5C] @ ''/*! x */'', 0, length q)]"
  by (rule quote_roundtrip) simp

text \<open>
  The literals written by doubling quotes (\<^verbatim>\<open>literal_text\<close>, \<^verbatim>\<open>quoted_text\<close>, \<^verbatim>\<open>sql_quoted\<close>) are read back as one string token with the same text whenever
  the text has no backslash.
\<close>

theorem doubled_roundtrip:
  assumes "CHR 0x5C \<notin> set v"
  shows "map (\<lambda>t. (tk_kind t, tk_text t)) (tokenize fmt (sql_quoted v)) = [(StringLit, v)] \<and>
    (v \<noteq> ''__NULL__'' \<longrightarrow> map (\<lambda>t. (tk_kind t, tk_text t)) (tokenize fmt (literal_text v True)) = [(StringLit, v)])"
proof -
  have "list_all (\<lambda>c. c \<noteq> CHR 0x5C) v"
    using assms by (auto simp: list_all_iff)
  note this [THEN double_writer.tokenize_literal, of fmt]
  moreover have "sql_quoted v = quoted_text v"
    unfolding sql_quoted_def quoted_text_def by (intro arg_cong2 [of _ _ _ _ append] arg_cong [of _ _ concat] map_cong) (auto simp: double_quote_def)
  ultimately show ?thesis
    by (simp add: quoted_text_def literal_text_def)
qed

theorem doubled_roundtrip_witness:
  "map (\<lambda>t. (tk_kind t, tk_text t)) (tokenize id (sql_quoted [CHR 0x27])) = [(StringLit, [CHR 0x27])]"
  using doubled_roundtrip [of "[CHR 0x27]" id] by simp

text \<open>
  With a backslash they are not: a text that ends with one takes the closing quote into the literal, so that in a statement put together of two
  literals (\<^verbatim>\<open>show_columns\<close>) the second one's text is read as SQL.
\<close>

theorem backslash_opens_literal:
  "map (\<lambda>t. (tk_kind t, tk_text t)) (tokenize fmt (sql_quoted [CHR 0x5C] @ '' AND n = '' @ sql_quoted '' OR 1 #'')) =
    [(StringLit, CHR 0x27 # '' AND n = ''), (Keyword ''Or'', []), (NumberLit, ''1'')]"
  by code_simp

end
