(* ===== verification/NumericText.thy ===== *)
theory NumericText
  imports Comparison Complex_Main
begin

text \<open>
  Numbers in texts (\<^verbatim>\<open>core/include/engine/numeric_text.hpp\<close>): what a text is worth as a number, comparison of numeric texts, 64-bit
  arithmetic with overflow checks, and the exact sum of decimals behind \<^verbatim>\<open>SUM\<close> and \<^verbatim>\<open>AVG\<close>.

  An \<^verbatim>\<open>int64_t\<close> is an \<^typ>\<open>int\<close>; where the code multiplies without a check the wrap-around is written out (\<open>wrap64\<close>). A finite
  \<^verbatim>\<open>double\<close> is the rational number it stands for. \<^verbatim>\<open>std::from_chars\<close> to a \<^verbatim>\<open>double\<close> rounds the exact value of the text:
  the rounding is an argument \<open>dbl\<close>, which gives \<^const>\<open>None\<close> when the value is out of range.
\<close>

section \<open>Reading numbers\<close>

definition is_dig :: "char \<Rightarrow> bool" where
  "is_dig c \<longleftrightarrow> CHR ''0'' \<le> c \<and> c \<le> CHR ''9''"

definition dig :: "char \<Rightarrow> nat" where
  "dig c = of_char c - 48"

definition digits_nat :: "string \<Rightarrow> nat" where
  "digits_nat s = fold (\<lambda>c n. n * 10 + dig c) s 0"

definition span_digits :: "string \<Rightarrow> string \<times> string" where
  "span_digits s = (takeWhile is_dig s, dropWhile is_dig s)"

definition opt_sign :: "string \<Rightarrow> bool \<times> string" where
  "opt_sign s = (case s of c # r \<Rightarrow> (if c = CHR ''+'' then (False, r) else if c = CHR ''-'' then (True, r) else (False, s)) | [] \<Rightarrow> (False, []))"

text \<open>
  The parts of the number a text starts with: integer digits, fraction digits, exponent, and what is left; \<^const>\<open>None\<close> when there is no digit.
\<close>

definition scan_exponent :: "string \<Rightarrow> int \<times> string" where
  "scan_exponent s =
     (case s of
        c # r \<Rightarrow>
          if c = CHR ''e'' \<or> c = CHR ''E'' then
            let (neg, r1) = opt_sign r; (ds, r2) = span_digits r1 in
            if ds = [] then (0, s) else ((if neg then - int (digits_nat ds) else int (digits_nat ds)), r2)
          else (0, s)
      | [] \<Rightarrow> (0, []))"

definition scan_fraction :: "string \<Rightarrow> string \<times> string" where
  "scan_fraction s = (case s of c # r \<Rightarrow> if c = CHR ''.'' then span_digits r else ([], s) | [] \<Rightarrow> ([], []))"

definition scan_unsigned :: "string \<Rightarrow> (string \<times> string \<times> int \<times> string) option" where
  "scan_unsigned s =
     (let (ids, r1) = span_digits s; (fds, r2) = scan_fraction r1 in
      if ids = [] \<and> fds = [] then None
      else let (e, r3) = scan_exponent r2 in Some (ids, fds, e, r3))"

definition number_length :: "string \<Rightarrow> nat" where
  "number_length s =
     (case scan_unsigned (snd (opt_sign s)) of
        None \<Rightarrow> 0
      | Some (ids, fds, e, r) \<Rightarrow> length s - length r)"

definition pow10_rat :: "int \<Rightarrow> rat" where
  "pow10_rat e = (if e \<ge> 0 then 10 ^ nat e else 1 / 10 ^ nat (- e))"

definition decimal_rat :: "bool \<Rightarrow> string \<Rightarrow> string \<Rightarrow> int \<Rightarrow> rat" where
  "decimal_rat neg ids fds e =
     (let v = of_nat (digits_nat (ids @ fds)) * pow10_rat (e - int (length fds)) in if neg then - v else v)"

text \<open>\<^verbatim>\<open>std::from_chars\<close> to a double: an optional minus sign and a number; the value and the rest of the text.\<close>

definition from_chars_double :: "(rat \<Rightarrow> rat option) \<Rightarrow> string \<Rightarrow> (rat option \<times> string) option" where
  "from_chars_double dbl s =
     (let (neg, r) = (case s of c # r \<Rightarrow> if c = CHR ''-'' then (True, r) else (False, s) | [] \<Rightarrow> (False, [])) in
      map_option (\<lambda>(ids, fds, e, r'). (dbl (decimal_rat neg ids fds e), r')) (scan_unsigned r))"

definition number_value :: "(rat \<Rightarrow> rat option) \<Rightarrow> string \<Rightarrow> rat" where
  "number_value dbl number =
     (let n = (case number of c # r \<Rightarrow> if c = CHR ''+'' then r else number | [] \<Rightarrow> []) in
      case from_chars_double dbl n of Some (Some v, _) \<Rightarrow> v | _ \<Rightarrow> 0)"

definition parse_number :: "(rat \<Rightarrow> rat option) \<Rightarrow> string \<Rightarrow> rat option" where
  "parse_number dbl s =
     (let plus = (s \<noteq> [] \<and> hd s = CHR ''+''); p = (if plus then tl s else s);
          q = (if p \<noteq> [] \<and> hd p = CHR ''-'' then tl p else p) in
      if plus \<and> p \<noteq> [] \<and> (hd p = CHR ''+'' \<or> hd p = CHR ''-'') then None
      else if q = [] \<or> \<not> (is_dig (hd q) \<or> hd q = CHR ''.'') then None
      else case from_chars_double dbl p of Some (v, rest) \<Rightarrow> if rest = [] then v else None | None \<Rightarrow> None)"

definition is_blank :: "char \<Rightarrow> bool" where
  "is_blank c \<longleftrightarrow> c = CHR '' '' \<or> (9 \<le> (of_char c :: nat) \<and> (of_char c :: nat) \<le> 13)"

definition text_to_number :: "(rat \<Rightarrow> rat option) \<Rightarrow> string \<Rightarrow> rat" where
  "text_to_number dbl s = (let t = dropWhile is_blank s in number_value dbl (take (number_length t) t))"

definition int64_max :: int where "int64_max = 2 ^ 63 - 1"
definition int64_min :: int where "int64_min = - (2 ^ 63)"

definition in_int64 :: "int \<Rightarrow> bool" where
  "in_int64 v \<longleftrightarrow> int64_min \<le> v \<and> v \<le> int64_max"

text \<open>\<^verbatim>\<open>std::from_chars\<close> to an \<^verbatim>\<open>int64_t\<close> and to a \<^verbatim>\<open>uint64_t\<close>, together with the check that the whole text was read.\<close>

definition from_chars_int64 :: "string \<Rightarrow> int option" where
  "from_chars_int64 s =
     (let (neg, ds) = (case s of c # r \<Rightarrow> if c = CHR ''-'' then (True, r) else (False, s) | [] \<Rightarrow> (False, []));
          v = (if neg then - int (digits_nat ds) else int (digits_nat ds)) in
      if ds \<noteq> [] \<and> list_all is_dig ds \<and> in_int64 v then Some v else None)"

definition from_chars_uint64 :: "string \<Rightarrow> nat option" where
  "from_chars_uint64 s = (if s \<noteq> [] \<and> list_all is_dig s \<and> digits_nat s < 2 ^ 64 then Some (digits_nat s) else None)"

definition parse_int64_text :: "string \<Rightarrow> int option" where
  "parse_int64_text s = from_chars_int64 (case s of c # r \<Rightarrow> if c = CHR ''+'' then r else s | [] \<Rightarrow> [])"

text \<open>A sign and a magnitude; zero is not negative.\<close>

definition parse_wide_integer_text :: "string \<Rightarrow> (bool \<times> nat) option" where
  "parse_wide_integer_text s =
     (let (neg, ds) = opt_sign s in map_option (\<lambda>m. (neg \<and> m \<noteq> 0, m)) (from_chars_uint64 ds))"

definition compare_numbers :: "(rat \<Rightarrow> rat option) \<Rightarrow> string \<Rightarrow> string \<Rightarrow> int" where
  "compare_numbers dbl a b =
     (case (parse_int64_text a, parse_int64_text b) of
        (Some x, Some y) \<Rightarrow> three_way x y
      | _ \<Rightarrow>
          (case (parse_wide_integer_text a, parse_wide_integer_text b) of
             (Some (un, um), Some (vn, vm)) \<Rightarrow>
               if un \<noteq> vn then (if un then -1 else 1)
               else (if un then - three_way um vm else three_way um vm)
           | _ \<Rightarrow> three_way (text_to_number dbl a) (text_to_number dbl b)))"

section \<open>64-bit arithmetic\<close>

text \<open>Division of C++: towards zero.\<close>

definition tdiv :: "int \<Rightarrow> int \<Rightarrow> int" where
  "tdiv a b = sgn a * sgn b * (\<bar>a\<bar> div \<bar>b\<bar>)"

definition tmod :: "int \<Rightarrow> int \<Rightarrow> int" where
  "tmod a b = a - tdiv a b * b"

definition int64_arith :: "char \<Rightarrow> int \<Rightarrow> int \<Rightarrow> int option" where
  "int64_arith op a b =
     (if op = CHR ''+'' then
        (if (b > 0 \<and> a > int64_max - b) \<or> (b < 0 \<and> a < int64_min - b) then None else Some (a + b))
      else if op = CHR ''-'' then
        (if (b < 0 \<and> a > int64_max + b) \<or> (b > 0 \<and> a < int64_min + b) then None else Some (a - b))
      else if a = 0 \<or> b = 0 then Some 0
      else if (a = -1 \<and> b = int64_min) \<or> (b = -1 \<and> a = int64_min) then None
      else if (if a > 0 then (if b > 0 then a > tdiv int64_max b else b < tdiv int64_min a)
               else (if b > 0 then a < tdiv int64_min b else a < tdiv int64_max b)) then None
      else Some (a * b))"

definition wrap64 :: "int \<Rightarrow> int" where
  "wrap64 v = (v + 2 ^ 63) mod 2 ^ 64 - 2 ^ 63"

section \<open>Exact sums\<close>

record DecimalSum =
  units :: int
  scale :: nat
  max_places :: nat
  cnt :: nat
  exact :: bool

definition new_sum :: DecimalSum where
  "new_sum = \<lparr>units = 0, scale = 0, max_places = 0, cnt = 0, exact = True\<rparr>"

primrec pow10 :: "nat \<Rightarrow> int" where
  "pow10 0 = 1"
| "pow10 (Suc n) = wrap64 (pow10 n * 10)"

definition widen :: "nat \<Rightarrow> DecimalSum \<Rightarrow> bool \<times> DecimalSum" where
  "widen to s =
     (if to = scale s then (True, s)
      else case int64_arith (CHR ''*'') (units s) (pow10 (to - scale s)) of
          None \<Rightarrow> (False, s)
        | Some w \<Rightarrow> (True, s\<lparr>units := w, scale := to\<rparr>))"

text \<open>The loop over the characters: mantissa, places and digits; \<^const>\<open>None\<close> when the text is not a plain decimal of at most 18 digits.\<close>

fun add_scan :: "string \<Rightarrow> int \<Rightarrow> nat \<Rightarrow> nat \<Rightarrow> bool \<Rightarrow> (int \<times> nat \<times> nat) option" where
  "add_scan [] m places digs after_point = Some (m, places, digs)"
| "add_scan (c # r) m places digs after_point =
     (if c = CHR ''.'' \<and> \<not> after_point then add_scan r m places digs True
      else if \<not> is_dig c \<or> digs + 1 > 18 then None
      else add_scan r (m * 10 + int (dig c)) (if after_point then places + 1 else places) (digs + 1) after_point)"

fun strip_zeros :: "int \<Rightarrow> nat \<Rightarrow> int \<times> nat" where
  "strip_zeros m 0 = (m, 0)"
| "strip_zeros m (Suc p) = (if tmod m 10 = 0 then strip_zeros (tdiv m 10) p else (m, Suc p))"

definition sum_inexact :: "DecimalSum \<Rightarrow> DecimalSum" where
  "sum_inexact s = s\<lparr>exact := False\<rparr>"

definition sum_add_units :: "int \<Rightarrow> DecimalSum \<Rightarrow> DecimalSum" where
  "sum_add_units m s = (case int64_arith (CHR ''+'') (units s) m of None \<Rightarrow> sum_inexact s | Some t \<Rightarrow> s\<lparr>units := t\<rparr>)"

definition sum_add :: "string \<Rightarrow> DecimalSum \<Rightarrow> DecimalSum" where
  "sum_add text s0 =
     (let s = s0\<lparr>cnt := cnt s0 + 1\<rparr> in
      if \<not> exact s then s
      else
        let (negative, r) = opt_sign text in
        case add_scan r 0 0 0 False of
          None \<Rightarrow> sum_inexact s
        | Some (mant, places, digs) \<Rightarrow>
            if digs = 0 then sum_inexact s
            else
              let s = s\<lparr>max_places := max (max_places s) places\<rparr>;
                  (m1, places) = strip_zeros mant places;
                  m2 = (if negative then - m1 else m1);
                  (ok, s) = (if places > scale s then widen places s else (True, s)) in
              if \<not> ok then sum_inexact s
              else if places < scale s then
                (case int64_arith (CHR ''*'') m2 (pow10 (scale s - places)) of
                   None \<Rightarrow> sum_inexact s
                 | Some m3 \<Rightarrow> sum_add_units m3 s)
              else sum_add_units m2 s)"

function normalize_sum :: "DecimalSum \<Rightarrow> DecimalSum" where
  "normalize_sum s = (if scale s > 0 \<and> tmod (units s) 10 = 0
     then normalize_sum (s\<lparr>units := tdiv (units s) 10, scale := scale s - 1\<rparr>) else s)"
  by pat_completeness auto
termination
  by (relation "measure scale") auto

declare normalize_sum.simps [simp del]

definition magnitude :: "int \<Rightarrow> nat" where
  "magnitude v = nat \<bar>v\<bar>"

fun nat_text :: "nat \<Rightarrow> string" where
  "nat_text n = (if n < 10 then [char_of (48 + n)] else nat_text (n div 10) @ [char_of (48 + n mod 10)])"

declare nat_text.simps [simp del]

text \<open>A decimal point before the last \<open>places\<close> digits, with zeros in front as needed.\<close>

definition with_point :: "string \<Rightarrow> nat \<Rightarrow> string" where
  "with_point digits places =
     (let ds = (if length digits \<le> places then replicate (places - length digits + 1) (CHR ''0'') @ digits else digits);
          k = length ds - places in
      take k ds @ ''.'' @ drop k ds)"

definition sum_text :: "DecimalSum \<Rightarrow> string" where
  "sum_text s =
     (let digits = nat_text (magnitude (units s)) in
      (if units s < 0 then ''-'' else '''') @ (if scale s > 0 then with_point digits (scale s) else digits))"

definition text_with_places :: "DecimalSum \<Rightarrow> string" where
  "text_with_places s =
     (if max_places s > scale s
      then sum_text s @ (if scale s = 0 then ''.'' else '''') @ replicate (max_places s - scale s) (CHR ''0'')
      else sum_text s)"

definition average_text :: "int \<Rightarrow> nat \<Rightarrow> DecimalSum \<Rightarrow> string option" where
  "average_text divisor places s =
     (case (if scale s \<le> places
            then map_option (\<lambda>n. (n, divisor)) (int64_arith (CHR ''*'') (units s) (pow10 (places - scale s)))
            else map_option (\<lambda>d. (units s, d)) (int64_arith (CHR ''*'') divisor (pow10 (scale s - places)))) of
        None \<Rightarrow> None
      | Some (numerator, denominator) \<Rightarrow>
          let q = tdiv numerator denominator; rem = tmod numerator denominator;
              q' = (if \<bar>rem\<bar> \<ge> denominator - \<bar>rem\<bar> then q + (if numerator < 0 then -1 else 1) else q) in
          Some ((if q' < 0 then ''-'' else '''') @ with_point (nat_text (magnitude q')) places))"

text \<open>
  SUM and AVG of the texts of a group: \<open>show_shortest\<close> and \<open>show_places\<close> stand for the conversions of doubles to text
  (\<^verbatim>\<open>format_shortest\<close>, \<^verbatim>\<open>format_places\<close>), \<open>dadd\<close> and \<open>ddiv\<close> for the addition and division of doubles.
\<close>

record double_ops =
  round_double :: "rat \<Rightarrow> rat option"
  dadd :: "rat \<Rightarrow> rat \<Rightarrow> rat"
  ddiv :: "rat \<Rightarrow> rat \<Rightarrow> rat"
  show_shortest :: "rat \<Rightarrow> string"
  show_places :: "rat \<Rightarrow> nat \<Rightarrow> string"

definition double_total :: "double_ops \<Rightarrow> string list \<Rightarrow> rat" where
  "double_total ops values = fold (\<lambda>v t. dadd ops t (text_to_number (round_double ops) v)) values 0"

definition sum_of_texts :: "double_ops \<Rightarrow> string list \<Rightarrow> bool \<Rightarrow> bool \<Rightarrow> string option" where
  "sum_of_texts ops values display approx =
     (if values = [] then None
      else if approx then Some (show_shortest ops (double_total ops values))
      else
        let s = fold sum_add values new_sum in
        if exact s then Some (text_with_places s)
        else
          let total = double_total ops values in
          if display \<and> total \<noteq> of_int (if total < 0 then \<lceil>total\<rceil> else \<lfloor>total\<rfloor>) then Some (show_places ops total 4)
          else Some (show_shortest ops total))"

definition average_of_texts :: "double_ops \<Rightarrow> string list \<Rightarrow> bool \<Rightarrow> string option" where
  "average_of_texts ops values approx =
     (if values = [] then None
      else if approx then Some (show_shortest ops (ddiv ops (double_total ops values) (of_nat (length values))))
      else
        let s = fold sum_add values new_sum;
            ex = (if exact s then average_text (int (length values)) (min (max_places s + 4) 30) s else None) in
        case ex of
          Some t \<Rightarrow> Some t
        | None \<Rightarrow> Some (show_places ops (ddiv ops (double_total ops values) (of_nat (length values))) 4))"

section \<open>Overflow checks are exact\<close>

lemma div_less_iff: "0 < b \<Longrightarrow> m div b < a \<longleftrightarrow> m < a * b" for a b m :: int
proof -
  assume b: "0 < b"
  have eq: "m = m div b * b + m mod b" and mod: "0 \<le> m mod b" "m mod b < b"
    using b by simp_all
  show ?thesis
  proof
    assume "m div b < a"
    then have "(m div b + 1) * b \<le> a * b"
      using b by (intro mult_right_mono) auto
    then have "m div b * b + b \<le> a * b"
      by (simp add: distrib_right)
    then show "m < a * b"
      using eq mod by linarith
  next
    assume lt: "m < a * b"
    show "m div b < a"
    proof (rule ccontr)
      assume "\<not> m div b < a"
      then have "a * b \<le> m div b * b"
        using b by (intro mult_right_mono) auto
      then show False
        using lt eq mod by linarith
    qed
  qed
qed

definition exact_arith :: "char \<Rightarrow> int \<Rightarrow> int \<Rightarrow> int" where
  "exact_arith op a b = (if op = CHR ''+'' then a + b else if op = CHR ''-'' then a - b else a * b)"

lemma mult_overflow:
  assumes "a \<noteq> 0" "b \<noteq> 0" "in_int64 a" "in_int64 b"
  shows "(if a > 0 then (if b > 0 then a > tdiv int64_max b else b < tdiv int64_min a)
          else (if b > 0 then a < tdiv int64_min b else a < tdiv int64_max b)) \<longleftrightarrow> \<not> in_int64 (a * b)"
proof -
  have max: "int64_max = 9223372036854775807" and min: "int64_min = -9223372036854775808"
    by (simp_all add: int64_max_def int64_min_def)
  consider "a > 0" "b > 0" | "a > 0" "b < 0" | "a < 0" "b > 0" | "a < 0" "b < 0"
    using assms by linarith
  then show ?thesis
  proof cases
    case 1
    have "a > tdiv int64_max b \<longleftrightarrow> int64_max < a * b"
      using 1 div_less_iff [of b int64_max a] by (simp add: tdiv_def max)
    moreover have "int64_min \<le> a * b"
      using mult_pos_pos [OF 1] min by linarith
    ultimately show ?thesis
      using 1 by (auto simp: in_int64_def not_le)
  next
    case 2
    have "b < tdiv int64_min a \<longleftrightarrow> - int64_min < - b * a"
      using 2 div_less_iff [of a "- int64_min" "- b"] by (auto simp: tdiv_def min)
    moreover have "a * b \<le> int64_max"
      using mult_pos_neg [OF 2] max by linarith
    ultimately show ?thesis
      using 2 by (auto simp: in_int64_def not_le mult.commute)
  next
    case 3
    have "a < tdiv int64_min b \<longleftrightarrow> - int64_min < - a * b"
      using 3 div_less_iff [of b "- int64_min" "- a"] by (auto simp: tdiv_def min)
    moreover have "a * b \<le> int64_max"
      using mult_neg_pos [OF 3] max by linarith
    ultimately show ?thesis
      using 3 by (auto simp: in_int64_def not_le)
  next
    case 4
    have "a < tdiv int64_max b \<longleftrightarrow> int64_max < - a * - b"
      using 4 div_less_iff [of "- b" int64_max "- a"] by (auto simp: tdiv_def max)
    moreover have "int64_min \<le> a * b"
      using mult_neg_neg [OF 4] min by linarith
    ultimately show ?thesis
      using 4 by (auto simp: in_int64_def not_le)
  qed
qed

lemma add_overflow:
  assumes "in_int64 a" "in_int64 b"
  shows "(b > 0 \<and> a > int64_max - b) \<or> (b < 0 \<and> a < int64_min - b) \<longleftrightarrow> \<not> in_int64 (a + b)"
    and "(b < 0 \<and> a > int64_max + b) \<or> (b > 0 \<and> a < int64_min + b) \<longleftrightarrow> \<not> in_int64 (a - b)"
  using assms unfolding in_int64_def by linarith+

lemma int64_mult_eq:
  assumes "in_int64 a" "in_int64 b"
  shows "int64_arith (CHR ''*'') a b = (if in_int64 (a * b) then Some (a * b) else None)"
proof -
  have zero: "in_int64 0" and min: "\<not> in_int64 (- int64_min)"
    by (simp_all add: in_int64_def int64_max_def int64_min_def)
  consider "a = 0 \<or> b = 0" | "a \<noteq> 0" "b \<noteq> 0" "(a = -1 \<and> b = int64_min) \<or> (b = -1 \<and> a = int64_min)"
    | "a \<noteq> 0" "b \<noteq> 0" "\<not> ((a = -1 \<and> b = int64_min) \<or> (b = -1 \<and> a = int64_min))"
    by blast
  then show ?thesis
  proof cases
    case 1
    then show ?thesis
      using zero by (auto simp: int64_arith_def)
  next
    case 2
    then have "a * b = - int64_min"
      by auto
    then show ?thesis
      using 2 min by (simp add: int64_arith_def)
  next
    case 3
    then show ?thesis
      unfolding int64_arith_def mult_overflow [OF 3(1,2) assms] by auto
  qed
qed

lemma int64_arith_eq:
  assumes "in_int64 a" "in_int64 b"
  shows "int64_arith op a b = (if in_int64 (exact_arith op a b) then Some (exact_arith op a b) else None)"
proof -
  have "op \<noteq> CHR ''+'' \<Longrightarrow> op \<noteq> CHR ''-'' \<Longrightarrow> int64_arith op a b = int64_arith (CHR ''*'') a b"
    by (simp add: int64_arith_def)
  then show ?thesis
    using add_overflow [OF assms] int64_mult_eq [OF assms]
    by (simp add: int64_arith_def exact_arith_def)
qed


section \<open>Sums are exact\<close>

text \<open>The exact value of a plain decimal, with no limit on its digits: the specification the sums are measured against.\<close>

definition decimal_value :: "string \<Rightarrow> rat option" where
  "decimal_value s =
     (let (neg, r) = opt_sign s; (ids, r1) = span_digits r; (fds, r2) = scan_fraction r1 in
      if r2 = [] \<and> (ids \<noteq> [] \<or> fds \<noteq> []) then Some (decimal_rat neg ids fds 0) else None)"

lemma not_dig [simp]: "\<not> is_dig (CHR ''.'')" "\<not> is_dig (CHR ''-'')" "\<not> is_dig (CHR ''+'')"
  by (simp_all add: is_dig_def less_eq_char_def)

lemma fold_digits: "fold (\<lambda>c n. n * 10 + dig c) s k = k * 10 ^ length s + digits_nat s"
proof (induction s arbitrary: k)
  case (Cons c s)
  show ?case
    using Cons.IH [of "k * 10 + dig c"] Cons.IH [of "dig c"] by (simp add: digits_nat_def algebra_simps)
qed (simp add: digits_nat_def)

lemma digits_nat_simps [simp]:
  "digits_nat [] = 0"
  "digits_nat (c # s) = dig c * 10 ^ length s + digits_nat s"
  "digits_nat (s @ t) = digits_nat s * 10 ^ length t + digits_nat t"
proof -
  show "digits_nat [] = 0"
    by (simp add: digits_nat_def)
  show "digits_nat (c # s) = dig c * 10 ^ length s + digits_nat s"
    using fold_digits [of s "dig c"] by (simp add: digits_nat_def)
  show "digits_nat (s @ t) = digits_nat s * 10 ^ length t + digits_nat t"
    using fold_digits [of t "digits_nat s"] by (simp add: digits_nat_def)
qed

lemma dig_le: "is_dig c \<Longrightarrow> dig c \<le> 9"
  unfolding is_dig_def dig_def less_eq_char_def by (simp add: le_diff_conv)

lemma digits_nat_less: "list_all is_dig s \<Longrightarrow> digits_nat s < 10 ^ length s"
proof (induction s)
  case (Cons c s)
  then have "dig c * 10 ^ length s \<le> 9 * 10 ^ length s"
    using dig_le [of c] by (intro mult_right_mono) auto
  moreover have "digits_nat s < 10 ^ length s"
    using Cons by simp
  moreover have "(10::nat) ^ length (c # s) = 10 * 10 ^ length s"
    by simp
  ultimately show ?case
    unfolding digits_nat_simps by linarith
qed simp

lemma add_scan_after:
  "add_scan s m p d True =
     (if list_all is_dig s \<and> (s = [] \<or> d + length s \<le> 18)
      then Some (m * 10 ^ length s + int (digits_nat s), p + length s, d + length s) else None)"
  by (induction s arbitrary: m p d) (auto simp: algebra_simps)

lemma add_scan_before:
  "add_scan s m p d False =
     (let ids = takeWhile is_dig s; m' = m * 10 ^ length ids + int (digits_nat ids) in
      if ids \<noteq> [] \<and> d + length ids > 18 then None
      else case dropWhile is_dig s of
          [] \<Rightarrow> Some (m', p, d + length ids)
        | c # r \<Rightarrow> if c = CHR ''.'' then add_scan r m' p (d + length ids) True else None)"
proof (induction s arbitrary: m p d)
  case (Cons c s)
  show ?case
  proof (cases "is_dig c")
    case True
    then have "c \<noteq> CHR ''.''"
      by auto
    then show ?thesis
      using True Cons.IH [of "m * 10 + int (dig c)" p "d + 1"]
      by (cases "dropWhile is_dig s") (auto simp: Let_def algebra_simps simp del: dropWhile_eq_Nil_conv)
  qed auto
qed simp

lemma add_scan_some:
  assumes "add_scan s 0 0 0 False = Some (m, p, d)"
  obtains ids fds where "span_digits s = (ids, snd (span_digits s))" "scan_fraction (snd (span_digits s)) = (fds, [])"
    "m = int (digits_nat (ids @ fds))" "p = length fds" "d = length ids + length fds" "d \<le> 18"
proof -
  let ?ids = "takeWhile is_dig s" and ?r = "dropWhile is_dig s"
  have d: "length ?ids \<le> 18"
    using assms by (auto simp: add_scan_before Let_def split: if_splits)
  show thesis
  proof (cases ?r)
    case Nil
    then show thesis
      using assms d by (intro that [of ?ids "[]"])
        (auto simp: span_digits_def scan_fraction_def add_scan_before Let_def simp del: dropWhile_eq_Nil_conv split: if_splits)
  next
    case (Cons c fds)
    then have "c = CHR ''.''" and "list_all is_dig fds" and "fds = [] \<or> length ?ids + length fds \<le> 18"
      and "m = int (digits_nat ?ids) * 10 ^ length fds + int (digits_nat fds)" "p = length fds" "d = length ?ids + length fds"
      using assms by (auto simp: add_scan_before add_scan_after Let_def split: if_splits)
    moreover have "takeWhile is_dig fds = fds" "dropWhile is_dig fds = []"
      using \<open>list_all is_dig fds\<close> by (auto simp: list_all_iff takeWhile_eq_all_conv)
    ultimately show thesis
      using Cons d by (intro that [of ?ids fds]) (auto simp: span_digits_def scan_fraction_def)
  qed
qed

lemma pow10_eq: "n \<le> 18 \<Longrightarrow> pow10 n = 10 ^ n"
proof (induction n)
  case (Suc n)
  have "(10::int) ^ n \<le> 10 ^ 17"
    using Suc.prems by (intro power_increasing) simp_all
  then show ?case
    using Suc by (simp add: wrap64_def)
qed simp

lemma in_int64_pow10: "n \<le> 18 \<Longrightarrow> in_int64 (pow10 n)"
proof -
  assume n: "n \<le> 18"
  have "0 < (10::int) ^ n" and "(10::int) ^ n \<le> 10 ^ 18"
    using n by (simp, intro power_increasing) simp_all
  moreover have "(10::int) ^ 18 \<le> 2 ^ 63 - 1" and "- (2 ^ 63) \<le> (0::int)"
    by simp_all
  ultimately show ?thesis
    unfolding in_int64_def int64_max_def int64_min_def pow10_eq [OF n] by linarith
qed

lemma tdiv_pos: "0 \<le> a \<Longrightarrow> 0 < b \<Longrightarrow> tdiv a b = a div b"
  by (auto simp: tdiv_def sgn_if)

lemma tmod_pos: "0 \<le> a \<Longrightarrow> 0 < b \<Longrightarrow> tmod a b = a mod b"
  by (simp add: tmod_def tdiv_pos minus_div_mult_eq_mod)

lemma strip_zeros_value:
  assumes "strip_zeros m p = (m', p')" "0 \<le> m"
  shows "p' \<le> p \<and> 0 \<le> m' \<and> m' \<le> m \<and> (of_int m' :: rat) / 10 ^ p' = of_int m / 10 ^ p"
  using assms
proof (induction m p rule: strip_zeros.induct)
  case (2 m p)
  show ?case
  proof (cases "tmod m 10 = 0")
    case True
    then have m: "m = m div 10 * 10"
      using 2(3) div_mult_mod_eq [of m 10] by (simp add: tmod_pos)
    then have "(of_int m :: rat) = of_int (m div 10) * 10"
      by (metis of_int_mult of_int_numeral)
    moreover have "m div 10 \<le> m" "0 \<le> m div 10"
      using 2(3) m by linarith+
    ultimately show ?thesis
      using 2 True by (auto simp: tdiv_pos)
  next
    case False
    then show ?thesis
      using 2 by auto
  qed
qed auto


lemma rescale: "k \<le> n \<Longrightarrow> (of_int (m * 10 ^ (n - k)) :: rat) / 10 ^ n = of_int m / 10 ^ k"
  by (simp add: field_simps flip: power_add)

text \<open>While it is exact, a sum stands for \<open>T\<close>, and its powers of ten never exceed \<open>10 ^ 18\<close>.\<close>

definition sum_ok :: "DecimalSum \<Rightarrow> rat \<Rightarrow> bool" where
  "sum_ok s T \<longleftrightarrow> exact s \<and> in_int64 (units s) \<and> scale s \<le> max_places s \<and> max_places s \<le> 18
     \<and> of_int (units s) / 10 ^ scale s = T"

lemma sum_add_units_ok:
  assumes "sum_ok s T" "in_int64 m" "exact (sum_add_units m s)" "v = of_int m / 10 ^ scale s"
  shows "sum_ok (sum_add_units m s) (T + v)"
  using assms unfolding sum_ok_def sum_add_units_def sum_inexact_def
  by (auto simp: int64_arith_eq exact_arith_def add_divide_distrib split: if_splits option.splits)

lemma widen_ok:
  assumes "sum_ok s T" "scale s < p" "p \<le> max_places s" "widen p s = (True, s')"
  shows "sum_ok s' T \<and> scale s' = p"
proof -
  have "in_int64 (pow10 (p - scale s))" and pow: "pow10 (p - scale s) = 10 ^ (p - scale s)"
    using assms by (auto simp: sum_ok_def intro!: in_int64_pow10 pow10_eq)
  then show ?thesis
    using assms rescale [of "scale s" p "units s"]
    by (auto simp: sum_ok_def widen_def int64_mult_eq split: if_splits option.splits)
qed

lemma scale_mantissa:
  assumes "in_int64 m" "p < n" "n \<le> 18" "int64_arith (CHR ''*'') m (pow10 (n - p)) = Some m3"
  shows "in_int64 m3 \<and> (of_int m3 :: rat) / 10 ^ n = of_int m / 10 ^ p"
proof -
  have "in_int64 (pow10 (n - p))" and pow: "pow10 (n - p) = 10 ^ (n - p)"
    using assms by (auto intro!: in_int64_pow10 pow10_eq)
  then show ?thesis
    using assms rescale [of p n m] by (auto simp: int64_mult_eq split: if_splits)
qed

lemma align_add_ok:
  assumes s: "sum_ok s T" and m: "in_int64 m" and p: "p \<le> max_places s"
    and w: "(ok, s') = (if p > scale s then widen p s else (True, s))"
    and r: "r = (if \<not> ok then sum_inexact s'
                 else if p < scale s' then
                   (case int64_arith (CHR ''*'') m (pow10 (scale s' - p)) of
                      None \<Rightarrow> sum_inexact s' | Some m3 \<Rightarrow> sum_add_units m3 s')
                 else sum_add_units m s')"
    and ex: "exact r"
  shows "sum_ok r (T + of_int m / 10 ^ p)"
proof -
  have ok: ok
    using r ex by (cases ok) (auto simp: sum_inexact_def)
  then have s': "sum_ok s' T" and ge: "p \<le> scale s'"
    using w s p widen_ok [OF s, of p s'] by (auto split: if_splits)
  show ?thesis
  proof (cases "p < scale s'")
    case True
    then obtain m3 where m3: "int64_arith (CHR ''*'') m (pow10 (scale s' - p)) = Some m3"
      using r ex ok by (cases "int64_arith (CHR ''*'') m (pow10 (scale s' - p))") (auto simp: sum_inexact_def)
    have "scale s' \<le> 18"
      using s' by (simp add: sum_ok_def)
    then have m3': "in_int64 m3" "(of_int m / 10 ^ p :: rat) = of_int m3 / 10 ^ scale s'"
      using scale_mantissa [OF m True _ m3] by simp_all
    have "r = sum_add_units m3 s'"
      using True r ok m3 by simp
    then show ?thesis
      using ex sum_add_units_ok [OF s' m3'(1) _ m3'(2)] by simp
  next
    case False
    then show ?thesis
      using r ok ex ge by (auto intro!: sum_add_units_ok [OF s' m])
  qed
qed


lemma decimal_rat_fraction:
  "decimal_rat neg ids fds 0 = (if neg then -1 else 1) * of_nat (digits_nat (ids @ fds)) / 10 ^ length fds"
  by (auto simp: decimal_rat_def pow10_rat_def Let_def simp del: digits_nat_simps)

lemma digits_in_int64:
  assumes "0 \<le> m" "m \<le> int (digits_nat s)" "list_all is_dig s" "length s \<le> 18"
  shows "in_int64 m \<and> in_int64 (- m)"
proof -
  have "int (digits_nat s) < int (10 ^ length s)"
    using digits_nat_less [OF assms(3)] of_nat_less_iff by blast
  moreover have "(10::int) ^ length s \<le> 10 ^ 18"
    using assms(4) by (intro power_increasing) simp_all
  moreover have "(10::int) ^ 18 \<le> 2 ^ 63 - 1"
    by simp
  moreover have "int (10 ^ length s) = 10 ^ length s"
    by simp
  ultimately show ?thesis
    using assms(1,2) unfolding in_int64_def int64_max_def int64_min_def by linarith
qed

lemma sum_add_ok:
  assumes s: "sum_ok s T" and ex: "exact (sum_add t s)"
  obtains v where "decimal_value t = Some v" "sum_ok (sum_add t s) (T + v)"
proof -
  obtain neg r where sign: "opt_sign t = (neg, r)"
    by fastforce
  let ?s1 = "s\<lparr>cnt := Suc (cnt s)\<rparr>"
  have "exact s"
    using s by (simp add: sum_ok_def)
  then obtain m p d where scan: "add_scan r 0 0 0 False = Some (m, p, d)" and d: "d \<noteq> 0"
    using ex by (cases "add_scan r 0 0 0 False") (auto simp: sum_add_def sign sum_inexact_def Let_def split: if_splits)
  from add_scan_some [OF scan] obtain ids fds
    where ids: "span_digits r = (ids, snd (span_digits r))" and fds: "scan_fraction (snd (span_digits r)) = (fds, [])"
      and mp: "m = int (digits_nat (ids @ fds))" "p = length fds" "d = length ids + length fds" "d \<le> 18"
    by blast
  have digs: "list_all is_dig (ids @ fds)"
    using ids fds by (auto simp: span_digits_def scan_fraction_def list_all_iff split: list.splits if_splits dest: set_takeWhileD)
  have dv: "decimal_value t = Some (decimal_rat neg ids fds 0)"
    using ids fds mp d by (auto simp: decimal_value_def sign split: prod.splits)
  obtain m1 p1 where strip: "strip_zeros m p = (m1, p1)"
    by fastforce
  have m1: "p1 \<le> p" "0 \<le> m1" "m1 \<le> m" "(of_int m1 :: rat) / 10 ^ p1 = of_int m / 10 ^ p"
    using strip_zeros_value [OF strip] mp by auto
  let ?m2 = "if neg then - m1 else m1" and ?s2 = "?s1\<lparr>max_places := max (max_places s) p\<rparr>"
  have m2: "in_int64 ?m2"
    using digits_in_int64 [OF m1(2) _ digs] m1(3) mp by auto
  have s2: "sum_ok ?s2 T"
    using s mp by (auto simp: sum_ok_def)
  obtain ok s' where w: "(ok, s') = (if p1 > scale ?s2 then widen p1 ?s2 else (True, ?s2))"
    by (metis surj_pair)
  have add: "sum_add t s =
    (if \<not> ok then sum_inexact s'
     else if p1 < scale s' then
       (case int64_arith (CHR ''*'') ?m2 (pow10 (scale s' - p1)) of None \<Rightarrow> sum_inexact s' | Some m3 \<Rightarrow> sum_add_units m3 s')
     else sum_add_units ?m2 s')"
    using \<open>exact s\<close> d w [symmetric] by (simp add: sum_add_def Let_def sign scan strip split del: if_split)
  have "sum_ok (sum_add t s) (T + of_int ?m2 / 10 ^ p1)"
    using m1(1) by (intro align_add_ok [OF s2 m2 _ w add ex]) simp
  moreover have "of_int ?m2 / 10 ^ p1 = decimal_rat neg ids fds 0"
    using m1(4) mp by (simp add: decimal_rat_fraction del: digits_nat_simps)
  ultimately show thesis
    using that dv by simp
qed


lemma sum_add_inexact: "\<not> exact s \<Longrightarrow> \<not> exact (sum_add t s)"
  by (simp add: sum_add_def)

lemma fold_sum_inexact: "\<not> exact s \<Longrightarrow> \<not> exact (fold sum_add vs s)"
  by (induction vs arbitrary: s) (auto simp: sum_add_inexact)

lemma fold_sum_ok:
  assumes "exact (fold sum_add vs s)" "sum_ok s T"
  shows "list_all (\<lambda>v. decimal_value v \<noteq> None) vs
    \<and> sum_ok (fold sum_add vs s) (T + sum_list (map (the \<circ> decimal_value) vs))"
  using assms
proof (induction vs arbitrary: s T)
  case (Cons v vs)
  have "exact (sum_add v s)"
    using Cons.prems fold_sum_inexact by auto
  from sum_add_ok [OF Cons.prems(2) this] obtain w
    where "decimal_value v = Some w" "sum_ok (sum_add v s) (T + w)" .
  then show ?case
    using Cons.IH [of "sum_add v s" "T + w"] Cons.prems by (simp add: add.assoc)
qed simp

lemma sum_ok_new: "sum_ok new_sum 0"
  by (simp add: sum_ok_def new_sum_def in_int64_def int64_max_def int64_min_def)

text \<open>The text of a number reads back as that number.\<close>

lemma dig_char_of: "k < 10 \<Longrightarrow> is_dig (char_of (48 + k)) \<and> dig (char_of (48 + k)) = k" for k :: nat
  by (simp add: is_dig_def dig_def less_eq_char_def)

lemma nat_text_digits: "nat_text n \<noteq> [] \<and> list_all is_dig (nat_text n) \<and> digits_nat (nat_text n) = n"
proof (induction n rule: nat_text.induct)
  case (1 n)
  show ?case
    using 1 dig_char_of [of n] dig_char_of [of "n mod 10"] by (auto simp: nat_text.simps [of n])
qed

lemma digits_nat_zeros [simp]: "digits_nat (replicate k (CHR ''0'')) = 0"
  by (induction k) (auto simp: dig_def)

lemma list_all_zeros [simp]: "list_all is_dig (replicate k (CHR ''0''))"
  by (induction k) (auto simp: is_dig_def)

lemma with_point_split:
  assumes "list_all is_dig ds"
  obtains ids fds where "with_point ds p = ids @ ''.'' @ fds" "ids \<noteq> []" "list_all is_dig ids" "list_all is_dig fds"
    "length fds = p" "digits_nat (ids @ fds) = digits_nat ds"
proof -
  define ds' where "ds' = (if length ds \<le> p then replicate (p - length ds + 1) (CHR ''0'') @ ds else ds)"
  define k where "k = length ds' - p"
  have "list_all is_dig ds'"
    using assms list_all_zeros unfolding ds'_def by (auto simp del: replicate_Suc)
  then have "list_all is_dig (take k ds')" "list_all is_dig (drop k ds')"
    by (auto simp: list_all_iff dest: in_set_takeD in_set_dropD)
  moreover have "p < length ds'" "digits_nat ds' = digits_nat ds"
    using digits_nat_zeros unfolding ds'_def by (auto simp del: replicate_Suc)
  moreover have "digits_nat (take k ds' @ drop k ds') = digits_nat ds'"
    by (simp only: append_take_drop_id)
  moreover have "with_point ds p = take k ds' @ ''.'' @ drop k ds'"
    by (simp add: with_point_def Let_def ds'_def k_def)
  ultimately show thesis
    by (intro that [of "take k ds'" "drop k ds'"]) (auto simp: k_def simp del: digits_nat_simps)
qed

lemma opt_sign_text:
  assumes "ids \<noteq> []" "list_all is_dig ids"
  shows "opt_sign ((if neg then ''-'' else '''') @ ids @ r) = (neg, ids @ r)"
  using assms by (cases ids) (auto simp: opt_sign_def)

lemma span_digits_text:
  assumes "list_all is_dig ids" "r = [] \<or> \<not> is_dig (hd r)"
  shows "span_digits (ids @ r) = (ids, r)"
  using assms by (cases r) (auto simp: span_digits_def list_all_iff takeWhile_append dropWhile_append takeWhile_eq_all_conv)

lemma decimal_value_text:
  assumes "ids \<noteq> []" "list_all is_dig ids" "list_all is_dig fds"
  shows "decimal_value ((if neg then ''-'' else '''') @ ids @ ''.'' @ fds) = Some (decimal_rat neg ids fds 0)"
    and "decimal_value ((if neg then ''-'' else '''') @ ids) = Some (decimal_rat neg ids [] 0)"
  using assms opt_sign_text [OF assms(1,2), of neg "''.'' @ fds"] opt_sign_text [OF assms(1,2), of neg "[]"]
    span_digits_text [OF assms(2), of "''.'' @ fds"] span_digits_text [OF assms(2), of "[]"] span_digits_text [OF assms(3), of "[]"]
  by (simp_all add: decimal_value_def scan_fraction_def)

lemma decimal_rat_zeros: "decimal_rat neg ids (fds @ replicate k (CHR ''0'')) 0 = decimal_rat neg ids fds 0"
  by (simp add: decimal_rat_fraction power_add field_simps)

lemma signed_units: "(if u < 0 then -1 else 1) * of_nat (magnitude u) = (of_int u :: rat)"
  by (simp add: magnitude_def)


lemma sum_text_value: "decimal_value (sum_text s) = Some (of_int (units s) / 10 ^ scale s)"
proof (cases "scale s > 0")
  case True
  obtain ids fds where "with_point (nat_text (magnitude (units s))) (scale s) = ids @ ''.'' @ fds" "ids \<noteq> []"
    "list_all is_dig ids" "list_all is_dig fds" "length fds = scale s" "digits_nat (ids @ fds) = magnitude (units s)"
    using nat_text_digits with_point_split by metis
  then show ?thesis
    using True signed_units [of "units s"]
    by (simp add: sum_text_def Let_def decimal_value_text(1) decimal_rat_fraction del: digits_nat_simps append_Cons)
next
  case False
  then show ?thesis
    using nat_text_digits signed_units [of "units s"]
      decimal_value_text(2) [of "nat_text (magnitude (units s))" "[]" "units s < 0"]
    by (simp add: sum_text_def Let_def decimal_rat_fraction split del: if_split)
qed

lemma text_with_places_value: "decimal_value (text_with_places s) = Some (of_int (units s) / 10 ^ scale s)"
proof -
  let ?n = "nat_text (magnitude (units s))" and ?z = "replicate (max_places s - scale s) (CHR ''0'')"
    and ?sgn = "if units s < 0 then ''-'' else ''''"
  have n: "?n \<noteq> []" "list_all is_dig ?n" "digits_nat ?n = magnitude (units s)"
    using nat_text_digits by auto
  consider "max_places s \<le> scale s" | "max_places s > scale s" "scale s = 0" | "max_places s > scale s" "scale s > 0"
    by linarith
  then show ?thesis
  proof cases
    case 1
    then show ?thesis
      by (simp add: text_with_places_def sum_text_value)
  next
    case 2
    then have "text_with_places s = ?sgn @ ?n @ ''.'' @ ?z"
      by (simp add: text_with_places_def sum_text_def Let_def)
    then show ?thesis
      using 2 n decimal_value_text(1) [OF n(1,2) list_all_zeros, of "units s < 0" "max_places s - scale s"]
        decimal_rat_zeros [of "units s < 0" ?n "[]" "max_places s - scale s"] signed_units [of "units s"]
      by (simp add: decimal_rat_fraction)
  next
    case 3
    obtain ids fds where p: "with_point ?n (scale s) = ids @ ''.'' @ fds" "ids \<noteq> []" "list_all is_dig ids"
      "list_all is_dig fds" "length fds = scale s" "digits_nat (ids @ fds) = magnitude (units s)"
      using n with_point_split by metis
    then have "text_with_places s = ?sgn @ ids @ ''.'' @ fds @ ?z"
      using 3 by (simp add: text_with_places_def sum_text_def Let_def)
    moreover have "list_all is_dig (fds @ ?z)"
      using p by simp
    ultimately have "decimal_value (text_with_places s) = Some (decimal_rat (units s < 0) ids (fds @ ?z) 0)"
      using decimal_value_text(1) [OF p(2,3)] by simp
    then show ?thesis
      unfolding decimal_rat_zeros using p signed_units [of "units s"]
      by (simp add: decimal_rat_fraction del: digits_nat_simps)
  qed
qed

text \<open>Rounding half away from zero.\<close>

definition round_half_away :: "rat \<Rightarrow> int" where
  "round_half_away x = (if x < 0 then - \<lfloor>- x + 1 / 2\<rfloor> else \<lfloor>x + 1 / 2\<rfloor>)"

definition divide_round :: "int \<Rightarrow> int \<Rightarrow> int" where
  "divide_round n d =
     (if \<bar>tmod n d\<bar> \<ge> d - \<bar>tmod n d\<bar> then tdiv n d + (if n < 0 then -1 else 1) else tdiv n d)"

lemma floor_half: "0 \<le> r \<Longrightarrow> r < D \<Longrightarrow> \<lfloor>r / D + 1 / 2\<rfloor> = (if D \<le> 2 * r then 1 else 0)" for r D :: rat
  by (auto simp: floor_eq_iff field_simps)

lemma divide_round_nonneg:
  assumes "0 \<le> n" "0 < d"
  shows "divide_round n d = \<lfloor>(of_int n / of_int d :: rat) + 1 / 2\<rfloor>"
proof -
  have mod: "0 \<le> n mod d" "n mod d < d"
    using assms by simp_all
  have "(of_int n :: rat) = of_int (n div d * d + n mod d)"
    by simp
  then have "(of_int n / of_int d :: rat) = of_int (n div d) + of_int (n mod d) / of_int d"
    using assms unfolding of_int_add of_int_mult by (simp add: field_simps)
  then have "\<lfloor>(of_int n / of_int d :: rat) + 1 / 2\<rfloor> = n div d + \<lfloor>(of_int (n mod d) / of_int d :: rat) + 1 / 2\<rfloor>"
    by (simp add: add.assoc)
  moreover have "\<lfloor>(of_int (n mod d) / of_int d :: rat) + 1 / 2\<rfloor> = (if n mod d \<ge> d - n mod d then 1 else 0)"
  proof -
    have "(of_int d :: rat) \<le> 2 * of_int (n mod d) \<longleftrightarrow> d - n mod d \<le> n mod d"
      by (metis diff_le_eq mult_2 of_int_add of_int_le_iff)
    then show ?thesis
      using floor_half [of "of_int (n mod d)" "of_int d"] mod assms by simp
  qed
  ultimately show ?thesis
    using assms mod by (simp add: divide_round_def tdiv_pos tmod_pos)
qed

lemma divide_round_neg: "n < 0 \<Longrightarrow> 0 < d \<Longrightarrow> divide_round n d = - divide_round (- n) d"
proof -
  assume n: "n < 0" and d: "0 < d"
  have div: "tdiv n d = - tdiv (- n) d"
    by (simp add: tdiv_def)
  then have mod: "tmod n d = - tmod (- n) d"
    by (simp add: tmod_def)
  show ?thesis
    unfolding divide_round_def div mod using n by simp
qed

lemma divide_round_eq:
  assumes "0 < d"
  shows "divide_round n d = round_half_away (of_int n / of_int d)"
proof (cases "n < 0")
  case True
  then show ?thesis
    using assms divide_round_nonneg [of "- n" d] by (simp add: divide_round_neg round_half_away_def divide_less_0_iff)
next
  case False
  then show ?thesis
    using assms divide_round_nonneg [of n d] by (simp add: round_half_away_def divide_less_0_iff)
qed


lemma average_text_ok:
  assumes s: "sum_ok s T" and d: "0 < d" "in_int64 d" and places: "places \<le> scale s + 18"
    and avg: "average_text d places s = Some t"
  shows "decimal_value t = Some (of_int (round_half_away (T / of_int d * 10 ^ places)) / 10 ^ places)"
proof -
  have T: "T = of_int (units s) / 10 ^ scale s" and u: "in_int64 (units s)" and sc: "scale s \<le> 18"
    using s by (auto simp: sum_ok_def)
  define num den where "num = (if scale s \<le> places then units s * 10 ^ (places - scale s) else units s)"
    and "den = (if scale s \<le> places then d else d * 10 ^ (scale s - places))"
  have pow: "in_int64 (pow10 k)" "pow10 k = 10 ^ k" if "k \<le> 18" for k
    using that in_int64_pow10 pow10_eq by auto
  define q where "q = divide_round num den"
  have t: "t = (if q < 0 then ''-'' else '''') @ with_point (nat_text (magnitude q)) places"
    using avg u d places sc pow [of "places - scale s"] pow [of "scale s - places"]
    unfolding q_def average_text_def divide_round_def num_def den_def
    by (auto simp: int64_mult_eq Let_def split: if_splits)
  have den: "0 < den"
    using d by (simp add: den_def)
  have "q = round_half_away (of_int num / of_int den)"
    unfolding q_def by (rule divide_round_eq [OF den])
  moreover have "of_int num / of_int den = T / of_int d * (10 ^ places :: rat)"
    using d power_add [of "10::rat" "places - scale s" "scale s"] power_add [of "10::rat" "scale s - places" places]
    by (auto simp: num_def den_def T field_simps)
  moreover obtain ids fds where "with_point (nat_text (magnitude q)) places = ids @ ''.'' @ fds" "ids \<noteq> []"
    "list_all is_dig ids" "list_all is_dig fds" "length fds = places" "digits_nat (ids @ fds) = magnitude q"
    using nat_text_digits with_point_split by metis
  ultimately show ?thesis
    using signed_units [of q] unfolding t
    by (simp add: decimal_value_text(1) decimal_rat_fraction del: digits_nat_simps append_Cons)
qed

section \<open>Properties\<close>

text \<open>
  C22: The overflow checks of \<^verbatim>\<open>int64_arith\<close> are exact: on 64-bit operands it gives the result of the operation when that fits in 64
  bits, and nothing when it does not.
\<close>

theorem int64_arith_exact:
  assumes "in_int64 a" "in_int64 b"
  shows "int64_arith op a b = (if in_int64 (exact_arith op a b) then Some (exact_arith op a b) else None)"
  by (rule int64_arith_eq [OF assms])

theorem int64_arith_exact_witness:
  "in_int64 (2 ^ 62) \<and> in_int64 (-2) \<and> int64_arith (CHR ''*'') (2 ^ 62) (-2) = Some int64_min
     \<and> int64_arith (CHR ''*'') (2 ^ 62) 2 = None"
proof -
  have "in_int64 (2 ^ 62)" "in_int64 (-2)" "in_int64 2"
    by (simp_all add: in_int64_def int64_max_def int64_min_def)
  then show ?thesis
    using int64_arith_exact [of "2 ^ 62" "-2" "CHR ''*''"] int64_arith_exact [of "2 ^ 62" 2 "CHR ''*''"]
    by (simp add: exact_arith_def in_int64_def int64_max_def int64_min_def)
qed

text \<open>
  C21: When the exact sum of a group holds, the text \<^verbatim>\<open>SUM\<close> answers reads back as the exact sum of the decimals the texts of the group
  write, and every one of them writes one: no rounding, no wrap-around.
\<close>

theorem sum_of_texts_exact:
  assumes "vs \<noteq> []" "exact (fold sum_add vs new_sum)"
  shows "\<exists>t. sum_of_texts ops vs display False = Some t
    \<and> list_all (\<lambda>v. decimal_value v \<noteq> None) vs
    \<and> decimal_value t = Some (sum_list (map (the \<circ> decimal_value) vs))"
  using assms fold_sum_ok [OF assms(2) sum_ok_new]
  by (simp add: sum_of_texts_def Let_def text_with_places_value sum_ok_def)

definition exact_ops :: double_ops where
  "exact_ops = \<lparr>round_double = Some, dadd = (+), ddiv = (/), show_shortest = (\<lambda>_. []), show_places = (\<lambda>_ _. [])\<rparr>"

lemmas sum_eval = new_sum_def sum_add_def Let_def opt_sign_def is_dig_def dig_def less_eq_char_def tmod_def tdiv_def widen_def
  wrap64_def int64_arith_def int64_max_def int64_min_def sum_add_units_def eval_nat_numeral

lemma pow10_numeral: "pow10 (numeral k) = wrap64 (pow10 (pred_numeral k) * 10)"
  by (simp add: numeral_eq_Suc)

lemma digit_chars:
  "char_of (48 :: nat) = CHR ''0''" "char_of (49 :: nat) = CHR ''1''" "char_of (50 :: nat) = CHR ''2''" "char_of (51 :: nat) = CHR ''3''"
  "char_of (52 :: nat) = CHR ''4''" "char_of (53 :: nat) = CHR ''5''" "char_of (54 :: nat) = CHR ''6''" "char_of (55 :: nat) = CHR ''7''"
  "char_of (56 :: nat) = CHR ''8''" "char_of (57 :: nat) = CHR ''9''"
  by code_simp+

lemmas average_eval = average_text_def magnitude_def Let_def tmod_def tdiv_def wrap64_def int64_arith_def int64_max_def int64_min_def pow10_numeral

lemmas text_eval = sum_text_def text_with_places_def with_point_def nat_text.simps magnitude_def Let_def digit_chars

theorem sum_of_texts_exact_witness:
  "exact (fold sum_add [''10.50'', ''-0.5'', ''5.005''] new_sum)
    \<and> sum_of_texts exact_ops [''10.50'', ''-0.5'', ''5.005''] True False = Some ''15.005''
    \<and> decimal_value ''15.005'' = Some (sum_list (map (the \<circ> decimal_value) [''10.50'', ''-0.5'', ''5.005'']))"
proof -
  have s: "fold sum_add [''10.50'', ''-0.5'', ''5.005''] new_sum = \<lparr>units = 15005, scale = 3, max_places = 3, cnt = 3, exact = True\<rparr>"
    by (simp add: sum_eval)
  have "exact (fold sum_add [''10.50'', ''-0.5'', ''5.005''] new_sum)"
    unfolding s by simp
  moreover have "sum_of_texts exact_ops [''10.50'', ''-0.5'', ''5.005''] True False = Some ''15.005''"
    unfolding sum_of_texts_def s by (simp add: text_eval)
  ultimately show ?thesis
    using sum_of_texts_exact [of "[''10.50'', ''-0.5'', ''5.005'']" exact_ops True] by auto
qed

text \<open>
  \<^verbatim>\<open>AVG\<close> of decimals written with at most 14 places, when it is computed from the exact sum: the text it answers is the exact average,
  rounded half away from zero to four places more than the values have.
\<close>

theorem average_of_texts_rounds:
  assumes "vs \<noteq> []" "exact (fold sum_add vs new_sum)" "max_places (fold sum_add vs new_sum) \<le> 14"
    and "int (length vs) \<le> int64_max"
    and "average_text (int (length vs)) (max_places (fold sum_add vs new_sum) + 4) (fold sum_add vs new_sum) \<noteq> None"
  shows "\<exists>t. average_of_texts ops vs False = Some t
    \<and> (let p = max_places (fold sum_add vs new_sum) + 4 in
       decimal_value t = Some (of_int (round_half_away
         (sum_list (map (the \<circ> decimal_value) vs) / of_nat (length vs) * 10 ^ p)) / 10 ^ p))"
proof -
  let ?s = "fold sum_add vs new_sum" and ?n = "int (length vs)"
  let ?p = "max_places ?s + 4"
  have s: "sum_ok ?s (sum_list (map (the \<circ> decimal_value) vs))"
    using fold_sum_ok [OF assms(2) sum_ok_new] by simp
  obtain t where t: "average_text ?n ?p ?s = Some t"
    using assms(5) by blast
  have "0 < ?n" "in_int64 ?n" "?p \<le> scale ?s + 18" "min ?p 30 = ?p"
    using assms by (auto simp: in_int64_def int64_min_def)
  then show ?thesis
    using average_text_ok [OF s _ _ _ t] t assms(1,2) by (simp add: average_of_texts_def Let_def)
qed

theorem average_of_texts_rounds_witness:
  "average_of_texts exact_ops [''1'', ''2'', ''2''] False = Some ''1.6667''
    \<and> decimal_value ''1.6667'' = Some (of_int (round_half_away (sum_list (map (the \<circ> decimal_value) [''1'', ''2'', ''2'']) / 3 * 10 ^ 4)) / 10 ^ 4)"
proof -
  have s: "fold sum_add [''1'', ''2'', ''2''] new_sum = \<lparr>units = 5, scale = 0, max_places = 0, cnt = 3, exact = True\<rparr>"
    by (simp add: sum_eval)
  have t: "average_text 3 4 \<lparr>units = 5, scale = 0, max_places = 0, cnt = 3, exact = True\<rparr> = Some ''1.6667''"
    by (simp add: average_eval) (simp add: text_eval)
  have "average_of_texts exact_ops [''1'', ''2'', ''2''] False = Some ''1.6667''"
    unfolding average_of_texts_def s by (simp add: t)
  then show ?thesis
    unfolding s using t
      average_of_texts_rounds [of "[''1'', ''2'', ''2'']" exact_ops, unfolded s] by (simp add: int64_max_def Let_def)
qed

text \<open>
  With 15 places the power of ten of \<^verbatim>\<open>average_text\<close> is \<open>10 ^ 19\<close>, which no \<^verbatim>\<open>int64_t\<close> holds: the average of a single one is answered
  as a negative number.
\<close>

theorem average_wraps:
  "average_of_texts ops [''1.000000000000000''] False = Some ''-0.8446744073709551616''"
proof -
  have s: "fold sum_add [''1.000000000000000''] new_sum = \<lparr>units = 1, scale = 0, max_places = 15, cnt = 1, exact = True\<rparr>"
    by (simp add: sum_eval)
  have "average_text 1 19 \<lparr>units = 1, scale = 0, max_places = 15, cnt = 1, exact = True\<rparr> = Some ''-0.8446744073709551616''"
    by (simp add: average_eval) (simp add: text_eval)
  then show ?thesis
    unfolding average_of_texts_def s by simp
qed

end
