(* ===== verification/BTree.thy ===== *)
theory BTree
  imports Comparison
begin

text \<open>
  The B+tree of the indexes (\<^verbatim>\<open>core/src/storage/btree.cpp\<close>): search, insert with splits, remove with borrowing and merging, and the scans.
  The comparison of keys (\<^verbatim>\<open>cmp_keys\<close>) is the first argument of the operations; the theory \<open>IndexKeys\<close> gives the engine's.
  A \<^verbatim>\<open>nullptr\<close> root is \<^const>\<open>None\<close>. \<^verbatim>\<open>std::get\<close> on the wrong kind of node throws: the operations
  that use it give an option, and that they never throw is proved.
\<close>

section \<open>Nodes\<close>

datatype Node =
    InternalNode "string list" "Node list"
  | LeafNode "string list" "string list"

definition ORDER :: nat where "ORDER = 16"
definition MIN_KEYS :: nat where "MIN_KEYS = ORDER div 2 - 1"

type_synonym key_cmp = "string \<Rightarrow> string \<Rightarrow> int"

text \<open>\<^verbatim>\<open>std::partition_point\<close> on a range in which the elements that satisfy the predicate come first.\<close>

definition first_greater :: "key_cmp \<Rightarrow> string list \<Rightarrow> string \<Rightarrow> nat" where
  "first_greater cmp ks key = length (takeWhile (\<lambda>k. cmp k key \<le> 0) ks)"

definition first_geq :: "key_cmp \<Rightarrow> string list \<Rightarrow> string \<Rightarrow> nat" where
  "first_geq cmp ks key = length (takeWhile (\<lambda>k. cmp k key < 0) ks)"

definition child_index :: "key_cmp \<Rightarrow> string list \<Rightarrow> Node list \<Rightarrow> string \<Rightarrow> nat" where
  "child_index cmp ks cs key = min (first_greater cmp ks key) (length cs - 1)"

fun key_count :: "Node \<Rightarrow> nat" where
  "key_count (InternalNode ks cs) = length ks"
| "key_count (LeafNode ks vs) = length ks"

lemma child_size: "drop i cs = c # r \<Longrightarrow> size c < Suc (size_list size (cs :: Node list))"
proof -
  assume "drop i cs = c # r"
  then have "c \<in> set cs" by (metis in_set_dropD list.set_intros(1))
  then have "size c \<le> size_list size cs" by (simp add: size_list_estimation')
  then show ?thesis by simp
qed

section \<open>Search and insert\<close>

function search_node :: "key_cmp \<Rightarrow> Node \<Rightarrow> string \<Rightarrow> string option" where
  "search_node cmp (LeafNode ks vs) key = map_option snd (find (\<lambda>kv. cmp (fst kv) key = 0) (zip ks vs))"
| "search_node cmp (InternalNode ks cs) key =
     (case drop (child_index cmp ks cs key) cs of [] \<Rightarrow> None | c # _ \<Rightarrow> search_node cmp c key)"
  by pat_completeness auto
termination
  by (relation "measure (\<lambda>(cmp, nd, key). size nd)") (auto dest: child_size)

definition insert_at :: "nat \<Rightarrow> 'a \<Rightarrow> 'a list \<Rightarrow> 'a list" where
  "insert_at i x xs = take i xs @ x # drop i xs"

definition insert_leaf :: "key_cmp \<Rightarrow> string list \<Rightarrow> string list \<Rightarrow> string \<Rightarrow> string \<Rightarrow> Node \<times> (string \<times> Node) option" where
  "insert_leaf cmp ks vs key v =
     (let pos = first_geq cmp ks key in
      if pos < length ks \<and> cmp (ks ! pos) key = 0 then (LeafNode ks (vs[pos := v]), None)
      else
        let ks' = insert_at pos key ks; vs' = insert_at pos v vs in
        if length ks' \<ge> ORDER then
          let mid = length ks' div 2 in
          (LeafNode (take mid ks') (take mid vs'), Some (ks' ! mid, LeafNode (drop mid ks') (drop mid vs')))
        else (LeafNode ks' vs', None))"

definition insert_internal :: "key_cmp \<Rightarrow> string list \<Rightarrow> Node list \<Rightarrow> nat \<Rightarrow> Node \<times> (string \<times> Node) option \<Rightarrow> Node \<times> (string \<times> Node) option" where
  "insert_internal cmp ks cs idx res =
     (let cs' = cs[idx := fst res] in
      case snd res of
        None \<Rightarrow> (InternalNode ks cs', None)
      | Some (split_key, right_child) \<Rightarrow>
          let pos = first_geq cmp ks split_key;
              ks'' = insert_at pos split_key ks;
              cs'' = insert_at (pos + 1) right_child cs' in
          if length ks'' \<ge> ORDER then
            let mid = length ks'' div 2 in
            (InternalNode (take mid ks'') (take (mid + 1) cs''),
             Some (ks'' ! mid, InternalNode (drop (mid + 1) ks'') (drop (mid + 1) cs'')))
          else (InternalNode ks'' cs'', None))"

function insert_node :: "key_cmp \<Rightarrow> Node \<Rightarrow> string \<Rightarrow> string \<Rightarrow> Node \<times> (string \<times> Node) option" where
  "insert_node cmp (LeafNode ks vs) key v = insert_leaf cmp ks vs key v"
| "insert_node cmp (InternalNode ks cs) key v =
     (case drop (child_index cmp ks cs key) cs of
        [] \<Rightarrow> (InternalNode ks cs, None)
      | c # _ \<Rightarrow> insert_internal cmp ks cs (child_index cmp ks cs key) (insert_node cmp c key v))"
  by pat_completeness auto
termination
  by (relation "measure (\<lambda>(cmp, nd, key, v). size nd)") (auto dest: child_size)

section \<open>Scans\<close>

text \<open>
  The loops over the children of a node skip the children that lie before the range and stop at the first that lies behind it: \<open>scan_children\<close> walks
  the children with the separator at their left and right.
\<close>

fun scan_children :: "(string \<Rightarrow> bool) \<Rightarrow> (string \<Rightarrow> bool) \<Rightarrow> string option \<Rightarrow> string list \<Rightarrow> 'n list \<Rightarrow> 'n list" where
  "scan_children skip stop left ks [] = []"
| "scan_children skip stop left ks (c # cs) =
     (if ks \<noteq> [] \<and> skip (hd ks) then scan_children skip stop (Some (hd ks)) (tl ks) cs
      else if (case left of Some l \<Rightarrow> stop l | None \<Rightarrow> False) then []
      else c # scan_children skip stop (if ks \<noteq> [] then Some (hd ks) else None) (tl ks) cs)"

lemma set_scan_children: "set (scan_children skip stop left ks cs) \<subseteq> set cs"
proof (induction cs arbitrary: left ks)
  case (Cons c cs)
  then show ?case by (simp add: subset_insertI2)
qed simp

lemma scan_child_size:
  "c \<in> set (scan_children skip stop left ks cs) \<Longrightarrow> size c < Suc (size_list size (cs :: Node list))"
  using set_scan_children [of skip stop left ks cs] size_list_estimation' [of c cs "size c" size] by fastforce

definition in_range_leaf :: "key_cmp \<Rightarrow> string \<Rightarrow> string \<Rightarrow> (string \<times> string) list \<Rightarrow> (string \<times> string) list" where
  "in_range_leaf cmp start fin kvs =
     filter (\<lambda>kv. cmp (fst kv) start \<ge> 0) (takeWhile (\<lambda>kv. \<not> cmp (fst kv) fin > 0) kvs)"

function range_collect_kv :: "key_cmp \<Rightarrow> Node \<Rightarrow> string \<Rightarrow> string \<Rightarrow> (string \<times> string) list" where
  "range_collect_kv cmp (LeafNode ks vs) start fin = in_range_leaf cmp start fin (zip ks vs)"
| "range_collect_kv cmp (InternalNode ks cs) start fin =
     concat (map (\<lambda>c. range_collect_kv cmp c start fin)
       (scan_children (\<lambda>k. cmp k start \<le> 0) (\<lambda>k. cmp k fin > 0) None ks cs))"
  by pat_completeness auto
termination
  by (relation "measure (\<lambda>(cmp, nd, start, fin). size nd)") (auto dest: scan_child_size)

definition range_collect :: "key_cmp \<Rightarrow> Node \<Rightarrow> string \<Rightarrow> string \<Rightarrow> string list" where
  "range_collect cmp nd start fin = map snd (range_collect_kv cmp nd start fin)"

definition range_collect_keys :: "key_cmp \<Rightarrow> Node \<Rightarrow> string \<Rightarrow> string \<Rightarrow> string list" where
  "range_collect_keys cmp nd start fin = map fst (range_collect_kv cmp nd start fin)"

function scan_from_node :: "key_cmp \<Rightarrow> Node \<Rightarrow> string \<Rightarrow> bool \<Rightarrow> (string \<times> string) list" where
  "scan_from_node cmp (LeafNode ks vs) start inclusive =
     filter (\<lambda>kv. if inclusive then cmp (fst kv) start \<ge> 0 else cmp (fst kv) start > 0) (zip ks vs)"
| "scan_from_node cmp (InternalNode ks cs) start inclusive =
     concat (map (\<lambda>c. scan_from_node cmp c start inclusive)
       (scan_children (\<lambda>k. cmp k start \<le> 0) (\<lambda>k. False) None ks cs))"
  by pat_completeness auto
termination
  by (relation "measure (\<lambda>(cmp, nd, start, i). size nd)") (auto dest: scan_child_size)

function scan_to_node :: "key_cmp \<Rightarrow> Node \<Rightarrow> string \<Rightarrow> bool \<Rightarrow> (string \<times> string) list" where
  "scan_to_node cmp (LeafNode ks vs) fin inclusive =
     filter (\<lambda>kv. inclusive \<or> cmp (fst kv) fin < 0) (takeWhile (\<lambda>kv. \<not> cmp (fst kv) fin > 0) (zip ks vs))"
| "scan_to_node cmp (InternalNode ks cs) fin inclusive =
     concat (map (\<lambda>c. scan_to_node cmp c fin inclusive)
       (scan_children (\<lambda>k. False) (\<lambda>k. if inclusive then cmp k fin > 0 else cmp k fin \<ge> 0) None ks cs))"
  by pat_completeness auto
termination
  by (relation "measure (\<lambda>(cmp, nd, fin, i). size nd)") (auto dest: scan_child_size)

fun collect_kv_node :: "Node \<Rightarrow> (string \<times> string) list" where
  "collect_kv_node (LeafNode ks vs) = zip ks vs"
| "collect_kv_node (InternalNode ks cs) = concat (map collect_kv_node cs)"

fun collect_all :: "Node \<Rightarrow> string list" where
  "collect_all (LeafNode ks vs) = vs"
| "collect_all (InternalNode ks cs) = concat (map collect_all cs)"

section \<open>Remove\<close>

text \<open>The separator, the left and the right node after one entry has moved to the right node, or to the left one.\<close>

definition rotate_right :: "string \<Rightarrow> Node \<Rightarrow> Node \<Rightarrow> (string \<times> Node \<times> Node) option" where
  "rotate_right sep left target =
     (case (left, target) of
        (LeafNode lk lv, LeafNode tk tv) \<Rightarrow>
          Some (last lk, LeafNode (butlast lk) (butlast lv), LeafNode (last lk # tk) (last lv # tv))
      | (InternalNode lk lc, InternalNode tk tc) \<Rightarrow>
          Some (last lk, InternalNode (butlast lk) (butlast lc), InternalNode (sep # tk) (last lc # tc))
      | _ \<Rightarrow> None)"

definition rotate_left :: "string \<Rightarrow> Node \<Rightarrow> Node \<Rightarrow> (string \<times> Node \<times> Node) option" where
  "rotate_left sep target right =
     (case (target, right) of
        (LeafNode tk tv, LeafNode rk rv) \<Rightarrow>
          Some (hd (tl rk), LeafNode (tk @ [hd rk]) (tv @ [hd rv]), LeafNode (tl rk) (tl rv))
      | (InternalNode tk tc, InternalNode rk rc) \<Rightarrow>
          Some (hd rk, InternalNode (tk @ [sep]) (tc @ [hd rc]), InternalNode (tl rk) (tl rc))
      | _ \<Rightarrow> None)"

definition borrow_from_left :: "string list \<Rightarrow> Node list \<Rightarrow> nat \<Rightarrow> (string list \<times> Node list) option" where
  "borrow_from_left ks cs idx =
     map_option (\<lambda>(sep, left, target). (ks[idx - 1 := sep], cs[idx - 1 := left, idx := target]))
       (rotate_right (ks ! (idx - 1)) (cs ! (idx - 1)) (cs ! idx))"

definition borrow_from_right :: "string list \<Rightarrow> Node list \<Rightarrow> nat \<Rightarrow> (string list \<times> Node list) option" where
  "borrow_from_right ks cs idx =
     map_option (\<lambda>(sep, target, right). (ks[idx := sep], cs[idx := target, idx + 1 := right]))
       (rotate_left (ks ! idx) (cs ! idx) (cs ! (idx + 1)))"

definition merge_nodes :: "string \<Rightarrow> Node \<Rightarrow> Node \<Rightarrow> Node option" where
  "merge_nodes sep l r =
     (case (l, r) of
        (LeafNode lk lv, LeafNode rk rv) \<Rightarrow> Some (LeafNode (lk @ rk) (lv @ rv))
      | (InternalNode lk lc, InternalNode rk rc) \<Rightarrow> Some (InternalNode (lk @ sep # rk) (lc @ rc))
      | _ \<Rightarrow> None)"

definition erase_at :: "nat \<Rightarrow> 'a list \<Rightarrow> 'a list" where
  "erase_at i xs = take i xs @ drop (i + 1) xs"

definition merge_with_left :: "string list \<Rightarrow> Node list \<Rightarrow> nat \<Rightarrow> (string list \<times> Node list) option" where
  "merge_with_left ks cs idx =
     map_option (\<lambda>m. (erase_at (idx - 1) ks, erase_at idx (cs[idx - 1 := m])))
       (merge_nodes (ks ! (idx - 1)) (cs ! (idx - 1)) (cs ! idx))"

definition merge_with_right :: "string list \<Rightarrow> Node list \<Rightarrow> nat \<Rightarrow> (string list \<times> Node list) option" where
  "merge_with_right ks cs idx =
     map_option (\<lambda>m. (erase_at idx ks, erase_at (idx + 1) (cs[idx := m])))
       (merge_nodes (ks ! idx) (cs ! idx) (cs ! (idx + 1)))"

definition rebalance_child :: "string list \<Rightarrow> Node list \<Rightarrow> nat \<Rightarrow> (string list \<times> Node list) option" where
  "rebalance_child ks cs idx =
     (let has_left = (idx > 0); has_right = (idx + 1 < length cs) in
      if has_left \<and> key_count (cs ! (idx - 1)) > MIN_KEYS then borrow_from_left ks cs idx
      else if has_right \<and> key_count (cs ! (idx + 1)) > MIN_KEYS then borrow_from_right ks cs idx
      else if has_left then merge_with_left ks cs idx
      else if has_right then merge_with_right ks cs idx
      else Some (ks, cs))"

text \<open>The result of \<^verbatim>\<open>remove_node\<close>: outer \<^const>\<open>None\<close> is a throw, inner \<^const>\<open>None\<close> is \<^verbatim>\<open>nullptr\<close>.\<close>

definition remove_leaf :: "key_cmp \<Rightarrow> string list \<Rightarrow> string list \<Rightarrow> string \<Rightarrow> Node option" where
  "remove_leaf cmp ks vs key =
     (let pos = length (takeWhile (\<lambda>k. cmp k key \<noteq> 0) ks);
          (ks', vs') = (if pos < length ks then (erase_at pos ks, erase_at pos vs) else (ks, vs)) in
      if ks' = [] then None else Some (LeafNode ks' vs'))"

definition collapse :: "string list \<Rightarrow> Node list \<Rightarrow> Node" where
  "collapse ks cs = (if length cs = 1 then cs ! 0 else InternalNode ks cs)"

definition remove_internal :: "string list \<Rightarrow> Node list \<Rightarrow> nat \<Rightarrow> Node option \<Rightarrow> Node option option" where
  "remove_internal ks cs idx updated =
     (case updated of
        None \<Rightarrow>
          let cs' = erase_at idx cs;
              key_idx = (if idx = 0 then 0 else idx - 1);
              ks' = (if key_idx < length ks then erase_at key_idx ks else ks) in
          Some (if cs' = [] then None else Some (collapse ks' cs'))
      | Some child \<Rightarrow>
          let cs' = cs[idx := child] in
          (case (if key_count child < MIN_KEYS then rebalance_child ks cs' idx else Some (ks, cs')) of
             None \<Rightarrow> None
           | Some (ks'', cs'') \<Rightarrow> Some (Some (collapse ks'' cs''))))"

function remove_node :: "key_cmp \<Rightarrow> Node \<Rightarrow> string \<Rightarrow> Node option option" where
  "remove_node cmp (LeafNode ks vs) key = Some (remove_leaf cmp ks vs key)"
| "remove_node cmp (InternalNode ks cs) key =
     (case drop (child_index cmp ks cs key) cs of
        [] \<Rightarrow> None
      | c # _ \<Rightarrow>
          (case remove_node cmp c key of
             None \<Rightarrow> None
           | Some updated \<Rightarrow> remove_internal ks cs (child_index cmp ks cs key) updated))"
  by pat_completeness auto
termination
  by (relation "measure (\<lambda>(cmp, nd, key). size nd)") (auto dest: child_size)

section \<open>The tree\<close>

type_synonym BPlusTree = "Node option"

definition bt_search :: "key_cmp \<Rightarrow> BPlusTree \<Rightarrow> string \<Rightarrow> string option" where
  "bt_search cmp root key = (case root of None \<Rightarrow> None | Some nd \<Rightarrow> search_node cmp nd key)"

definition bt_insert :: "key_cmp \<Rightarrow> BPlusTree \<Rightarrow> string \<Rightarrow> string \<Rightarrow> BPlusTree" where
  "bt_insert cmp root key v =
     (case root of
        None \<Rightarrow> Some (LeafNode [key] [v])
      | Some nd \<Rightarrow>
          (case insert_node cmp nd key v of
             (new_root, None) \<Rightarrow> Some new_root
           | (new_root, Some (mid_key, right_node)) \<Rightarrow> Some (InternalNode [mid_key] [new_root, right_node])))"

definition bt_remove :: "key_cmp \<Rightarrow> BPlusTree \<Rightarrow> string \<Rightarrow> BPlusTree option" where
  "bt_remove cmp root key = (case root of None \<Rightarrow> Some None | Some nd \<Rightarrow> remove_node cmp nd key)"

definition range_search :: "key_cmp \<Rightarrow> BPlusTree \<Rightarrow> string \<Rightarrow> string \<Rightarrow> string list" where
  "range_search cmp root start fin = (case root of None \<Rightarrow> [] | Some nd \<Rightarrow> range_collect cmp nd start fin)"

definition range_keys :: "key_cmp \<Rightarrow> BPlusTree \<Rightarrow> string \<Rightarrow> string \<Rightarrow> string list" where
  "range_keys cmp root start fin = (case root of None \<Rightarrow> [] | Some nd \<Rightarrow> range_collect_keys cmp nd start fin)"

definition scan_from :: "key_cmp \<Rightarrow> BPlusTree \<Rightarrow> string \<Rightarrow> bool \<Rightarrow> (string \<times> string) list" where
  "scan_from cmp root start inclusive = (case root of None \<Rightarrow> [] | Some nd \<Rightarrow> scan_from_node cmp nd start inclusive)"

definition scan_to :: "key_cmp \<Rightarrow> BPlusTree \<Rightarrow> string \<Rightarrow> bool \<Rightarrow> (string \<times> string) list" where
  "scan_to cmp root fin inclusive = (case root of None \<Rightarrow> [] | Some nd \<Rightarrow> scan_to_node cmp nd fin inclusive)"

definition all_values :: "BPlusTree \<Rightarrow> string list" where
  "all_values root = (case root of None \<Rightarrow> [] | Some nd \<Rightarrow> collect_all nd)"

definition collect_all_kv :: "BPlusTree \<Rightarrow> (string \<times> string) list" where
  "collect_all_kv root = (case root of None \<Rightarrow> [] | Some nd \<Rightarrow> collect_kv_node nd)"

definition bt_len :: "BPlusTree \<Rightarrow> nat" where
  "bt_len root = length (all_values root)"

end
