(* ===== verification/BTreeCorrect.thy ===== *)
theory BTreeCorrect
  imports BTree
begin

text \<open>
  Correctness of the B+tree for a comparison that is a total preorder: the tree is a sorted list of entries, one for each class
  of keys that compare as equal, and its operations are lookup, insertion and deletion in that list and filters of it. The invariant \<open>node_inv\<close>
  says that all leaves are at one depth, that separators bound their subtrees and that every node but the root is filled as far as the
  code requires; it is what makes every \<^verbatim>\<open>std::get\<close> of the removal succeed.
\<close>

section \<open>The specification: sorted lists of entries\<close>

fun kv_insert :: "key_cmp \<Rightarrow> string \<Rightarrow> string \<Rightarrow> (string \<times> string) list \<Rightarrow> (string \<times> string) list" where
  "kv_insert cmp key v [] = [(key, v)]"
| "kv_insert cmp key v ((k, w) # m) =
     (if cmp k key < 0 then (k, w) # kv_insert cmp key v m
      else if cmp k key = 0 then (k, v) # m
      else (key, v) # (k, w) # m)"

definition kv_lookup :: "key_cmp \<Rightarrow> string \<Rightarrow> (string \<times> string) list \<Rightarrow> string option" where
  "kv_lookup cmp key m = map_option snd (find (\<lambda>kv. cmp (fst kv) key = 0) m)"

definition kv_remove :: "key_cmp \<Rightarrow> string \<Rightarrow> (string \<times> string) list \<Rightarrow> (string \<times> string) list" where
  "kv_remove cmp key m = filter (\<lambda>kv. cmp (fst kv) key \<noteq> 0) m"

definition kv_sorted :: "key_cmp \<Rightarrow> (string \<times> string) list \<Rightarrow> bool" where
  "kv_sorted cmp m \<longleftrightarrow> sorted_wrt (\<lambda>a b. cmp (fst a) (fst b) < 0) m"

section \<open>Bounds\<close>

definition lo_ok :: "key_cmp \<Rightarrow> string option \<Rightarrow> string \<Rightarrow> bool" where
  "lo_ok cmp lo k \<longleftrightarrow> (case lo of None \<Rightarrow> True | Some l \<Rightarrow> cmp l k \<le> 0)"

definition hi_ok :: "key_cmp \<Rightarrow> string \<Rightarrow> string option \<Rightarrow> bool" where
  "hi_ok cmp k hi \<longleftrightarrow> (case hi of None \<Rightarrow> True | Some h \<Rightarrow> cmp k h < 0)"

definition bnd :: "key_cmp \<Rightarrow> string option \<Rightarrow> string option \<Rightarrow> bool" where
  "bnd cmp lo hi \<longleftrightarrow> (case lo of None \<Rightarrow> True | Some l \<Rightarrow> hi_ok cmp l hi)"

fun chain :: "key_cmp \<Rightarrow> (string option \<Rightarrow> Node \<Rightarrow> string option \<Rightarrow> bool) \<Rightarrow>
  string option \<Rightarrow> string list \<Rightarrow> Node list \<Rightarrow> string option \<Rightarrow> bool" where
  "chain cmp P lo [] [c] hi \<longleftrightarrow> bnd cmp lo hi \<and> P lo c hi"
| "chain cmp P lo (k # ks) (c # cs) hi \<longleftrightarrow> bnd cmp lo (Some k) \<and> P lo c (Some k) \<and> chain cmp P (Some k) ks cs hi"
| "chain cmp P lo ks cs hi \<longleftrightarrow> False"

primrec node_inv :: "key_cmp \<Rightarrow> nat \<Rightarrow> string option \<Rightarrow> Node \<Rightarrow> string option \<Rightarrow> bool" where
  "node_inv cmp 0 = (\<lambda>lo nd hi.
     case nd of
       InternalNode ks cs \<Rightarrow> False
     | LeafNode ks vs \<Rightarrow> length vs = length ks \<and> sorted_wrt (\<lambda>a b. cmp a b < 0) ks \<and> (\<forall>k \<in> set ks. lo_ok cmp lo k \<and> hi_ok cmp k hi))"
| "node_inv cmp (Suc n) = (\<lambda>lo nd hi.
     case nd of
       InternalNode ks cs \<Rightarrow> chain cmp (node_inv cmp n) lo ks cs hi \<and> (\<forall>c \<in> set cs. MIN_KEYS \<le> key_count c \<and> key_count c < ORDER)
     | LeafNode ks vs \<Rightarrow> False)"

text \<open>The root may have fewer keys than the other nodes, but not none.\<close>

definition tree_below :: "key_cmp \<Rightarrow> string option \<Rightarrow> BPlusTree \<Rightarrow> bool" where
  "tree_below cmp hi root \<longleftrightarrow>
     (case root of
        None \<Rightarrow> True
      | Some nd \<Rightarrow> (\<exists>n. node_inv cmp n None nd hi) \<and> 0 < key_count nd \<and> key_count nd < ORDER)"

definition tree_inv :: "key_cmp \<Rightarrow> BPlusTree \<Rightarrow> bool" where
  "tree_inv cmp root \<longleftrightarrow> tree_below cmp None root"

definition lowb :: "string option \<Rightarrow> string list \<Rightarrow> string option" where
  "lowb lo ks = (if ks = [] then lo else Some (last ks))"

definition uppb :: "string list \<Rightarrow> string option \<Rightarrow> string option" where
  "uppb ks hi = (if ks = [] then hi else Some (hd ks))"

definition pre :: "key_cmp \<Rightarrow> (string option \<Rightarrow> Node \<Rightarrow> string option \<Rightarrow> bool) \<Rightarrow> string option \<Rightarrow> string list \<Rightarrow> Node list \<Rightarrow> bool" where
  "pre cmp P lo ks cs \<longleftrightarrow> (if ks = [] then cs = [] else chain cmp P lo (butlast ks) cs (Some (last ks)))"

definition suf :: "key_cmp \<Rightarrow> (string option \<Rightarrow> Node \<Rightarrow> string option \<Rightarrow> bool) \<Rightarrow> string list \<Rightarrow> Node list \<Rightarrow> string option \<Rightarrow> bool" where
  "suf cmp P ks cs hi \<longleftrightarrow> (if ks = [] then cs = [] else chain cmp P (Some (hd ks)) (tl ks) cs hi)"

lemma chain_length: "chain cmp P lo ks cs hi \<Longrightarrow> length cs = Suc (length ks)"
  by (induction cmp P lo ks cs hi rule: chain.induct) auto

lemma chain_append:
  "length cs1 = Suc (length ks1) \<Longrightarrow>
   chain cmp P lo (ks1 @ k # ks2) (cs1 @ cs2) hi \<longleftrightarrow> chain cmp P lo ks1 cs1 (Some k) \<and> chain cmp P (Some k) ks2 cs2 hi"
proof (induction ks1 arbitrary: lo cs1)
  case Nil
  then obtain c where "cs1 = [c]" by (cases cs1) auto
  then show ?case by simp
next
  case (Cons k' ks1)
  then obtain c cs where "cs1 = c # cs" "length cs = Suc (length ks1)" by (cases cs1) auto
  then show ?case using Cons.IH [of cs "Some k'"] by simp
qed

lemma chain_Cons_uppb:
  "chain cmp P lo ks (c # cs) hi \<longleftrightarrow> bnd cmp lo (uppb ks hi) \<and> P lo c (uppb ks hi) \<and> suf cmp P ks cs hi"
  by (cases ks; cases cs) (auto simp: uppb_def suf_def)

lemma chain_split:
  assumes "length cs1 = length ks1"
  shows "chain cmp P lo (ks1 @ ks2) (cs1 @ c # cs2) hi \<longleftrightarrow>
    pre cmp P lo ks1 cs1 \<and> bnd cmp (lowb lo ks1) (uppb ks2 hi) \<and> P (lowb lo ks1) c (uppb ks2 hi) \<and> suf cmp P ks2 cs2 hi"
proof (cases ks1 rule: rev_cases)
  case Nil
  then show ?thesis using assms by (auto simp: pre_def lowb_def chain_Cons_uppb)
next
  case (snoc ks k)
  then show ?thesis
    using assms chain_append [of cs1 ks cmp P lo k ks2 "c # cs2" hi] by (auto simp: pre_def lowb_def chain_Cons_uppb)
qed

definition pair_ok :: "key_cmp \<Rightarrow> (string option \<Rightarrow> Node \<Rightarrow> string option \<Rightarrow> bool) \<Rightarrow>
  string option \<Rightarrow> string \<Rightarrow> Node \<Rightarrow> Node \<Rightarrow> string option \<Rightarrow> bool" where
  "pair_ok cmp P lo k l r hi \<longleftrightarrow> bnd cmp lo (Some k) \<and> P lo l (Some k) \<and> bnd cmp (Some k) hi \<and> P (Some k) r hi"

lemma chain_pair:
  assumes "length cs1 = length ks1"
  shows "chain cmp P lo (ks1 @ k # ks2) (cs1 @ l # r # cs2) hi \<longleftrightarrow>
    pre cmp P lo ks1 cs1 \<and> pair_ok cmp P (lowb lo ks1) k l r (uppb ks2 hi) \<and> suf cmp P ks2 cs2 hi"
proof -
  have "chain cmp P lo (ks1 @ k # ks2) (cs1 @ l # r # cs2) hi \<longleftrightarrow>
      pre cmp P lo ks1 cs1 \<and> bnd cmp (lowb lo ks1) (Some k) \<and> P (lowb lo ks1) l (Some k) \<and> chain cmp P (Some k) ks2 (r # cs2) hi"
    unfolding chain_split [OF assms] by (simp add: uppb_def suf_def)
  then show ?thesis by (auto simp: chain_Cons_uppb pair_ok_def)
qed

lemma chain_child: "chain cmp P lo ks cs hi \<Longrightarrow> c \<in> set cs \<Longrightarrow> \<exists>l h. P l c h"
  by (induction cmp P lo ks cs hi rule: chain.induct) auto

section \<open>Facts about sorted lists of entries\<close>

abbreviation contents :: "Node list \<Rightarrow> (string \<times> string) list" where
  "contents cs \<equiv> concat (map collect_kv_node cs)"

definition keys_below :: "key_cmp \<Rightarrow> (string \<times> string) list \<Rightarrow> string \<Rightarrow> bool" where
  "keys_below cmp m key \<longleftrightarrow> (\<forall>kv \<in> set m. cmp (fst kv) key < 0)"

definition keys_above :: "key_cmp \<Rightarrow> (string \<times> string) list \<Rightarrow> string \<Rightarrow> bool" where
  "keys_above cmp m key \<longleftrightarrow> (\<forall>kv \<in> set m. cmp (fst kv) key > 0)"

definition keys_within :: "key_cmp \<Rightarrow> string option \<Rightarrow> (string \<times> string) list \<Rightarrow> string option \<Rightarrow> bool" where
  "keys_within cmp lo m hi \<longleftrightarrow> (\<forall>kv \<in> set m. lo_ok cmp lo (fst kv) \<and> hi_ok cmp (fst kv) hi)"

lemma kv_insert_below: "keys_below cmp m1 key \<Longrightarrow> kv_insert cmp key v (m1 @ m2) = m1 @ kv_insert cmp key v m2"
  by (induction m1) (auto simp: keys_below_def)

lemma kv_insert_above: "keys_above cmp m2 key \<Longrightarrow> kv_insert cmp key v (m1 @ m2) = kv_insert cmp key v m1 @ m2"
proof (induction m1)
  case Nil
  then show ?case by (cases m2) (auto simp: keys_above_def)
qed auto

lemma kv_insert_middle:
  assumes "keys_below cmp m1 key" "keys_above cmp m3 key"
  shows "kv_insert cmp key v (m1 @ m2 @ m3) = m1 @ kv_insert cmp key v m2 @ m3"
  using kv_insert_below [OF assms(1)] kv_insert_above [OF assms(2), of v m2] by simp

lemma find_append: "find P (xs @ ys) = (case find P xs of None \<Rightarrow> find P ys | Some x \<Rightarrow> Some x)"
  by (induction xs) auto

lemma kv_lookup_middle:
  assumes "keys_below cmp m1 key" "keys_above cmp m3 key"
  shows "kv_lookup cmp key (m1 @ m2 @ m3) = kv_lookup cmp key m2"
proof -
  have "find (\<lambda>kv. cmp (fst kv) key = 0) m1 = None" "find (\<lambda>kv. cmp (fst kv) key = 0) m3 = None"
    using assms by (auto simp: find_None_iff keys_below_def keys_above_def)
  then show ?thesis by (simp add: kv_lookup_def find_append split: option.splits)
qed

lemma kv_remove_middle:
  assumes "keys_below cmp m1 key" "keys_above cmp m3 key"
  shows "kv_remove cmp key (m1 @ m2 @ m3) = m1 @ kv_remove cmp key m2 @ m3"
proof -
  have "filter (\<lambda>kv. cmp (fst kv) key \<noteq> 0) m1 = m1" "filter (\<lambda>kv. cmp (fst kv) key \<noteq> 0) m3 = m3"
    using assms by (auto simp: filter_id_conv keys_below_def keys_above_def)
  then show ?thesis by (simp add: kv_remove_def)
qed

locale key_order = comparison cmp for cmp :: key_cmp
begin

lemma lo_ok_trans: "bnd cmp lo (Some k) \<Longrightarrow> lo_ok cmp (Some k) x \<Longrightarrow> lo_ok cmp lo x"
  by (auto simp: bnd_def lo_ok_def hi_ok_def split: option.splits) (meson cmp_less_le_trans less_imp_le)

lemma hi_ok_trans: "hi_ok cmp x (Some k) \<Longrightarrow> bnd cmp (Some k) hi \<Longrightarrow> hi_ok cmp x hi"
  by (auto simp: bnd_def hi_ok_def split: option.splits) (meson cmp_le_less_trans less_imp_le)

lemma bnd_trans: "bnd cmp lo (Some k) \<Longrightarrow> bnd cmp (Some k) hi \<Longrightarrow> bnd cmp lo hi"
  by (auto simp: bnd_def intro: hi_ok_trans split: option.splits)

lemma chain_bnd: "chain cmp P lo ks cs hi \<Longrightarrow> bnd cmp lo hi"
proof (induction ks arbitrary: lo cs)
  case Nil
  then obtain c where "cs = [c]" using chain_length [OF Nil] by (cases cs) auto
  then show ?case using Nil by simp
next
  case (Cons k ks)
  then obtain c cs' where "cs = c # cs'" by (cases cs) auto
  then show ?case using Cons bnd_trans by auto
qed

lemma chain_contents:
  assumes "chain cmp P lo ks cs hi" "\<And>l c h. c \<in> set cs \<Longrightarrow> P l c h \<Longrightarrow> keys_within cmp l (collect_kv_node c) h"
  shows "keys_within cmp lo (contents cs) hi"
  using assms
proof (induction ks arbitrary: lo cs)
  case Nil
  then obtain c where "cs = [c]" using chain_length [OF Nil(1)] by (cases cs) auto
  then show ?case using Nil by simp
next
  case (Cons k ks)
  obtain c cs' where cs: "cs = c # cs'" using Cons(2) by (cases cs) auto
  have "keys_within cmp lo (collect_kv_node c) (Some k)" "keys_within cmp (Some k) (contents cs') hi"
    using Cons cs by auto
  moreover have "bnd cmp lo (Some k)" "bnd cmp (Some k) hi" using Cons(2) cs chain_bnd by auto
  ultimately show ?case
    unfolding cs keys_within_def by (auto intro: lo_ok_trans hi_ok_trans)
qed

lemma node_contents: "node_inv cmp n lo nd hi \<Longrightarrow> keys_within cmp lo (collect_kv_node nd) hi"
proof (induction n arbitrary: lo nd hi)
  case 0
  then show ?case by (cases nd) (auto simp: keys_within_def dest: set_zip_leftD)
next
  case (Suc n)
  then obtain ks cs where nd: "nd = InternalNode ks cs" by (cases nd) auto
  then have "chain cmp (node_inv cmp n) lo ks cs hi" using Suc.prems by simp
  then have "keys_within cmp lo (contents cs) hi" using Suc.IH by (rule chain_contents)
  then show ?case using nd by simp
qed

lemma within_sorted:
  assumes "keys_within cmp lo m1 (Some k)" "keys_within cmp (Some k) m2 hi" "kv_sorted cmp m1" "kv_sorted cmp m2"
  shows "kv_sorted cmp (m1 @ m2)"
  using assms unfolding kv_sorted_def sorted_wrt_append keys_within_def lo_ok_def hi_ok_def
  by (auto intro: cmp_less_le_trans)

lemma chain_sorted:
  assumes "chain cmp P lo ks cs hi" "\<And>l c h. c \<in> set cs \<Longrightarrow> P l c h \<Longrightarrow> keys_within cmp l (collect_kv_node c) h"
    "\<And>l c h. c \<in> set cs \<Longrightarrow> P l c h \<Longrightarrow> kv_sorted cmp (collect_kv_node c)"
  shows "kv_sorted cmp (contents cs)"
  using assms
proof (induction ks arbitrary: lo cs)
  case Nil
  then obtain c where "cs = [c]" using chain_length [OF Nil(1)] by (cases cs) auto
  then show ?case using Nil by auto
next
  case (Cons k ks)
  obtain c cs' where cs: "cs = c # cs'" using Cons(2) by (cases cs) auto
  then have ch: "P lo c (Some k)" "chain cmp P (Some k) ks cs' hi" using Cons(2) by auto
  have "keys_within cmp lo (collect_kv_node c) (Some k)" "kv_sorted cmp (collect_kv_node c)" using Cons(3,4) cs ch by auto
  moreover have "keys_within cmp (Some k) (contents cs') hi"
    by (rule chain_contents [OF ch(2)]) (use Cons(3) cs in auto)
  moreover have "kv_sorted cmp (contents cs')"
    by (rule Cons.IH [OF ch(2)]) (use Cons(3,4) cs in auto)
  ultimately show ?case using within_sorted cs by auto
qed

lemma node_sorted: "node_inv cmp n lo nd hi \<Longrightarrow> kv_sorted cmp (collect_kv_node nd)"
proof (induction n arbitrary: lo nd hi)
  case 0
  then obtain ks vs where "nd = LeafNode ks vs" "length vs = length ks" "sorted_wrt (\<lambda>a b. cmp a b < 0) ks"
    by (cases nd) auto
  then show ?case by (simp add: kv_sorted_def sorted_wrt_iff_nth_less)
next
  case (Suc n)
  then obtain ks cs where nd: "nd = InternalNode ks cs" by (cases nd) auto
  then have "chain cmp (node_inv cmp n) lo ks cs hi" using Suc.prems by simp
  then have "kv_sorted cmp (contents cs)" by (rule chain_sorted) (use node_contents Suc.IH in auto)
  then show ?case using nd by simp
qed

lemma child_at:
  assumes ch: "chain cmp (node_inv cmp n) lo ks cs hi" and key: "lo_ok cmp lo key" "hi_ok cmp key hi"
  obtains ks1 ks2 cs1 c cs2 where "ks = ks1 @ ks2" "cs = cs1 @ c # cs2" "length cs1 = length ks1"
    "child_index cmp ks cs key = length ks1" "drop (length ks1) cs = c # cs2"
    "pre cmp (node_inv cmp n) lo ks1 cs1" "suf cmp (node_inv cmp n) ks2 cs2 hi"
    "bnd cmp (lowb lo ks1) (uppb ks2 hi)" "node_inv cmp n (lowb lo ks1) c (uppb ks2 hi)"
    "lo_ok cmp (lowb lo ks1) key" "hi_ok cmp key (uppb ks2 hi)"
    "keys_below cmp (contents cs1) key" "keys_above cmp (contents cs2) key"
proof -
  define ks1 where "ks1 = takeWhile (\<lambda>k. cmp k key \<le> 0) ks"
  define ks2 where "ks2 = dropWhile (\<lambda>k. cmp k key \<le> 0) ks"
  have ks: "ks = ks1 @ ks2" by (simp add: ks1_def ks2_def)
  have len: "length cs = Suc (length ks)" by (rule chain_length [OF ch])
  then have "length ks1 < length cs" using ks by simp
  then have cs: "cs = take (length ks1) cs @ cs ! length ks1 # drop (Suc (length ks1)) cs" by (rule id_take_nth_drop)
  define cs1 c cs2 where "cs1 = take (length ks1) cs" and "c = cs ! length ks1" and "cs2 = drop (Suc (length ks1)) cs"
  have cs': "cs = cs1 @ c # cs2" using cs by (simp add: cs1_def c_def cs2_def)
  have l1: "length cs1 = length ks1" using len ks by (simp add: cs1_def)
  have sp: "pre cmp (node_inv cmp n) lo ks1 cs1" "bnd cmp (lowb lo ks1) (uppb ks2 hi)"
    "node_inv cmp n (lowb lo ks1) c (uppb ks2 hi)" "suf cmp (node_inv cmp n) ks2 cs2 hi"
    using ch unfolding ks cs' chain_split [OF l1] by auto
  have last: "cmp (last ks1) key \<le> 0" if "ks1 \<noteq> []"
    using that set_takeWhileD last_in_set unfolding ks1_def by metis
  have hd: "cmp key (hd ks2) < 0" if "ks2 \<noteq> []"
    using that hd_dropWhile [of "\<lambda>k. cmp k key \<le> 0" ks] cmp_swap [of "hd ks2" key] unfolding ks2_def by auto
  have b1: "keys_below cmp (contents cs1) key"
  proof (cases "ks1 = []")
    case False
    then have "keys_within cmp lo (contents cs1) (Some (last ks1))"
      using sp(1) chain_contents node_contents by (auto simp: pre_def)
    then show ?thesis using last [OF False] by (auto simp: keys_within_def keys_below_def hi_ok_def intro: cmp_less_le_trans)
  qed (use l1 in \<open>simp add: keys_below_def\<close>)
  have b2: "keys_above cmp (contents cs2) key"
  proof (cases "ks2 = []")
    case False
    then have "keys_within cmp (Some (hd ks2)) (contents cs2) hi"
      using sp(4) chain_contents node_contents by (auto simp: suf_def)
    then show ?thesis using hd [OF False]
      by (auto simp: keys_within_def keys_above_def lo_ok_def cmp_gt intro: cmp_less_le_trans)
  qed (use sp(4) in \<open>simp add: keys_above_def suf_def\<close>)
  show thesis
  proof (rule that [OF ks cs' l1 _ _ sp(1,4,2,3) _ _ b1 b2])
    show "child_index cmp ks cs key = length ks1"
      using len arg_cong [OF ks, of length] by (simp add: child_index_def first_greater_def ks1_def [symmetric] del: takeWhile_append)
    show "drop (length ks1) cs = c # cs2" using cs' l1 by simp
    show "lo_ok cmp (lowb lo ks1) key" using key(1) last by (auto simp: lowb_def lo_ok_def)
    show "hi_ok cmp key (uppb ks2 hi)" using key(2) hd by (auto simp: uppb_def hi_ok_def)
  qed
qed

lemma search_node_lookup:
  "node_inv cmp n lo nd hi \<Longrightarrow> lo_ok cmp lo key \<Longrightarrow> hi_ok cmp key hi \<Longrightarrow>
   search_node cmp nd key = kv_lookup cmp key (collect_kv_node nd)"
proof (induction n arbitrary: lo nd hi)
  case 0
  then show ?case by (cases nd) (auto simp: kv_lookup_def)
next
  case (Suc n)
  then obtain ks cs where nd: "nd = InternalNode ks cs" by (cases nd) auto
  then have "chain cmp (node_inv cmp n) lo ks cs hi" using Suc.prems by simp
  then show ?case
  proof (rule child_at [OF _ Suc.prems(2,3)], goal_cases)
    case (1 ks1 ks2 cs1 c cs2)
    then have "search_node cmp nd key = kv_lookup cmp key (collect_kv_node c)"
      using nd Suc.IH [of "lowb lo ks1" c "uppb ks2 hi"] by simp
    then show ?case using kv_lookup_middle [OF 1(12,13)] 1(2) nd by simp
  qed
qed

end

section \<open>Insertion\<close>

definition filled :: "Node \<Rightarrow> bool" where
  "filled nd \<longleftrightarrow> MIN_KEYS \<le> key_count nd \<and> key_count nd < ORDER"

lemma node_order: "MIN_KEYS = 7" "ORDER = 16"
  by (simp_all add: MIN_KEYS_def ORDER_def)

definition insert_ok :: "key_cmp \<Rightarrow> nat \<Rightarrow> string option \<Rightarrow> string option \<Rightarrow> nat \<Rightarrow> (string \<times> string) list \<Rightarrow>
  Node \<times> (string \<times> Node) option \<Rightarrow> bool" where
  "insert_ok cmp n lo hi cnt m res \<longleftrightarrow>
     (case snd res of
        None \<Rightarrow> node_inv cmp n lo (fst res) hi \<and> collect_kv_node (fst res) = m \<and> cnt \<le> key_count (fst res) \<and> key_count (fst res) < ORDER
      | Some (k, r) \<Rightarrow> node_inv cmp n lo (fst res) (Some k) \<and> node_inv cmp n (Some k) r hi \<and>
          collect_kv_node (fst res) @ collect_kv_node r = m \<and> bnd cmp lo (Some k) \<and> bnd cmp (Some k) hi \<and> filled (fst res) \<and> filled r)"

lemma zip_take_drop: "zip (take n xs) (take n ys) @ zip (drop n xs) (drop n ys) = zip xs ys"
  by (metis append_take_drop_id take_zip drop_zip)

context key_order
begin

lemma cmp_less_trans: "cmp a b < 0 \<Longrightarrow> cmp b c < 0 \<Longrightarrow> cmp a c < 0"
  using cmp_less_le_trans by (meson less_imp_le)

lemma leaf_split:
  assumes s: "sorted_wrt (\<lambda>a b. cmp a b < 0) ks" and w: "\<forall>k \<in> set ks. lo_ok cmp lo k \<and> hi_ok cmp k hi"
    and l: "length vs = length ks" "length ks = ORDER"
  shows "insert_ok cmp 0 lo hi cnt (zip ks vs)
    (LeafNode (take (length ks div 2) ks) (take (length ks div 2) vs),
     Some (ks ! (length ks div 2), LeafNode (drop (length ks div 2) ks) (drop (length ks div 2) vs)))"
proof -
  let ?mid = "length ks div 2"
  have mid: "?mid < length ks" "0 < ?mid" using l by (simp_all add: node_order)
  have ks: "ks = take ?mid ks @ ks ! ?mid # drop (Suc ?mid) ks" by (rule id_take_nth_drop [OF mid(1)])
  have d: "drop ?mid ks = ks ! ?mid # drop (Suc ?mid) ks" using mid(1) by (simp add: Cons_nth_drop_Suc)
  have st: "sorted_wrt (\<lambda>a b. cmp a b < 0) (take ?mid ks)" "sorted_wrt (\<lambda>a b. cmp a b < 0) (drop ?mid ks)"
    using s by (simp_all add: sorted_wrt_take sorted_wrt_drop)
  have left: "cmp k (ks ! ?mid) < 0" if "k \<in> set (take ?mid ks)" for k
    using s that unfolding sorted_wrt_append [of _ "take ?mid ks" "ks ! ?mid # drop (Suc ?mid) ks", folded ks] by simp
  have right: "cmp (ks ! ?mid) k \<le> 0" if "k \<in> set (drop ?mid ks)" for k
    using st(2) that cmp_refl unfolding d by auto
  have in_ks: "ks ! ?mid \<in> set ks" using mid(1) by simp
  have ne: "ks ! 0 \<in> set (take ?mid ks)" using mid by (auto simp: in_set_conv_nth intro!: exI [of _ 0])
  have "bnd cmp lo (Some (ks ! ?mid))"
  proof (cases lo)
    case (Some l)
    have "cmp l (ks ! 0) \<le> 0" using w in_set_takeD [OF ne] Some by (auto simp: lo_ok_def)
    then show ?thesis using left [OF ne] Some cmp_le_less_trans by (auto simp: bnd_def hi_ok_def)
  qed (simp add: bnd_def)
  moreover have "bnd cmp (Some (ks ! ?mid)) hi" using w in_ks by (simp add: bnd_def)
  moreover have "node_inv cmp 0 lo (LeafNode (take ?mid ks) (take ?mid vs)) (Some (ks ! ?mid))"
    using st(1) left w l by (auto simp: hi_ok_def dest: in_set_takeD)
  moreover have "node_inv cmp 0 (Some (ks ! ?mid)) (LeafNode (drop ?mid ks) (drop ?mid vs)) hi"
    using st(2) right w l by (auto simp: lo_ok_def dest: in_set_dropD)
  ultimately show ?thesis using l by (simp add: insert_ok_def zip_take_drop filled_def node_order)
qed

lemma geq_split:
  assumes "sorted_wrt (\<lambda>a b. cmp a b < 0) ks" "first_geq cmp ks key = pos"
  shows "\<forall>k \<in> set (take pos ks). cmp k key < 0"
    and "pos < length ks \<Longrightarrow> \<not> cmp (ks ! pos) key < 0"
    and "pos \<le> length ks"
    and "pos < length ks \<Longrightarrow> \<forall>k \<in> set (drop (Suc pos) ks). cmp (ks ! pos) k < 0"
proof -
  have pos: "pos = length (takeWhile (\<lambda>k. cmp k key < 0) ks)" using assms(2) by (simp add: first_geq_def)
  then have "take pos ks = takeWhile (\<lambda>k. cmp k key < 0) ks" by (metis takeWhile_eq_take)
  then show "\<forall>k \<in> set (take pos ks). cmp k key < 0" by (auto dest: set_takeWhileD)
  show "pos < length ks \<Longrightarrow> \<not> cmp (ks ! pos) key < 0" using nth_length_takeWhile [of "\<lambda>k. cmp k key < 0" ks] pos by simp
  show "pos \<le> length ks" using pos by (simp add: length_takeWhile_le)
  show "pos < length ks \<Longrightarrow> \<forall>k \<in> set (drop (Suc pos) ks). cmp (ks ! pos) k < 0"
  proof -
    assume "pos < length ks"
    then have "ks = take pos ks @ ks ! pos # drop (Suc pos) ks" by (rule id_take_nth_drop)
    from arg_cong [OF this, of "sorted_wrt (\<lambda>a b. cmp a b < 0)"] assms(1)
    have "sorted_wrt (\<lambda>a b. cmp a b < 0) (take pos ks @ ks ! pos # drop (Suc pos) ks)" by (rule iffD1)
    then show ?thesis unfolding sorted_wrt_append by simp
  qed
qed

lemma insert_leaf_ok:
  assumes inv: "node_inv cmp 0 lo (LeafNode ks vs) hi" and key: "lo_ok cmp lo key" "hi_ok cmp key hi" and "length ks < ORDER"
  shows "insert_ok cmp 0 lo hi (length ks) (kv_insert cmp key v (zip ks vs)) (insert_leaf cmp ks vs key v)"
proof -
  define pos where "pos = first_geq cmp ks key"
  have l: "length vs = length ks" and s: "sorted_wrt (\<lambda>a b. cmp a b < 0) ks"
    and w: "\<forall>k \<in> set ks. lo_ok cmp lo k \<and> hi_ok cmp k hi" using inv by auto
  note g = geq_split [OF s pos_def [symmetric]]
  have below: "keys_below cmp (zip (take pos ks) (take pos vs)) key"
    using g(1) by (auto simp: keys_below_def dest: set_zip_leftD)
  have kv: "kv_insert cmp key v (zip ks vs) =
      zip (take pos ks) (take pos vs) @ kv_insert cmp key v (zip (drop pos ks) (drop pos vs))"
    using kv_insert_below [OF below, of v "zip (drop pos ks) (drop pos vs)"] by (simp add: zip_take_drop)
  show ?thesis
  proof (cases "pos < length ks \<and> cmp (ks ! pos) key = 0")
    case True
    then have d: "drop pos ks = ks ! pos # drop (Suc pos) ks" "drop pos vs = vs ! pos # drop (Suc pos) vs"
      "pos < length vs" using l by (simp_all add: Cons_nth_drop_Suc)
    have "zip ks (vs[pos := v]) = zip (take pos ks) (take pos vs) @ (ks ! pos, v) # zip (drop (Suc pos) ks) (drop (Suc pos) vs)"
      using True d(3) l by (metis d(1) upd_conv_take_nth_drop id_take_nth_drop length_take zip_append zip_Cons_Cons)
    then show ?thesis using True inv kv d assms(4) by (simp add: insert_leaf_def pos_def [symmetric] insert_ok_def)
  next
    case False
    define ks' vs' where "ks' = insert_at pos key ks" and "vs' = insert_at pos v vs"
    have len: "length ks' = Suc (length ks)" "length vs' = length ks'"
      using l g(3) by (auto simp: ks'_def vs'_def insert_at_def)
    have above: "\<forall>k \<in> set (drop pos ks). cmp key k < 0"
    proof (cases "pos < length ks")
      case True
      have "cmp key (ks ! pos) < 0" using False True g(2) cmp_swap [of key "ks ! pos"] by simp
      then show ?thesis using g(4) [OF True] True
        by (auto simp: Cons_nth_drop_Suc [symmetric] intro: cmp_less_le_trans less_imp_le)
    qed simp
    have s': "sorted_wrt (\<lambda>a b. cmp a b < 0) ks'"
      using s above g(1) unfolding ks'_def insert_at_def sorted_wrt_append
      by (auto simp: sorted_wrt_take sorted_wrt_drop intro: cmp_less_trans)
    have w': "\<forall>k \<in> set ks'. lo_ok cmp lo k \<and> hi_ok cmp k hi"
      using w key by (auto simp: ks'_def insert_at_def dest: in_set_takeD in_set_dropD)
    have "kv_insert cmp key v (zip (drop pos ks) (drop pos vs)) = (key, v) # zip (drop pos ks) (drop pos vs)"
    proof (cases "drop pos ks")
      case (Cons k ks2)
      then have "cmp key k < 0" using above by simp
      then have "cmp k key > 0" using cmp_gt by blast
      then show ?thesis using Cons by (cases "drop pos vs") auto
    qed simp
    then have kv': "kv_insert cmp key v (zip ks vs) = zip ks' vs'"
      using kv l by (simp add: ks'_def vs'_def insert_at_def)
    have leaf: "node_inv cmp 0 lo (LeafNode ks' vs') hi" using s' w' len by simp
    have res: "insert_leaf cmp ks vs key v = (if length ks' \<ge> ORDER then
        (LeafNode (take (length ks' div 2) ks') (take (length ks' div 2) vs'),
         Some (ks' ! (length ks' div 2), LeafNode (drop (length ks' div 2) ks') (drop (length ks' div 2) vs')))
        else (LeafNode ks' vs', None))"
      unfolding insert_leaf_def pos_def [symmetric] Let_def ks'_def [symmetric] vs'_def [symmetric] using False by (rule if_not_P)
    show ?thesis
    proof (cases "length ks' \<ge> ORDER")
      case True
      then have "length ks' = ORDER" using assms(4) len(1) by simp
      then show ?thesis unfolding res kv' using True leaf_split [OF s' w' len(2)] by (simp only: if_P)
    next
      case False
      then show ?thesis unfolding res kv' using leaf len by (simp add: insert_ok_def)
    qed
  qed
qed

end

lemma contents_take_drop: "contents (take n cs) @ contents (drop n cs) = contents cs"
  by (metis append_take_drop_id concat_append map_append)

context key_order
begin

lemma bnd_some: "bnd cmp (Some a) (Some b) \<longleftrightarrow> cmp a b < 0"
  by (simp add: bnd_def hi_ok_def)

lemma chain_keys:
  "chain cmp P lo ks cs hi \<Longrightarrow> sorted_wrt (\<lambda>a b. cmp a b < 0) ks \<and> (\<forall>k \<in> set ks. bnd cmp lo (Some k))"
proof (induction ks arbitrary: lo cs)
  case (Cons k ks)
  then obtain c cs' where cs: "cs = c # cs'" by (cases cs) auto
  then have k: "bnd cmp lo (Some k)" "chain cmp P (Some k) ks cs' hi" using Cons.prems by auto
  from Cons.IH [OF k(2)] have "sorted_wrt (\<lambda>a b. cmp a b < 0) ks" "\<forall>x \<in> set ks. bnd cmp (Some k) (Some x)" by auto
  then show ?case using k(1) bnd_trans by (auto simp: bnd_some)
qed simp

lemma internal_split:
  assumes ch: "chain cmp (node_inv cmp n) lo ks cs hi" and f: "\<forall>c \<in> set cs. filled c" and l: "length ks = ORDER"
  shows "insert_ok cmp (Suc n) lo hi cnt (contents cs)
    (InternalNode (take (length ks div 2) ks) (take (length ks div 2 + 1) cs),
     Some (ks ! (length ks div 2), InternalNode (drop (length ks div 2 + 1) ks) (drop (length ks div 2 + 1) cs)))"
proof -
  let ?mid = "length ks div 2"
  have len: "length cs = Suc (length ks)" by (rule chain_length [OF ch])
  have mid: "?mid < length ks" using l by (simp add: node_order)
  have ks: "ks = take ?mid ks @ ks ! ?mid # drop (?mid + 1) ks" using id_take_nth_drop [OF mid] by simp
  have cs: "cs = take (?mid + 1) cs @ drop (?mid + 1) cs" by simp
  have "length (take (?mid + 1) cs) = Suc (length (take ?mid ks))" using len mid by simp
  note ap = chain_append [OF this, of cmp "node_inv cmp n" lo "ks ! ?mid" "drop (?mid + 1) ks" "drop (?mid + 1) cs" hi]
  have "chain cmp (node_inv cmp n) lo (take ?mid ks) (take (?mid + 1) cs) (Some (ks ! ?mid))"
    and "chain cmp (node_inv cmp n) (Some (ks ! ?mid)) (drop (?mid + 1) ks) (drop (?mid + 1) cs) hi"
    using ch ap ks cs by (metis (no_types, lifting))+
  moreover have "\<forall>c \<in> set (take (?mid + 1) cs). filled c" "\<forall>c \<in> set (drop (?mid + 1) cs). filled c"
    using f by (meson in_set_takeD in_set_dropD)+
  ultimately show ?thesis
    using l chain_bnd contents_take_drop [of "?mid + 1" cs]
    by (simp add: insert_ok_def filled_def node_order)
qed

lemma first_geq_at:
  assumes "sorted_wrt (\<lambda>a b. cmp a b < 0) (ks1 @ ks2)" "bnd cmp (lowb lo ks1) (Some k)" "bnd cmp (Some k) (uppb ks2 hi)"
  shows "first_geq cmp (ks1 @ ks2) k = length ks1"
proof -
  have "\<forall>x \<in> set ks1. cmp x k < 0"
  proof (cases ks1 rule: rev_cases)
    case (snoc ks x)
    then have "cmp x k < 0" using assms(2) by (simp add: lowb_def bnd_some)
    then show ?thesis using assms(1) snoc by (auto simp: sorted_wrt_append intro: cmp_less_trans)
  qed simp
  moreover have "takeWhile (\<lambda>x. cmp x k < 0) ks2 = []"
    using assms(3) cmp_gt [of "hd ks2" k] by (cases ks2) (auto simp: uppb_def bnd_some)
  ultimately show ?thesis by (simp add: first_geq_def takeWhile_append2)
qed

lemma insert_internal_ok:
  assumes ks: "ks = ks1 @ ks2" and cs: "cs = cs1 @ c # cs2" and l1: "length cs1 = length ks1"
    and ch: "chain cmp (node_inv cmp n) lo ks cs hi" and f: "\<forall>c \<in> set cs. filled c" and cnt: "length ks < ORDER"
    and res: "insert_ok cmp n (lowb lo ks1) (uppb ks2 hi) (key_count c) m res"
  shows "insert_ok cmp (Suc n) lo hi (length ks) (contents cs1 @ m @ contents cs2) (insert_internal cmp ks cs (length ks1) res)"
proof -
  obtain c' sp where r: "res = (c', sp)" by (cases res)
  have sp: "pre cmp (node_inv cmp n) lo ks1 cs1" "bnd cmp (lowb lo ks1) (uppb ks2 hi)"
    "node_inv cmp n (lowb lo ks1) c (uppb ks2 hi)" "suf cmp (node_inv cmp n) ks2 cs2 hi"
    using ch unfolding ks cs chain_split [OF l1] by auto
  have upd: "cs[length ks1 := c'] = cs1 @ c' # cs2" unfolding cs l1 [symmetric] by simp
  have filled_c: "filled c" "\<forall>c \<in> set cs1. filled c" "\<forall>c \<in> set cs2. filled c" using f cs by auto
  show ?thesis
  proof (cases sp)
    case None
    have "chain cmp (node_inv cmp n) lo ks (cs1 @ c' # cs2) hi"
      using res sp unfolding ks chain_split [OF l1] r None by (simp add: insert_ok_def)
    moreover have "filled c'" using res filled_c r None by (simp add: insert_ok_def filled_def)
    ultimately show ?thesis
      using res filled_c cnt unfolding r None by (auto simp: insert_internal_def insert_ok_def upd filled_def)
  next
    case (Some kr)
    obtain k right where kr: "kr = (k, right)" by (cases kr)
    have res': "node_inv cmp n (lowb lo ks1) c' (Some k)" "node_inv cmp n (Some k) right (uppb ks2 hi)"
      "collect_kv_node c' @ collect_kv_node right = m" "bnd cmp (lowb lo ks1) (Some k)" "bnd cmp (Some k) (uppb ks2 hi)"
      "filled c'" "filled right"
      using res r Some kr by (auto simp: insert_ok_def)
    define ks' cs' where "ks' = ks1 @ k # ks2" and "cs' = cs1 @ c' # right # cs2"
    have pos: "first_geq cmp ks k = length ks1"
      unfolding ks by (rule first_geq_at [OF _ res'(4,5)]) (use chain_keys [OF ch] ks in simp)
    have chain': "chain cmp (node_inv cmp n) lo ks' cs' hi"
      unfolding ks'_def cs'_def chain_pair [OF l1] using sp res' by (simp add: pair_ok_def)
    have f': "\<forall>c \<in> set cs'. filled c" using filled_c res' by (auto simp: cs'_def)
    have m: "contents cs1 @ m @ contents cs2 = contents cs'" using res'(3) by (simp add: cs'_def flip: res'(3))
    have ins: "insert_at (length ks1) k ks = ks'" "insert_at (length ks1 + 1) right (cs1 @ c' # cs2) = cs'"
      using l1 by (simp_all add: insert_at_def ks ks'_def cs'_def)
    have step: "insert_internal cmp ks cs (length ks1) res = (if length ks' \<ge> ORDER then
        (InternalNode (take (length ks' div 2) ks') (take (length ks' div 2 + 1) cs'),
         Some (ks' ! (length ks' div 2), InternalNode (drop (length ks' div 2 + 1) ks') (drop (length ks' div 2 + 1) cs')))
        else (InternalNode ks' cs', None))"
      unfolding insert_internal_def r Some kr by (simp only: Let_def fst_conv snd_conv option.case prod.case pos upd ins)
    show ?thesis
    proof (cases "length ks' \<ge> ORDER")
      case True
      then have "length ks' = ORDER" using cnt ks by (simp add: ks'_def)
      then show ?thesis unfolding step m using True internal_split [OF chain' f'] by (simp only: if_P)
    next
      case False
      then show ?thesis unfolding step m using chain' f' ks by (simp add: insert_ok_def ks'_def filled_def)
    qed
  qed
qed

lemma insert_node_ok:
  "node_inv cmp n lo nd hi \<Longrightarrow> lo_ok cmp lo key \<Longrightarrow> hi_ok cmp key hi \<Longrightarrow> key_count nd < ORDER \<Longrightarrow>
   insert_ok cmp n lo hi (key_count nd) (kv_insert cmp key v (collect_kv_node nd)) (insert_node cmp nd key v)"
proof (induction n arbitrary: lo nd hi)
  case 0
  then obtain ks vs where "nd = LeafNode ks vs" by (cases nd) auto
  then show ?case using insert_leaf_ok [of lo ks vs hi key v] 0 by simp
next
  case (Suc n)
  then obtain ks cs where nd: "nd = InternalNode ks cs" by (cases nd) auto
  then have ch: "chain cmp (node_inv cmp n) lo ks cs hi" and f: "\<forall>c \<in> set cs. filled c" and cnt: "length ks < ORDER"
    using Suc.prems by (auto simp: filled_def)
  from ch show ?case
  proof (rule child_at [OF _ Suc.prems(2,3)], goal_cases)
    case (1 ks1 ks2 cs1 c cs2)
    have "filled c" using f 1(2) by simp
    then have "insert_ok cmp n (lowb lo ks1) (uppb ks2 hi) (key_count c) (kv_insert cmp key v (collect_kv_node c)) (insert_node cmp c key v)"
      using 1 by (intro Suc.IH) (simp_all add: filled_def)
    from insert_internal_ok [OF 1(1-3) ch f cnt this]
    show ?case using kv_insert_middle [OF 1(12,13), of v "collect_kv_node c"] 1(2,4,5) nd by simp
  qed
qed

end

section \<open>Removal\<close>

context key_order
begin

lemma rotate_right_ok:
  assumes "pair_ok cmp (node_inv cmp n) lo k l r hi" "2 \<le> key_count l"
  shows "\<exists>k' l' r'. rotate_right k l r = Some (k', l', r') \<and> pair_ok cmp (node_inv cmp n) lo k' l' r' hi \<and>
    collect_kv_node l' @ collect_kv_node r' = collect_kv_node l @ collect_kv_node r \<and>
    key_count l' = key_count l - 1 \<and> key_count r' = Suc (key_count r)"
proof (cases n)
  case 0
  obtain lk lv tk tv where lr: "l = LeafNode lk lv" "r = LeafNode tk tv"
    using assms(1) 0 by (cases l; cases r) (auto simp: pair_ok_def)
  have len: "length lv = length lk" "length tv = length tk" using assms(1) 0 lr by (auto simp: pair_ok_def)
  obtain ys x where lk: "lk = ys @ [x]" using assms(2) lr by (cases lk rule: rev_cases) auto
  obtain vs v where lv: "lv = vs @ [v]" "length vs = length ys" using len(1) lk by (cases lv rule: rev_cases) auto
  have ne: "hd ys \<in> set ys" using assms(2) lr lk by (cases ys) auto
  have srt: "\<forall>y \<in> set ys. cmp y x < 0" "sorted_wrt (\<lambda>a b. cmp a b < 0) ys" "cmp x k < 0" "bnd cmp (Some k) hi"
    "\<forall>y \<in> set ys. lo_ok cmp lo y" "\<forall>t \<in> set tk. cmp k t \<le> 0 \<and> hi_ok cmp t hi" "sorted_wrt (\<lambda>a b. cmp a b < 0) tk"
    using assms(1) 0 lr lk by (auto simp: pair_ok_def sorted_wrt_append hi_ok_def lo_ok_def)
  have x_tk: "\<forall>t \<in> set tk. cmp x t < 0" using srt(3,6) cmp_less_le_trans by blast
  have "hi_ok cmp x hi" by (rule hi_ok_trans [OF _ srt(4)]) (simp add: hi_ok_def srt(3))
  moreover have "bnd cmp lo (Some x)"
    using srt(1,5) ne cmp_le_less_trans by (auto simp: bnd_def lo_ok_def hi_ok_def split: option.splits)
  ultimately have "pair_ok cmp (node_inv cmp n) lo x (LeafNode ys vs) (LeafNode (x # tk) (v # tv)) hi"
    using srt x_tk 0 len lv by (auto simp: pair_ok_def lo_ok_def hi_ok_def bnd_def cmp_refl intro: less_imp_le)
  then show ?thesis using lr lk lv len by (simp add: rotate_right_def)
next
  case (Suc m)
  obtain lk lc tk tc where lr: "l = InternalNode lk lc" "r = InternalNode tk tc"
    using assms(1) Suc by (cases l; cases r) (auto simp: pair_ok_def)
  have ch: "chain cmp (node_inv cmp m) lo lk lc (Some k)" "chain cmp (node_inv cmp m) (Some k) tk tc hi"
    and f: "\<forall>c \<in> set lc. filled c" "\<forall>c \<in> set tc. filled c"
    using assms(1) Suc lr by (auto simp: pair_ok_def filled_def)
  obtain ys s where lk: "lk = ys @ [s]" using assms(2) lr by (cases lk rule: rev_cases) auto
  obtain ds x where lc: "lc = ds @ [x]" "length ds = Suc (length ys)"
    using chain_length [OF ch(1)] lk by (cases lc rule: rev_cases) auto
  have c1: "chain cmp (node_inv cmp m) lo ys ds (Some s)" and c2: "chain cmp (node_inv cmp m) (Some s) [] [x] (Some k)"
    using ch(1) unfolding lk lc(1) using chain_append [OF lc(2), of cmp "node_inv cmp m" lo s "[]" "[x]" "Some k"] by auto
  then have c3: "chain cmp (node_inv cmp m) (Some s) (k # tk) (x # tc) hi" using ch(2) by simp
  have "pair_ok cmp (node_inv cmp n) lo s (InternalNode ys ds) (InternalNode (k # tk) (x # tc)) hi"
    using c1 c3 chain_bnd [OF c1] chain_bnd [OF c3] f lc(1) Suc by (auto simp: pair_ok_def filled_def simp del: chain.simps)
  then show ?thesis using lr lk lc by (simp add: rotate_right_def)
qed

lemma rotate_left_ok:
  assumes "pair_ok cmp (node_inv cmp n) lo k l r hi" "2 \<le> key_count r"
  shows "\<exists>k' l' r'. rotate_left k l r = Some (k', l', r') \<and> pair_ok cmp (node_inv cmp n) lo k' l' r' hi \<and>
    collect_kv_node l' @ collect_kv_node r' = collect_kv_node l @ collect_kv_node r \<and>
    key_count l' = Suc (key_count l) \<and> key_count r' = key_count r - 1"
proof (cases n)
  case 0
  obtain tk tv rk rv where lr: "l = LeafNode tk tv" "r = LeafNode rk rv"
    using assms(1) 0 by (cases l; cases r) (auto simp: pair_ok_def)
  have len: "length tv = length tk" "length rv = length rk" using assms(1) 0 lr by (auto simp: pair_ok_def)
  obtain x y ys where rk: "rk = x # y # ys" using assms(2) lr by (cases rk; cases "tl rk") auto
  obtain v vs where rv: "rv = v # vs" "length vs = Suc (length ys)" using len(2) rk by (cases rv) auto
  have srt: "bnd cmp lo (Some k)" "cmp k x \<le> 0" "cmp x y < 0" "\<forall>z \<in> set ys. cmp y z < 0" "sorted_wrt (\<lambda>a b. cmp a b < 0) ys"
    "\<forall>z \<in> set (y # ys). hi_ok cmp z hi" "\<forall>t \<in> set tk. lo_ok cmp lo t \<and> cmp t k < 0" "sorted_wrt (\<lambda>a b. cmp a b < 0) tk"
    using assms(1) 0 lr rk by (auto simp: pair_ok_def hi_ok_def lo_ok_def)
  have t_x: "\<forall>t \<in> set tk. cmp t x < 0" using srt(2,7) cmp_less_le_trans by blast
  have k_y: "bnd cmp (Some k) (Some y)" using srt(2,3) cmp_le_less_trans by (simp add: bnd_some)
  have "lo_ok cmp lo x" by (rule lo_ok_trans [OF srt(1)]) (simp add: lo_ok_def srt(2))
  moreover have "bnd cmp lo (Some y)" by (rule bnd_trans [OF srt(1) k_y])
  ultimately have "pair_ok cmp (node_inv cmp n) lo y (LeafNode (tk @ [x]) (tv @ [v])) (LeafNode (y # ys) vs) hi"
    using srt t_x 0 len rv cmp_less_trans by (auto simp: pair_ok_def lo_ok_def hi_ok_def bnd_def cmp_refl sorted_wrt_append intro: less_imp_le)
  then show ?thesis using lr rk rv len by (simp add: rotate_left_def)
next
  case (Suc m)
  obtain tk tc rk rc where lr: "l = InternalNode tk tc" "r = InternalNode rk rc"
    using assms(1) Suc by (cases l; cases r) (auto simp: pair_ok_def)
  have ch: "chain cmp (node_inv cmp m) lo tk tc (Some k)" "chain cmp (node_inv cmp m) (Some k) rk rc hi"
    and f: "\<forall>c \<in> set tc. filled c" "\<forall>c \<in> set rc. filled c"
    using assms(1) Suc lr by (auto simp: pair_ok_def filled_def)
  obtain s ys where rk: "rk = s # ys" using assms(2) lr by (cases rk) auto
  obtain x ds where rc: "rc = x # ds" using chain_length [OF ch(2)] by (cases rc) auto
  have ch': "bnd cmp (Some k) (Some s)" "node_inv cmp m (Some k) x (Some s)" "chain cmp (node_inv cmp m) (Some s) ys ds hi"
    using ch(2) rk rc by auto
  have "chain cmp (node_inv cmp m) lo (tk @ [k]) (tc @ [x]) (Some s)"
    using chain_append [of tc tk cmp "node_inv cmp m" lo k "[]" "[x]" "Some s"] chain_length [OF ch(1)] ch(1) ch' by simp
  then have "pair_ok cmp (node_inv cmp n) lo s (InternalNode (tk @ [k]) (tc @ [x])) (InternalNode ys ds) hi"
    using chain_bnd f rc Suc ch'(3) by (auto simp: pair_ok_def filled_def simp del: chain.simps)
  then show ?thesis using lr rk rc by (simp add: rotate_left_def)
qed

lemma merge_nodes_ok:
  assumes "pair_ok cmp (node_inv cmp n) lo k l r hi"
  shows "\<exists>m. merge_nodes k l r = Some m \<and> node_inv cmp n lo m hi \<and> bnd cmp lo hi \<and>
    collect_kv_node m = collect_kv_node l @ collect_kv_node r \<and>
    key_count l + key_count r \<le> key_count m \<and> key_count m \<le> Suc (key_count l + key_count r)"
proof (cases n)
  case 0
  obtain lk lv rk rv where lr: "l = LeafNode lk lv" "r = LeafNode rk rv"
    using assms(1) 0 by (cases l; cases r) (auto simp: pair_ok_def)
  have b: "bnd cmp lo (Some k)" "bnd cmp (Some k) hi" using assms by (auto simp: pair_ok_def)
  have inv: "length lv = length lk" "length rv = length rk"
    "sorted_wrt (\<lambda>a b. cmp a b < 0) lk" "sorted_wrt (\<lambda>a b. cmp a b < 0) rk"
    "\<forall>x \<in> set lk. lo_ok cmp lo x \<and> hi_ok cmp x (Some k)" "\<forall>x \<in> set rk. lo_ok cmp (Some k) x \<and> hi_ok cmp x hi"
    using assms 0 lr by (auto simp: pair_ok_def)
  have "\<forall>a \<in> set lk. \<forall>b \<in> set rk. cmp a b < 0" using inv(5,6) cmp_less_le_trans by (auto simp: lo_ok_def hi_ok_def)
  then have "node_inv cmp n lo (LeafNode (lk @ rk) (lv @ rv)) hi"
    using inv 0 b lo_ok_trans hi_ok_trans by (auto simp: sorted_wrt_append)
  then show ?thesis using lr inv bnd_trans [OF b] by (simp add: merge_nodes_def)
next
  case (Suc m)
  obtain lk lc rk rc where lr: "l = InternalNode lk lc" "r = InternalNode rk rc"
    using assms(1) Suc by (cases l; cases r) (auto simp: pair_ok_def)
  have b: "bnd cmp lo (Some k)" "bnd cmp (Some k) hi" using assms by (auto simp: pair_ok_def)
  have ch: "chain cmp (node_inv cmp m) lo lk lc (Some k)" "chain cmp (node_inv cmp m) (Some k) rk rc hi"
    and f: "\<forall>c \<in> set lc. filled c" "\<forall>c \<in> set rc. filled c"
    using assms(1) Suc lr by (auto simp: pair_ok_def filled_def)
  have "chain cmp (node_inv cmp m) lo (lk @ k # rk) (lc @ rc) hi"
    using chain_append [OF chain_length [OF ch(1)]] ch by simp
  then have "node_inv cmp n lo (InternalNode (lk @ k # rk) (lc @ rc)) hi" using f Suc by (auto simp: filled_def)
  then show ?thesis using lr bnd_trans [OF b] by (simp add: merge_nodes_def)
qed

end

definition rebalanced :: "key_cmp \<Rightarrow> nat \<Rightarrow> string option \<Rightarrow> string option \<Rightarrow> string list \<Rightarrow> Node list \<Rightarrow>
  (string list \<times> Node list) option \<Rightarrow> bool" where
  "rebalanced cmp n lo hi ks cs res \<longleftrightarrow>
     (\<exists>ks' cs'. res = Some (ks', cs') \<and> chain cmp (node_inv cmp n) lo ks' cs' hi \<and>
        (\<forall>c \<in> set cs'. filled c) \<and> contents cs' = contents cs \<and> length ks \<le> Suc (length ks') \<and> length ks' \<le> length ks)"

lemma rebalancedI:
  "res = Some (ks', cs') \<Longrightarrow> chain cmp (node_inv cmp n) lo ks' cs' hi \<Longrightarrow> \<forall>c \<in> set cs'. filled c \<Longrightarrow>
   contents cs' = contents cs \<Longrightarrow> length ks \<le> Suc (length ks') \<Longrightarrow> length ks' \<le> length ks \<Longrightarrow> rebalanced cmp n lo hi ks cs res"
  unfolding rebalanced_def by blast

context key_order
begin

lemma rebalance_left_ok:
  assumes ks: "ks = ks1 @ k # ks2" and cs: "cs = cs1 @ l # c # cs2" and l1: "length cs1 = length ks1"
    and ch: "chain cmp (node_inv cmp n) lo ks cs hi" and fl: "filled l" "\<forall>c \<in> set cs1. filled c" "\<forall>c \<in> set cs2. filled c"
    and kc: "key_count c = 6"
  shows "7 < key_count l \<Longrightarrow> rebalanced cmp n lo hi ks cs (borrow_from_left ks cs (Suc (length ks1)))"
    and "key_count l = 7 \<Longrightarrow> rebalanced cmp n lo hi ks cs (merge_with_left ks cs (Suc (length ks1)))"
proof -
  have sp: "pre cmp (node_inv cmp n) lo ks1 cs1" "pair_ok cmp (node_inv cmp n) (lowb lo ks1) k l c (uppb ks2 hi)"
    "suf cmp (node_inv cmp n) ks2 cs2 hi"
    using ch unfolding ks cs chain_pair [OF l1] by auto
  show "rebalanced cmp n lo hi ks cs (borrow_from_left ks cs (Suc (length ks1)))" if big: "7 < key_count l"
  proof -
    obtain k' l' c' where rot: "rotate_right k l c = Some (k', l', c')"
      "pair_ok cmp (node_inv cmp n) (lowb lo ks1) k' l' c' (uppb ks2 hi)"
      "collect_kv_node l' @ collect_kv_node c' = collect_kv_node l @ collect_kv_node c"
      "key_count l' = key_count l - 1" "key_count c' = Suc (key_count c)"
      using rotate_right_ok [OF sp(2)] big by auto
    have fm: "filled l'" "filled c'" using rot(4,5) big kc fl(1) by (auto simp: filled_def node_order)
    have e: "borrow_from_left ks cs (Suc (length ks1)) = Some (ks1 @ k' # ks2, cs1 @ l' # c' # cs2)"
      unfolding borrow_from_left_def ks cs using rot(1) l1 [symmetric] by (simp add: nth_append list_update_append)
    show ?thesis by (rule rebalancedI [OF e]) (use fm sp rot fl ks cs in \<open>auto simp: chain_pair [OF l1]\<close>)
  qed
  show "rebalanced cmp n lo hi ks cs (merge_with_left ks cs (Suc (length ks1)))" if small: "key_count l = 7"
  proof -
    obtain m where mg: "merge_nodes k l c = Some m" "node_inv cmp n (lowb lo ks1) m (uppb ks2 hi)"
      "bnd cmp (lowb lo ks1) (uppb ks2 hi)" "collect_kv_node m = collect_kv_node l @ collect_kv_node c"
      "key_count l + key_count c \<le> key_count m" "key_count m \<le> Suc (key_count l + key_count c)"
      using merge_nodes_ok [OF sp(2)] by auto
    have fm: "filled m" using mg(5,6) small kc by (auto simp: filled_def node_order)
    have e: "merge_with_left ks cs (Suc (length ks1)) = Some (ks1 @ ks2, cs1 @ m # cs2)"
      unfolding merge_with_left_def ks cs using mg(1) l1 [symmetric]
      by (simp add: nth_append list_update_append erase_at_def)
    show ?thesis by (rule rebalancedI [OF e]) (use fm sp mg fl ks cs in \<open>auto simp: chain_split [OF l1]\<close>)
  qed
qed

lemma rebalance_right_ok:
  assumes ks: "ks = ks1 @ k # ks2" and cs: "cs = cs1 @ c # r # cs2" and l1: "length cs1 = length ks1"
    and ch: "chain cmp (node_inv cmp n) lo ks cs hi" and fl: "filled r" "\<forall>c \<in> set cs1. filled c" "\<forall>c \<in> set cs2. filled c"
    and kc: "key_count c = 6"
  shows "7 < key_count r \<Longrightarrow> rebalanced cmp n lo hi ks cs (borrow_from_right ks cs (length ks1))"
    and "key_count r = 7 \<Longrightarrow> rebalanced cmp n lo hi ks cs (merge_with_right ks cs (length ks1))"
proof -
  have sp: "pre cmp (node_inv cmp n) lo ks1 cs1" "pair_ok cmp (node_inv cmp n) (lowb lo ks1) k c r (uppb ks2 hi)"
    "suf cmp (node_inv cmp n) ks2 cs2 hi"
    using ch unfolding ks cs chain_pair [OF l1] by auto
  show "rebalanced cmp n lo hi ks cs (borrow_from_right ks cs (length ks1))" if big: "7 < key_count r"
  proof -
    obtain k' c' r' where rot: "rotate_left k c r = Some (k', c', r')"
      "pair_ok cmp (node_inv cmp n) (lowb lo ks1) k' c' r' (uppb ks2 hi)"
      "collect_kv_node c' @ collect_kv_node r' = collect_kv_node c @ collect_kv_node r"
      "key_count c' = Suc (key_count c)" "key_count r' = key_count r - 1"
      using rotate_left_ok [OF sp(2)] big by auto
    have fm: "filled c'" "filled r'" using rot(4,5) big kc fl(1) by (auto simp: filled_def node_order)
    have e: "borrow_from_right ks cs (length ks1) = Some (ks1 @ k' # ks2, cs1 @ c' # r' # cs2)"
      unfolding borrow_from_right_def ks cs using rot(1) l1 [symmetric] by (simp add: nth_append list_update_append)
    show ?thesis by (rule rebalancedI [OF e]) (use fm sp rot fl ks cs in \<open>auto simp: chain_pair [OF l1]\<close>)
  qed
  show "rebalanced cmp n lo hi ks cs (merge_with_right ks cs (length ks1))" if small: "key_count r = 7"
  proof -
    obtain m where mg: "merge_nodes k c r = Some m" "node_inv cmp n (lowb lo ks1) m (uppb ks2 hi)"
      "bnd cmp (lowb lo ks1) (uppb ks2 hi)" "collect_kv_node m = collect_kv_node c @ collect_kv_node r"
      "key_count c + key_count r \<le> key_count m" "key_count m \<le> Suc (key_count c + key_count r)"
      using merge_nodes_ok [OF sp(2)] by auto
    have fm: "filled m" using mg(5,6) small kc by (auto simp: filled_def node_order)
    have e: "merge_with_right ks cs (length ks1) = Some (ks1 @ ks2, cs1 @ m # cs2)"
      unfolding merge_with_right_def ks cs using mg(1) l1 [symmetric]
      by (simp add: nth_append list_update_append erase_at_def)
    show ?thesis by (rule rebalancedI [OF e]) (use fm sp mg fl ks cs in \<open>auto simp: chain_split [OF l1]\<close>)
  qed
qed

lemma rebalance_ok:
  assumes ks: "ks = ks1 @ ks2" and cs: "cs = cs1 @ c # cs2" and l1: "length cs1 = length ks1"
    and ch: "chain cmp (node_inv cmp n) lo ks cs hi" and f: "\<forall>c \<in> set cs1 \<union> set cs2. filled c"
    and kc: "key_count c = 6" and ne: "ks \<noteq> []"
  shows "rebalanced cmp n lo hi ks cs (rebalance_child ks cs (length ks1))"
proof -
  have l2: "length cs2 = length ks2" using chain_length [OF ch] ks cs l1 by simp
  have seven: "7 < key_count x \<or> key_count x = 7" if "filled x" for x using that by (auto simp: filled_def node_order)
  have right: "rebalanced cmp n lo hi ks cs (if 7 < key_count r then borrow_from_right ks cs (length ks1) else merge_with_right ks cs (length ks1))"
    if "ks2 = k # ksb" "cs2 = r # csb" for k ksb r csb
    using rebalance_right_ok [of ks ks1 k ksb cs cs1 c r csb n lo hi] seven [of r] that ks cs l1 ch f kc by auto
  show ?thesis
  proof (cases ks1 rule: rev_cases)
    case Nil
    then obtain k ksb r csb where k2: "ks2 = k # ksb" "cs2 = r # csb" using ne ks l2 by (cases ks2; cases cs2) auto
    then have "rebalance_child ks cs (length ks1) = (if 7 < key_count r then borrow_from_right ks cs (length ks1) else merge_with_right ks cs (length ks1))"
      using Nil l1 cs by (simp add: rebalance_child_def node_order)
    then show ?thesis using right [OF k2] by simp
  next
    case (snoc ksa k)
    then obtain csa l where k1: "cs1 = csa @ [l]" "length csa = length ksa" using l1 by (cases cs1 rule: rev_cases) auto
    have at: "cs ! (length ks1 - 1) = l" "0 < length ks1" using cs k1 snoc by (auto simp: nth_append)
    have left: "7 < key_count l \<Longrightarrow> rebalanced cmp n lo hi ks cs (borrow_from_left ks cs (length ks1))"
      "key_count l = 7 \<Longrightarrow> rebalanced cmp n lo hi ks cs (merge_with_left ks cs (length ks1))"
      using rebalance_left_ok [of ks ksa k ks2 cs csa l c cs2 n lo hi] ks cs k1 snoc ch f kc by auto
    show ?thesis
    proof (cases "7 < key_count l")
      case True
      then have "rebalance_child ks cs (length ks1) = borrow_from_left ks cs (length ks1)"
        using at by (simp add: rebalance_child_def node_order)
      then show ?thesis using left(1) [OF True] by simp
    next
      case small: False
      then have l7: "key_count l = 7" using seven [of l] f k1 by auto
      show ?thesis
      proof (cases "\<exists>k ksb r csb. ks2 = k # ksb \<and> cs2 = r # csb \<and> 7 < key_count r")
        case True
        then obtain k ksb r csb where k2: "ks2 = k # ksb" "cs2 = r # csb" "7 < key_count r" by blast
        then have "cs ! (length ks1 + 1) = r" "length ks1 + 1 < length cs" using cs l1 by (auto simp: nth_append)
        then have "rebalance_child ks cs (length ks1) = borrow_from_right ks cs (length ks1)"
          using at small k2(3) by (simp add: rebalance_child_def node_order)
        then show ?thesis using right [OF k2(1,2)] k2(3) by simp
      next
        case False
        have "\<not> (length ks1 + 1 < length cs \<and> 7 < key_count (cs ! (length ks1 + 1)))"
          using False cs l1 l2 by (cases ks2; cases cs2) (auto simp: nth_append)
        then have "rebalance_child ks cs (length ks1) = merge_with_left ks cs (length ks1)"
          using at small by (auto simp: rebalance_child_def node_order Let_def)
        then show ?thesis using left(2) [OF l7] by simp
      qed
    qed
  qed
qed

end

context key_order
begin

lemma kv_remove_sorted:
  assumes "kv_sorted cmp m"
  shows "kv_remove cmp key m =
    (let pos = length (takeWhile (\<lambda>kv. cmp (fst kv) key \<noteq> 0) m) in if pos < length m then erase_at pos m else m)"
  using assms
proof (induction m)
  case (Cons a m)
  show ?case
  proof (cases "cmp (fst a) key = 0")
    case True
    have "cmp (fst b) key \<noteq> 0" if "b \<in> set m" for b
      using Cons.prems that True cmp_eq_left [of "fst a" key "fst b"] cmp_swap [of "fst b" key] by (auto simp: kv_sorted_def)
    then show ?thesis using True by (simp add: kv_remove_def erase_at_def filter_id_conv)
  next
    case False
    then show ?thesis using Cons by (auto simp: kv_remove_def erase_at_def kv_sorted_def Let_def)
  qed
qed (simp add: kv_remove_def)

lemma erase_at_simps [simp]: "erase_at i [] = []" "erase_at 0 (x # xs) = xs" "erase_at (Suc i) (x # xs) = x # erase_at i xs"
  by (simp_all add: erase_at_def)

lemma set_erase_at: "set (erase_at i xs) \<subseteq> set xs"
  by (auto simp: erase_at_def dest: in_set_takeD in_set_dropD)

lemma sorted_wrt_erase_at: "sorted_wrt P xs \<Longrightarrow> sorted_wrt P (erase_at i xs)"
proof (induction xs arbitrary: i)
  case (Cons x xs)
  then show ?case by (cases i) (auto dest: set_erase_at [THEN subsetD])
qed simp

lemma erase_at_zip: "length xs = length ys \<Longrightarrow> zip (erase_at i xs) (erase_at i ys) = erase_at i (zip xs ys)"
  by (simp add: erase_at_def take_zip drop_zip)

lemma remove_leaf_ok:
  assumes inv: "node_inv cmp 0 lo (LeafNode ks vs) hi"
  shows "(case remove_leaf cmp ks vs key of
      None \<Rightarrow> kv_remove cmp key (zip ks vs) = [] \<and> length ks \<le> 1
    | Some nd \<Rightarrow> node_inv cmp 0 lo nd hi \<and> collect_kv_node nd = kv_remove cmp key (zip ks vs) \<and>
        0 < key_count nd \<and> length ks \<le> Suc (key_count nd) \<and> key_count nd \<le> length ks)"
proof -
  have l: "length vs = length ks" and s: "sorted_wrt (\<lambda>a b. cmp a b < 0) ks"
    and w: "\<forall>k \<in> set ks. lo_ok cmp lo k \<and> hi_ok cmp k hi" using inv by auto
  define pos where "pos = length (takeWhile (\<lambda>k. cmp k key \<noteq> 0) ks)"
  define ks' vs' where "ks' = (if pos < length ks then erase_at pos ks else ks)" and "vs' = (if pos < length ks then erase_at pos vs else vs)"
  have kvs: "kv_sorted cmp (zip ks vs)" using node_sorted [OF inv] by simp
  have "length (takeWhile (\<lambda>kv. cmp (fst kv) key \<noteq> 0) (zip ks vs)) = pos"
  proof -
    have "map fst (takeWhile (\<lambda>kv. cmp (fst kv) key \<noteq> 0) (zip ks vs)) = takeWhile (\<lambda>k. cmp k key \<noteq> 0) (map fst (zip ks vs))"
      by (simp add: takeWhile_map comp_def)
    then show ?thesis using l unfolding pos_def by (metis length_map map_fst_zip)
  qed
  then have kv: "kv_remove cmp key (zip ks vs) = zip ks' vs'"
    using kv_remove_sorted [OF kvs, of key] l by (simp add: ks'_def vs'_def erase_at_zip Let_def)
  have res: "remove_leaf cmp ks vs key = (if ks' = [] then None else Some (LeafNode ks' vs'))"
    by (simp add: remove_leaf_def pos_def [symmetric] ks'_def vs'_def)
  have sub: "set ks' \<subseteq> set ks" "sorted_wrt (\<lambda>a b. cmp a b < 0) ks'"
    using s sorted_wrt_erase_at by (auto simp: ks'_def dest: set_erase_at [THEN subsetD])
  have len: "length ks' \<le> length ks" "length ks \<le> Suc (length ks')" "length vs' = length ks'"
    using l by (auto simp: ks'_def vs'_def erase_at_def)
  show ?thesis using sub w len unfolding res kv by auto
qed

end

context key_order
begin

lemma remove_internal_ok:
  assumes ch: "chain cmp (node_inv cmp n) lo ks cs hi" and f: "\<forall>c \<in> set cs. filled c" and ne: "ks \<noteq> []"
    and ks: "ks = ks1 @ ks2" and cs: "cs = cs1 @ c # cs2" and l1: "length cs1 = length ks1"
    and c': "node_inv cmp n (lowb lo ks1) c' (uppb ks2 hi)" "key_count c \<le> Suc (key_count c')" "key_count c' \<le> key_count c"
  shows "\<exists>ks' cs'. remove_internal ks cs (length ks1) (Some c') = Some (Some (collapse ks' cs')) \<and>
    chain cmp (node_inv cmp n) lo ks' cs' hi \<and> (\<forall>c \<in> set cs'. filled c) \<and>
    contents cs' = contents cs1 @ collect_kv_node c' @ contents cs2 \<and> length ks \<le> Suc (length ks') \<and> length ks' \<le> length ks"
proof -
  have upd: "cs[length ks1 := c'] = cs1 @ c' # cs2" unfolding cs l1 [symmetric] by simp
  have ch': "chain cmp (node_inv cmp n) lo ks (cs1 @ c' # cs2) hi"
    using ch c'(1) unfolding ks cs chain_split [OF l1] by simp
  have fc: "filled c" "\<forall>c \<in> set cs1 \<union> set cs2. filled c" using f cs by auto
  show ?thesis
  proof (cases "key_count c' < MIN_KEYS")
    case True
    then have "key_count c' = 6" using fc(1) c'(2) by (simp add: filled_def node_order)
    from rebalance_ok [OF ks refl l1 ch' fc(2) this ne] obtain ks' cs' where
      r: "rebalance_child ks (cs1 @ c' # cs2) (length ks1) = Some (ks', cs')" "chain cmp (node_inv cmp n) lo ks' cs' hi"
        "\<forall>c \<in> set cs'. filled c" "contents cs' = contents (cs1 @ c' # cs2)" "length ks \<le> Suc (length ks')" "length ks' \<le> length ks"
      unfolding rebalanced_def by blast
    then show ?thesis
      using True by (intro exI [of _ ks'] exI [of _ cs']) (simp add: remove_internal_def upd)
  next
    case False
    then have "filled c'" using fc(1) c'(3) by (simp add: filled_def)
    then show ?thesis
      using False ch' fc by (intro exI [of _ ks] exI [of _ "cs1 @ c' # cs2"]) (auto simp: remove_internal_def upd)
  qed
qed

lemma remove_node_ok:
  "node_inv cmp n lo nd hi \<Longrightarrow> lo_ok cmp lo key \<Longrightarrow> hi_ok cmp key hi \<Longrightarrow> 2 \<le> key_count nd \<Longrightarrow>
   \<exists>nd'. remove_node cmp nd key = Some (Some nd') \<and> node_inv cmp n lo nd' hi \<and>
     collect_kv_node nd' = kv_remove cmp key (collect_kv_node nd) \<and>
     key_count nd \<le> Suc (key_count nd') \<and> key_count nd' \<le> key_count nd"
proof (induction n arbitrary: lo nd hi)
  case 0
  then obtain ks vs where nd: "nd = LeafNode ks vs" by (cases nd) auto
  then show ?case using remove_leaf_ok [of lo ks vs hi key] 0 by (auto split: option.splits)
next
  case (Suc n)
  then obtain ks cs where nd: "nd = InternalNode ks cs" by (cases nd) auto
  then have ch: "chain cmp (node_inv cmp n) lo ks cs hi" and f: "\<forall>c \<in> set cs. filled c" and two: "2 \<le> length ks"
    using Suc.prems by (auto simp: filled_def)
  then have ne: "ks \<noteq> []" by auto
  from ch show ?case
  proof (rule child_at [OF _ Suc.prems(2,3)], goal_cases)
    case (1 ks1 ks2 cs1 c cs2)
    have "filled c" using f 1(2) by simp
    then obtain c' where c': "remove_node cmp c key = Some (Some c')" "node_inv cmp n (lowb lo ks1) c' (uppb ks2 hi)"
      "collect_kv_node c' = kv_remove cmp key (collect_kv_node c)" "key_count c \<le> Suc (key_count c')" "key_count c' \<le> key_count c"
      using Suc.IH [OF 1(9,10,11)] by (auto simp: filled_def node_order)
    obtain ks' cs' where r: "remove_internal ks cs (length ks1) (Some c') = Some (Some (collapse ks' cs'))"
      "chain cmp (node_inv cmp n) lo ks' cs' hi" "\<forall>c \<in> set cs'. filled c"
      "contents cs' = contents cs1 @ collect_kv_node c' @ contents cs2" "length ks \<le> Suc (length ks')" "length ks' \<le> length ks"
      using remove_internal_ok [OF ch f ne 1(1-3) c'(2,4,5)] by blast
    have "collapse ks' cs' = InternalNode ks' cs'" using chain_length [OF r(2)] r(5) two by (auto simp: collapse_def)
    then show ?case
      using r c' 1(2,4,5) nd kv_remove_middle [OF 1(12,13), of "collect_kv_node c"] by (auto simp: filled_def)
  qed
qed

text \<open>The root: it may lose its last key.\<close>

lemma node_inv_mono_lo: "lo_ok cmp None key" "hi_ok cmp key None"
  by (simp_all add: lo_ok_def hi_ok_def)

lemma remove_root_ok:
  assumes "node_inv cmp n None nd hi" "hi_ok cmp key hi" "0 < key_count nd" "key_count nd < ORDER"
  shows "\<exists>root. remove_node cmp nd key = Some root \<and> tree_below cmp hi root \<and>
    collect_all_kv root = kv_remove cmp key (collect_kv_node nd)"
proof (cases n)
  case 0
  then obtain ks vs where nd: "nd = LeafNode ks vs" using assms(1) by (cases nd) auto
  show ?thesis
  proof (cases "remove_leaf cmp ks vs key")
    case None
    then show ?thesis
      using remove_leaf_ok [of None ks vs hi key] assms nd 0 by (simp add: tree_below_def collect_all_kv_def)
  next
    case (Some nd')
    then have nd': "node_inv cmp 0 None nd' hi" "collect_kv_node nd' = kv_remove cmp key (zip ks vs)" "0 < key_count nd'"
      "key_count nd' < ORDER"
      using remove_leaf_ok [of None ks vs hi key] assms nd 0 by auto
    then have "tree_below cmp hi (Some nd')" by (auto simp: tree_below_def intro: exI [of _ 0])
    then show ?thesis using Some nd nd'(2) by (simp add: collect_all_kv_def)
  qed
next
  case (Suc m)
  then obtain ks cs where nd: "nd = InternalNode ks cs" using assms(1) by (cases nd) auto
  then have ch: "chain cmp (node_inv cmp m) None ks cs hi" and f: "\<forall>c \<in> set cs. filled c" and ne: "ks \<noteq> []" and lt: "length ks < ORDER"
    using assms Suc by (auto simp: filled_def)
  from ch show ?thesis
  proof (rule child_at [OF _ node_inv_mono_lo(1) [of key] assms(2)], goal_cases)
    case (1 ks1 ks2 cs1 c cs2)
    have "filled c" using f 1(2) by simp
    then obtain c' where c': "remove_node cmp c key = Some (Some c')" "node_inv cmp m (lowb None ks1) c' (uppb ks2 hi)"
      "collect_kv_node c' = kv_remove cmp key (collect_kv_node c)" "key_count c \<le> Suc (key_count c')" "key_count c' \<le> key_count c"
      using remove_node_ok [OF 1(9,10,11)] by (auto simp: filled_def node_order)
    obtain ks' cs' where r: "remove_internal ks cs (length ks1) (Some c') = Some (Some (collapse ks' cs'))"
      "chain cmp (node_inv cmp m) None ks' cs' hi" "\<forall>c \<in> set cs'. filled c"
      "contents cs' = contents cs1 @ collect_kv_node c' @ contents cs2" "length ks \<le> Suc (length ks')" "length ks' \<le> length ks"
      using remove_internal_ok [OF ch f ne 1(1-3) c'(2,4,5)] by blast
    have kv: "contents cs' = kv_remove cmp key (collect_kv_node nd)"
      using r(4) c'(3) 1(2) nd kv_remove_middle [OF 1(12,13), of "collect_kv_node c"] by simp
    have rem: "remove_node cmp nd key = Some (Some (collapse ks' cs'))" using r(1) c'(1) 1(4,5) nd by simp
    show ?case
    proof (cases "ks' = []")
      case True
      then obtain x where x: "cs' = [x]" using chain_length [OF r(2)] by (cases cs') auto
      then have "node_inv cmp m None x hi" "filled x" using r(2,3) True by auto
      then have "tree_below cmp hi (Some x)" by (auto simp: tree_below_def filled_def node_order)
      then show ?thesis using rem kv x by (simp add: collapse_def collect_all_kv_def)
    next
      case False
      then have c: "collapse ks' cs' = InternalNode ks' cs'" using chain_length [OF r(2)] by (simp add: collapse_def)
      have "node_inv cmp (Suc m) None (InternalNode ks' cs') hi" using r(2,3) by (simp add: filled_def)
      then have "tree_below cmp hi (Some (InternalNode ks' cs'))"
        unfolding tree_below_def using False r(6) lt by (auto intro!: exI [of _ "Suc m"])
      then show ?thesis using rem kv c by (simp add: collect_all_kv_def)
    qed
  qed
qed

end

section \<open>Scans\<close>

context key_order
begin

lemma takeWhile_sorted:
  "kv_sorted cmp m \<Longrightarrow> takeWhile (\<lambda>kv. \<not> cmp (fst kv) fin > 0) m = filter (\<lambda>kv. \<not> cmp (fst kv) fin > 0) m"
proof (induction m)
  case (Cons a m)
  show ?case
  proof (cases "cmp (fst a) fin > 0")
    case True
    have "cmp (fst b) fin > 0" if "b \<in> set m" for b
    proof -
      have "cmp (fst a) (fst b) < 0" using Cons.prems that by (simp add: kv_sorted_def)
      then show ?thesis using True cmp_less_trans [of fin "fst a" "fst b"] cmp_gt by blast
    qed
    then show ?thesis using True by (simp add: filter_empty_conv)
  next
    case False
    then show ?thesis using Cons by (simp add: kv_sorted_def)
  qed
qed simp

lemma scan_children_filter:
  assumes "chain cmp (node_inv cmp n) lo ks cs hi" "left = None \<or> left = lo"
    "\<And>k x. skip k \<Longrightarrow> cmp x k < 0 \<Longrightarrow> \<not> F x" "\<And>k x. stop k \<Longrightarrow> cmp k x \<le> 0 \<Longrightarrow> \<not> F x"
  shows "concat (map (\<lambda>c. filter (\<lambda>kv. F (fst kv)) (collect_kv_node c)) (scan_children skip stop left ks cs)) =
    filter (\<lambda>kv. F (fst kv)) (contents cs)"
  using assms(1,2)
proof (induction cs arbitrary: lo ks left)
  case (Cons c cs)
  have within: "keys_within cmp lo (contents (c # cs)) hi" using chain_contents [OF Cons.prems(1)] node_contents by blast
  have stopped: "filter (\<lambda>kv. F (fst kv)) (contents (c # cs)) = []" if "left = Some l" "stop l" for l
  proof -
    have "\<forall>kv \<in> set (contents (c # cs)). cmp l (fst kv) \<le> 0"
      using within that(1) Cons.prems(2) unfolding keys_within_def lo_ok_def by (metis option.case(2) option.distinct(1))
    then show ?thesis using assms(4) [OF that(2)] by (simp only: filter_empty_conv) blast
  qed
  show ?case
  proof (cases ks)
    case Nil
    then have "cs = []" using Cons.prems(1) by (cases cs) auto
    then show ?thesis using stopped Nil by (cases left) auto
  next
    case (Cons k ks')
    have k: "node_inv cmp n lo c (Some k)" "chain cmp (node_inv cmp n) (Some k) ks' cs hi"
      using Cons.prems(1) unfolding \<open>ks = k # ks'\<close> by auto
    have ih: "concat (map (\<lambda>c. filter (\<lambda>kv. F (fst kv)) (collect_kv_node c)) (scan_children skip stop (Some k) ks' cs)) =
        filter (\<lambda>kv. F (fst kv)) (contents cs)"
      by (rule Cons.IH [OF k(2)]) simp
    have "filter (\<lambda>kv. F (fst kv)) (collect_kv_node c) = []" if "skip k"
      using node_contents [OF k(1)] assms(3) [OF that] by (auto simp: keys_within_def hi_ok_def filter_empty_conv)
    then show ?thesis using ih stopped \<open>ks = k # ks'\<close> by (cases left) auto
  qed
qed simp

lemma scan_internal:
  assumes ch: "chain cmp (node_inv cmp n) lo ks cs hi"
    and g: "\<And>l c h. node_inv cmp n l c h \<Longrightarrow> g c = filter (\<lambda>kv. F (fst kv)) (collect_kv_node c)"
    and "\<And>k x. skip k \<Longrightarrow> cmp x k < 0 \<Longrightarrow> \<not> F x" "\<And>k x. stop k \<Longrightarrow> cmp k x \<le> 0 \<Longrightarrow> \<not> F x"
  shows "concat (map g (scan_children skip stop None ks cs)) = filter (\<lambda>kv. F (fst kv)) (contents cs)"
proof -
  have "g c = filter (\<lambda>kv. F (fst kv)) (collect_kv_node c)" if "c \<in> set (scan_children skip stop None ks cs)" for c
    using g chain_child [OF ch] set_scan_children that by (meson subsetD)
  then have "map g (scan_children skip stop None ks cs) =
      map (\<lambda>c. filter (\<lambda>kv. F (fst kv)) (collect_kv_node c)) (scan_children skip stop None ks cs)" by simp
  then show ?thesis using scan_children_filter [OF ch _ assms(3,4), of None] by (simp only:) simp
qed

lemma cmp_le_start: "cmp k start \<le> 0 \<Longrightarrow> cmp x k < 0 \<Longrightarrow> cmp x start < 0"
  by (rule cmp_less_le_trans)

lemma cmp_gt_end: "cmp k fin > 0 \<Longrightarrow> cmp k x \<le> 0 \<Longrightarrow> cmp x fin > 0"
  using cmp_less_le_trans [of fin k x] cmp_gt by blast

lemma cmp_ge_end: "cmp k fin \<ge> 0 \<Longrightarrow> cmp k x \<le> 0 \<Longrightarrow> cmp x fin \<ge> 0"
  using cmp_trans [of fin k x] cmp_ge by blast

lemma range_collect_kv_filter:
  "node_inv cmp n lo nd hi \<Longrightarrow>
   range_collect_kv cmp nd start fin = filter (\<lambda>kv. \<not> cmp (fst kv) fin > 0 \<and> cmp (fst kv) start \<ge> 0) (collect_kv_node nd)"
proof (induction n arbitrary: lo nd hi)
  case 0
  then obtain ks vs where "nd = LeafNode ks vs" by (cases nd) auto
  then show ?case using takeWhile_sorted [OF node_sorted [OF 0]] by (simp add: in_range_leaf_def)
next
  case (Suc n)
  then obtain ks cs where nd: "nd = InternalNode ks cs" by (cases nd) auto
  then have ch: "chain cmp (node_inv cmp n) lo ks cs hi" using Suc.prems by simp
  have "concat (map (\<lambda>c. range_collect_kv cmp c start fin) (scan_children (\<lambda>k. cmp k start \<le> 0) (\<lambda>k. cmp k fin > 0) None ks cs)) =
      filter (\<lambda>kv. \<not> cmp (fst kv) fin > 0 \<and> cmp (fst kv) start \<ge> 0) (contents cs)"
    by (rule scan_internal [OF ch, where F = "\<lambda>x. \<not> cmp x fin > 0 \<and> cmp x start \<ge> 0"])
      (use Suc.IH cmp_le_start cmp_gt_end in \<open>auto simp: not_le\<close>)
  then show ?case using nd by simp
qed

lemma scan_from_filter:
  "node_inv cmp n lo nd hi \<Longrightarrow>
   scan_from_node cmp nd start inclusive =
     filter (\<lambda>kv. if inclusive then cmp (fst kv) start \<ge> 0 else cmp (fst kv) start > 0) (collect_kv_node nd)"
proof (induction n arbitrary: lo nd hi)
  case 0
  then show ?case by (cases nd) auto
next
  case (Suc n)
  then obtain ks cs where nd: "nd = InternalNode ks cs" by (cases nd) auto
  then have ch: "chain cmp (node_inv cmp n) lo ks cs hi" using Suc.prems by simp
  have "concat (map (\<lambda>c. scan_from_node cmp c start inclusive) (scan_children (\<lambda>k. cmp k start \<le> 0) (\<lambda>k. False) None ks cs)) =
      filter (\<lambda>kv. if inclusive then cmp (fst kv) start \<ge> 0 else cmp (fst kv) start > 0) (contents cs)"
  proof (rule scan_internal [OF ch, where F = "\<lambda>x. if inclusive then cmp x start \<ge> 0 else cmp x start > 0"])
    fix k x assume "cmp k start \<le> 0" "cmp x k < 0"
    then show "\<not> (if inclusive then cmp x start \<ge> 0 else cmp x start > 0)" using cmp_le_start [of k start x] by (cases inclusive) auto
  qed (simp_all add: Suc.IH)
  then show ?case using nd by simp
qed

lemma scan_to_filter:
  "node_inv cmp n lo nd hi \<Longrightarrow>
   scan_to_node cmp nd fin inclusive =
     filter (\<lambda>kv. \<not> cmp (fst kv) fin > 0 \<and> (inclusive \<or> cmp (fst kv) fin < 0)) (collect_kv_node nd)"
proof (induction n arbitrary: lo nd hi)
  case 0
  then obtain ks vs where "nd = LeafNode ks vs" by (cases nd) auto
  then show ?case using takeWhile_sorted [OF node_sorted [OF 0]] by simp
next
  case (Suc n)
  then obtain ks cs where nd: "nd = InternalNode ks cs" by (cases nd) auto
  then have ch: "chain cmp (node_inv cmp n) lo ks cs hi" using Suc.prems by simp
  have "concat (map (\<lambda>c. scan_to_node cmp c fin inclusive)
        (scan_children (\<lambda>k. False) (\<lambda>k. if inclusive then cmp k fin > 0 else cmp k fin \<ge> 0) None ks cs)) =
      filter (\<lambda>kv. \<not> cmp (fst kv) fin > 0 \<and> (inclusive \<or> cmp (fst kv) fin < 0)) (contents cs)"
  proof (rule scan_internal [OF ch, where F = "\<lambda>x. \<not> cmp x fin > 0 \<and> (inclusive \<or> cmp x fin < 0)"])
    fix k x assume "if inclusive then cmp k fin > 0 else cmp k fin \<ge> 0" "cmp k x \<le> 0"
    then show "\<not> (\<not> cmp x fin > 0 \<and> (inclusive \<or> cmp x fin < 0))"
      using cmp_gt_end [of k fin x] cmp_ge_end [of k fin x] by (cases inclusive) auto
  qed (simp_all add: Suc.IH)
  then show ?case using nd by simp
qed

lemma collect_all_values: "node_inv cmp n lo nd hi \<Longrightarrow> collect_all nd = map snd (collect_kv_node nd)"
proof (induction n arbitrary: lo nd hi)
  case 0
  then show ?case by (cases nd) auto
next
  case (Suc n)
  then obtain ks cs where nd: "nd = InternalNode ks cs" by (cases nd) auto
  then have "\<forall>c \<in> set cs. collect_all c = map snd (collect_kv_node c)"
    using Suc.IH Suc.prems chain_child by fastforce
  then show ?case using nd by (simp add: map_concat comp_def cong: map_cong)
qed

end

section \<open>The tree as a sorted map\<close>

locale sorted_index = key_order +
  fixes inv :: "'t \<Rightarrow> bool" and entries :: "'t \<Rightarrow> (string \<times> string) list" and empty :: 't
    and lookup :: "'t \<Rightarrow> string \<Rightarrow> string option" and update :: "'t \<Rightarrow> string \<Rightarrow> string \<Rightarrow> 't" and delete :: "'t \<Rightarrow> string \<Rightarrow> 't option"
  assumes inv_empty: "inv empty" and entries_empty: "entries empty = []"
    and entries_sorted: "inv t \<Longrightarrow> kv_sorted cmp (entries t)"
    and lookup_entries: "inv t \<Longrightarrow> lookup t key = kv_lookup cmp key (entries t)"
    and inv_update: "inv t \<Longrightarrow> inv (update t key v)"
    and entries_update: "inv t \<Longrightarrow> entries (update t key v) = kv_insert cmp key v (entries t)"
    and delete_total: "inv t \<Longrightarrow> \<exists>t'. delete t key = Some t' \<and> inv t' \<and> entries t' = kv_remove cmp key (entries t)"
begin

lemma lookup_kv_insert:
  "kv_sorted cmp m \<Longrightarrow> kv_lookup cmp key' (kv_insert cmp key v m) = (if cmp key key' = 0 then Some v else kv_lookup cmp key' m)"
proof (induction m)
  case Nil
  then show ?case by (simp add: kv_lookup_def)
next
  case (Cons a m)
  obtain k w where a: "a = (k, w)" by (cases a)
  consider "cmp k key < 0" | "cmp k key = 0" | "cmp k key > 0" by linarith
  then show ?case
  proof cases
    case 1
    have "cmp key key' \<noteq> 0" if "cmp k key' = 0" using cmp_eq_right [of key key' k] that 1 by auto
    then show ?thesis using Cons 1 a by (auto simp: kv_lookup_def kv_sorted_def)
  next
    case 2
    then have "cmp k key' = cmp key key'" by (rule cmp_eq_left)
    then show ?thesis using 2 a by (simp add: kv_lookup_def)
  next
    case 3
    then show ?thesis using a by (simp add: kv_lookup_def)
  qed
qed

lemma lookup_kv_remove:
  "kv_lookup cmp key' (kv_remove cmp key m) = (if cmp key key' = 0 then None else kv_lookup cmp key' m)"
proof (induction m)
  case (Cons a m)
  have "cmp (fst a) key' = 0 \<Longrightarrow> cmp key key' = 0 \<longleftrightarrow> cmp (fst a) key = 0"
    using cmp_eq_left [of "fst a" key' key] cmp_eq_sym [of key key'] cmp_swap [of "fst a" key] cmp_swap [of key' key] by auto
  then show ?case using Cons by (auto simp: kv_lookup_def kv_remove_def)
qed (simp add: kv_lookup_def kv_remove_def)

lemma lookup_update: "inv t \<Longrightarrow> lookup (update t key v) key' = (if cmp key key' = 0 then Some v else lookup t key')"
  by (simp add: lookup_entries inv_update entries_update lookup_kv_insert entries_sorted)

lemma lookup_delete:
  "inv t \<Longrightarrow> delete t key = Some t' \<Longrightarrow> lookup t' key' = (if cmp key key' = 0 then None else lookup t key')"
  using delete_total [of t key] by (auto simp: lookup_entries lookup_kv_remove)

end

context key_order
begin

lemma tree_below_insert:
  assumes "tree_below cmp hi root" "hi_ok cmp key hi"
  shows "tree_below cmp hi (bt_insert cmp root key v) \<and> collect_all_kv (bt_insert cmp root key v) = kv_insert cmp key v (collect_all_kv root)"
proof (cases root)
  case None
  have "node_inv cmp 0 None (LeafNode [key] [v]) hi" using assms(2) by (simp add: lo_ok_def)
  then have "\<exists>n. node_inv cmp n None (LeafNode [key] [v]) hi" by blast
  then show ?thesis using None by (simp add: bt_insert_def tree_below_def collect_all_kv_def node_order)
next
  case (Some nd)
  then obtain n where n: "node_inv cmp n None nd hi" "0 < key_count nd" "key_count nd < ORDER"
    using assms by (auto simp: tree_below_def)
  obtain nd' sp where r: "insert_node cmp nd key v = (nd', sp)" by fastforce
  have ok: "insert_ok cmp n None hi (key_count nd) (kv_insert cmp key v (collect_kv_node nd)) (nd', sp)"
    using insert_node_ok [OF n(1) node_inv_mono_lo(1) assms(2) n(3), of v] r by simp
  show ?thesis
  proof (cases sp)
    case None
    then show ?thesis using ok n(2) r Some by (auto simp: insert_ok_def bt_insert_def tree_below_def collect_all_kv_def)
  next
    case (Some kr)
    obtain k right where kr: "kr = (k, right)" by (cases kr)
    have "node_inv cmp (Suc n) None (InternalNode [k] [nd', right]) hi"
      using ok Some kr by (auto simp: insert_ok_def filled_def)
    then have "tree_below cmp hi (bt_insert cmp root key v)"
      using \<open>root = Some nd\<close> r Some kr unfolding tree_below_def bt_insert_def
      by (auto simp: node_order simp del: node_inv.simps intro!: exI [of _ "Suc n"])
    then show ?thesis using ok \<open>root = Some nd\<close> r Some kr by (auto simp: insert_ok_def bt_insert_def collect_all_kv_def)
  qed
qed

lemma tree_below_remove:
  assumes "tree_below cmp hi root" "hi_ok cmp key hi"
  shows "\<exists>root'. bt_remove cmp root key = Some root' \<and> tree_below cmp hi root' \<and> collect_all_kv root' = kv_remove cmp key (collect_all_kv root)"
proof (cases root)
  case None
  then show ?thesis by (simp add: bt_remove_def tree_below_def collect_all_kv_def kv_remove_def)
next
  case (Some nd)
  then obtain n where "node_inv cmp n None nd hi" "0 < key_count nd" "key_count nd < ORDER"
    using assms by (auto simp: tree_below_def)
  from remove_root_ok [OF this(1) assms(2) this(2,3)] show ?thesis using Some by (auto simp: bt_remove_def collect_all_kv_def)
qed

lemmas tree_insert_ok = tree_below_insert [of None, folded tree_inv_def, OF _ node_inv_mono_lo(2)]

lemmas tree_remove_ok = tree_below_remove [of None, folded tree_inv_def, OF _ node_inv_mono_lo(2)]

lemma tree_sorted: "tree_inv cmp root \<Longrightarrow> kv_sorted cmp (collect_all_kv root)"
  using node_sorted by (auto simp: tree_inv_def tree_below_def collect_all_kv_def kv_sorted_def split: option.splits)

lemma tree_search: "tree_inv cmp root \<Longrightarrow> bt_search cmp root key = kv_lookup cmp key (collect_all_kv root)"
  using search_node_lookup node_inv_mono_lo
  by (auto simp: tree_inv_def tree_below_def bt_search_def collect_all_kv_def kv_lookup_def split: option.splits)

end

sublocale key_order \<subseteq> tree: sorted_index cmp "tree_inv cmp" collect_all_kv None "bt_search cmp" "bt_insert cmp" "bt_remove cmp"
proof unfold_locales
  show "tree_inv cmp None" "collect_all_kv None = []" by (simp_all add: tree_inv_def tree_below_def collect_all_kv_def)
qed (use tree_sorted tree_search tree_insert_ok tree_remove_ok in auto)

end
