(* ===== verification/KeyDomain.thy ===== *)
theory KeyDomain
  imports BTreeCorrect
begin

text \<open>
  Histories of an index: sequences of insertions and removals, against the same sequence on a sorted list of entries. The tree refines it for
  every comparison that is a total preorder, and also for one that is a total preorder only on a domain of keys, as long as all keys
  stay in the domain (locale \<open>key_domain\<close>): a node of such a tree, separators included, holds keys of the domain only, and on them the
  comparison agrees with a total one.
\<close>

section \<open>The index as a sorted map\<close>

context key_order
begin

lemma tree_below_search:
  "tree_below cmp hi t \<Longrightarrow> hi_ok cmp key hi \<Longrightarrow> bt_search cmp t key = kv_lookup cmp key (collect_all_kv t)"
  using search_node_lookup node_inv_mono_lo(1)
  by (fastforce simp: tree_below_def bt_search_def collect_all_kv_def kv_lookup_def split: option.splits)

lemma tree_below_sorted: "tree_below cmp hi t \<Longrightarrow> kv_sorted cmp (collect_all_kv t)"
  using node_sorted by (auto simp: tree_below_def collect_all_kv_def kv_sorted_def split: option.splits)

lemma tree_scans:
  assumes "tree_below cmp hi t"
  shows "range_search cmp t start fin = map snd (filter (\<lambda>kv. cmp start (fst kv) \<le> 0 \<and> cmp (fst kv) fin \<le> 0) (collect_all_kv t))"
    and "range_keys cmp t start fin = map fst (filter (\<lambda>kv. cmp start (fst kv) \<le> 0 \<and> cmp (fst kv) fin \<le> 0) (collect_all_kv t))"
    and "scan_from cmp t start inclusive =
      filter (\<lambda>kv. if inclusive then cmp start (fst kv) \<le> 0 else cmp start (fst kv) < 0) (collect_all_kv t)"
    and "scan_to cmp t fin inclusive =
      filter (\<lambda>kv. if inclusive then cmp (fst kv) fin \<le> 0 else cmp (fst kv) fin < 0) (collect_all_kv t)"
    and "all_values t = map snd (collect_all_kv t)"
proof -
  have lt: "cmp k fin < 0 \<and> cmp k fin \<le> 0 \<longleftrightarrow> cmp k fin < 0" for k
    by auto
  have "t = None \<or> (\<exists>nd n. t = Some nd \<and> node_inv cmp n None nd hi)"
    using assms by (auto simp: tree_below_def split: option.splits)
  then have "t = None \<or> (\<exists>nd. t = Some nd
    \<and> range_collect_kv cmp nd start fin = filter (\<lambda>kv. cmp start (fst kv) \<le> 0 \<and> cmp (fst kv) fin \<le> 0) (collect_kv_node nd)
    \<and> scan_from_node cmp nd start inclusive = filter (\<lambda>kv. if inclusive then cmp start (fst kv) \<le> 0 else cmp start (fst kv) < 0) (collect_kv_node nd)
    \<and> scan_to_node cmp nd fin inclusive = filter (\<lambda>kv. if inclusive then cmp (fst kv) fin \<le> 0 else cmp (fst kv) fin < 0) (collect_kv_node nd)
    \<and> collect_all nd = map snd (collect_kv_node nd))"
    using range_collect_kv_filter scan_from_filter scan_to_filter collect_all_values
    by (cases inclusive) (auto simp: cmp_ge cmp_gt not_less conj_commute lt)
  then show "range_search cmp t start fin = map snd (filter (\<lambda>kv. cmp start (fst kv) \<le> 0 \<and> cmp (fst kv) fin \<le> 0) (collect_all_kv t))"
    and "range_keys cmp t start fin = map fst (filter (\<lambda>kv. cmp start (fst kv) \<le> 0 \<and> cmp (fst kv) fin \<le> 0) (collect_all_kv t))"
    and "scan_from cmp t start inclusive =
      filter (\<lambda>kv. if inclusive then cmp start (fst kv) \<le> 0 else cmp start (fst kv) < 0) (collect_all_kv t)"
    and "scan_to cmp t fin inclusive =
      filter (\<lambda>kv. if inclusive then cmp (fst kv) fin \<le> 0 else cmp (fst kv) fin < 0) (collect_all_kv t)"
    and "all_values t = map snd (collect_all_kv t)"
    by (auto simp: range_search_def range_keys_def scan_from_def scan_to_def all_values_def collect_all_kv_def
        range_collect_def range_collect_keys_def)
qed

end


text \<open>A history of an index: keys set and removed, one after the other, on an empty tree.\<close>

datatype index_op = Put string string | Del string

fun op_key :: "index_op \<Rightarrow> string" where
  "op_key (Put k v) = k"
| "op_key (Del k) = k"

fun run_index :: "key_cmp \<Rightarrow> index_op list \<Rightarrow> BPlusTree \<Rightarrow> BPlusTree option" where
  "run_index cmp [] t = Some t"
| "run_index cmp (Put k v # ops) t = run_index cmp ops (bt_insert cmp t k v)"
| "run_index cmp (Del k # ops) t = (case bt_remove cmp t k of None \<Rightarrow> None | Some t' \<Rightarrow> run_index cmp ops t')"

fun run_map :: "key_cmp \<Rightarrow> index_op list \<Rightarrow> (string \<times> string) list \<Rightarrow> (string \<times> string) list" where
  "run_map cmp [] m = m"
| "run_map cmp (Put k v # ops) m = run_map cmp ops (kv_insert cmp k v m)"
| "run_map cmp (Del k # ops) m = run_map cmp ops (kv_remove cmp k m)"

context key_order
begin

lemma run_index_ok:
  "tree_inv cmp t \<Longrightarrow> \<exists>t'. run_index cmp ops t = Some t' \<and> tree_inv cmp t' \<and> collect_all_kv t' = run_map cmp ops (collect_all_kv t)"
proof (induction ops arbitrary: t)
  case (Cons op ops)
  show ?case
  proof (cases op)
    case (Put k v)
    then show ?thesis
      using Cons.IH tree_insert_ok [OF Cons.prems, of k v] by fastforce
  next
    case (Del k)
    obtain t1 where t1: "bt_remove cmp t k = Some t1" "tree_inv cmp t1" "collect_all_kv t1 = kv_remove cmp k (collect_all_kv t)"
      using tree_remove_ok [OF Cons.prems, of k] by blast
    then show ?thesis
      using Del Cons.IH [OF t1(2)] by simp
  qed
qed simp

lemma run_index_total: "\<exists>t. run_index cmp ops None = Some t \<and> tree_inv cmp t \<and> collect_all_kv t = run_map cmp ops []"
  using run_index_ok [OF tree.inv_empty, of ops] by (simp add: tree.entries_empty)

lemma run_index_tree: "run_index cmp ops None = Some t \<Longrightarrow> tree_inv cmp t \<and> collect_all_kv t = run_map cmp ops []"
  using run_index_ok [OF tree.inv_empty, of ops] tree.entries_empty by auto

end

section \<open>Comparisons that agree on the keys of a tree\<close>

fun node_keys :: "Node \<Rightarrow> string set" where
  "node_keys (LeafNode ks vs) = set ks"
| "node_keys (InternalNode ks cs) = set ks \<union> (\<Union>c \<in> set cs. node_keys c)"

lemma child_keys: "drop i cs = c # r \<Longrightarrow> node_keys c \<subseteq> node_keys (InternalNode ks cs)"
proof -
  assume "drop i cs = c # r"
  then have "c \<in> set cs"
    by (metis in_set_dropD list.set_intros(1))
  then show ?thesis
    by auto
qed

definition agree :: "key_cmp \<Rightarrow> key_cmp \<Rightarrow> string set \<Rightarrow> bool" where
  "agree cmp cmp' S \<longleftrightarrow> (\<forall>a \<in> S. \<forall>b \<in> S. cmp a b = cmp' a b)"

lemma agree_mono: "agree cmp cmp' S \<Longrightarrow> T \<subseteq> S \<Longrightarrow> agree cmp cmp' T"
  by (auto simp: agree_def)

lemma first_agree:
  assumes "agree cmp cmp' S" "set ks \<subseteq> S" "key \<in> S"
  shows "first_greater cmp ks key = first_greater cmp' ks key" "first_geq cmp ks key = first_geq cmp' ks key"
    "child_index cmp ks cs key = child_index cmp' ks cs key"
  using assms unfolding agree_def first_greater_def first_geq_def child_index_def
  by (auto intro!: arg_cong [of _ _ length] arg_cong [of _ _ "\<lambda>n. min n _"] takeWhile_cong)


lemma find_agree:
  assumes "agree cmp cmp' S" "set ks \<subseteq> S" "key \<in> S"
  shows "find (\<lambda>kv. cmp (fst kv) key = 0) (zip ks vs) = find (\<lambda>kv. cmp' (fst kv) key = 0) (zip ks vs)"
  using assms by (intro find_cong) (auto simp: agree_def dest: set_zip_leftD)

lemma child_at_index:
  assumes "node_keys (InternalNode ks cs) \<subseteq> S"
  obtains "drop i cs = []" | c r where "drop i cs = c # r" "c \<in> set cs" "node_keys c \<subseteq> S"
  using assms child_keys [of i cs] by (cases "drop i cs") (metis, metis in_set_dropD list.set_intros(1) order_trans)

lemma search_node_agree:
  assumes "agree cmp cmp' S" "key \<in> S"
  shows "node_keys nd \<subseteq> S \<Longrightarrow> search_node cmp nd key = search_node cmp' nd key"
proof (induction nd)
  case (InternalNode ks cs)
  have i: "child_index cmp ks cs key = child_index cmp' ks cs key"
    using InternalNode.prems first_agree(3) [OF assms(1) _ assms(2)] by simp
  show ?case
    using child_at_index [OF InternalNode.prems, of "child_index cmp' ks cs key"] InternalNode.IH by cases (auto simp: i)
next
  case (LeafNode ks vs)
  then show ?case
    using find_agree [OF assms(1) _ assms(2), of ks vs] by simp
qed

lemma remove_node_agree:
  assumes "agree cmp cmp' S" "key \<in> S"
  shows "node_keys nd \<subseteq> S \<Longrightarrow> remove_node cmp nd key = remove_node cmp' nd key"
proof (induction nd)
  case (InternalNode ks cs)
  have i: "child_index cmp ks cs key = child_index cmp' ks cs key"
    using InternalNode.prems first_agree(3) [OF assms(1) _ assms(2)] by simp
  show ?case
    unfolding remove_node.simps i
    using child_at_index [OF InternalNode.prems, of "child_index cmp' ks cs key"] InternalNode.IH by cases auto
next
  case (LeafNode ks vs)
  then have "takeWhile (\<lambda>k. cmp k key \<noteq> 0) ks = takeWhile (\<lambda>k. cmp' k key \<noteq> 0) ks"
    using assms by (intro takeWhile_cong) (auto simp: agree_def)
  then show ?case
    by (simp add: remove_leaf_def)
qed

lemma set_insert_at: "set (insert_at i x xs) = insert x (set xs)"
  using append_take_drop_id [of i xs] unfolding insert_at_def by (metis Un_insert_right list.simps(15) set_append)

lemma insert_split_key:
  "insert_node cmp nd key v = (l, Some (k, r)) \<Longrightarrow> k \<in> insert key (node_keys nd)"
proof (induction nd arbitrary: l k r)
  case (InternalNode ks cs)
  show ?case
  proof (cases "drop (child_index cmp ks cs key) cs")
    case (Cons c rest)
    then have c: "c \<in> set cs"
      by (metis in_set_dropD list.set_intros(1))
    obtain l' res where res: "insert_node cmp c key v = (l', res)"
      by fastforce
    show ?thesis
    proof (cases res)
      case None
      then show ?thesis
        using InternalNode.prems Cons res by (simp add: insert_internal_def)
    next
      case (Some kr)
      obtain k' r' where kr: "kr = (k', r')"
        by fastforce
      let ?ks = "insert_at (first_geq cmp ks k') k' ks"
      have "k = ?ks ! (length ?ks div 2)" and len: "ORDER \<le> length ?ks"
        using InternalNode.prems Cons res Some kr by (auto simp: insert_internal_def Let_def split: if_splits)
      moreover have "length ?ks div 2 < length ?ks"
        using len by (simp add: ORDER_def)
      ultimately have "k \<in> insert k' (set ks)"
        using nth_mem set_insert_at by metis
      moreover have "k' \<in> insert key (node_keys c)"
        using InternalNode.IH [OF c] res Some kr by simp
      ultimately show ?thesis
        using c by auto
    qed
  qed (use InternalNode.prems in simp)
next
  case (LeafNode ks vs)
  let ?ks = "insert_at (first_geq cmp ks key) key ks"
  have "k = ?ks ! (length ?ks div 2)" and len: "ORDER \<le> length ?ks"
    using LeafNode.prems by (auto simp: insert_leaf_def Let_def split: if_splits)
  moreover have "length ?ks div 2 < length ?ks"
    using len by (simp add: ORDER_def)
  ultimately have "k \<in> insert key (set ks)"
    using nth_mem set_insert_at by metis
  then show ?case
    by simp
qed

lemma insert_node_agree:
  assumes "agree cmp cmp' S" "key \<in> S"
  shows "node_keys nd \<subseteq> S \<Longrightarrow> insert_node cmp nd key v = insert_node cmp' nd key v"
proof (induction nd)
  case (InternalNode ks cs)
  have i: "child_index cmp ks cs key = child_index cmp' ks cs key"
    using InternalNode.prems first_agree(3) [OF assms(1) _ assms(2)] by simp
  show ?case
    using child_at_index [OF InternalNode.prems, of "child_index cmp' ks cs key"]
  proof cases
    case (2 c r)
    then have eq: "insert_node cmp c key v = insert_node cmp' c key v"
      using InternalNode.IH by simp
    obtain l res where res: "insert_node cmp' c key v = (l, res)"
      by fastforce
    have "first_geq cmp ks k = first_geq cmp' ks k" if "res = Some (k, q)" for k q
    proof -
      have "k \<in> S"
        using insert_split_key [of cmp' c key v l k q] res that assms(2) 2(3) by auto
      then show ?thesis
        using first_agree(2) [OF assms(1)] InternalNode.prems by simp
    qed
    then show ?thesis
      using 2 eq res by (cases res) (auto simp: i insert_internal_def)
  qed (simp add: i)
next
  case (LeafNode ks vs)
  have pos: "first_geq cmp ks key = first_geq cmp' ks key"
    using first_agree(2) [OF assms(1) _ assms(2)] LeafNode by simp
  have "cmp (ks ! p) key = cmp' (ks ! p) key" if "p < length ks" for p
    using assms LeafNode that by (auto simp: agree_def subset_iff)
  then show ?case
    by (auto simp: insert_leaf_def pos Let_def)
qed


lemma scan_children_agree:
  assumes "\<And>k. k \<in> set ks \<Longrightarrow> skip k = skip' k \<and> stop k = stop' k" "\<And>l. left = Some l \<Longrightarrow> stop l = stop' l"
  shows "scan_children skip stop left ks cs = scan_children skip' stop' left ks cs"
  using assms
proof (induction cs arbitrary: left ks)
  case (Cons c cs)
  have "scan_children skip stop l (tl ks) cs = scan_children skip' stop' l (tl ks) cs" if "l = None \<or> (ks \<noteq> [] \<and> l = Some (hd ks))" for l
    using that Cons.prems by (intro Cons.IH; cases ks) auto
  then show ?case
    using Cons.prems by (cases ks) (auto split: option.splits)
qed simp

lemma scans_agree:
  assumes "agree cmp cmp' S" "start \<in> S" "fin \<in> S"
  shows "node_keys nd \<subseteq> S \<Longrightarrow>
    range_collect_kv cmp nd start fin = range_collect_kv cmp' nd start fin
    \<and> scan_from_node cmp nd start inclusive = scan_from_node cmp' nd start inclusive
    \<and> scan_to_node cmp nd fin inclusive = scan_to_node cmp' nd fin inclusive"
proof (induction nd)
  case (InternalNode ks cs)
  have eq: "cmp k start = cmp' k start \<and> cmp k fin = cmp' k fin" if "k \<in> set ks" for k
    using that assms InternalNode.prems by (auto simp: agree_def)
  have ch: "scan_children skip stop None ks cs = scan_children skip' stop' None ks cs"
    if "\<And>k. k \<in> set ks \<Longrightarrow> skip k = skip' k \<and> stop k = stop' k" for skip stop skip' stop'
    using that by (intro scan_children_agree) auto
  have IH: "range_collect_kv cmp c start fin = range_collect_kv cmp' c start fin
    \<and> scan_from_node cmp c start inclusive = scan_from_node cmp' c start inclusive
    \<and> scan_to_node cmp c fin inclusive = scan_to_node cmp' c fin inclusive" if "c \<in> set (scan_children skip stop None ks cs)" for c skip stop
    using that set_scan_children [of skip stop None ks cs] InternalNode by (auto simp: UN_subset_iff)
  show ?case
    unfolding range_collect_kv.simps scan_from_node.simps scan_to_node.simps
    by (intro conjI arg_cong [of _ _ concat] map_cong ch) (use eq IH in auto)
next
  case (LeafNode ks vs)
  then have "cmp (fst kv) start = cmp' (fst kv) start \<and> cmp (fst kv) fin = cmp' (fst kv) fin" if "kv \<in> set (zip ks vs)" for kv
    using that assms by (cases kv) (auto simp: agree_def dest: set_zip_leftD)
  then show ?case
    unfolding range_collect_kv.simps scan_from_node.simps scan_to_node.simps in_range_leaf_def
    by (intro conjI filter_cong takeWhile_cong refl) (auto dest: set_takeWhileD)
qed

lemma kv_agree:
  assumes "agree cmp cmp' S" "key \<in> S" "fst ` set m \<subseteq> S"
  shows "kv_insert cmp key v m = kv_insert cmp' key v m" "kv_remove cmp key m = kv_remove cmp' key m"
    "kv_lookup cmp key m = kv_lookup cmp' key m"
proof -
  have eq: "cmp (fst kv) key = cmp' (fst kv) key" if "kv \<in> set m" for kv
    using that assms by (auto simp: agree_def)
  show "kv_insert cmp key v m = kv_insert cmp' key v m"
    using eq
  proof (induction m)
    case (Cons a m)
    then show ?case
      using Cons.prems [of a] by (cases a) simp
  qed simp
  show "kv_remove cmp key m = kv_remove cmp' key m"
    unfolding kv_remove_def using eq by (intro filter_cong) auto
  show "kv_lookup cmp key m = kv_lookup cmp' key m"
    unfolding kv_lookup_def using eq by (intro arg_cong [of _ _ "map_option snd"] find_cong) auto
qed


section \<open>Comparisons that are an order on a domain only\<close>

text \<open>\<open>outside\<close> is a key that is not in the domain; the total comparison puts such keys behind the others.\<close>

locale key_domain =
  fixes cmp :: key_cmp and S :: "string set" and outside :: string
  assumes dom_range: "a \<in> S \<Longrightarrow> b \<in> S \<Longrightarrow> cmp a b \<in> {-1, 0, 1}"
    and dom_swap: "a \<in> S \<Longrightarrow> b \<in> S \<Longrightarrow> cmp b a = - cmp a b"
    and dom_trans: "a \<in> S \<Longrightarrow> b \<in> S \<Longrightarrow> c \<in> S \<Longrightarrow> cmp a b \<le> 0 \<Longrightarrow> cmp b c \<le> 0 \<Longrightarrow> cmp a c \<le> 0"
    and outside: "outside \<notin> S"
begin

definition total_cmp :: key_cmp where
  "total_cmp a b = (if a \<in> S \<and> b \<in> S then cmp a b else three_way (a \<notin> S) (b \<notin> S))"

lemma total_cmp_order: "key_order total_cmp"
proof
  fix a b c
  show "total_cmp a b \<in> {-1, 0, 1}"
    using dom_range by (auto simp: total_cmp_def three_way_def)
  show "total_cmp b a = - total_cmp a b"
    using dom_swap [of a b] by (auto simp: total_cmp_def three_way_def)
  assume "total_cmp a b \<le> 0" "total_cmp b c \<le> 0"
  then show "total_cmp a c \<le> 0"
    using dom_trans [of a b c] unfolding total_cmp_def three_way_def
    by (cases "a \<in> S"; cases "b \<in> S"; cases "c \<in> S") simp_all
qed

lemma agree_total: "agree cmp total_cmp S"
  by (simp add: agree_def total_cmp_def)

lemma below_outside: "hi_ok total_cmp k (Some outside) \<longleftrightarrow> k \<in> S"
  using outside by (auto simp: hi_ok_def total_cmp_def three_way_def)

lemma bnd_below:
  assumes "bnd total_cmp lo hi" "hi \<noteq> None" "total_cmp (the hi) outside \<le> 0"
  shows "lo = None \<or> the lo \<in> S"
proof (cases lo)
  case (Some l)
  then have "total_cmp l (the hi) < 0"
    using assms by (auto simp: bnd_def hi_ok_def)
  then have "total_cmp l outside < 0"
    using assms(3) comparison.cmp_less_le_trans [OF total_cmp_order [unfolded key_order_def]] by blast
  then show ?thesis
    using below_outside Some by (simp add: hi_ok_def)
qed simp

lemma chain_below:
  assumes "chain total_cmp P lo ks cs hi" "hi \<noteq> None" "total_cmp (the hi) outside \<le> 0"
    and "\<And>l c h. c \<in> set cs \<Longrightarrow> P l c h \<Longrightarrow> h \<noteq> None \<Longrightarrow> total_cmp (the h) outside \<le> 0 \<Longrightarrow> node_keys c \<subseteq> S"
  shows "set ks \<subseteq> S \<and> (\<Union>c \<in> set cs. node_keys c) \<subseteq> S"
  using assms
proof (induction ks arbitrary: lo cs)
  case Nil
  then obtain c where "cs = [c]"
    using chain_length [OF Nil.prems(1)] by (cases cs) auto
  then show ?case
    using Nil by auto
next
  case (Cons k ks)
  then obtain c cs' where cs: "cs = c # cs'"
    by (cases cs) auto
  then have ch: "P lo c (Some k)" "chain total_cmp P (Some k) ks cs' hi"
    using Cons.prems by auto
  have "bnd total_cmp (Some k) hi"
    by (rule key_order.chain_bnd [OF total_cmp_order ch(2)])
  then have k: "k \<in> S"
    using bnd_below [of "Some k" hi] Cons.prems by simp
  then have "total_cmp k outside \<le> 0"
    using below_outside [of k] by (simp add: hi_ok_def)
  then have "node_keys c \<subseteq> S"
    using Cons.prems(4) [of c lo "Some k"] ch cs by simp
  moreover have "set ks \<subseteq> S \<and> (\<Union>c \<in> set cs'. node_keys c) \<subseteq> S"
    using Cons.IH [OF ch(2) Cons.prems(2,3)] Cons.prems(4) cs by simp
  ultimately show ?case
    using k cs by simp
qed

lemma node_below:
  "node_inv total_cmp n lo nd hi \<Longrightarrow> hi \<noteq> None \<Longrightarrow> total_cmp (the hi) outside \<le> 0 \<Longrightarrow> node_keys nd \<subseteq> S"
proof (induction n arbitrary: lo nd hi)
  case 0
  then obtain ks vs h where nd: "nd = LeafNode ks vs" "hi = Some h"
    by (cases nd) auto
  have "k \<in> S" if "k \<in> set ks" for k
    using bnd_below [of "Some k" hi] 0 nd that by (auto simp: bnd_def)
  then show ?case
    using nd by auto
next
  case (Suc n)
  then obtain ks cs where nd: "nd = InternalNode ks cs"
    by (cases nd) auto
  then show ?case
    using chain_below [of "node_inv total_cmp n" lo ks cs hi] Suc by auto
qed


lemma tree_keys: "tree_below total_cmp (Some outside) (Some nd) \<Longrightarrow> node_keys nd \<subseteq> S"
  using node_below [of _ None nd "Some outside"] comparison.cmp_refl [OF total_cmp_order [unfolded key_order_def]]
  by (auto simp: tree_below_def)

lemma collect_keys: "fst ` set (collect_kv_node nd) \<subseteq> node_keys nd"
  by (induction nd) (auto dest: set_zip_leftD)

lemma entries_keys: "tree_below total_cmp (Some outside) t \<Longrightarrow> fst ` set (collect_all_kv t) \<subseteq> S"
  using tree_keys collect_keys by (cases t) (fastforce simp: collect_all_kv_def)+

lemma tree_ops_agree:
  assumes "tree_below total_cmp (Some outside) t" "key \<in> S"
  shows "bt_search cmp t key = bt_search total_cmp t key" "bt_insert cmp t key v = bt_insert total_cmp t key v"
    "bt_remove cmp t key = bt_remove total_cmp t key"
  using search_node_agree [OF agree_total assms(2)] insert_node_agree [OF agree_total assms(2)]
    remove_node_agree [OF agree_total assms(2)] tree_keys assms(1)
  by (auto simp: bt_search_def bt_insert_def bt_remove_def split: option.splits)

lemma run_domain:
  "op_key ` set ops \<subseteq> S \<Longrightarrow> tree_below total_cmp (Some outside) t \<Longrightarrow>
   \<exists>t'. run_index cmp ops t = Some t' \<and> tree_below total_cmp (Some outside) t' \<and> collect_all_kv t' = run_map cmp ops (collect_all_kv t)"
proof (induction ops arbitrary: t)
  case (Cons op ops)
  have key: "op_key op \<in> S" "hi_ok total_cmp (op_key op) (Some outside)"
    using Cons.prems below_outside by auto
  note kv = kv_agree [OF agree_total key(1) entries_keys [OF Cons.prems(2)]]
  show ?case
  proof (cases op)
    case (Put k v)
    have "tree_below total_cmp (Some outside) (bt_insert cmp t k v)"
      and kvs: "collect_all_kv (bt_insert cmp t k v) = kv_insert cmp k v (collect_all_kv t)"
      using key_order.tree_below_insert [OF total_cmp_order Cons.prems(2) key(2), of v] Put key kv(1) [of v]
        tree_ops_agree(2) [OF Cons.prems(2) key(1), of v] by simp_all
    then show ?thesis
      using Cons.IH [of "bt_insert cmp t k v"] Cons.prems Put by simp
  next
    case (Del k)
    obtain t1 where t1: "bt_remove cmp t k = Some t1" "tree_below total_cmp (Some outside) t1"
      "collect_all_kv t1 = kv_remove cmp k (collect_all_kv t)"
      using key_order.tree_below_remove [OF total_cmp_order Cons.prems(2) key(2)] Del key kv(2)
        tree_ops_agree(3) [OF Cons.prems(2) key(1)] by auto
    then show ?thesis
      using Cons.IH [OF _ t1(2)] Cons.prems Del by simp
  qed
qed simp

lemma run_domain_tree:
  assumes "op_key ` set ops \<subseteq> S"
  obtains t where "run_index cmp ops None = Some t" "tree_below total_cmp (Some outside) t" "collect_all_kv t = run_map cmp ops []"
  using run_domain [OF assms, of None] by (auto simp: tree_below_def collect_all_kv_def)

lemma kv_sorted_agree: "fst ` set m \<subseteq> S \<Longrightarrow> kv_sorted total_cmp m \<longleftrightarrow> kv_sorted cmp m"
proof -
  assume m: "fst ` set m \<subseteq> S"
  have "total_cmp (fst a) (fst b) = cmp (fst a) (fst b)" if "a \<in> set m" "b \<in> set m" for a b
    using m that by (auto simp: total_cmp_def)
  then show ?thesis
    unfolding kv_sorted_def by (auto elim!: sorted_wrt_mono_rel [rotated])
qed

lemma run_domain_search:
  assumes "op_key ` set ops \<subseteq> S" "run_index cmp ops None = Some t"
  shows "collect_all_kv t = run_map cmp ops []" "kv_sorted cmp (run_map cmp ops [])"
    "key \<in> S \<Longrightarrow> bt_search cmp t key = kv_lookup cmp key (run_map cmp ops [])"
proof -
  have t: "tree_below total_cmp (Some outside) t" and kvs: "collect_all_kv t = run_map cmp ops []"
    using run_domain_tree [OF assms(1)] assms(2) by auto
  note keys = entries_keys [OF t]
  show "collect_all_kv t = run_map cmp ops []"
    by (rule kvs)
  show "kv_sorted cmp (run_map cmp ops [])"
    using key_order.tree_below_sorted [OF total_cmp_order t] kv_sorted_agree [OF keys] kvs by simp
  show "bt_search cmp t key = kv_lookup cmp key (run_map cmp ops [])" if "key \<in> S"
    using key_order.tree_below_search [OF total_cmp_order t] tree_ops_agree(1) [OF t that] below_outside that
      kv_agree(3) [OF agree_total that keys] kvs by simp
qed

lemma run_domain_scans:
  assumes "op_key ` set ops \<subseteq> S" "run_index cmp ops None = Some t" "start \<in> S" "fin \<in> S"
  shows "range_search cmp t start fin = map snd (filter (\<lambda>kv. cmp start (fst kv) \<le> 0 \<and> cmp (fst kv) fin \<le> 0) (run_map cmp ops []))"
    and "scan_from cmp t start inclusive =
      filter (\<lambda>kv. if inclusive then cmp start (fst kv) \<le> 0 else cmp start (fst kv) < 0) (run_map cmp ops [])"
    and "scan_to cmp t fin inclusive =
      filter (\<lambda>kv. if inclusive then cmp (fst kv) fin \<le> 0 else cmp (fst kv) fin < 0) (run_map cmp ops [])"
proof -
  have t: "tree_below total_cmp (Some outside) t" and kvs: "collect_all_kv t = run_map cmp ops []"
    using run_domain_tree [OF assms(1)] assms(2) by auto
  have eq: "range_search cmp t start fin = range_search total_cmp t start fin"
    "scan_from cmp t start inclusive = scan_from total_cmp t start inclusive"
    "scan_to cmp t fin inclusive = scan_to total_cmp t fin inclusive"
    using scans_agree [OF agree_total assms(3,4)] tree_keys t
    by (auto simp: range_search_def scan_from_def scan_to_def range_collect_def split: option.splits)
  have key: "total_cmp start (fst kv) = cmp start (fst kv)" "total_cmp (fst kv) fin = cmp (fst kv) fin"
    if "kv \<in> set (collect_all_kv t)" for kv
    using entries_keys [OF t] that assms(3,4) by (auto simp: total_cmp_def)
  note scans = key_order.tree_scans [OF total_cmp_order t]
  show "range_search cmp t start fin = map snd (filter (\<lambda>kv. cmp start (fst kv) \<le> 0 \<and> cmp (fst kv) fin \<le> 0) (run_map cmp ops []))"
    unfolding eq scans kvs [symmetric] using key by (intro arg_cong [of _ _ "map snd"] filter_cong) auto
  show "scan_from cmp t start inclusive =
      filter (\<lambda>kv. if inclusive then cmp start (fst kv) \<le> 0 else cmp start (fst kv) < 0) (run_map cmp ops [])"
    unfolding eq scans kvs [symmetric] using key by (intro filter_cong) auto
  show "scan_to cmp t fin inclusive =
      filter (\<lambda>kv. if inclusive then cmp (fst kv) fin \<le> 0 else cmp (fst kv) fin < 0) (run_map cmp ops [])"
    unfolding eq scans kvs [symmetric] using key by (intro filter_cong) auto
qed

end

end
