(* ===== verification/IndexKeys.thy ===== *)
theory IndexKeys
  imports NumericText Collation KeyDomain
begin

text \<open>
  The order of index keys (\<^verbatim>\<open>cmp_keys\<close> of \<^verbatim>\<open>core/src/storage/btree.cpp\<close>, \<^verbatim>\<open>key_kind_of\<close> of
  \<^verbatim>\<open>core/include/engine/storage/btree.hpp\<close>) and the comparison of values by their class
  (\<^verbatim>\<open>core/include/engine/value_class.hpp\<close>). A composite key is its segments, joined by NUL bytes, each compared by the kind
  of its column. The tables of the collation (\<open>D\<close>) and the rounding of doubles (\<open>dbl\<close>) are arguments, as in
  \<open>Collation\<close> and \<open>NumericText\<close>.

  The order of columns of text and of columns of unknown type is a total preorder, and the B+tree of such keys is a sorted map; the order of
  columns of numbers is one on integers, but not on all numbers.
\<close>

section \<open>Comparing values and keys\<close>

datatype ValueClass = ClassUnknown | ClassNumber | ClassText

datatype KeyKind = Mixed | Number | Text

definition key_kind_of :: "ValueClass \<Rightarrow> KeyKind" where
  "key_kind_of cls = (if cls = ClassNumber then Number else if cls = ClassText then Text else Mixed)"

definition compare_classed :: "collation_data \<Rightarrow> (rat \<Rightarrow> rat option) \<Rightarrow> ValueClass \<Rightarrow> ValueClass \<Rightarrow> string \<Rightarrow> string \<Rightarrow> int" where
  "compare_classed D dbl a b x y =
     (if a = ClassNumber \<or> b = ClassNumber then compare_numbers dbl x y
      else if \<not> (a = ClassText \<and> b = ClassText) \<and> parse_number dbl x \<noteq> None \<and> parse_number dbl y \<noteq> None
        then compare_numbers dbl x y
      else collation_compare D x y)"

definition plain_uint :: "string \<Rightarrow> bool" where
  "plain_uint s \<longleftrightarrow> s \<noteq> [] \<and> length s \<le> 15 \<and> \<not> (length s > 1 \<and> hd s = CHR ''0'') \<and> list_all is_dig s"

definition bytes_order :: "string \<Rightarrow> string \<Rightarrow> int" where
  "bytes_order a b = three_way a b"

definition text_order :: "collation_data \<Rightarrow> string \<Rightarrow> string \<Rightarrow> int" where
  "text_order D a b = collation_compare D a b"

definition cmp_key_segment :: "collation_data \<Rightarrow> (rat \<Rightarrow> rat option) \<Rightarrow> string \<Rightarrow> string \<Rightarrow> KeyKind \<Rightarrow> int" where
  "cmp_key_segment D dbl a b kind =
     (if a = b then 0
      else if kind = Text then text_order D a b
      else if plain_uint a \<and> plain_uint b then
        (if length a \<noteq> length b then (if length a < length b then -1 else 1)
         else if a < b then -1 else 1)
      else if kind = Number then
        (let c = compare_numbers dbl a b in if c \<noteq> 0 then c else bytes_order a b)
      else if a = [] then -1
      else if b = [] then 1
      else
        (case (parse_number dbl a, parse_number dbl b) of
           (Some x, Some y) \<Rightarrow> if x < y then -1 else if x > y then 1 else bytes_order a b
         | (Some _, None) \<Rightarrow> -1
         | (None, Some _) \<Rightarrow> 1
         | (None, None) \<Rightarrow> text_order D a b))"

definition kind_of :: "KeyKind list \<Rightarrow> nat \<Rightarrow> KeyKind" where
  "kind_of kinds segment = (if kinds = [] then Mixed else kinds ! min segment (length kinds - 1))"

definition before_nul :: "string \<Rightarrow> string" where
  "before_nul s = takeWhile (\<lambda>c. c \<noteq> CHR 0x00) s"

definition from_nul :: "string \<Rightarrow> string" where
  "from_nul s = dropWhile (\<lambda>c. c \<noteq> CHR 0x00) s"

lemma length_from_nul: "length (from_nul s) \<le> length s"
  unfolding from_nul_def by (rule length_dropWhile_le)

text \<open>The loop over the segments: what is left of the two keys.\<close>

function cmp_segments :: "collation_data \<Rightarrow> (rat \<Rightarrow> rat option) \<Rightarrow> KeyKind list \<Rightarrow> nat \<Rightarrow> string \<Rightarrow> string \<Rightarrow> int" where
  "cmp_segments D dbl kinds segment a b =
     (let c = cmp_key_segment D dbl (before_nul a) (before_nul b) (kind_of kinds segment) in
      if c \<noteq> 0 then c
      else if from_nul a = [] \<and> from_nul b = [] then 0
      else if from_nul a = [] then -1
      else if from_nul b = [] then 1
      else cmp_segments D dbl kinds (segment + 1) (tl (from_nul a)) (tl (from_nul b)))"
  by pat_completeness auto
termination
proof (relation "measure (\<lambda>(D, dbl, kinds, segment, a, b). length a)", goal_cases)
  case (2 D dbl kinds segment a b x)
  then show ?case
    using length_from_nul [of a] by (cases "from_nul a") auto
qed simp

declare cmp_segments.simps [simp del]

definition cmp_keys :: "collation_data \<Rightarrow> (rat \<Rightarrow> rat option) \<Rightarrow> KeyKind list \<Rightarrow> string \<Rightarrow> string \<Rightarrow> int" where
  "cmp_keys D dbl kinds a b =
     (if CHR 0x00 \<notin> set a \<and> CHR 0x00 \<notin> set b then cmp_key_segment D dbl a b (kind_of kinds 0)
      else cmp_segments D dbl kinds 0 a b)"

section \<open>The order of one segment\<close>

definition segment_comparison :: "collation_data \<Rightarrow> (rat \<Rightarrow> rat option) \<Rightarrow> KeyKind \<Rightarrow> bool" where
  "segment_comparison D dbl kind \<longleftrightarrow> comparison (\<lambda>a b. cmp_key_segment D dbl a b kind)"

lemma text_segment: "segment_comparison D dbl Text"
proof -
  have "(\<lambda>a b. cmp_key_segment D dbl a b Text) = collation_compare D"
    by (intro ext) (simp add: cmp_key_segment_def text_order_def coll.cmp_refl)
  then show ?thesis
    unfolding segment_comparison_def by (simp add: coll.comparison_axioms)
qed

lemma dig_order:
  assumes "is_dig x" "is_dig y"
  shows "x < y \<longleftrightarrow> dig x < dig y" "x = y \<longleftrightarrow> dig x = dig y"
proof -
  have ge: "48 \<le> (of_char x :: nat)" "48 \<le> (of_char y :: nat)"
    using assms by (auto simp: is_dig_def less_eq_char_def)
  show "x < y \<longleftrightarrow> dig x < dig y"
    using ge unfolding dig_def less_char_def by linarith
  have "x = y \<longleftrightarrow> (of_char x :: nat) = of_char y"
    by (simp add: of_char_eq_iff)
  then show "x = y \<longleftrightarrow> dig x = dig y"
    using ge unfolding dig_def by linarith
qed

text \<open>Among canonical numbers, shorter first and then by bytes is the order of their values.\<close>

lemma digits_order:
  assumes "list_all is_dig a" "list_all is_dig b" "length a = length b"
  shows "a < b \<longleftrightarrow> digits_nat a < digits_nat b"
  using assms(3,1,2)
proof (induction a b rule: list_induct2)
  case (Cons x a y b)
  have dig: "x < y \<longleftrightarrow> dig x < dig y" "x = y \<longleftrightarrow> dig x = dig y"
    using Cons.prems dig_order [of x y] by simp_all
  have lt: "digits_nat a < 10 ^ length b" "digits_nat b < 10 ^ length b"
    using digits_nat_less [of a] digits_nat_less [of b] Cons.prems Cons.hyps by simp_all
  have step: "dig u * 10 ^ n + p < dig v * 10 ^ n + q" if "dig u < dig v" "p < 10 ^ n" for u v p q n
  proof -
    have "(dig u + 1) * 10 ^ n \<le> dig v * 10 ^ n"
      using that by (intro mult_right_mono) auto
    then show ?thesis
      using that by simp
  qed
  consider "dig x < dig y" | "dig x = dig y" | "dig y < dig x"
    by linarith
  then show ?case
  proof cases
    case 1
    then show ?thesis
      using dig Cons.hyps step [OF 1 lt(1)] by simp
  next
    case 2
    then show ?thesis
      using dig Cons by simp
  next
    case 3
    then have "\<not> x < y" "x \<noteq> y"
      using dig by auto
    then show ?thesis
      using Cons.hyps step [OF 3 lt(2), of "digits_nat a"] by simp
  qed
qed simp

text \<open>
  What is assumed of the conversion to a double: an integer of at most 15 digits is a double, so it is read exactly.
\<close>

definition small_ints_exact :: "(rat \<Rightarrow> rat option) \<Rightarrow> bool" where
  "small_ints_exact dbl \<longleftrightarrow> (\<forall>n < 10 ^ 15. dbl (of_nat n) = Some (of_nat n))"

lemma parse_number_plain:
  assumes "small_ints_exact dbl" "plain_uint s"
  shows "parse_number dbl s = Some (of_nat (digits_nat s))"
proof -
  obtain c r where s: "s = c # r" and c: "is_dig c" and r: "list_all is_dig s"
    using assms(2) by (cases s) (auto simp: plain_uint_def)
  have "digits_nat s < 10 ^ length s"
    by (rule digits_nat_less [OF r])
  also have "(10::nat) ^ length s \<le> 10 ^ 15"
    using assms(2) by (intro power_increasing) (auto simp: plain_uint_def)
  finally have "dbl (of_nat (digits_nat s)) = Some (of_nat (digits_nat s))"
    using assms(1) unfolding small_ints_exact_def by blast
  moreover have "c \<noteq> CHR ''+''" "c \<noteq> CHR ''-''"
    using c by auto
  moreover have "scan_unsigned s = Some (s, [], 0, [])"
    using span_digits_text [OF r, of "[]"] s by (simp add: scan_unsigned_def scan_fraction_def scan_exponent_def)
  moreover have "decimal_rat False s [] 0 = of_nat (digits_nat s)"
    by (simp add: decimal_rat_fraction)
  ultimately show ?thesis
    using c s by (simp add: parse_number_def from_chars_double_def del: digits_nat_simps)
qed

lemma plain_uint_lower:
  assumes "plain_uint s" "1 < length s"
  shows "10 ^ (length s - 1) \<le> digits_nat s"
proof -
  obtain c r where s: "s = c # r" and c: "is_dig c" "c \<noteq> CHR ''0''"
    using assms by (cases s) (auto simp: plain_uint_def)
  have "is_dig (CHR ''0'')" "dig (CHR ''0'') = 0"
    by (simp_all add: is_dig_def dig_def)
  then have "1 \<le> dig c"
    using c dig_order(2) [of c "CHR ''0''"] by simp
  then have "1 * 10 ^ length r \<le> dig c * 10 ^ length r"
    by (intro mult_right_mono) auto
  then have "10 ^ length r \<le> dig c * 10 ^ length r + digits_nat r"
    by linarith
  then show ?thesis
    using s by simp
qed

lemma plain_uint_order:
  assumes "plain_uint a" "plain_uint b"
  shows "length a < length b \<Longrightarrow> digits_nat a < digits_nat b"
    and "length a = length b \<Longrightarrow> a < b \<longleftrightarrow> digits_nat a < digits_nat b"
proof -
  assume lt: "length a < length b"
  have "digits_nat a < 10 ^ length a"
    using assms(1) by (intro digits_nat_less) (simp add: plain_uint_def)
  also have "(10::nat) ^ length a \<le> 10 ^ (length b - 1)"
    using lt by (intro power_increasing) auto
  also have "\<dots> \<le> digits_nat b"
  proof (rule plain_uint_lower [OF assms(2)])
    show "1 < length b"
      using lt assms by (cases a) (auto simp: plain_uint_def)
  qed
  finally show "digits_nat a < digits_nat b" .
next
  assume "length a = length b"
  then show "a < b \<longleftrightarrow> digits_nat a < digits_nat b"
    using assms by (intro digits_order) (auto simp: plain_uint_def)
qed

lemma plain_uint_cmp:
  assumes "plain_uint a" "plain_uint b" "a \<noteq> b"
  shows "(if length a \<noteq> length b then (if length a < length b then -1 else 1) else if a < b then -1 else 1)
    = three_way (digits_nat a) (digits_nat b)"
  using assms plain_uint_order [of a b] plain_uint_order [of b a] by (auto simp: three_way_def not_less_iff_gr_or_eq)

definition mixed_class :: "(rat \<Rightarrow> rat option) \<Rightarrow> string \<Rightarrow> nat" where
  "mixed_class dbl s = (if s = [] then 0 else if parse_number dbl s \<noteq> None then 1 else 2)"

definition mixed_cmp :: "collation_data \<Rightarrow> (rat \<Rightarrow> rat option) \<Rightarrow> nat \<Rightarrow> string \<Rightarrow> string \<Rightarrow> int" where
  "mixed_cmp D dbl k a b =
     (if k = 0 then three_way () ()
      else if k = 1 then
        (if three_way (the (parse_number dbl a)) (the (parse_number dbl b)) \<noteq> 0
         then three_way (the (parse_number dbl a)) (the (parse_number dbl b)) else three_way a b)
      else collation_compare D a b)"

lemma mixed_cmp_comparison: "comparison (mixed_cmp D dbl k)"
proof -
  have "comparison (\<lambda>a b. three_way () ())"
    by (rule comparison_three_way)
  moreover have "comparison (\<lambda>a b. if three_way (the (parse_number dbl a)) (the (parse_number dbl b)) \<noteq> 0
    then three_way (the (parse_number dbl a)) (the (parse_number dbl b)) else three_way a b)"
    by (rule comparison_lex [OF comparison_three_way comparison_three_way])
  moreover have "comparison (collation_compare D)"
    by (rule coll.comparison_axioms)
  ultimately show ?thesis
    unfolding mixed_cmp_def by (cases "k = 0"; cases "k = 1") simp_all
qed

lemma mixed_segment_eq:
  assumes "small_ints_exact dbl"
  shows "cmp_key_segment D dbl a b Mixed =
    (if mixed_class dbl a = mixed_class dbl b then mixed_cmp D dbl (mixed_class dbl a) a b
     else three_way (mixed_class dbl a) (mixed_class dbl b))"
proof (cases "a = b")
  case True
  then show ?thesis
    by (simp add: cmp_key_segment_def comparison.cmp_refl [OF mixed_cmp_comparison])
next
  case ne: False
  show ?thesis
  proof (cases "plain_uint a \<and> plain_uint b")
    case True
    have "digits_nat a \<noteq> digits_nat b"
      using True ne plain_uint_order [of a b] plain_uint_order [of b a] by (cases "length a" "length b" rule: linorder_cases) auto
    then show ?thesis
      using ne True parse_number_plain [OF assms] plain_uint_cmp [of a b]
      by (auto simp: cmp_key_segment_def mixed_class_def mixed_cmp_def three_way_def plain_uint_def)
  next
    case False
    then show ?thesis
      using ne by (auto simp: cmp_key_segment_def mixed_class_def mixed_cmp_def bytes_order_def text_order_def three_way_def
          split: option.splits)
  qed
qed

lemma mixed_segment: "small_ints_exact dbl \<Longrightarrow> segment_comparison D dbl Mixed"
  unfolding segment_comparison_def mixed_segment_eq by (rule comparison_classes [OF mixed_cmp_comparison])


section \<open>The order of keys\<close>

lemma cmp_segments_eq:
  "cmp_segments D dbl kinds i a b =
     (let c = cmp_key_segment D dbl (before_nul a) (before_nul b) (kind_of kinds i) in
      if c \<noteq> 0 then c
      else if from_nul a = [] then (if from_nul b = [] then 0 else -1)
      else if from_nul b = [] then 1
      else cmp_segments D dbl kinds (i + 1) (tl (from_nul a)) (tl (from_nul b)))"
  by (subst cmp_segments.simps) (simp add: Let_def)

text \<open>An index whose columns are each ordered by a total preorder.\<close>

locale index_order =
  fixes D :: collation_data and dbl :: "rat \<Rightarrow> rat option" and kinds :: "KeyKind list"
  assumes segs: "segment_comparison D dbl (kind_of kinds i)"
begin

lemma seg_cmp: "comparison (\<lambda>a b. cmp_key_segment D dbl a b (kind_of kinds i))"
  using segs by (simp add: segment_comparison_def)

lemma tl_from_nul: "from_nul s \<noteq> [] \<Longrightarrow> length (tl (from_nul s)) < length s"
  using length_from_nul [of s] by (cases "from_nul s") auto

lemma cmp_segments_range: "cmp_segments D dbl kinds i a b \<in> {-1, 0, 1}"
proof (induction "length a" arbitrary: i a b rule: less_induct)
  case less
  then show ?case
    using comparison.cmp_range [OF seg_cmp [of i], of "before_nul a" "before_nul b"] tl_from_nul [of a]
    by (auto simp: cmp_segments_eq [of D dbl kinds i a b] Let_def)
qed

lemma cmp_segments_swap: "cmp_segments D dbl kinds i b a = - cmp_segments D dbl kinds i a b"
proof (induction "length a" arbitrary: i a b rule: less_induct)
  case less
  then show ?case
    using comparison.cmp_swap [OF seg_cmp [of i], of "before_nul b" "before_nul a"] tl_from_nul [of a]
    by (simp add: cmp_segments_eq [of D dbl kinds i a b] cmp_segments_eq [of D dbl kinds i b a] Let_def)
qed

lemma cmp_segments_trans:
  "cmp_segments D dbl kinds i a b \<le> 0 \<Longrightarrow> cmp_segments D dbl kinds i b c \<le> 0 \<Longrightarrow> cmp_segments D dbl kinds i a c \<le> 0"
proof (induction "length a" arbitrary: i a b c rule: less_induct)
  case less
  define seg where "seg x y = cmp_key_segment D dbl (before_nul x) (before_nul y) (kind_of kinds i)" for x y
  have s: "comparison seg"
    unfolding seg_def comparison_def
    using comparison.cmp_range [OF seg_cmp [of i]] comparison.cmp_swap [OF seg_cmp [of i]] comparison.cmp_trans [OF seg_cmp [of i]]
    by blast
  have eq: "cmp_segments D dbl kinds i x y =
    (if seg x y \<noteq> 0 then seg x y
     else if from_nul x = [] then (if from_nul y = [] then 0 else -1)
     else if from_nul y = [] then 1
     else cmp_segments D dbl kinds (i + 1) (tl (from_nul x)) (tl (from_nul y)))" for x y
    unfolding cmp_segments_eq [of D dbl kinds i x y] Let_def seg_def ..
  have le: "seg a b \<le> 0" "seg b c \<le> 0"
    using less.prems unfolding eq [of a b] eq [of b c] by (simp_all split: if_splits)
  show ?case
  proof (cases "seg a b = 0 \<and> seg b c = 0")
    case True
    then have "seg a c = 0"
      using comparison.cmp_eq_left [OF s, of a b c] by simp
    moreover have "cmp_segments D dbl kinds (i + 1) (tl (from_nul a)) (tl (from_nul c)) \<le> 0"
      if "from_nul a \<noteq> []" "cmp_segments D dbl kinds (i + 1) (tl (from_nul a)) (tl (from_nul b)) \<le> 0"
        "cmp_segments D dbl kinds (i + 1) (tl (from_nul b)) (tl (from_nul c)) \<le> 0"
      by (rule less.hyps [OF tl_from_nul [OF that(1)] that(2,3)])
    ultimately show ?thesis
      using True less.prems unfolding eq [of a b] eq [of b c] eq [of a c]
      by (cases "from_nul a = []"; cases "from_nul b = []"; cases "from_nul c = []") simp_all
  next
    case False
    then have "seg a c < 0"
      using le comparison.cmp_less_le_trans [OF s, of a b c] comparison.cmp_le_less_trans [OF s, of a b c] by linarith
    then show ?thesis
      unfolding eq [of a c] by simp
  qed
qed

lemma cmp_keys_segments: "cmp_keys D dbl kinds a b = cmp_segments D dbl kinds 0 a b"
proof (cases "CHR 0x00 \<notin> set a \<and> CHR 0x00 \<notin> set b")
  case True
  then have "before_nul a = a" "before_nul b = b" "from_nul a = []" "from_nul b = []"
    by (auto simp: before_nul_def from_nul_def takeWhile_eq_all_conv)
  then show ?thesis
    using True by (simp add: cmp_keys_def cmp_segments_eq Let_def)
qed (auto simp: cmp_keys_def)

end

sublocale index_order \<subseteq> key_order "cmp_keys D dbl kinds"
  by unfold_locales (use cmp_segments_range in \<open>auto simp: cmp_keys_segments intro: cmp_segments_trans cmp_segments_swap\<close>)

context index_order
begin

lemma keys_ordered: "key_order (cmp_keys D dbl kinds)"
  by unfold_locales

end

lemma index_orderI: "small_ints_exact dbl \<Longrightarrow> Number \<notin> set kinds \<Longrightarrow> index_order D dbl kinds"
proof
  fix i
  assume "small_ints_exact dbl" "Number \<notin> set kinds"
  moreover have "kind_of kinds i \<in> {Mixed, Text}"
  proof (cases "kinds = []")
    case False
    then have "kind_of kinds i \<in> set kinds"
      by (simp add: kind_of_def min_less_iff_disj)
    then show ?thesis
      using calculation(2) KeyKind.exhaust by (metis insertCI)
  qed (simp add: kind_of_def)
  ultimately show "segment_comparison D dbl (kind_of kinds i)"
    using text_segment mixed_segment by auto
qed

interpretation text_index: index_order D dbl "[Text]" for D dbl
  by unfold_locales (simp add: kind_of_def text_segment)


section \<open>Keys of numbers\<close>

lemma int64_digits: "digits_nat s < 10 ^ 15 \<Longrightarrow> in_int64 (int (digits_nat s))"
  by (simp add: in_int64_def int64_max_def int64_min_def)

lemma parse_int64_plain: "plain_uint s \<Longrightarrow> parse_int64_text s = Some (int (digits_nat s))"
proof -
  assume p: "plain_uint s"
  then obtain c r where s: "s = c # r" and all: "list_all is_dig s"
    by (cases s) (auto simp: plain_uint_def)
  then have c: "c \<noteq> CHR ''+''" "c \<noteq> CHR ''-''"
    by auto
  have "digits_nat s < 10 ^ length s"
    by (rule digits_nat_less [OF all])
  also have "(10::nat) ^ length s \<le> 10 ^ 15"
    using p by (intro power_increasing) (auto simp: plain_uint_def)
  finally have "in_int64 (int (digits_nat s))"
    by (rule int64_digits)
  then show ?thesis
    using s c all by (simp add: parse_int64_text_def from_chars_int64_def del: digits_nat_simps)
qed

lemma number_segment_ints:
  assumes "parse_int64_text a = Some x" "parse_int64_text b = Some y"
  shows "cmp_key_segment D dbl a b Number = (if x \<noteq> y then three_way x y else three_way a b)"
proof (cases "plain_uint a \<and> plain_uint b")
  case True
  then have "x = int (digits_nat a)" "y = int (digits_nat b)"
    using assms parse_int64_plain by auto
  moreover have "digits_nat a = digits_nat b \<Longrightarrow> a = b"
    using True plain_uint_order [of a b] plain_uint_order [of b a] by (cases "length a" "length b" rule: linorder_cases) auto
  ultimately show ?thesis
    using True plain_uint_cmp [of a b] by (cases "a = b") (auto simp: cmp_key_segment_def three_way_def)
next
  case False
  then show ?thesis
    using assms by (auto simp: cmp_key_segment_def compare_numbers_def Let_def bytes_order_def three_way_def)
qed


text \<open>Texts of 64-bit integers: the keys of an integer column.\<close>

definition int_keys :: "string set" where
  "int_keys = {s. parse_int64_text s \<noteq> None}"

lemma digits_no_nul: "list_all is_dig s \<Longrightarrow> CHR 0x00 \<notin> set s"
  by (auto simp: list_all_iff is_dig_def less_eq_char_def)

lemma from_chars_no_nul: "from_chars_int64 s = Some v \<Longrightarrow> CHR 0x00 \<notin> set s"
  using digits_no_nul [of s] digits_no_nul [of "tl s"]
  by (cases s) (auto simp: from_chars_int64_def Let_def split: if_splits)

lemma int_key_no_nul: "s \<in> int_keys \<Longrightarrow> CHR 0x00 \<notin> set s"
  using from_chars_no_nul [of s] from_chars_no_nul [of "tl s"]
  by (cases s) (auto simp: int_keys_def parse_int64_text_def split: if_splits)

lemma cmp_keys_ints:
  assumes "parse_int64_text a = Some x" "parse_int64_text b = Some y"
  shows "cmp_keys D dbl [Number] a b = (if x \<noteq> y then three_way x y else three_way a b)"
  using assms int_key_no_nul [of a] int_key_no_nul [of b] number_segment_ints [OF assms]
  by (simp add: cmp_keys_def kind_of_def int_keys_def)

interpretation int_index: key_domain "cmp_keys D dbl [Number]" int_keys "[]" for D dbl
proof
  show "[] \<notin> int_keys"
    by (simp add: int_keys_def parse_int64_text_def from_chars_int64_def)
next
  fix a b c
  assume "a \<in> int_keys" "b \<in> int_keys" "c \<in> int_keys" "cmp_keys D dbl [Number] a b \<le> 0" "cmp_keys D dbl [Number] b c \<le> 0"
  then show "cmp_keys D dbl [Number] a c \<le> 0"
    by (auto simp: int_keys_def cmp_keys_ints three_way_def split: if_splits)
qed (auto simp: int_keys_def cmp_keys_ints three_way_def split: if_splits)


section \<open>Properties\<close>

text \<open>
  C20: An index of text columns and columns of unknown type is a sorted map. Whatever keys are set and removed, the tree never fails, its invariant
  holds (all leaves at one depth, separators that bound their subtrees, every node but the root filled), its entries are the ones of the map, sorted
  and one for each key up to the order's equality, and a search finds what the map holds.
\<close>

theorem index_refines_map:
  assumes "small_ints_exact dbl" "Number \<notin> set kinds"
  shows "\<exists>t. run_index (cmp_keys D dbl kinds) ops None = Some t
    \<and> tree_inv (cmp_keys D dbl kinds) t
    \<and> collect_all_kv t = run_map (cmp_keys D dbl kinds) ops []
    \<and> kv_sorted (cmp_keys D dbl kinds) (collect_all_kv t)
    \<and> (\<forall>key. bt_search (cmp_keys D dbl kinds) t key = kv_lookup (cmp_keys D dbl kinds) key (run_map (cmp_keys D dbl kinds) ops []))"
proof -
  have k: "key_order (cmp_keys D dbl kinds)"
    using index_orderI [OF assms] by (rule index_order.keys_ordered)
  show ?thesis
    using key_order.run_index_total [OF k, of ops] key_order.tree_search [OF k] key_order.tree_sorted [OF k] by metis
qed


lemmas key_eval = cmp_keys_def kind_of_def cmp_key_segment_def plain_uint_def is_dig_def less_eq_char_def less_char_def

theorem index_refines_map_witness:
  "\<exists>t. run_index (cmp_keys ascii_data Some []) [Put ''10'' ''a'', Put ''9'' ''b'', Put ''2'' ''c'', Del ''9''] None = Some t
    \<and> collect_all_kv t = [(''2'', ''c''), (''10'', ''a'')]
    \<and> bt_search (cmp_keys ascii_data Some []) t ''10'' = Some ''a''"
proof -
  have "run_map (cmp_keys ascii_data Some []) [Put ''10'' ''a'', Put ''9'' ''b'', Put ''2'' ''c'', Del ''9''] [] = [(''2'', ''c''), (''10'', ''a'')]"
    by (simp add: key_eval kv_remove_def)
  moreover have "kv_lookup (cmp_keys ascii_data Some []) ''10'' [(''2'', ''c''), (''10'', ''a'')] = Some ''a''"
    by (simp add: key_eval kv_lookup_def)
  ultimately show ?thesis
    using index_refines_map [of Some "[]" ascii_data "[Put ''10'' ''a'', Put ''9'' ''b'', Put ''2'' ''c'', Del ''9'']"]
    by (fastforce simp: small_ints_exact_def)
qed

text \<open>
  The scans of such an index, after any history: the values and keys of a range, the entries from a key on and up to a key (with the key or without) are
  the entries of the map that the order puts there, in order; the values of the tree are all of the map's.
\<close>

theorem index_scans:
  assumes "small_ints_exact dbl" "Number \<notin> set kinds" "run_index (cmp_keys D dbl kinds) ops None = Some t"
  shows "range_search (cmp_keys D dbl kinds) t start fin =
      map snd (filter (\<lambda>kv. cmp_keys D dbl kinds start (fst kv) \<le> 0 \<and> cmp_keys D dbl kinds (fst kv) fin \<le> 0) (run_map (cmp_keys D dbl kinds) ops []))
    \<and> range_keys (cmp_keys D dbl kinds) t start fin =
      map fst (filter (\<lambda>kv. cmp_keys D dbl kinds start (fst kv) \<le> 0 \<and> cmp_keys D dbl kinds (fst kv) fin \<le> 0) (run_map (cmp_keys D dbl kinds) ops []))
    \<and> scan_from (cmp_keys D dbl kinds) t start inclusive =
      filter (\<lambda>kv. if inclusive then cmp_keys D dbl kinds start (fst kv) \<le> 0 else cmp_keys D dbl kinds start (fst kv) < 0) (run_map (cmp_keys D dbl kinds) ops [])
    \<and> scan_to (cmp_keys D dbl kinds) t fin inclusive =
      filter (\<lambda>kv. if inclusive then cmp_keys D dbl kinds (fst kv) fin \<le> 0 else cmp_keys D dbl kinds (fst kv) fin < 0) (run_map (cmp_keys D dbl kinds) ops [])
    \<and> all_values t = map snd (run_map (cmp_keys D dbl kinds) ops [])"
proof -
  have k: "key_order (cmp_keys D dbl kinds)"
    using index_orderI [OF assms(1,2)] by (rule index_order.keys_ordered)
  have t: "tree_below (cmp_keys D dbl kinds) None t" "collect_all_kv t = run_map (cmp_keys D dbl kinds) ops []"
    using key_order.run_index_tree [OF k assms(3)] by (simp_all add: tree_inv_def)
  show ?thesis
    using key_order.tree_scans [OF k t(1)] t(2) by simp
qed

theorem index_scans_witness:
  "\<exists>t. run_index (cmp_keys ascii_data Some []) [Put ''10'' ''a'', Put ''9'' ''b'', Put ''2'' ''c''] None = Some t
    \<and> range_search (cmp_keys ascii_data Some []) t ''3'' ''10'' = [''b'', ''a'']
    \<and> scan_to (cmp_keys ascii_data Some []) t ''9'' False = [(''2'', ''c'')]"
proof -
  let ?cmp = "cmp_keys ascii_data Some []" and ?ops = "[Put ''10'' ''a'', Put ''9'' ''b'', Put ''2'' ''c'']"
  have e: "small_ints_exact Some" "Number \<notin> set ([] :: KeyKind list)"
    by (simp_all add: small_ints_exact_def)
  obtain t where t: "run_index ?cmp ?ops None = Some t"
    using key_order.run_index_total [OF index_order.keys_ordered [OF index_orderI [OF e]]] by blast
  have m: "run_map ?cmp ?ops [] = [(''2'', ''c''), (''9'', ''b''), (''10'', ''a'')]"
    by (simp add: key_eval)
  have "filter (\<lambda>kv. ?cmp ''3'' (fst kv) \<le> 0 \<and> ?cmp (fst kv) ''10'' \<le> 0) [(''2'', ''c''), (''9'', ''b''), (''10'', ''a'')] = [(''9'', ''b''), (''10'', ''a'')]"
    "filter (\<lambda>kv. ?cmp (fst kv) ''9'' < 0) [(''2'', ''c''), (''9'', ''b''), (''10'', ''a'')] = [(''2'', ''c'')]"
    by (simp_all add: key_eval)
  moreover have "range_search ?cmp t ''3'' ''10'' = map snd (filter (\<lambda>kv. ?cmp ''3'' (fst kv) \<le> 0 \<and> ?cmp (fst kv) ''10'' \<le> 0) (run_map ?cmp ?ops []))"
    using index_scans [OF e t] by blast
  moreover have "scan_to ?cmp t ''9'' False = filter (\<lambda>kv. if False then ?cmp (fst kv) ''9'' \<le> 0 else ?cmp (fst kv) ''9'' < 0) (run_map ?cmp ?ops [])"
    using index_scans [OF e t] by blast
  ultimately have "range_search ?cmp t ''3'' ''10'' = [''b'', ''a'']" "scan_to ?cmp t ''9'' False = [(''2'', ''c'')]"
    unfolding m if_False by simp_all
  then show ?thesis
    using t by blast
qed


text \<open>
  An index of an integer column (its keys are texts of 64-bit integers) is a sorted map too, and its order is the one of the values: a smaller
  integer comes first, and only spellings of one integer are ordered by their bytes.
\<close>

theorem int_index_refines_map:
  assumes "op_key ` set ops \<subseteq> int_keys"
  shows "\<exists>t. run_index (cmp_keys D dbl [Number]) ops None = Some t
    \<and> collect_all_kv t = run_map (cmp_keys D dbl [Number]) ops []
    \<and> sorted_wrt (\<lambda>a b. (parse_int64_text (fst a), fst a) < (parse_int64_text (fst b), fst b)) (collect_all_kv t)
    \<and> (\<forall>key \<in> int_keys. bt_search (cmp_keys D dbl [Number]) t key =
        kv_lookup (cmp_keys D dbl [Number]) key (run_map (cmp_keys D dbl [Number]) ops []))"
proof -
  obtain t where t: "run_index (cmp_keys D dbl [Number]) ops None = Some t"
    "tree_below (int_index.total_cmp D dbl) (Some []) t"
    by (rule int_index.run_domain_tree [OF assms])
  note search = int_index.run_domain_search [OF assms t(1)]
  have "sorted_wrt (\<lambda>a b. (parse_int64_text (fst a), fst a) < (parse_int64_text (fst b), fst b)) (collect_all_kv t)"
  proof (rule sorted_wrt_mono_rel)
    show "sorted_wrt (\<lambda>a b. cmp_keys D dbl [Number] (fst a) (fst b) < 0) (collect_all_kv t)"
      using search(1,2) by (simp add: kv_sorted_def)
    fix a b
    assume "a \<in> set (collect_all_kv t)" "b \<in> set (collect_all_kv t)" "cmp_keys D dbl [Number] (fst a) (fst b) < 0"
    moreover obtain x y where "parse_int64_text (fst a) = Some x" "parse_int64_text (fst b) = Some y"
      using int_index.entries_keys [OF t(2)] calculation by (fastforce simp: int_keys_def)
    ultimately show "(parse_int64_text (fst a), fst a) < (parse_int64_text (fst b), fst b)"
      by (auto simp: cmp_keys_ints three_way_def split: if_splits)
  qed
  then show ?thesis
    using t(1) search by simp
qed

theorem int_index_refines_map_witness:
  "\<exists>t. run_index (cmp_keys ascii_data Some [Number]) [Put ''-5'' ''a'', Put ''-10'' ''b'', Del ''-5''] None = Some t
    \<and> collect_all_kv t = [(''-10'', ''b'')]"
proof -
  have p: "parse_int64_text ''-5'' = Some (-5)" "parse_int64_text ''-10'' = Some (-10)"
    by (simp_all add: parse_int64_text_def from_chars_int64_def is_dig_def less_eq_char_def dig_def in_int64_def int64_max_def int64_min_def)
  have "run_map (cmp_keys ascii_data Some [Number]) [Put ''-5'' ''a'', Put ''-10'' ''b'', Del ''-5''] [] = [(''-10'', ''b'')]"
    by (simp add: cmp_keys_ints [OF p(1) p(2)] cmp_keys_ints [OF p(1) p(1)] cmp_keys_ints [OF p(2) p(1)] three_way_def kv_remove_def)
  then show ?thesis
    using int_index_refines_map [of "[Put ''-5'' ''a'', Put ''-10'' ''b'', Del ''-5'']" ascii_data Some] p by (auto simp: int_keys_def)
qed

text \<open>
  Beyond the integers the order of a column of numbers is not transitive: two integers are compared exactly, an integer and a decimal as doubles, with
  the bytes deciding a tie. With the rounding to the nearest double, three negative numbers near \<open>2 ^ 53\<close> each come before the next one.
\<close>

theorem number_order_cycle:
  assumes "dbl (-9007199254740992) = Some (-9007199254740992)" "dbl (-9007199254740993) = Some (-9007199254740992)"
    and "dbl (-18014398509481985 / 2) = Some (-9007199254740992)"
  shows "cmp_keys D dbl [Number] ''-9007199254740993'' ''-9007199254740992'' = -1
    \<and> cmp_keys D dbl [Number] ''-9007199254740992'' ''-9007199254740992.5'' = -1
    \<and> cmp_keys D dbl [Number] ''-9007199254740992.5'' ''-9007199254740993'' = -1"
proof -
  have p: "parse_int64_text ''-9007199254740992'' = Some (-9007199254740992)" "parse_int64_text ''-9007199254740993'' = Some (-9007199254740993)"
    "parse_int64_text ''-9007199254740992.5'' = None" "parse_wide_integer_text ''-9007199254740992.5'' = None"
    by (simp_all add: parse_int64_text_def from_chars_int64_def is_dig_def less_eq_char_def dig_def in_int64_def int64_max_def int64_min_def
        parse_wide_integer_text_def from_chars_uint64_def opt_sign_def)
  have "text_to_number dbl ''-9007199254740992'' = -9007199254740992" "text_to_number dbl ''-9007199254740993'' = -9007199254740992"
    "text_to_number dbl ''-9007199254740992.5'' = -9007199254740992"
    using assms
    by (simp_all add: text_to_number_def Let_def is_blank_def number_length_def opt_sign_def scan_unsigned_def span_digits_def is_dig_def less_eq_char_def
        scan_fraction_def scan_exponent_def number_value_def from_chars_double_def decimal_rat_def pow10_rat_def dig_def)
  then show ?thesis
    using cmp_keys_ints [OF p(2,1), of D dbl]
    by (simp add: key_eval compare_numbers_def p three_way_def bytes_order_def Let_def split: option.split)
qed

definition round_near :: "rat \<Rightarrow> rat option" where
  "round_near r = Some (if \<bar>r + 9007199254740992\<bar> \<le> 1 then -9007199254740992 else r)"

theorem number_order_cycle_witness:
  "cmp_keys ascii_data round_near [Number] ''-9007199254740992'' ''-9007199254740992.5'' = -1
    \<and> cmp_keys ascii_data round_near [Number] ''-9007199254740992.5'' ''-9007199254740993'' = -1"
  using number_order_cycle [of round_near ascii_data] by (simp add: round_near_def)

end
