(* ===== verification/Conditions.thy ===== *)
theory Conditions
  imports IndexKeys StatementSplit
begin

text \<open>
  The conditions of WHERE clauses in three-valued logic (\<^verbatim>\<open>eval_cond3\<close> and \<^verbatim>\<open>eval_single3\<close> of
  \<^verbatim>\<open>core/src/engine/executor/executor_eval.cpp\<close>, the types of \<^verbatim>\<open>core/include/engine/parser/ast.hpp\<close>) and the ranges taken from them for gap locks and for
  partition pruning (\<^verbatim>\<open>core/src/engine/executor/gap_lock.cpp\<close>).

  An expression is a column or something else (\<open>OtherExpr\<close>); what else the evaluation of a condition asks about expressions (their values, their classes, whether they
  show a date or an ENUM as a number, whether they are of single precision), the answer of a subquery and of \<^verbatim>\<open>std::regex\<close> are the fields of an \<open>evaluator\<close>.
  \<open>None\<close> is an exception. The count of texts that were not wholly numbers, which only UPDATE and DELETE look at, has no influence on the answer and is left out, and so is
  the clock of \<^verbatim>\<open>deadline::tick\<close>.
\<close>

section \<open>Conditions\<close>

datatype Tri = TriFalse | TriTrue | TriUnknown

datatype Operator = OpEq | OpNe | OpGt | OpLt | OpGte | OpLte | OpIn | OpNotIn | OpLike | OpNotLike | OpBetween | OpNotBetween
  | OpIsNull | OpIsNotNull | OpExists | OpNotExists | OpRegexp | OpNotRegexp

datatype 'e ArithExpr = Col string ValueClass | OtherExpr 'e

datatype 'e ConditionValue =
    Literal string bool
  | Subquery 'e
  | Between string string bool bool
  | LiteralList "string list" "bool list"
  | Arith "'e ArithExpr"

record 'e Condition =
  cd_left :: "'e ArithExpr"
  cd_op :: Operator
  cd_value :: "'e ConditionValue"
  cd_left_class :: ValueClass
  cd_right_class :: ValueClass

datatype 'e CondExpr = CondAnd "'e CondExpr" "'e CondExpr" | CondOr "'e CondExpr" "'e CondExpr" | CondNot "'e CondExpr" | CondLeaf "'e Condition"

record 'e evaluator =
  ev_column :: "row \<Rightarrow> string \<Rightarrow> string option"
  ev_arith :: "row \<Rightarrow> 'e \<Rightarrow> string option"
  ev_exact :: "row \<Rightarrow> 'e \<Rightarrow> string option"
  ev_class :: "'e \<Rightarrow> ValueClass"
  ev_viewed :: "'e ArithExpr \<Rightarrow> bool"
  ev_number :: "'e ArithExpr \<Rightarrow> string \<Rightarrow> string"
  ev_single :: "'e ArithExpr \<Rightarrow> bool"
  ev_widen :: "string \<Rightarrow> string"
  ev_regex :: "string \<Rightarrow> string \<Rightarrow> bool option"
  ev_subquery :: "row \<Rightarrow> 'e Condition \<Rightarrow> Tri option"

definition NULL_VALUE :: string where "NULL_VALUE = ''NULL''"

definition tri :: "bool \<Rightarrow> Tri" where
  "tri b = (if b then TriTrue else TriFalse)"

definition tri_not :: "Tri \<Rightarrow> Tri" where
  "tri_not t = (case t of TriTrue \<Rightarrow> TriFalse | TriFalse \<Rightarrow> TriTrue | TriUnknown \<Rightarrow> TriUnknown)"

definition written_class :: "(rat \<Rightarrow> rat option) \<Rightarrow> string \<Rightarrow> bool \<Rightarrow> ValueClass" where
  "written_class dbl value quoted =
     (if quoted then ClassText else if parse_number dbl value \<noteq> None then ClassNumber else ClassUnknown)"

fun class_of_expr :: "'e evaluator \<Rightarrow> 'e ArithExpr \<Rightarrow> ValueClass" where
  "class_of_expr E (Col _ cls) = cls"
| "class_of_expr E (OtherExpr e) = ev_class E e"

text \<open>A column: the names \<^verbatim>\<open>true\<close> and \<^verbatim>\<open>false\<close> are values, a column the row does not have is NULL.\<close>

definition column_value :: "'e evaluator \<Rightarrow> row \<Rightarrow> string \<Rightarrow> string" where
  "column_value E row name =
     (let lower = map (\<lambda>c. if 65 \<le> code c \<and> code c \<le> 90 then char_of (code c + 32) else c) name in
      if lower = ''true'' then ''true''
      else if lower = ''false'' then ''false''
      else case ev_column E row name of Some v \<Rightarrow> v | None \<Rightarrow> NULL_VALUE)"

fun eval_arith :: "'e evaluator \<Rightarrow> bool \<Rightarrow> row \<Rightarrow> 'e ArithExpr \<Rightarrow> string option" where
  "eval_arith E all_digits row (Col name _) = Some (column_value E row name)"
| "eval_arith E all_digits row (OtherExpr e) = (if all_digits then ev_exact E row e else ev_arith E row e)"

section \<open>Evaluation\<close>

definition order_holds :: "Operator \<Rightarrow> int \<Rightarrow> bool" where
  "order_holds cop order =
     (case cop of OpEq \<Rightarrow> order = 0 | OpNe \<Rightarrow> order \<noteq> 0 | OpGt \<Rightarrow> order > 0 | OpLt \<Rightarrow> order < 0 | OpGte \<Rightarrow> order \<ge> 0 | OpLte \<Rightarrow> order \<le> 0
      | _ \<Rightarrow> False)"

definition between_side :: "collation_data \<Rightarrow> (rat \<Rightarrow> rat option) \<Rightarrow> ValueClass \<Rightarrow> string \<Rightarrow> string \<Rightarrow> bool \<Rightarrow> bool \<Rightarrow> Tri" where
  "between_side D dbl left_class v bound quoted is_lower =
     (if bound = NULL_VALUE then TriUnknown
      else let order = compare_classed D dbl left_class (written_class dbl bound quoted) v bound in
        tri (if is_lower then order \<ge> 0 else order \<le> 0))"

definition eval_between :: "'e evaluator \<Rightarrow> collation_data \<Rightarrow> (rat \<Rightarrow> rat option) \<Rightarrow> 'e Condition \<Rightarrow> ValueClass \<Rightarrow> string
    \<Rightarrow> string \<Rightarrow> string \<Rightarrow> bool \<Rightarrow> bool \<Rightarrow> Tri" where
  "eval_between E D dbl cond left_class v lo hi lo_quoted hi_quoted =
     (if v = NULL_VALUE then TriUnknown
      else let v1 = (if ev_viewed E (cd_left cond) \<and> (\<not> lo_quoted \<or> \<not> hi_quoted) then ev_number E (cd_left cond) v else v);
               v2 = (if ev_single E (cd_left cond) then ev_widen E v1 else v1);
               low = between_side D dbl left_class v2 lo lo_quoted True;
               high = between_side D dbl left_class v2 hi hi_quoted False;
               inside = (if low = TriFalse \<or> high = TriFalse then TriFalse else if low = TriTrue \<and> high = TriTrue then TriTrue else TriUnknown) in
        if cd_op cond \<noteq> OpNotBetween then inside else tri_not inside)"

definition eval_list :: "'e evaluator \<Rightarrow> collation_data \<Rightarrow> (rat \<Rightarrow> rat option) \<Rightarrow> 'e Condition \<Rightarrow> ValueClass \<Rightarrow> string
    \<Rightarrow> string list \<Rightarrow> bool list \<Rightarrow> Tri" where
  "eval_list E D dbl cond left_class v values quoted =
     (if v = NULL_VALUE then TriUnknown
      else if cd_op cond = OpIn \<or> cd_op cond = OpNotIn then
        (let shown = ev_viewed E (cd_left cond) \<or> ev_single E (cd_left cond);
             number_val = (if ev_viewed E (cd_left cond) then ev_number E (cd_left cond) v else if ev_single E (cd_left cond) then ev_widen E v else []);
             q = (\<lambda>i. i < length quoted \<and> quoted ! i);
             same = (\<lambda>i. compare_classed D dbl left_class (written_class dbl (values ! i) (q i)) (if shown \<and> \<not> q i then number_val else v) (values ! i) = 0) in
         if \<exists>i \<in> set [0..<length values]. values ! i \<noteq> NULL_VALUE \<and> same i then tri (cd_op cond = OpIn)
         else if NULL_VALUE \<in> set values then TriUnknown
         else tri (cd_op cond = OpNotIn))
      else TriFalse)"

text \<open>A value without quotes that looks like a name is the column of that name when the row has one.\<close>

definition ident_like :: "(rat \<Rightarrow> rat option) \<Rightarrow> string \<Rightarrow> bool \<Rightarrow> bool" where
  "ident_like dbl lit quoted \<longleftrightarrow> \<not> quoted \<and> lit \<noteq> [] \<and> word_start (hd lit) \<and> parse_number dbl lit = None"

definition literal_value :: "'e evaluator \<Rightarrow> (rat \<Rightarrow> rat option) \<Rightarrow> row \<Rightarrow> string \<Rightarrow> bool \<Rightarrow> string" where
  "literal_value E dbl row lit quoted =
     (if ident_like dbl lit quoted then (case ev_column E row lit of Some v \<Rightarrow> v | None \<Rightarrow> lit) else lit)"

text \<open>The comparison itself, when both sides are known.\<close>

definition eval_operator :: "'e evaluator \<Rightarrow> collation_data \<Rightarrow> (rat \<Rightarrow> rat option) \<Rightarrow> Operator \<Rightarrow> ValueClass \<Rightarrow> ValueClass \<Rightarrow> string \<Rightarrow> string \<Rightarrow> Tri option" where
  "eval_operator E D dbl cop left_class right_class v lit =
     (if cop \<in> {OpEq, OpNe, OpGt, OpLt, OpGte, OpLte} then Some (tri (order_holds cop (compare_classed D dbl left_class right_class v lit)))
      else if cop = OpLike then map_option tri (like D v lit)
      else if cop = OpNotLike then map_option (\<lambda>b. tri (\<not> b)) (like D v lit)
      else if cop = OpRegexp then Some (case ev_regex E v lit of Some b \<Rightarrow> tri b | None \<Rightarrow> TriFalse)
      else if cop = OpNotRegexp then Some (case ev_regex E v lit of Some b \<Rightarrow> tri (\<not> b) | None \<Rightarrow> TriTrue)
      else Some TriFalse)"

definition eval_value :: "'e evaluator \<Rightarrow> collation_data \<Rightarrow> (rat \<Rightarrow> rat option) \<Rightarrow> 'e Condition \<Rightarrow> ValueClass \<Rightarrow> ValueClass \<Rightarrow> string \<Rightarrow> string
    \<Rightarrow> 'e ArithExpr option \<Rightarrow> Tri option" where
  "eval_value E D dbl cond left_class right_class v lit right =
     (let right_viewed = (case right of Some e \<Rightarrow> ev_viewed E e | None \<Rightarrow> False);
          right_single = (case right of Some e \<Rightarrow> ev_single E e | None \<Rightarrow> False);
          left_viewed = ev_viewed E (cd_left cond); left_single = ev_single E (cd_left cond) in
      if cd_op cond = OpIsNull then Some (tri (v = NULL_VALUE))
      else if cd_op cond = OpIsNotNull then Some (tri (v \<noteq> NULL_VALUE))
      else if v = NULL_VALUE then Some TriUnknown
      else if lit = ''__NULL__'' \<or> lit = NULL_VALUE then Some TriUnknown
      else
        let v1 = (if left_viewed \<and> right_class = ClassNumber then ev_number E (cd_left cond) v else v);
            lit1 = (if \<not> (left_viewed \<and> right_class = ClassNumber) \<and> right_viewed \<and> left_class = ClassNumber then ev_number E (the right) lit else lit);
            v2 = (if left_single \<and> \<not> left_viewed then ev_widen E v1 else v1);
            lit2 = (if right_single \<and> \<not> right_viewed then ev_widen E lit1 else lit1) in
        eval_operator E D dbl (cd_op cond) left_class right_class v2 lit2)"

definition eval_single3 :: "'e evaluator \<Rightarrow> collation_data \<Rightarrow> (rat \<Rightarrow> rat option) \<Rightarrow> row \<Rightarrow> 'e Condition \<Rightarrow> Tri option" where
  "eval_single3 E D dbl row cond =
     (case cd_value cond of
        Subquery _ \<Rightarrow> ev_subquery E row cond
      | _ \<Rightarrow>
        (let compares_numbers = cd_op cond \<notin> {OpLike, OpNotLike, OpRegexp, OpNotRegexp} in
         case eval_arith E compares_numbers row (cd_left cond) of
           None \<Rightarrow> None
         | Some v \<Rightarrow>
           (let left_class = (if cd_left_class cond \<noteq> ClassUnknown then cd_left_class cond else class_of_expr E (cd_left cond)) in
            case cd_value cond of
              Between lo hi lo_quoted hi_quoted \<Rightarrow> Some (eval_between E D dbl cond left_class v lo hi lo_quoted hi_quoted)
            | LiteralList values quoted \<Rightarrow> Some (eval_list E D dbl cond left_class v values quoted)
            | Arith e \<Rightarrow>
                (case eval_arith E compares_numbers row e of
                   None \<Rightarrow> None
                 | Some lit \<Rightarrow> eval_value E D dbl cond left_class (if cd_right_class cond = ClassUnknown then class_of_expr E e else cd_right_class cond) v lit (Some e))
            | Literal lit quoted \<Rightarrow>
                eval_value E D dbl cond left_class (if cd_right_class cond = ClassUnknown then written_class dbl lit quoted else cd_right_class cond) v
                  (literal_value E dbl row lit quoted) None
            | Subquery _ \<Rightarrow> None)))"

fun eval_cond3 :: "'e evaluator \<Rightarrow> collation_data \<Rightarrow> (rat \<Rightarrow> rat option) \<Rightarrow> row \<Rightarrow> 'e CondExpr \<Rightarrow> Tri option" where
  "eval_cond3 E D dbl row (CondAnd a b) =
     (case eval_cond3 E D dbl row a of
        None \<Rightarrow> None
      | Some l \<Rightarrow>
          if l = TriFalse then Some TriFalse
          else (case eval_cond3 E D dbl row b of
              None \<Rightarrow> None
            | Some r \<Rightarrow> Some (if r = TriFalse then TriFalse else if l = TriTrue \<and> r = TriTrue then TriTrue else TriUnknown)))"
| "eval_cond3 E D dbl row (CondOr a b) =
     (case eval_cond3 E D dbl row a of
        None \<Rightarrow> None
      | Some l \<Rightarrow>
          if l = TriTrue then Some TriTrue
          else (case eval_cond3 E D dbl row b of
              None \<Rightarrow> None
            | Some r \<Rightarrow> Some (if r = TriTrue then TriTrue else if l = TriFalse \<and> r = TriFalse then TriFalse else TriUnknown)))"
| "eval_cond3 E D dbl row (CondNot a) = map_option tri_not (eval_cond3 E D dbl row a)"
| "eval_cond3 E D dbl row (CondLeaf cond) = eval_single3 E D dbl row cond"

definition matches_condexpr :: "'e evaluator \<Rightarrow> collation_data \<Rightarrow> (rat \<Rightarrow> rat option) \<Rightarrow> row \<Rightarrow> 'e CondExpr option \<Rightarrow> bool option" where
  "matches_condexpr E D dbl row condition =
     (case condition of None \<Rightarrow> Some True | Some c \<Rightarrow> map_option (\<lambda>t. t = TriTrue) (eval_cond3 E D dbl row c))"

fun collect_and_leaves :: "'e CondExpr \<Rightarrow> 'e Condition list" where
  "collect_and_leaves (CondAnd a b) = collect_and_leaves a @ collect_and_leaves b"
| "collect_and_leaves (CondLeaf cond) = [cond]"
| "collect_and_leaves (CondOr a b) = []"
| "collect_and_leaves (CondNot a) = []"

section \<open>Ranges\<close>

record GapRange =
  lo_bound :: "string option"
  hi_bound :: "string option"
  lo_inclusive :: bool
  hi_inclusive :: bool

definition cmp_val :: "collation_data \<Rightarrow> (rat \<Rightarrow> rat option) \<Rightarrow> string \<Rightarrow> string \<Rightarrow> int" where
  "cmp_val D dbl a b =
     (case (parse_number dbl a, parse_number dbl b) of
        (Some x, Some y) \<Rightarrow> if x < y then -1 else if x > y then 1 else 0
      | _ \<Rightarrow> collation_compare D a b)"

definition narrow_lo :: "collation_data \<Rightarrow> (rat \<Rightarrow> rat option) \<Rightarrow> GapRange \<Rightarrow> string \<Rightarrow> bool \<Rightarrow> GapRange" where
  "narrow_lo D dbl rng v inclusive =
     (case lo_bound rng of
        None \<Rightarrow> rng\<lparr>lo_bound := Some v, lo_inclusive := inclusive\<rparr>
      | Some lo \<Rightarrow>
          (let c = cmp_val D dbl v lo in
           if c > 0 \<or> c = 0 \<and> \<not> inclusive \<and> lo_inclusive rng then rng\<lparr>lo_bound := Some v, lo_inclusive := inclusive\<rparr> else rng))"

definition narrow_hi :: "collation_data \<Rightarrow> (rat \<Rightarrow> rat option) \<Rightarrow> GapRange \<Rightarrow> string \<Rightarrow> bool \<Rightarrow> GapRange" where
  "narrow_hi D dbl rng v inclusive =
     (case hi_bound rng of
        None \<Rightarrow> rng\<lparr>hi_bound := Some v, hi_inclusive := inclusive\<rparr>
      | Some hi \<Rightarrow>
          (let c = cmp_val D dbl v hi in
           if c < 0 \<or> c = 0 \<and> \<not> inclusive \<and> hi_inclusive rng then rng\<lparr>hi_bound := Some v, hi_inclusive := inclusive\<rparr> else rng))"

definition narrow_leaf :: "collation_data \<Rightarrow> (rat \<Rightarrow> rat option) \<Rightarrow> string \<Rightarrow> 'e Condition \<Rightarrow> GapRange \<Rightarrow> GapRange" where
  "narrow_leaf D dbl pk_col cond rng =
     (case cd_left cond of
        OtherExpr _ \<Rightarrow> rng
      | Col name _ \<Rightarrow>
          if name \<noteq> pk_col then rng
          else case cd_value cond of
              Literal v _ \<Rightarrow>
                (case cd_op cond of
                   OpEq \<Rightarrow> narrow_hi D dbl (narrow_lo D dbl rng v True) v True
                 | OpGt \<Rightarrow> narrow_lo D dbl rng v False
                 | OpGte \<Rightarrow> narrow_lo D dbl rng v True
                 | OpLt \<Rightarrow> narrow_hi D dbl rng v False
                 | OpLte \<Rightarrow> narrow_hi D dbl rng v True
                 | _ \<Rightarrow> rng)
            | Between lo hi _ _ \<Rightarrow>
                if cd_op cond = OpBetween then narrow_hi D dbl (narrow_lo D dbl rng lo True) hi True else rng
            | _ \<Rightarrow> rng)"

definition unbounded :: GapRange where
  "unbounded = \<lparr>lo_bound = None, hi_bound = None, lo_inclusive = True, hi_inclusive = True\<rparr>"

definition extract_pk_gap_range :: "collation_data \<Rightarrow> (rat \<Rightarrow> rat option) \<Rightarrow> 'e CondExpr option \<Rightarrow> string \<Rightarrow> GapRange" where
  "extract_pk_gap_range D dbl condition pk_col =
     (case condition of None \<Rightarrow> unbounded | Some c \<Rightarrow> fold (narrow_leaf D dbl pk_col) (collect_and_leaves c) unbounded)"

definition gap_range_contains :: "collation_data \<Rightarrow> (rat \<Rightarrow> rat option) \<Rightarrow> GapRange \<Rightarrow> string \<Rightarrow> bool" where
  "gap_range_contains D dbl rng value \<longleftrightarrow>
     (case lo_bound rng of None \<Rightarrow> True | Some lo \<Rightarrow> (let c = cmp_val D dbl value lo in \<not> (c < 0 \<or> c = 0 \<and> \<not> lo_inclusive rng))) \<and>
     (case hi_bound rng of None \<Rightarrow> True | Some hi \<Rightarrow> (let c = cmp_val D dbl value hi in \<not> (c > 0 \<or> c = 0 \<and> \<not> hi_inclusive rng)))"

section \<open>Values on which the two orders agree\<close>

text \<open>
  \<^verbatim>\<open>cmp_val\<close> compares two texts that are numbers as doubles, whatever their classes; a WHERE clause compares numbers exactly where it can and two texts as texts. They
  agree on the integers that are doubles, and on the texts that are no numbers.
\<close>

definition exact_int :: "(rat \<Rightarrow> rat option) \<Rightarrow> string \<Rightarrow> bool" where
  "exact_int dbl s \<longleftrightarrow> (case parse_int64_text s of Some x \<Rightarrow> parse_number dbl s = Some (of_int x) | None \<Rightarrow> False)"

definition in_kind :: "(rat \<Rightarrow> rat option) \<Rightarrow> ValueClass \<Rightarrow> string \<Rightarrow> bool" where
  "in_kind dbl cls s \<longleftrightarrow> (case cls of ClassNumber \<Rightarrow> exact_int dbl s | ClassText \<Rightarrow> parse_number dbl s = None | ClassUnknown \<Rightarrow> False)"

definition kind_cmp :: "collation_data \<Rightarrow> ValueClass \<Rightarrow> string \<Rightarrow> string \<Rightarrow> int" where
  "kind_cmp D cls a b = (if cls = ClassNumber then three_way (parse_int64_text a) (parse_int64_text b) else collation_compare D a b)"

lemma plain_uint_exact: "small_ints_exact dbl \<Longrightarrow> plain_uint s \<Longrightarrow> exact_int dbl s"
  by (simp add: exact_int_def parse_int64_plain parse_number_plain)

lemma three_way_Some: "three_way (Some x) (Some y) = three_way x y"
  by (simp add: three_way_def)

interpretation kind: comparison "kind_cmp D cls" for D cls
  using comparison_three_way [of parse_int64_text] coll.comparison_axioms [of D] by (cases "cls = ClassNumber") (simp_all add: kind_cmp_def [abs_def])

lemma cmp_val_kind:
  assumes "in_kind dbl cls a" "in_kind dbl cls b"
  shows "cmp_val D dbl a b = kind_cmp D cls a b"
  using assms by (cases cls) (auto simp: in_kind_def exact_int_def cmp_val_def kind_cmp_def three_way_Some three_way_def split: option.splits)

lemma classed_kind:
  assumes "in_kind dbl cls a" "in_kind dbl cls b" "cls = ClassText \<Longrightarrow> rc = ClassText"
  shows "compare_classed D dbl cls rc a b = kind_cmp D cls a b"
  using assms by (cases cls) (auto simp: in_kind_def exact_int_def compare_classed_def compare_numbers_def kind_cmp_def three_way_Some split: option.splits)

text \<open>
  A leaf of a condition on a column of class \<open>cls\<close>: a column shown as it is, compared with values of its kind that are no names of columns. Leaves on other columns and with
  other values (lists, expressions, subqueries) do not matter for a range.
\<close>

definition plain_value :: "(rat \<Rightarrow> rat option) \<Rightarrow> ValueClass \<Rightarrow> string \<Rightarrow> bool \<Rightarrow> bool" where
  "plain_value dbl cls w quoted \<longleftrightarrow> in_kind dbl cls w \<and> (cls = ClassText \<longrightarrow> quoted)"

definition plain_leaf :: "'e evaluator \<Rightarrow> (rat \<Rightarrow> rat option) \<Rightarrow> string \<Rightarrow> ValueClass \<Rightarrow> 'e Condition \<Rightarrow> bool" where
  "plain_leaf E dbl pk_col cls cond \<longleftrightarrow>
     (case cd_left cond of
        OtherExpr _ \<Rightarrow> True
      | Col name c \<Rightarrow>
          name = pk_col \<longrightarrow>
            (if cd_left_class cond \<noteq> ClassUnknown then cd_left_class cond else c) = cls \<and> \<not> ev_viewed E (cd_left cond) \<and> \<not> ev_single E (cd_left cond) \<and>
            (case cd_value cond of
               Literal w quoted \<Rightarrow> plain_value dbl cls w quoted \<and> (cls = ClassText \<longrightarrow> cd_right_class cond \<in> {ClassUnknown, ClassText})
             | Between lo hi lo_quoted hi_quoted \<Rightarrow> plain_value dbl cls lo lo_quoted \<and> plain_value dbl cls hi hi_quoted
             | _ \<Rightarrow> True))"

lemma plain_not_ident: "plain_value dbl cls w quoted \<Longrightarrow> \<not> ident_like dbl w quoted"
  by (cases cls) (auto simp: plain_value_def in_kind_def exact_int_def ident_like_def split: option.splits)

lemma tri_simps [simp]: "tri b = TriTrue \<longleftrightarrow> b" "tri b = TriFalse \<longleftrightarrow> \<not> b"
  by (simp_all add: tri_def)

text \<open>What a true leaf says about the value of its column.\<close>

lemma true_literal:
  assumes "eval_single3 E D dbl row cond = Some TriTrue" "plain_leaf E dbl pk_col cls cond" "in_kind dbl cls (column_value E row pk_col)"
    and "cd_left cond = Col pk_col c" "cd_value cond = Literal w quoted" "cd_op cond \<in> {OpEq, OpGt, OpGte, OpLt, OpLte}"
  shows "order_holds (cd_op cond) (cmp_val D dbl (column_value E row pk_col) w)"
proof -
  let ?v = "column_value E row pk_col"
  let ?rc = "if cd_right_class cond = ClassUnknown then written_class dbl w quoted else cd_right_class cond"
  have p: "plain_value dbl cls w quoted" "cls = ClassText \<Longrightarrow> cd_right_class cond \<in> {ClassUnknown, ClassText}"
    "(if cd_left_class cond \<noteq> ClassUnknown then cd_left_class cond else c) = cls" "\<not> ev_viewed E (cd_left cond)" "\<not> ev_single E (cd_left cond)"
    using assms(2,4,5) by (auto simp: plain_leaf_def split: if_splits)
  have "cls = ClassText \<Longrightarrow> ?rc = ClassText"
    using p(1,2) by (auto simp: plain_value_def written_class_def)
  then have c: "compare_classed D dbl cls ?rc ?v w = cmp_val D dbl ?v w"
    using p(1) classed_kind [OF assms(3)] cmp_val_kind [OF assms(3)] by (auto simp: plain_value_def)
  have l: "literal_value E dbl row w quoted = w"
    using plain_not_ident [OF p(1)] by (simp add: literal_value_def)
  have "eval_single3 E D dbl row cond = eval_value E D dbl cond cls ?rc ?v w None"
    using assms(4-6) p(3) l by (auto simp: eval_single3_def Let_def)
  also have "\<dots> = Some TriTrue \<longrightarrow> order_holds (cd_op cond) (compare_classed D dbl cls ?rc ?v w)"
    using assms(6) p(4,5) by (auto simp: eval_value_def eval_operator_def Let_def split: if_splits)
  finally show ?thesis
    using assms(1) c by simp
qed

lemma true_between:
  assumes "eval_single3 E D dbl row cond = Some TriTrue" "plain_leaf E dbl pk_col cls cond" "in_kind dbl cls (column_value E row pk_col)"
    and "cd_left cond = Col pk_col c" "cd_value cond = Between lo hi lo_quoted hi_quoted" "cd_op cond = OpBetween"
  shows "cmp_val D dbl (column_value E row pk_col) lo \<ge> 0" "cmp_val D dbl (column_value E row pk_col) hi \<le> 0"
proof -
  let ?v = "column_value E row pk_col"
  have p: "plain_value dbl cls lo lo_quoted" "plain_value dbl cls hi hi_quoted"
    "(if cd_left_class cond \<noteq> ClassUnknown then cd_left_class cond else c) = cls" "\<not> ev_viewed E (cd_left cond)" "\<not> ev_single E (cd_left cond)"
    using assms(2,4,5) by (auto simp: plain_leaf_def split: if_splits)
  have c: "compare_classed D dbl cls (written_class dbl w q) ?v w = cmp_val D dbl ?v w" if "plain_value dbl cls w q" for w q
    using that classed_kind [OF assms(3)] cmp_val_kind [OF assms(3)] by (auto simp: plain_value_def written_class_def)
  have "eval_single3 E D dbl row cond = Some (eval_between E D dbl cond cls ?v lo hi lo_quoted hi_quoted)"
    using assms(4-6) p(3) by (auto simp: eval_single3_def Let_def)
  then have "between_side D dbl cls ?v lo lo_quoted True = TriTrue \<and> between_side D dbl cls ?v hi hi_quoted False = TriTrue"
    using assms(1,6) p(4,5) by (auto simp: eval_between_def Let_def split: if_splits)
  then show "cmp_val D dbl ?v lo \<ge> 0" "cmp_val D dbl ?v hi \<le> 0"
    using c [OF p(1)] c [OF p(2)] by (auto simp: between_side_def Let_def split: if_splits)
qed

section \<open>A range holds what its condition selects\<close>

lemma contains_narrow_lo:
  "gap_range_contains D dbl rng v \<Longrightarrow> cmp_val D dbl v w > 0 \<or> inclusive \<and> cmp_val D dbl v w = 0 \<Longrightarrow>
    gap_range_contains D dbl (narrow_lo D dbl rng w inclusive) v"
  by (auto simp: gap_range_contains_def narrow_lo_def Let_def split: option.splits)

lemma contains_narrow_hi:
  "gap_range_contains D dbl rng v \<Longrightarrow> cmp_val D dbl v w < 0 \<or> inclusive \<and> cmp_val D dbl v w = 0 \<Longrightarrow>
    gap_range_contains D dbl (narrow_hi D dbl rng w inclusive) v"
  by (auto simp: gap_range_contains_def narrow_hi_def Let_def split: option.splits)

lemma contains_narrow_leaf:
  assumes "eval_single3 E D dbl row cond = Some TriTrue" "plain_leaf E dbl pk_col cls cond" "in_kind dbl cls (column_value E row pk_col)"
    and "gap_range_contains D dbl rng (column_value E row pk_col)"
  shows "gap_range_contains D dbl (narrow_leaf D dbl pk_col cond rng) (column_value E row pk_col)"
proof (cases "\<exists>c. cd_left cond = Col pk_col c")
  case True
  then obtain c where left: "cd_left cond = Col pk_col c"
    by blast
  show ?thesis
  proof (cases "cd_value cond")
    case (Literal w quoted)
    show ?thesis
      using true_literal [OF assms(1-3) left Literal] assms(4) left Literal
      by (cases "cd_op cond") (auto simp: narrow_leaf_def order_holds_def intro!: contains_narrow_lo contains_narrow_hi)
  next
    case (Between lo hi lo_quoted hi_quoted)
    show ?thesis
      using true_between [OF assms(1-3) left Between] assms(4) left Between
      by (cases "cd_op cond = OpBetween") (auto simp: narrow_leaf_def intro!: contains_narrow_lo contains_narrow_hi)
  qed (use assms(4) left in \<open>simp_all add: narrow_leaf_def\<close>)
next
  case False
  then show ?thesis
    using assms(4) by (auto simp: narrow_leaf_def split: ArithExpr.splits)
qed

lemma and_leaves_true:
  "eval_cond3 E D dbl row c = Some TriTrue \<Longrightarrow> cond \<in> set (collect_and_leaves c) \<Longrightarrow> eval_single3 E D dbl row cond = Some TriTrue"
  by (induction c) (auto split: option.splits if_splits)

lemma contains_narrow_all:
  assumes "in_kind dbl cls (column_value E row pk_col)" "gap_range_contains D dbl rng (column_value E row pk_col)"
    and "\<forall>cond \<in> set conds. eval_single3 E D dbl row cond = Some TriTrue \<and> plain_leaf E dbl pk_col cls cond"
  shows "gap_range_contains D dbl (fold (narrow_leaf D dbl pk_col) conds rng) (column_value E row pk_col)"
  using assms(2,3)
proof (induction conds arbitrary: rng)
  case (Cons cond conds)
  then show ?case
    using contains_narrow_leaf [of E D dbl row cond pk_col cls rng] assms(1) by auto
qed simp

lemma range_covers:
  assumes "matches_condexpr E D dbl row condition = Some True" "in_kind dbl cls (column_value E row pk_col)"
    and "\<forall>c. condition = Some c \<longrightarrow> list_all (plain_leaf E dbl pk_col cls) (collect_and_leaves c)"
  shows "gap_range_contains D dbl (extract_pk_gap_range D dbl condition pk_col) (column_value E row pk_col)"
proof (cases condition)
  case (Some c)
  then have "eval_cond3 E D dbl row c = Some TriTrue"
    using assms(1) by (auto simp: matches_condexpr_def)
  then have "\<forall>cond \<in> set (collect_and_leaves c). eval_single3 E D dbl row cond = Some TriTrue \<and> plain_leaf E dbl pk_col cls cond"
    using and_leaves_true assms(3) Some by (auto simp: list_all_iff)
  then show ?thesis
    using contains_narrow_all [OF assms(2), of D unbounded] Some by (simp add: extract_pk_gap_range_def unbounded_def gap_range_contains_def)
qed (simp add: extract_pk_gap_range_def unbounded_def gap_range_contains_def)

end
