(* ===== verification/Partition.thy ===== *)
theory Partition
  imports Conditions
begin

text \<open>
  Partitioned tables (\<^verbatim>\<open>core/src/engine/executor/executor_partition.cpp\<close>): the child table a value belongs to, the children a WHERE clause can select rows of, and
  how the rows of an INSERT are distributed. A row is put into the child of its value, and a statement is run on the children that pruning leaves: together they have to keep
  every row a condition selects.
\<close>

section \<open>Definitions\<close>

datatype PartitionKind = PartRange | PartList | PartHash

record PartitionDef =
  pd_name :: string
  range_upper_bound :: "string option"
  range_is_maxvalue :: bool
  list_values :: "string list"
  child_table :: string

record PartitionBy =
  pb_kind :: PartitionKind
  pb_column :: string
  pb_partitions :: "PartitionDef list"
  pb_hash_partitions :: int

text \<open>\<^verbatim>\<open>std::stoll\<close>; \<open>None\<close> is an exception.\<close>

definition stoll :: "string \<Rightarrow> int option" where
  "stoll s =
     (let (neg, r) = opt_sign (dropWhile is_blank s); ds = takeWhile is_dig r;
          v = (if neg then - int (digits_nat ds) else int (digits_nat ds)) in
      if ds = [] \<or> \<not> in_int64 v then None else Some v)"

definition hash_bucket :: "int \<Rightarrow> string \<Rightarrow> nat" where
  "hash_bucket count value =
     (let n = (case stoll value of Some n \<Rightarrow> n | None \<Rightarrow> 0) in nat (tmod (tmod n count + count) count))"

fun range_child :: "collation_data \<Rightarrow> (rat \<Rightarrow> rat option) \<Rightarrow> string \<Rightarrow> PartitionDef list \<Rightarrow> string" where
  "range_child D dbl value [] = []"
| "range_child D dbl value (p # ps) =
     (if range_is_maxvalue p then child_table p
      else if (case range_upper_bound p of Some b \<Rightarrow> cmp_val D dbl value b < 0 | None \<Rightarrow> False) then child_table p
      else range_child D dbl value ps)"

fun list_child :: "collation_data \<Rightarrow> string \<Rightarrow> PartitionDef list \<Rightarrow> string" where
  "list_child D value [] = []"
| "list_child D value (p # ps) =
     (if \<exists>v \<in> set (list_values p). collation_equal D v value then child_table p else list_child D value ps)"

definition partition_child_for_value :: "collation_data \<Rightarrow> (rat \<Rightarrow> rat option) \<Rightarrow> PartitionBy \<Rightarrow> string \<Rightarrow> string" where
  "partition_child_for_value D dbl info value =
     (case pb_kind info of
        PartRange \<Rightarrow> range_child D dbl value (pb_partitions info)
      | PartList \<Rightarrow> list_child D value (pb_partitions info)
      | PartHash \<Rightarrow>
          if pb_partitions info = [] then []
          else child_table (pb_partitions info ! hash_bucket (int (length (pb_partitions info))) value))"

text \<open>The values of one leaf, when it is one that tells them.\<close>

definition leaf_values :: "string \<Rightarrow> 'e Condition \<Rightarrow> string list option" where
  "leaf_values column cond =
     (case cd_left cond of
        OtherExpr _ \<Rightarrow> None
      | Col name _ \<Rightarrow>
          if name \<noteq> column then None
          else if cd_op cond = OpEq then (case cd_value cond of Literal v _ \<Rightarrow> Some [v] | _ \<Rightarrow> None)
          else if cd_op cond = OpIn then (case cd_value cond of LiteralList vs _ \<Rightarrow> Some vs | _ \<Rightarrow> None)
          else None)"

fun first_values :: "string \<Rightarrow> 'e Condition list \<Rightarrow> string list option" where
  "first_values column [] = None"
| "first_values column (c # cs) = (case leaf_values column c of Some vs \<Rightarrow> Some vs | None \<Rightarrow> first_values column cs)"

definition find_eq_or_in_values :: "'e CondExpr option \<Rightarrow> string \<Rightarrow> string list option" where
  "find_eq_or_in_values condition column = (case condition of None \<Rightarrow> None | Some c \<Rightarrow> first_values column (collect_and_leaves c))"

text \<open>Whether a partition, from \<open>part_lo\<close> on, overlaps the range of the query.\<close>

definition overlaps :: "collation_data \<Rightarrow> (rat \<Rightarrow> rat option) \<Rightarrow> GapRange \<Rightarrow> string option \<Rightarrow> PartitionDef \<Rightarrow> bool" where
  "overlaps D dbl qr part_lo p =
     (let part_hi = (if range_is_maxvalue p then None else range_upper_bound p) in
      \<not> (case (part_hi, lo_bound qr) of (Some h, Some l) \<Rightarrow> cmp_val D dbl h l \<le> 0 | _ \<Rightarrow> False) \<and>
      \<not> (case (part_lo, hi_bound qr) of
           (Some l, Some h) \<Rightarrow> (let c = cmp_val D dbl l h in c > 0 \<or> c = 0 \<and> \<not> hi_inclusive qr)
         | _ \<Rightarrow> False))"

fun prune_range :: "collation_data \<Rightarrow> (rat \<Rightarrow> rat option) \<Rightarrow> GapRange \<Rightarrow> string option \<Rightarrow> PartitionDef list \<Rightarrow> string list" where
  "prune_range D dbl qr prev_bound [] = []"
| "prune_range D dbl qr prev_bound (p # ps) =
     (if overlaps D dbl qr prev_bound p then [child_table p] else []) @ prune_range D dbl qr (range_upper_bound p) ps"

definition prune_list :: "collation_data \<Rightarrow> string list \<Rightarrow> PartitionDef list \<Rightarrow> string list" where
  "prune_list D values ps =
     map child_table (filter (\<lambda>p. \<exists>v \<in> set values. \<exists>listed \<in> set (list_values p). collation_equal D listed v) ps)"

definition prune_partition_children :: "collation_data \<Rightarrow> (rat \<Rightarrow> rat option) \<Rightarrow> PartitionBy \<Rightarrow> 'e CondExpr option \<Rightarrow> string list" where
  "prune_partition_children D dbl info condition =
     (let all_children = map child_table (pb_partitions info); or_all = (\<lambda>pruned. if pruned = [] then all_children else pruned) in
      if condition = None then all_children
      else case pb_kind info of
          PartRange \<Rightarrow>
            (let qr = extract_pk_gap_range D dbl condition (pb_column info) in
             if lo_bound qr = None \<and> hi_bound qr = None then all_children else or_all (prune_range D dbl qr None (pb_partitions info)))
        | PartList \<Rightarrow>
            (case find_eq_or_in_values condition (pb_column info) of
               None \<Rightarrow> all_children
             | Some values \<Rightarrow> or_all (prune_list D values (pb_partitions info)))
        | PartHash \<Rightarrow>
            (case find_eq_or_in_values condition (pb_column info) of
               None \<Rightarrow> all_children
             | Some values \<Rightarrow>
                 if length values \<noteq> 1 then all_children
                 else let child = partition_child_for_value D dbl info (hd values) in if child = [] then all_children else [child]))"

text \<open>The rows of an INSERT: a group for each child, in the order in which the children first occur.\<close>

datatype route_error = ShortRow | NoPartition string

definition add_to_group :: "string \<Rightarrow> 'v \<Rightarrow> (string \<times> 'v list) list \<Rightarrow> (string \<times> 'v list) list" where
  "add_to_group child r groups =
     (if child \<in> fst ` set groups then map (\<lambda>(c, rs). if c = child then (c, rs @ [r]) else (c, rs)) groups else groups @ [(child, [r])])"

fun route_rows :: "(string \<Rightarrow> string) \<Rightarrow> nat \<Rightarrow> string list list \<Rightarrow> (string \<times> string list list) list \<Rightarrow> route_error + (string \<times> string list list) list" where
  "route_rows child_of part_idx [] groups = Inr groups"
| "route_rows child_of part_idx (r # rs) groups =
     (if part_idx \<ge> length r then Inl ShortRow
      else let child = child_of (r ! part_idx) in
        if child = [] then Inl (NoPartition (r ! part_idx))
        else route_rows child_of part_idx rs (add_to_group child r groups))"

definition group_rows :: "collation_data \<Rightarrow> (rat \<Rightarrow> rat option) \<Rightarrow> PartitionBy \<Rightarrow> nat \<Rightarrow> string list list \<Rightarrow> route_error + (string \<times> string list list) list" where
  "group_rows D dbl info part_idx inserted = route_rows (partition_child_for_value D dbl info) part_idx inserted []"

definition leading_count :: "string \<Rightarrow> nat option" where
  "leading_count msg =
     (let ds = takeWhile is_dig msg in if ds = [] \<or> digits_nat ds \<ge> 2 ^ 64 then None else Some (digits_nat ds))"

section \<open>Range partitions\<close>

lemma range_child_overlaps:
  assumes "range_child D dbl v ps \<noteq> []" "gap_range_contains D dbl qr v" "in_kind dbl cls v"
    and "\<forall>p \<in> set ps. \<forall>b. range_upper_bound p = Some b \<longrightarrow> in_kind dbl cls b"
    and "\<forall>w. lo_bound qr = Some w \<or> hi_bound qr = Some w \<longrightarrow> in_kind dbl cls w"
    and "\<forall>b. prev_bound = Some b \<longrightarrow> in_kind dbl cls b \<and> cmp_val D dbl v b \<ge> 0"
  shows "range_child D dbl v ps \<in> set (prune_range D dbl qr prev_bound ps)"
  using assms(1,4,6)
proof (induction ps arbitrary: prev_bound)
  case (Cons p ps)
  have bound: "in_kind dbl cls b" if "range_upper_bound p = Some b" for b
    using Cons.prems(2) that by simp
  note kind = cmp_val_kind [where D = D and dbl = dbl and cls = cls]
  have lo: "cmp_val D dbl h l > 0" if "lo_bound qr = Some l" "cmp_val D dbl v h < 0" "in_kind dbl cls h" for h l
  proof -
    have "cmp_val D dbl v l \<ge> 0"
      using assms(2) that(1) by (auto simp: gap_range_contains_def Let_def)
    then show ?thesis
      using that assms(3,5) kind.cmp_le_less_trans [of D cls l v h] kind.cmp_gt [of D cls h l] kind.cmp_ge [of D cls v l] by (simp add: kind)
  qed
  have hi: "cmp_val D dbl l h < 0 \<or> cmp_val D dbl l h = 0 \<and> hi_inclusive qr" if "hi_bound qr = Some h" "prev_bound = Some l" for h l
  proof -
    have "cmp_val D dbl v h < 0 \<or> cmp_val D dbl v h = 0 \<and> hi_inclusive qr" "cmp_val D dbl v l \<ge> 0" "in_kind dbl cls l"
      using assms(2) that Cons.prems(3) by (auto simp: gap_range_contains_def Let_def)
    then show ?thesis
      using that assms(3,5) kind.cmp_le_less_trans [of D cls l v h] kind.cmp_trans [of D cls l v h] kind.cmp_ge [of D cls v l]
      by (auto simp: kind)
  qed
  show ?case
  proof (cases "range_is_maxvalue p \<or> (\<exists>b. range_upper_bound p = Some b \<and> cmp_val D dbl v b < 0)")
    case True
    then have "overlaps D dbl qr prev_bound p"
      using lo bound hi by (fastforce simp: overlaps_def Let_def split: option.splits)
    then show ?thesis
      using True by (auto split: option.splits)
  next
    case False
    then have "range_child D dbl v (p # ps) = range_child D dbl v ps"
      by (auto split: option.splits)
    moreover have "\<forall>b. range_upper_bound p = Some b \<longrightarrow> in_kind dbl cls b \<and> cmp_val D dbl v b \<ge> 0"
      using False bound by auto
    ultimately show ?thesis
      using Cons.IH [of "range_upper_bound p"] Cons.prems by simp
  qed
qed simp

definition bounds_in :: "(rat \<Rightarrow> rat option) \<Rightarrow> ValueClass \<Rightarrow> GapRange \<Rightarrow> bool" where
  "bounds_in dbl cls qr \<longleftrightarrow> (\<forall>w. lo_bound qr = Some w \<or> hi_bound qr = Some w \<longrightarrow> in_kind dbl cls w)"

lemma bounds_narrow:
  "bounds_in dbl cls rng \<Longrightarrow> in_kind dbl cls w \<Longrightarrow> bounds_in dbl cls (narrow_lo D dbl rng w i)"
  "bounds_in dbl cls rng \<Longrightarrow> in_kind dbl cls w \<Longrightarrow> bounds_in dbl cls (narrow_hi D dbl rng w i)"
  by (auto simp: bounds_in_def narrow_lo_def narrow_hi_def Let_def split: option.splits)

lemma bounds_narrow_leaf: "bounds_in dbl cls rng \<Longrightarrow> plain_leaf E dbl col cls cond \<Longrightarrow> bounds_in dbl cls (narrow_leaf D dbl col cond rng)"
  by (auto simp: narrow_leaf_def plain_leaf_def plain_value_def intro!: bounds_narrow split: ArithExpr.splits ConditionValue.splits Operator.splits)

lemma bounds_narrow_all:
  "bounds_in dbl cls rng \<Longrightarrow> list_all (plain_leaf E dbl col cls) conds \<Longrightarrow> bounds_in dbl cls (fold (narrow_leaf D dbl col) conds rng)"
  by (induction conds arbitrary: rng) (auto intro: bounds_narrow_leaf)

lemma range_child_in: "range_child D dbl v ps \<noteq> [] \<Longrightarrow> range_child D dbl v ps \<in> child_table ` set ps"
  by (induction ps) (auto split: option.splits)

lemma list_child_in: "list_child D v ps \<noteq> [] \<Longrightarrow> \<exists>p \<in> set ps. list_child D v ps = child_table p \<and> (\<exists>w \<in> set (list_values p). collation_equal D w v)"
  by (induction ps) auto

lemma hash_bucket_less:
  assumes "count > 0"
  shows "int (hash_bucket count value) < count"
proof -
  have "tmod a count < count" for a
  proof -
    have "a - sgn a * (\<bar>a\<bar> div count) * count = sgn a * (\<bar>a\<bar> mod count)"
      by (simp add: minus_div_mult_eq_mod [symmetric] right_diff_distrib sgn_mult_abs mult.assoc)
    moreover have "sgn a * (\<bar>a\<bar> mod count) \<le> \<bar>a\<bar> mod count"
      using assms pos_mod_sign [of count "\<bar>a\<bar>"] by (cases a "0::int" rule: linorder_cases) simp_all
    moreover have "\<bar>a\<bar> mod count < count"
      using assms by (rule pos_mod_bound)
    ultimately show ?thesis
      using assms by (simp only: tmod_def tdiv_def sgn_pos abs_of_pos mult_1_right)
  qed
  then show ?thesis
    using assms by (simp add: hash_bucket_def Let_def)
qed

lemma child_in_all:
  assumes "partition_child_for_value D dbl info v \<noteq> []"
  shows "partition_child_for_value D dbl info v \<in> set (map child_table (pb_partitions info))"
proof (cases "pb_kind info")
  case PartHash
  then show ?thesis
    using assms hash_bucket_less [of "int (length (pb_partitions info))" v] by (auto simp: partition_child_for_value_def)
next
  case PartRange
  then show ?thesis
    using assms range_child_in by (simp add: partition_child_for_value_def)
next
  case PartList
  then show ?thesis
    using assms list_child_in by (fastforce simp: partition_child_for_value_def)
qed

section \<open>List and hash partitions\<close>

text \<open>A leaf that tells the values of a column: they are values of its kind, none of them the name of a column.\<close>

definition plain_list :: "(rat \<Rightarrow> rat option) \<Rightarrow> ValueClass \<Rightarrow> 'e Condition \<Rightarrow> bool" where
  "plain_list dbl cls cond \<longleftrightarrow>
     (case cd_value cond of
        LiteralList vs quoted \<Rightarrow> \<forall>i \<in> set [0..<length vs]. plain_value dbl cls (vs ! i) (i < length quoted \<and> quoted ! i)
      | _ \<Rightarrow> True)"

lemma leaf_values_equal:
  assumes "eval_single3 E D dbl row cond = Some TriTrue" "plain_leaf E dbl col cls cond" "plain_list dbl cls cond"
    and "in_kind dbl cls (column_value E row col)" "leaf_values col cond = Some vs"
  shows "\<exists>w \<in> set vs. in_kind dbl cls w \<and> kind_cmp D cls (column_value E row col) w = 0"
proof -
  let ?v = "column_value E row col"
  obtain c where left: "cd_left cond = Col col c"
    using assms(5) by (auto simp: leaf_values_def split: ArithExpr.splits if_splits)
  show ?thesis
  proof (cases "cd_op cond = OpEq")
    case True
    then obtain w q where w: "cd_value cond = Literal w q" "vs = [w]"
      using assms(5) left by (auto simp: leaf_values_def split: ConditionValue.splits)
    have "in_kind dbl cls w"
      using assms(2) left w(1) by (auto simp: plain_leaf_def plain_value_def split: if_splits)
    moreover have "cmp_val D dbl ?v w = 0"
      using true_literal [OF assms(1,2,4) left w(1)] True by (simp add: order_holds_def)
    ultimately show ?thesis
      using cmp_val_kind [OF assms(4), of w D] w(2) by simp
  next
    case False
    then obtain q where opr: "cd_op cond = OpIn" and w: "cd_value cond = LiteralList vs q"
      using assms(5) left by (auto simp: leaf_values_def split: ConditionValue.splits if_splits)
    have p: "(if cd_left_class cond \<noteq> ClassUnknown then cd_left_class cond else c) = cls" "\<not> ev_viewed E (cd_left cond)" "\<not> ev_single E (cd_left cond)"
      using assms(2) left by (auto simp: plain_leaf_def split: if_splits)
    have "eval_list E D dbl cond cls ?v vs q = TriTrue"
      using assms(1) left w opr p(1) by (auto simp: eval_single3_def Let_def)
    then obtain i where i: "i < length vs" "compare_classed D dbl cls (written_class dbl (vs ! i) (i < length q \<and> q ! i)) ?v (vs ! i) = 0"
      using opr p(2,3) by (auto simp: eval_list_def Let_def split: if_splits)
    have "plain_value dbl cls (vs ! i) (i < length q \<and> q ! i)"
      using assms(3) w i(1) by (auto simp: plain_list_def)
    then have "in_kind dbl cls (vs ! i)" "kind_cmp D cls ?v (vs ! i) = 0"
      using i(2) classed_kind [OF assms(4), of "vs ! i" "written_class dbl (vs ! i) (i < length q \<and> q ! i)" D] by (auto simp: plain_value_def written_class_def)
    then show ?thesis
      using i(1) nth_mem by blast
  qed
qed

lemma first_values_leaf: "first_values col cs = Some vs \<Longrightarrow> \<exists>c \<in> set cs. leaf_values col c = Some vs"
  by (induction cs) (auto split: option.splits)

lemma takeWhile_digits: "list_all is_dig ds \<Longrightarrow> takeWhile is_dig ds = ds"
  by (simp add: list_all_iff takeWhile_eq_all_conv)

text \<open>An integer that is a number is read by \<^verbatim>\<open>std::stoll\<close> too.\<close>

lemma stoll_exact:
  assumes "exact_int dbl s"
  shows "stoll s = parse_int64_text s"
proof -
  have nb: "is_dig d \<Longrightarrow> \<not> is_blank d" for d
    by (auto simp: is_dig_def is_blank_def less_eq_char_def)
  obtain x where x: "parse_int64_text s = Some x" "parse_number dbl s \<noteq> None"
    using assms by (auto simp: exact_int_def split: option.splits)
  then obtain c r where s: "s = c # r"
    by (cases s) (auto simp: parse_int64_text_def from_chars_int64_def)
  consider "c = CHR ''+''" | "c = CHR ''-''" | "c \<noteq> CHR ''+''" "c \<noteq> CHR ''-''"
    by blast
  then show ?thesis
  proof cases
    case 1
    then have "r = [] \<or> hd r \<noteq> CHR ''-''"
      using x(2) s by (auto simp: parse_number_def)
    then show ?thesis
      using 1 x(1) s by (cases r) (auto simp: takeWhile_digits parse_int64_text_def from_chars_int64_def stoll_def opt_sign_def is_blank_def Let_def split: if_splits)
  next
    case 2
    then show ?thesis
      using x(1) s by (auto simp: takeWhile_digits parse_int64_text_def from_chars_int64_def stoll_def opt_sign_def is_blank_def Let_def split: if_splits)
  next
    case 3
    then have d: "list_all is_dig s"
      using x(1) s by (auto simp: parse_int64_text_def from_chars_int64_def Let_def split: if_splits)
    then have "\<not> is_blank c"
      using nb s by simp
    then show ?thesis
      using 3 d x(1) s by (auto simp: takeWhile_digits parse_int64_text_def from_chars_int64_def stoll_def opt_sign_def Let_def split: if_splits)
  qed
qed

section \<open>Distributing rows\<close>

definition group_of :: "string \<Rightarrow> (string \<times> 'v list) list \<Rightarrow> 'v list" where
  "group_of child groups = (case map_of groups child of Some rs \<Rightarrow> rs | None \<Rightarrow> [])"

lemma add_to_group_keys: "fst ` set (add_to_group child r groups) = insert child (fst ` set groups)"
  by (force simp: add_to_group_def)

lemma add_to_group_distinct:
  assumes "distinct (map fst groups)"
  shows "distinct (map fst (add_to_group child r groups))"
proof (cases "child \<in> fst ` set groups")
  case True
  then have "map fst (add_to_group child r groups) = map fst groups"
    by (auto simp: add_to_group_def)
  then show ?thesis
    using assms by (simp only:)
next
  case False
  then show ?thesis
    using assms by (simp add: add_to_group_def)
qed

lemma map_of_update:
  "map_of (map (\<lambda>(c, rs). if c = child then (c, rs @ [r]) else (c, rs)) groups) k =
    (if k = child then map_option (\<lambda>rs. rs @ [r]) (map_of groups k) else map_of groups k)"
  by (induction groups) auto

lemma group_of_add: "group_of k (add_to_group child r groups) = group_of k groups @ (if k = child then [r] else [])"
proof (cases "map_of groups child")
  case None
  then have "child \<notin> fst ` set groups"
    by (simp add: map_of_eq_None_iff)
  then show ?thesis
    using None by (auto simp: group_of_def add_to_group_def map_add_def split: option.split)
next
  case (Some rs)
  then have "child \<in> fst ` set groups"
    by (metis map_of_eq_None_iff option.distinct(1))
  then show ?thesis
    using Some by (auto simp: group_of_def add_to_group_def map_of_update split: option.split)
qed

lemma route_rows_groups:
  assumes "route_rows child_of i rs groups = Inr result" "distinct (map fst groups)"
  shows "distinct (map fst result) \<and> fst ` set result = fst ` set groups \<union> (\<lambda>r. child_of (r ! i)) ` set rs \<and>
    (\<forall>k. group_of k result = group_of k groups @ filter (\<lambda>r. child_of (r ! i) = k) rs)"
  using assms
proof (induction rs arbitrary: groups)
  case (Cons r rs)
  then have "route_rows child_of i rs (add_to_group (child_of (r ! i)) r groups) = Inr result"
    by (auto simp: Let_def split: if_splits)
  from Cons.IH [OF this add_to_group_distinct [OF Cons.prems(2)]] show ?case
    by (auto simp: add_to_group_keys group_of_add)
qed simp

section \<open>Concrete tables\<close>

text \<open>An evaluator for rows looked up by name, without other expressions, and a table in three ranges.\<close>

definition by_name :: "unit evaluator" where
  "by_name = \<lparr>ev_column = map_of, ev_arith = \<lambda>_ _. None, ev_exact = \<lambda>_ _. None, ev_class = \<lambda>_. ClassUnknown, ev_viewed = \<lambda>_. False, ev_number = \<lambda>_ v. v,
     ev_single = \<lambda>_. False, ev_widen = id, ev_regex = \<lambda>_ _. None, ev_subquery = \<lambda>_ _. None\<rparr>"

definition up_to :: "string option \<Rightarrow> string \<Rightarrow> PartitionDef" where
  "up_to bound child = \<lparr>pd_name = child, range_upper_bound = bound, range_is_maxvalue = (bound = None), list_values = [], child_table = child\<rparr>"

definition hundreds :: PartitionBy where
  "hundreds = \<lparr>pb_kind = PartRange, pb_column = ''id'', pb_partitions = [up_to (Some ''100'') ''c0'', up_to (Some ''200'') ''c1'', up_to None ''c2''], pb_hash_partitions = 0\<rparr>"

definition id_above :: "string \<Rightarrow> unit CondExpr option" where
  "id_above w = Some (CondLeaf \<lparr>cd_left = Col ''id'' ClassNumber, cd_op = OpGt, cd_value = Literal w False, cd_left_class = ClassNumber, cd_right_class = ClassNumber\<rparr>)"

lemma hundreds_case:
  "matches_condexpr by_name ascii_data Some [(''id'', ''150''), (''other'', ''20'')] (id_above ''120'') = Some True"
  "column_value by_name [(''id'', ''150''), (''other'', ''20'')] ''id'' = ''150''"
  "in_kind Some ClassNumber (column_value by_name [(''id'', ''150''), (''other'', ''20'')] ''id'')"
  "list_all (\<lambda>l. plain_leaf by_name Some ''id'' ClassNumber l \<and> plain_list Some ClassNumber l) (collect_and_leaves (the (id_above ''120'')))"
  by code_simp+

section \<open>Properties\<close>





text \<open>
  A column on the right of a comparison is taken for a text. The parser keeps \<^verbatim>\<open>id > other\<close> with the name of the column as an unquoted literal; evaluation reads the
  column, but the range is taken from the name as if it were a value. A row that satisfies the condition lies outside the range, and its partition is pruned.
\<close>

theorem column_bound_prunes:
  "matches_condexpr by_name ascii_data Some [(''id'', ''150''), (''other'', ''20'')] (id_above ''other'') = Some True \<and>
    \<not> gap_range_contains ascii_data Some (extract_pk_gap_range ascii_data Some (id_above ''other'') ''id'') ''150'' \<and>
    partition_child_for_value ascii_data Some hundreds ''150'' = ''c1'' \<and>
    prune_partition_children ascii_data Some hundreds (id_above ''other'') = [''c2'']"
  by (intro conjI) code_simp+

text \<open>
  The rows of an INSERT into a partitioned table are distributed without loss. When every row has a partition, each child gets exactly the rows whose value belongs to
  it, in their order, and every child of a row gets a statement; no child gets two.
\<close>

theorem insert_distributes:
  assumes "group_rows D dbl info part_idx inserted = Inr groups"
  shows "distinct (map fst groups) \<and> fst ` set groups = (\<lambda>r. partition_child_for_value D dbl info (r ! part_idx)) ` set inserted \<and>
    (\<forall>child. group_of child groups = filter (\<lambda>r. partition_child_for_value D dbl info (r ! part_idx) = child) inserted)"
  using route_rows_groups [of "partition_child_for_value D dbl info" part_idx inserted "[]" groups] assms by (simp add: group_rows_def group_of_def)

theorem insert_distributes_witness:
  "group_of ''c1'' [(''c1'', [[''150''], [''160'']]), (''c0'', [[''7'']])] =
    filter (\<lambda>r. partition_child_for_value ascii_data Some hundreds (r ! 0) = ''c1'') [[''150''], [''7''], [''160'']]"
proof -
  have "group_rows ascii_data Some hundreds 0 [[''150''], [''7''], [''160'']] = Inr [(''c1'', [[''150''], [''160'']]), (''c0'', [[''7'']])]"
    by code_simp
  from insert_distributes [OF this] show ?thesis
    by blast
qed

text \<open>
  Two texts that look like numbers are compared as numbers by the range but as texts by the WHERE clause: \<^verbatim>\<open>'10'\<close> satisfies \<^verbatim>\<open>code < '5'\<close> and is not in its range.
\<close>

theorem numeric_texts_differ:
  "compare_classed ascii_data Some ClassText ClassText ''10'' ''5'' = -1 \<and> cmp_val ascii_data Some ''10'' ''5'' = 1"
  by (intro conjI) code_simp+

end
