(* ===== verification/FairMutex.thy ===== *)
theory FairMutex
  imports Prelude
begin

text \<open>
  The reader-writer lock of the engine (\<^verbatim>\<open>FairSharedMutex\<close> of \<^verbatim>\<open>core/include/engine/sync.hpp\<close>), which \<^verbatim>\<open>RwLock\<close> and the locks of the tables are made of.

  Every call is a critical section under \<^verbatim>\<open>mutex_\<close>, split where \<^verbatim>\<open>cv_.wait\<close> releases the mutex: a call enters, and takes the lock or goes to sleep; \<^verbatim>\<open>notify_all\<close> wakes the
  sleepers, each of which looks again, and a sleeper may wake without a notification. The threads are numbered; \<open>phase\<close> is where a thread is. The counters of
  threads are natural numbers: there are fewer threads than an \<^verbatim>\<open>int\<close> can count.
\<close>

section \<open>Definitions\<close>

record FairSharedMutex =
  readers_active :: nat
  writers_waiting :: nat
  writer_active :: bool
  exclusive_count :: u64

definition mutex_init :: FairSharedMutex where
  "mutex_init = \<lparr>readers_active = 0, writers_waiting = 0, writer_active = False, exclusive_count = 0\<rparr>"

definition lock_enter :: "FairSharedMutex \<Rightarrow> FairSharedMutex" where
  "lock_enter m = m\<lparr>writers_waiting := writers_waiting m + 1\<rparr>"

definition lock_ready :: "FairSharedMutex \<Rightarrow> bool" where
  "lock_ready m \<longleftrightarrow> \<not> writer_active m \<and> readers_active m = 0"

definition lock_take :: "FairSharedMutex \<Rightarrow> FairSharedMutex" where
  "lock_take m = m\<lparr>writers_waiting := writers_waiting m - 1, writer_active := True, exclusive_count := exclusive_count m + 1\<rparr>"

definition unlock :: "FairSharedMutex \<Rightarrow> FairSharedMutex" where
  "unlock m = m\<lparr>writer_active := False\<rparr>"

definition lock_shared_ready :: "FairSharedMutex \<Rightarrow> bool" where
  "lock_shared_ready m \<longleftrightarrow> \<not> writer_active m \<and> writers_waiting m = 0"

definition lock_shared_take :: "FairSharedMutex \<Rightarrow> FairSharedMutex" where
  "lock_shared_take m = m\<lparr>readers_active := readers_active m + 1\<rparr>"

definition unlock_shared :: "FairSharedMutex \<Rightarrow> FairSharedMutex" where
  "unlock_shared m = m\<lparr>readers_active := readers_active m - 1\<rparr>"

text \<open>Where a thread is: outside, asleep in or woken from the wait of \<^verbatim>\<open>lock\<close> or of \<^verbatim>\<open>lock_shared\<close>, or holding the lock.\<close>

datatype phase = Idle | WriterAsleep | WriterAwake | ReaderAsleep | ReaderAwake | Writing | Reading

type_synonym threads = "nat \<Rightarrow> phase"

definition awake :: "phase \<Rightarrow> phase" where
  "awake p = (case p of WriterAsleep \<Rightarrow> WriterAwake | ReaderAsleep \<Rightarrow> ReaderAwake | _ \<Rightarrow> p)"

definition notify_all :: "threads \<Rightarrow> threads" where
  "notify_all ph = (\<lambda>t. awake (ph t))"

text \<open>The two halves of a call that waits: the entry (or another look after waking), and what it leads to.\<close>

definition try_lock :: "nat \<Rightarrow> FairSharedMutex \<times> threads \<Rightarrow> FairSharedMutex \<times> threads" where
  "try_lock t = (\<lambda>(m, ph). if lock_ready m then (lock_take m, ph(t := Writing)) else (m, ph(t := WriterAsleep)))"

definition try_lock_shared :: "nat \<Rightarrow> FairSharedMutex \<times> threads \<Rightarrow> FairSharedMutex \<times> threads" where
  "try_lock_shared t = (\<lambda>(m, ph). if lock_shared_ready m then (lock_shared_take m, ph(t := Reading)) else (m, ph(t := ReaderAsleep)))"

inductive mstep :: "FairSharedMutex \<times> threads \<Rightarrow> nat \<Rightarrow> FairSharedMutex \<times> threads \<Rightarrow> bool" where
  call_lock: "ph t = Idle \<Longrightarrow> mstep (m, ph) t (try_lock t (lock_enter m, ph))"
| wake_lock: "ph t = WriterAwake \<Longrightarrow> mstep (m, ph) t (try_lock t (m, ph))"
| spurious_lock: "ph t = WriterAsleep \<Longrightarrow> mstep (m, ph) t (m, ph(t := WriterAwake))"
| call_unlock: "ph t = Writing \<Longrightarrow> mstep (m, ph) t (unlock m, notify_all (ph(t := Idle)))"
| call_lock_shared: "ph t = Idle \<Longrightarrow> mstep (m, ph) t (try_lock_shared t (m, ph))"
| wake_lock_shared: "ph t = ReaderAwake \<Longrightarrow> mstep (m, ph) t (try_lock_shared t (m, ph))"
| spurious_lock_shared: "ph t = ReaderAsleep \<Longrightarrow> mstep (m, ph) t (m, ph(t := ReaderAwake))"
| call_unlock_shared: "ph t = Reading \<Longrightarrow> mstep (m, ph) t (unlock_shared m, if readers_active (unlock_shared m) = 0 then notify_all (ph(t := Idle)) else ph(t := Idle))"

inductive mreach :: "FairSharedMutex \<times> threads \<Rightarrow> bool" where
  start: "mreach (mutex_init, \<lambda>_. Idle)"
| step: "mreach s \<Longrightarrow> mstep s t s' \<Longrightarrow> mreach s'"

section \<open>The invariant\<close>

definition waiting_writers :: "threads \<Rightarrow> nat set" where
  "waiting_writers ph = {t. ph t = WriterAsleep \<or> ph t = WriterAwake}"

definition readers :: "threads \<Rightarrow> nat set" where
  "readers ph = {t. ph t = Reading}"

definition busy :: "threads \<Rightarrow> nat set" where
  "busy ph = {t. ph t \<noteq> Idle}"

definition writers :: "threads \<Rightarrow> nat set" where
  "writers ph = {t. ph t = Writing}"

text \<open>The counters count the threads, a writer is alone, and nobody sleeps who could have the lock.\<close>

definition counters_ok :: "FairSharedMutex \<Rightarrow> threads \<Rightarrow> bool" where
  "counters_ok m ph \<longleftrightarrow> finite (busy ph) \<and> readers_active m = card (readers ph) \<and> writers_waiting m = card (waiting_writers ph)"

definition writer_alone :: "FairSharedMutex \<Rightarrow> threads \<Rightarrow> bool" where
  "writer_alone m ph \<longleftrightarrow>
     (if writer_active m then (\<exists>w. writers ph = {w}) \<and> readers ph = {} else writers ph = {})"

definition no_lost_wakeup :: "FairSharedMutex \<Rightarrow> threads \<Rightarrow> bool" where
  "no_lost_wakeup m ph \<longleftrightarrow>
     (\<forall>t. (ph t = WriterAsleep \<longrightarrow> \<not> lock_ready m) \<and> (ph t = ReaderAsleep \<longrightarrow> \<not> lock_shared_ready m))"

definition mutex_inv :: "FairSharedMutex \<Rightarrow> threads \<Rightarrow> bool" where
  "mutex_inv m ph \<longleftrightarrow> counters_ok m ph \<and> writer_alone m ph \<and> no_lost_wakeup m ph"

lemma awake_simps [simp]:
  "awake p = Idle \<longleftrightarrow> p = Idle" "awake p = Writing \<longleftrightarrow> p = Writing" "awake p = Reading \<longleftrightarrow> p = Reading"
  "awake p \<noteq> WriterAsleep" "awake p \<noteq> ReaderAsleep" "awake p = WriterAwake \<longleftrightarrow> p = WriterAsleep \<or> p = WriterAwake"
  by (cases p; simp add: awake_def)+

lemmas phase_sets = readers_def waiting_writers_def busy_def writers_def

lemma notify_all_sets [simp]:
  "readers (notify_all ph) = readers ph" "waiting_writers (notify_all ph) = waiting_writers ph" "busy (notify_all ph) = busy ph"
  "writers (notify_all ph) = writers ph" "notify_all ph t \<noteq> WriterAsleep" "notify_all ph t \<noteq> ReaderAsleep"
  by (auto simp: notify_all_def phase_sets)

lemma set_update:
  "readers (ph(t := p)) = (if p = Reading then insert t (readers ph) else readers ph - {t})"
  "waiting_writers (ph(t := p)) = (if p = WriterAsleep \<or> p = WriterAwake then insert t (waiting_writers ph) else waiting_writers ph - {t})"
  "busy (ph(t := p)) = (if p \<noteq> Idle then insert t (busy ph) else busy ph - {t})"
  "writers (ph(t := p)) = (if p = Writing then insert t (writers ph) else writers ph - {t})"
  by (auto simp: phase_sets)

lemma set_member:
  "t \<in> readers ph \<longleftrightarrow> ph t = Reading" "t \<in> waiting_writers ph \<longleftrightarrow> ph t = WriterAsleep \<or> ph t = WriterAwake" "t \<in> writers ph \<longleftrightarrow> ph t = Writing"
  by (auto simp: phase_sets)

lemma set_finite: "finite (busy ph) \<Longrightarrow> finite (readers ph)" "finite (busy ph) \<Longrightarrow> finite (waiting_writers ph)"
  by (auto elim: finite_subset [rotated] simp: phase_sets)

lemmas mutex_ops = lock_enter_def lock_ready_def lock_take_def unlock_def lock_shared_ready_def lock_shared_take_def unlock_shared_def

lemmas mutex_sets = try_lock_def try_lock_shared_def mutex_ops set_update set_member

lemma counters_step: "counters_ok m ph \<Longrightarrow> mstep (m, ph) t (m', ph') \<Longrightarrow> counters_ok m' ph'"
  by (erule mstep.cases)
    (auto simp: counters_ok_def mutex_sets set_finite card_Diff_singleton_if card_insert_if insert_absorb split: if_splits)

lemma only_writer: "writers ph = {w} \<Longrightarrow> ph t = Writing \<Longrightarrow> t = w"
  using set_member(3) [of t ph] by simp

lemma alone_step: "counters_ok m ph \<Longrightarrow> writer_alone m ph \<Longrightarrow> mstep (m, ph) t (m', ph') \<Longrightarrow> writer_alone m' ph'"
  by (erule mstep.cases)
    (auto simp: counters_ok_def writer_alone_def mutex_sets set_finite dest: only_writer split: if_splits)

lemma wakeup_step: "no_lost_wakeup m ph \<Longrightarrow> mstep (m, ph) t (m', ph') \<Longrightarrow> no_lost_wakeup m' ph'"
  by (erule mstep.cases)
    (auto simp: no_lost_wakeup_def try_lock_def try_lock_shared_def mutex_ops split: if_splits)

lemma mutex_inv_step: "mutex_inv m ph \<Longrightarrow> mstep (m, ph) t (m', ph') \<Longrightarrow> mutex_inv m' ph'"
  unfolding mutex_inv_def using counters_step alone_step wakeup_step by blast

lemma mutex_inv_reach: "mreach s \<Longrightarrow> mutex_inv (fst s) (snd s)"
proof (induction rule: mreach.induct)
  case start
  show ?case
    by (simp add: mutex_inv_def counters_ok_def writer_alone_def no_lost_wakeup_def mutex_init_def phase_sets)
next
  case (step s t s')
  then show ?case
    using mutex_inv_step [of "fst s" "snd s" t "fst s'" "snd s'"] by simp
qed

section \<open>Properties\<close>

lemma waits_step:
  assumes "mutex_inv m ph" "mstep (m, ph) t (m', ph')" "exclusive_count m' = exclusive_count m" "w \<in> waiting_writers ph"
  shows "w \<in> waiting_writers ph' \<and> readers ph' \<subseteq> readers ph"
proof -
  have nz: "writers_waiting m \<noteq> 0"
    using assms(1,4) set_finite(2) [of ph] by (auto simp: mutex_inv_def counters_ok_def)
  show ?thesis
    using assms(2) nz assms(3,4) by (cases rule: mstep.cases) (auto simp: mutex_sets notify_all_def split: if_splits)
qed

text \<open>The steps with which no writer takes the lock.\<close>

definition quiet :: "FairSharedMutex \<times> threads \<Rightarrow> FairSharedMutex \<times> threads \<Rightarrow> bool" where
  "quiet s s' \<longleftrightarrow> (\<exists>t. mstep s t s') \<and> exclusive_count (fst s') = exclusive_count (fst s)"

lemma quiet_run:
  assumes "quiet\<^sup>*\<^sup>* s s'" "mutex_inv (fst s) (snd s)" "w \<in> waiting_writers (snd s)"
  shows "mutex_inv (fst s') (snd s') \<and> w \<in> waiting_writers (snd s') \<and> readers (snd s') \<subseteq> readers (snd s)"
  using assms(1)
proof (induction rule: rtranclp_induct)
  case (step s1 s2)
  then obtain t where t: "mstep (fst s1, snd s1) t (fst s2, snd s2)" "exclusive_count (fst s2) = exclusive_count (fst s1)"
    by (auto simp: quiet_def)
  then show ?case
    using step.IH mutex_inv_step [OF _ t(1)] waits_step [OF _ t] by blast
qed (use assms in simp)

text \<open>
  C34: The lock excludes. In every interleaving of calls, notifications and spurious wake-ups a thread that holds the lock exclusively is the only holder; the counters are the numbers of
  the threads that read and of those that wait to write.
\<close>

theorem fair_mutex_exclusive:
  assumes "mreach (m, ph)"
  shows "(ph t = Writing \<longrightarrow> (\<forall>u. u \<noteq> t \<longrightarrow> ph u \<noteq> Writing \<and> ph u \<noteq> Reading)) \<and>
    readers_active m = card {u. ph u = Reading} \<and> writers_waiting m = card {u. ph u = WriterAsleep \<or> ph u = WriterAwake}"
proof -
  have inv: "counters_ok m ph" "writer_alone m ph"
    using mutex_inv_reach [OF assms] by (simp_all add: mutex_inv_def)
  have "ph u \<noteq> Writing \<and> ph u \<noteq> Reading" if "ph t = Writing" "u \<noteq> t" for u
    using that inv(2) set_member(1) [of u ph] set_member(3) [of t ph] set_member(3) [of u ph] by (auto simp: writer_alone_def split: if_splits)
  then show ?thesis
    using inv(1) by (auto simp: counters_ok_def readers_def waiting_writers_def)
qed

text \<open>A run in which thread 1 reads and thread 2 waits to write.\<close>

lemma one_reads:
  "mreach (lock_shared_take mutex_init, (\<lambda>_. Idle)(1 := Reading))"
  using mreach.step [OF start call_lock_shared [of "\<lambda>_. Idle" 1 mutex_init]]
  by (simp add: try_lock_shared_def mutex_ops mutex_init_def)

lemma two_waits:
  "mreach (lock_enter (lock_shared_take mutex_init), (\<lambda>_. Idle)(1 := Reading, 2 := WriterAsleep))"
  using mreach.step [OF one_reads call_lock [of "(\<lambda>_. Idle)(1 := Reading)" 2]] by (simp add: try_lock_def mutex_ops mutex_init_def)

theorem fair_mutex_exclusive_witness:
  "readers_active (lock_enter (lock_shared_take mutex_init)) = card {u. ((\<lambda>_. Idle)(1 := Reading, 2 := WriterAsleep) :: threads) u = Reading}"
  using fair_mutex_exclusive [OF two_waits, of 1] by blast

text \<open>
  C35: A waiting writer is next. From the moment a thread waits for the exclusive lock, until some writer takes it, no thread gets the shared lock, whatever the order of the calls;
  and when the readers that were there have left and nobody holds the lock, a waiting writer is awake and every waiting writer that is awake takes the lock at its next step: no
  wake-up is lost and the lock is never stuck.
\<close>

theorem waiting_writer_next:
  assumes "mreach s" "w \<in> waiting_writers (snd s)" "quiet\<^sup>*\<^sup>* s (m, ph)"
  shows "readers ph \<subseteq> readers (snd s) \<and>
    (readers ph = {} \<and> writers ph = {} \<longrightarrow>
      (\<exists>t. ph t = WriterAwake) \<and> (\<forall>t. ph t = WriterAwake \<longrightarrow> mstep (m, ph) t (lock_take m, ph(t := Writing))))"
proof -
  have inv: "mutex_inv m ph" "w \<in> waiting_writers ph" "readers ph \<subseteq> readers (snd s)"
    using quiet_run [OF assms(3) mutex_inv_reach [OF assms(1)] assms(2)] by auto
  have ready: "lock_ready m" if "readers ph = {}" "writers ph = {}"
    using inv(1) that by (auto simp: mutex_inv_def counters_ok_def writer_alone_def lock_ready_def split: if_splits)
  have "\<exists>t. ph t = WriterAwake" if "lock_ready m"
    using inv(1,2) that by (auto simp: mutex_inv_def no_lost_wakeup_def set_member)
  moreover have "mstep (m, ph) t (lock_take m, ph(t := Writing))" if "lock_ready m" "ph t = WriterAwake" for t
    using wake_lock [of ph t m] that by (simp add: try_lock_def)
  ultimately show ?thesis
    using ready inv(3) by blast
qed

theorem waiting_writer_next_witness:
  "\<exists>m ph. quiet\<^sup>*\<^sup>* (lock_enter (lock_shared_take mutex_init), (\<lambda>_. Idle)(1 := Reading, 2 := WriterAsleep)) (m, ph) \<and>
    readers ph = {} \<and> writers ph = {} \<and> mstep (m, ph) 2 (lock_take m, ph(2 := Writing))"
proof (intro exI conjI)
  let ?m = "lock_enter (lock_shared_take mutex_init)" and ?ph = "(\<lambda>_. Idle)(1 := Reading, 2 := WriterAsleep)"
  let ?m' = "unlock_shared ?m" and ?ph' = "notify_all (?ph(1 := Idle))"
  have "mstep (?m, ?ph) 1 (?m', ?ph')"
    using call_unlock_shared [of ?ph 1 ?m] by (simp add: mutex_ops mutex_init_def)
  then show q: "quiet\<^sup>*\<^sup>* (?m, ?ph) (?m', ?ph')"
    by (intro r_into_rtranclp) (auto simp: quiet_def mutex_ops)
  show r: "readers ?ph' = {}" "writers ?ph' = {}"
    by (auto simp: phase_sets notify_all_def awake_def)
  have "?ph' 2 = WriterAwake"
    by (simp add: notify_all_def)
  then show "mstep (?m', ?ph') 2 (lock_take ?m', ?ph'(2 := Writing))"
    using waiting_writer_next [OF two_waits _ q, of 2] r by (simp add: set_member)
qed

text \<open>
  Whoever holds the lock sees a count nobody can move. While a thread has the lock, shared or exclusive, no step of any thread changes \<^verbatim>\<open>exclusive_count\<close>, so that what a cache
  was made from at this count is unchanged.
\<close>

theorem count_stable_while_held:
  assumes "mreach (m, ph)" "mstep (m, ph) t (m', ph')" "ph r \<in> {Reading, Writing}"
  shows "exclusive_count m' = exclusive_count m"
proof -
  have inv: "counters_ok m ph" "writer_alone m ph"
    using mutex_inv_reach [OF assms(1)] by (simp_all add: mutex_inv_def)
  have held: "\<not> lock_ready m"
  proof (cases "ph r = Reading")
    case True
    then have "card (readers ph) \<noteq> 0"
      using inv(1) set_finite(1) [of ph] set_member(1) [of r ph] by (auto simp: counters_ok_def)
    then show ?thesis
      using inv(1) by (simp add: counters_ok_def lock_ready_def)
  next
    case False
    then show ?thesis
      using inv(2) assms(3) set_member(3) [of r ph] by (auto simp: writer_alone_def lock_ready_def split: if_splits)
  qed
  show ?thesis
    using assms(2) held by (cases rule: mstep.cases) (auto simp: try_lock_def try_lock_shared_def mutex_ops split: if_splits)
qed

theorem count_stable_while_held_witness:
  "exclusive_count (lock_enter (lock_shared_take mutex_init)) = exclusive_count (lock_shared_take mutex_init)"
proof -
  have "mstep (lock_shared_take mutex_init, (\<lambda>_. Idle)(1 := Reading)) 2
      (lock_enter (lock_shared_take mutex_init), (\<lambda>_. Idle)(1 := Reading, 2 := WriterAsleep))"
    using call_lock [of "(\<lambda>_. Idle)(1 := Reading)" 2 "lock_shared_take mutex_init"] by (simp add: try_lock_def mutex_ops mutex_init_def)
  from count_stable_while_held [OF one_reads this, of 1] show ?thesis
    by simp
qed

end
