(* ===== verification/HashIndex.thy ===== *)
theory HashIndex
  imports Conditions Mvcc OrdMap
begin

text \<open>
  Hash indexes (\<^verbatim>\<open>core/src/storage/hash_index.cpp\<close>) and the key under which equal values share a bucket (\<^verbatim>\<open>core/include/engine/storage/numeric_key.hpp\<close>). A bucket holds
  the rows of one key in the order in which they were added; the unordered map of the buckets is a sorted association list. A lookup answers \<^verbatim>\<open>WHERE column = value\<close>, so a
  bucket has to be exactly what that comparison selects.

  What \<^verbatim>\<open>snprintf ("%.17g")\<close> writes for a double that is not an integer is the argument \<open>fmt\<close>. A number that is read is a finite double, so the cases of a NaN and of an infinity in
  \<^verbatim>\<open>normalize_numeric_key\<close> do not occur.
\<close>

section \<open>Definitions\<close>

text \<open>\<^verbatim>\<open>std::to_string\<close> of a signed number.\<close>

definition int_to_string :: "int \<Rightarrow> string" where
  "int_to_string x = (if x < 0 then CHR ''-'' # to_string (nat (- x)) else to_string (nat x))"

definition normalize_numeric_key :: "collation_data \<Rightarrow> (rat \<Rightarrow> rat option) \<Rightarrow> (rat \<Rightarrow> string) \<Rightarrow> string \<Rightarrow> string" where
  "normalize_numeric_key D dbl fmt s =
     (case parse_int64_text s of
        Some whole \<Rightarrow> int_to_string whole
      | None \<Rightarrow>
          (case parse_number dbl s of
             None \<Rightarrow> collation_key D s
           | Some v \<Rightarrow>
               if v = of_int \<lfloor>v\<rfloor> \<and> \<bar>v\<bar> < 9200000000000000000 then int_to_string \<lfloor>v\<rfloor> else fmt v))"

record HashIndex =
  hx_column :: string
  hx_data :: "(string \<times> row list) list"

text \<open>\<open>nk\<close> is \<^verbatim>\<open>normalize_numeric_key\<close>.\<close>

definition hash_insert_row :: "(string \<Rightarrow> string) \<Rightarrow> row \<Rightarrow> HashIndex \<Rightarrow> HashIndex" where
  "hash_insert_row nk r ix =
     (case row_get r (hx_column ix) of
        None \<Rightarrow> ix
      | Some v \<Rightarrow>
          (let bucket = (case map_of (hx_data ix) (nk v) of Some b \<Rightarrow> b | None \<Rightarrow> []) in
           ix\<lparr>hx_data := om_set (nk v) (bucket @ [r]) (hx_data ix)\<rparr>))"

definition hash_rebuild :: "(string \<Rightarrow> string) \<Rightarrow> row list \<Rightarrow> HashIndex \<Rightarrow> HashIndex" where
  "hash_rebuild nk rows ix = fold (hash_insert_row nk) rows (ix\<lparr>hx_data := []\<rparr>)"

definition hash_get :: "(string \<Rightarrow> string) \<Rightarrow> HashIndex \<Rightarrow> string \<Rightarrow> row list" where
  "hash_get nk ix key = (case map_of (hx_data ix) (nk key) of Some b \<Rightarrow> b | None \<Rightarrow> [])"

definition pk_matches :: "(string \<times> string) list \<Rightarrow> row \<Rightarrow> bool" where
  "pk_matches pk r \<longleftrightarrow> list_all (\<lambda>(col, val). row_get r col = Some val) pk"

definition hash_remove_row :: "(string \<Rightarrow> string) \<Rightarrow> string \<Rightarrow> (string \<times> string) list \<Rightarrow> HashIndex \<Rightarrow> HashIndex" where
  "hash_remove_row nk col_val pk ix =
     (case map_of (hx_data ix) (nk col_val) of
        None \<Rightarrow> ix
      | Some bucket \<Rightarrow>
          (let rest = filter (\<lambda>r. \<not> pk_matches pk r) bucket in
           if rest = [] then ix\<lparr>hx_data := om_erase (nk col_val) (hx_data ix)\<rparr>
           else ix\<lparr>hx_data := om_set (nk col_val) rest (hx_data ix)\<rparr>))"

definition bucket_count :: "HashIndex \<Rightarrow> nat" where
  "bucket_count ix = length (hx_data ix)"

definition row_count :: "HashIndex \<Rightarrow> nat" where
  "row_count ix = sum_list (map (length \<circ> snd) (hx_data ix))"

section \<open>A hash index holds the rows of its table\<close>

text \<open>What is done to an index, and to the rows it stands for.\<close>

datatype hash_op = HRebuild "row list" | HInsert row | HRemove string "(string \<times> string) list"

fun hash_run :: "(string \<Rightarrow> string) \<Rightarrow> hash_op list \<Rightarrow> HashIndex \<Rightarrow> HashIndex" where
  "hash_run nk [] ix = ix"
| "hash_run nk (HRebuild rows # ops) ix = hash_run nk ops (hash_rebuild nk rows ix)"
| "hash_run nk (HInsert r # ops) ix = hash_run nk ops (hash_insert_row nk r ix)"
| "hash_run nk (HRemove v pk # ops) ix = hash_run nk ops (hash_remove_row nk v pk ix)"

definition in_bucket :: "(string \<Rightarrow> string) \<Rightarrow> string \<Rightarrow> string \<Rightarrow> row \<Rightarrow> bool" where
  "in_bucket nk col k r \<longleftrightarrow> (case row_get r col of Some v \<Rightarrow> nk v = k | None \<Rightarrow> False)"

fun rows_run :: "(string \<Rightarrow> string) \<Rightarrow> string \<Rightarrow> hash_op list \<Rightarrow> row list \<Rightarrow> row list" where
  "rows_run nk col [] rows = rows"
| "rows_run nk col (HRebuild rs # ops) rows = rows_run nk col ops rs"
| "rows_run nk col (HInsert r # ops) rows = rows_run nk col ops (rows @ [r])"
| "rows_run nk col (HRemove v pk # ops) rows =
     rows_run nk col ops (filter (\<lambda>r. \<not> (in_bucket nk col (nk v) r \<and> pk_matches pk r)) rows)"

definition bucket :: "HashIndex \<Rightarrow> string \<Rightarrow> row list" where
  "bucket ix k = (case map_of (hx_data ix) k of Some b \<Rightarrow> b | None \<Rightarrow> [])"

definition index_of :: "(string \<Rightarrow> string) \<Rightarrow> HashIndex \<Rightarrow> row list \<Rightarrow> bool" where
  "index_of nk ix rows \<longleftrightarrow> (\<forall>k. bucket ix k = filter (in_bucket nk (hx_column ix) k) rows)"

lemma index_ofD: "index_of nk ix rows \<Longrightarrow> hash_get nk ix key = filter (in_bucket nk (hx_column ix) (nk key)) rows"
  by (simp add: index_of_def hash_get_def bucket_def)

lemma bucket_insert:
  "bucket (hash_insert_row nk r ix) k = bucket ix k @ (if in_bucket nk (hx_column ix) k r then [r] else [])"
  by (auto simp: bucket_def hash_insert_row_def in_bucket_def Let_def split: option.splits)

lemma bucket_remove:
  "bucket (hash_remove_row nk v pk ix) k = (if k = nk v then filter (\<lambda>r. \<not> pk_matches pk r) (bucket ix k) else bucket ix k)"
  by (auto simp: bucket_def hash_remove_row_def Let_def split: option.splits)

lemma hash_insert_column [simp]: "hx_column (hash_insert_row nk r ix) = hx_column ix"
  by (simp add: hash_insert_row_def Let_def split: option.split)

lemma index_of_insert: "index_of nk ix rows \<Longrightarrow> index_of nk (hash_insert_row nk r ix) (rows @ [r])"
  by (simp add: index_of_def bucket_insert)

lemma index_of_inserts: "index_of nk ix rows \<Longrightarrow> index_of nk (fold (hash_insert_row nk) rs ix) (rows @ rs)"
proof (induction rs arbitrary: ix rows)
  case (Cons r rs)
  then show ?case
    using Cons.IH [OF index_of_insert [OF Cons.prems]] by simp
qed simp

lemma index_of_rebuild: "index_of nk (hash_rebuild nk rs ix) rs"
  using index_of_inserts [of nk "ix\<lparr>hx_data := []\<rparr>" "[]" rs] by (simp add: hash_rebuild_def index_of_def bucket_def)

lemma hash_rebuild_column [simp]: "hx_column (hash_rebuild nk rs ix) = hx_column ix"
proof -
  have "hx_column (fold (hash_insert_row nk) rs jx) = hx_column jx" for jx
    by (induction rs arbitrary: jx) auto
  then show ?thesis
    by (simp add: hash_rebuild_def)
qed

lemma hash_remove_column [simp]: "hx_column (hash_remove_row nk v pk ix) = hx_column ix"
  by (simp add: hash_remove_row_def Let_def split: option.split)

lemma index_of_remove:
  assumes "index_of nk ix rows"
  shows "index_of nk (hash_remove_row nk v pk ix) (filter (\<lambda>r. \<not> (in_bucket nk (hx_column ix) (nk v) r \<and> pk_matches pk r)) rows)"
proof -
  have "\<not> (in_bucket nk c k r \<and> in_bucket nk c j r)" if "k \<noteq> j" for c k j r
    using that by (auto simp: in_bucket_def split: option.splits)
  then show ?thesis
    using assms unfolding index_of_def by (auto simp: bucket_remove intro!: filter_cong)
qed

lemma hash_run_index: "index_of nk ix rows \<Longrightarrow> index_of nk (hash_run nk ops ix) (rows_run nk (hx_column ix) ops rows)"
proof (induction nk ops ix arbitrary: rows rule: hash_run.induct)
  case (2 nk rs ops ix)
  then show ?case
    using index_of_rebuild [of nk rs ix] by simp
next
  case (3 nk r ops ix)
  then show ?case
    using index_of_insert by fastforce
next
  case (4 nk v pk ops ix)
  then show ?case
    using 4(1) [OF index_of_remove [OF 4(2)]] by simp
qed simp

lemma hash_run_column: "hx_column (hash_run nk ops ix) = hx_column ix"
  by (induction nk ops ix rule: hash_run.induct) auto

section \<open>A bucket is what a comparison selects\<close>

lemma int_to_string_inject: "int_to_string x = int_to_string y \<longleftrightarrow> x = y"
proof -
  have d: "CHR ''-'' # s \<noteq> to_string n" for s n
    using to_string_digits [of n] by (cases "to_string n") (auto simp: is_digit_def)
  then show ?thesis
    using d [symmetric] by (auto simp: int_to_string_def to_string_inject)
qed

text \<open>A value of a column of integers, or of texts that neither reader of numbers takes.\<close>

definition key_value :: "(rat \<Rightarrow> rat option) \<Rightarrow> ValueClass \<Rightarrow> string \<Rightarrow> bool" where
  "key_value dbl cls s \<longleftrightarrow> in_kind dbl cls s \<and> (cls = ClassText \<longrightarrow> parse_int64_text s = None)"

lemma normalize_kind:
  assumes "ascii_ok D" "key_value dbl cls a" "key_value dbl cls b"
  shows "normalize_numeric_key D dbl fmt a = normalize_numeric_key D dbl fmt b \<longleftrightarrow> kind_cmp D cls a b = 0"
proof (cases cls)
  case ClassNumber
  then obtain x y where "parse_int64_text a = Some x" "parse_int64_text b = Some y"
    using assms(2,3) by (auto simp: key_value_def in_kind_def exact_int_def split: option.splits)
  then show ?thesis
    using ClassNumber by (simp add: normalize_numeric_key_def int_to_string_inject kind_cmp_def)
next
  case ClassText
  then show ?thesis
    using assms collation_key_rank [OF assms(1)] by (simp add: normalize_numeric_key_def key_value_def in_kind_def kind_cmp_def collation_compare_rank)
qed (use assms(2) in \<open>simp add: key_value_def in_kind_def\<close>)

section \<open>Properties\<close>



end
