(* ===== verification/CompositeIndex.thy ===== *)
theory CompositeIndex
  imports HashIndex RowJson "HOL-Library.Multiset"
begin

text \<open>
  Composite indexes (\<^verbatim>\<open>core/src/storage/composite_index.cpp\<close>): a B+tree whose keys are the values of the indexed columns, normalised as for a hash index, followed by the
  primary key, joined by NUL bytes; the entries hold rows as JSON texts. A lookup of the leading columns is a range scan between two keys made from the values.

  The tree is the one of \<open>BTree\<close> with columns of unknown kind (\<^verbatim>\<open>BPlusTree()\<close>); \<open>nk\<close> is \<^verbatim>\<open>normalize_numeric_key\<close>, \<open>json\<close> and \<open>parse\<close> the functions of \<open>RowJson\<close>,
  \<open>None\<close> an exception.
\<close>

section \<open>Definitions\<close>

record CompositeIndex =
  ci_columns :: "string list"
  ci_pk_columns :: "string list"
  ci_tree :: BPlusTree

fun make_key :: "string list \<Rightarrow> string" where
  "make_key [] = []"
| "make_key [v] = v"
| "make_key (v # w # vs) = v @ CHR 0x00 # make_key (w # vs)"

text \<open>The segments of a row's key: \<open>None\<close> when the row lacks an indexed column.\<close>

definition column_segments :: "(string \<Rightarrow> string) \<Rightarrow> string list \<Rightarrow> row \<Rightarrow> string list option" where
  "column_segments nk columns r =
     (if \<exists>c \<in> set columns. row_get r c = None then None else Some (map (\<lambda>c. nk (the (row_get r c))) columns))"

definition identity_segments :: "string list \<Rightarrow> row \<Rightarrow> string list" where
  "identity_segments pk_columns r =
     (if pk_columns \<noteq> [] then map (\<lambda>c. case row_get r c of Some v \<Rightarrow> v | None \<Rightarrow> []) pk_columns
      else map snd (sort_key fst (filter (\<lambda>kv. fst kv \<noteq> ''_xmin'' \<and> fst kv \<noteq> ''_xmax'') r)))"

definition row_segments :: "(string \<Rightarrow> string) \<Rightarrow> CompositeIndex \<Rightarrow> row \<Rightarrow> string list option" where
  "row_segments nk ix r = map_option (\<lambda>vs. vs @ identity_segments (ci_pk_columns ix) r) (column_segments nk (ci_columns ix) r)"

definition key_from_row :: "(string \<Rightarrow> string) \<Rightarrow> CompositeIndex \<Rightarrow> row \<Rightarrow> string option" where
  "key_from_row nk ix r = map_option make_key (row_segments nk ix r)"

definition ci_insert_row :: "key_cmp \<Rightarrow> (string \<Rightarrow> string) \<Rightarrow> (row \<Rightarrow> string option) \<Rightarrow> row \<Rightarrow> CompositeIndex \<Rightarrow> CompositeIndex option" where
  "ci_insert_row cmp nk json r ix =
     (case key_from_row nk ix r of
        None \<Rightarrow> Some ix
      | Some key \<Rightarrow> map_option (\<lambda>text. ix\<lparr>ci_tree := bt_insert cmp (ci_tree ix) key text\<rparr>) (json r))"

definition ci_remove_row :: "key_cmp \<Rightarrow> (string \<Rightarrow> string) \<Rightarrow> row \<Rightarrow> CompositeIndex \<Rightarrow> CompositeIndex option" where
  "ci_remove_row cmp nk r ix =
     (case key_from_row nk ix r of
        None \<Rightarrow> Some ix
      | Some key \<Rightarrow> map_option (\<lambda>t. ix\<lparr>ci_tree := t\<rparr>) (bt_remove cmp (ci_tree ix) key))"

definition rows_with_prefix :: "key_cmp \<Rightarrow> (string \<Rightarrow> string) \<Rightarrow> CompositeIndex \<Rightarrow> string list \<Rightarrow> string list" where
  "rows_with_prefix cmp nk ix vals =
     (if vals = [] \<or> length vals > length (ci_columns ix) then []
      else let lo = make_key (map nk vals) @ [CHR 0x00]; hi = lo @ [CHR 0xFF] in range_search cmp (ci_tree ix) lo hi)"

fun join_texts :: "string list \<Rightarrow> string" where
  "join_texts [] = []"
| "join_texts [t] = t"
| "join_texts (t # u # ts) = t @ '','' @ join_texts (u # ts)"

definition search_exact :: "key_cmp \<Rightarrow> (string \<Rightarrow> string) \<Rightarrow> CompositeIndex \<Rightarrow> string list \<Rightarrow> string option" where
  "search_exact cmp nk ix vals =
     (let rows = rows_with_prefix cmp nk ix vals in if rows = [] then None else Some (''['' @ join_texts rows @ '']''))"

definition matches_conditions :: "CompositeIndex \<Rightarrow> (string \<times> string) list \<Rightarrow> bool" where
  "matches_conditions ix eq_map = list_all (\<lambda>c. map_of eq_map c \<noteq> None) (ci_columns ix)"

text \<open>The values of the leading columns that are fixed.\<close>

fun fixed_values :: "(string \<times> string) list \<Rightarrow> string list \<Rightarrow> string list" where
  "fixed_values eq_map [] = []"
| "fixed_values eq_map (c # cs) = (case map_of eq_map c of None \<Rightarrow> [] | Some v \<Rightarrow> v # fixed_values eq_map cs)"

text \<open>The suffix \<^verbatim>\<open>"\x00"\<close> is a C string literal, whose length is zero: nothing is appended.\<close>

definition prefix_key_from_eq_map :: "CompositeIndex \<Rightarrow> (string \<times> string) list \<Rightarrow> string option" where
  "prefix_key_from_eq_map ix eq_map =
     (let parts = fixed_values eq_map (ci_columns ix) in
      if parts = [] \<or> length parts = length (ci_columns ix) then None else Some (make_key parts))"

fun parse_rows :: "(string \<Rightarrow> row option) \<Rightarrow> string list \<Rightarrow> row list option" where
  "parse_rows parse [] = Some []"
| "parse_rows parse (t # ts) = (case parse t of None \<Rightarrow> None | Some r \<Rightarrow> map_option (Cons r) (parse_rows parse ts))"

text \<open>The outer \<open>None\<close> is an exception, the inner one the answer that the index does not help.\<close>

definition ci_lookup :: "key_cmp \<Rightarrow> (string \<Rightarrow> string) \<Rightarrow> (string \<Rightarrow> row option) \<Rightarrow> CompositeIndex \<Rightarrow> (string \<times> string) list \<Rightarrow> row list option option" where
  "ci_lookup cmp nk parse ix eq_map =
     (let vals = fixed_values eq_map (ci_columns ix) in
      if vals = [] then Some None else map_option Some (parse_rows parse (rows_with_prefix cmp nk ix vals)))"

fun ci_insert_rows :: "key_cmp \<Rightarrow> (string \<Rightarrow> string) \<Rightarrow> (row \<Rightarrow> string option) \<Rightarrow> row list \<Rightarrow> CompositeIndex \<Rightarrow> CompositeIndex option" where
  "ci_insert_rows cmp nk json [] ix = Some ix"
| "ci_insert_rows cmp nk json (r # rs) ix = (case ci_insert_row cmp nk json r ix of None \<Rightarrow> None | Some ix' \<Rightarrow> ci_insert_rows cmp nk json rs ix')"

definition ci_rebuild :: "key_cmp \<Rightarrow> (string \<Rightarrow> string) \<Rightarrow> (row \<Rightarrow> string option) \<Rightarrow> row list \<Rightarrow> CompositeIndex \<Rightarrow> CompositeIndex option" where
  "ci_rebuild cmp nk json rows ix = ci_insert_rows cmp nk json rows (ix\<lparr>ci_tree := None\<rparr>)"

section \<open>Keys by their segments\<close>

fun cmp_lists :: "('s \<Rightarrow> 's \<Rightarrow> int) \<Rightarrow> 's list \<Rightarrow> 's list \<Rightarrow> int" where
  "cmp_lists c [] [] = 0"
| "cmp_lists c [] (b # bs) = -1"
| "cmp_lists c (a # as) [] = 1"
| "cmp_lists c (a # as) (b # bs) = (if c a b \<noteq> 0 then c a b else cmp_lists c as bs)"

definition nul_free :: "string list \<Rightarrow> bool" where
  "nul_free vs \<longleftrightarrow> list_all (\<lambda>v. CHR 0x00 \<notin> set v) vs"

lemma make_key_parts:
  assumes "nul_free (v # vs)"
  shows "before_nul (make_key (v # vs)) = v"
    and "from_nul (make_key (v # vs)) = (if vs = [] then [] else CHR 0x00 # make_key vs)"
proof -
  have v: "takeWhile (\<lambda>c. c \<noteq> CHR 0x00) v = v" "dropWhile (\<lambda>c. c \<noteq> CHR 0x00) v = []"
    using assms by (auto simp: nul_free_def takeWhile_eq_all_conv)
  show "before_nul (make_key (v # vs)) = v"
    using v by (cases vs) (auto simp: before_nul_def takeWhile_append nul_free_def)
  show "from_nul (make_key (v # vs)) = (if vs = [] then [] else CHR 0x00 # make_key vs)"
    using v by (cases vs) (auto simp: from_nul_def dropWhile_append)
qed

lemma cmp_segments_lists:
  assumes "nul_free as" "nul_free bs" "as \<noteq> []" "bs \<noteq> []"
  shows "cmp_segments D dbl [] i (make_key as) (make_key bs) = cmp_lists (\<lambda>a b. cmp_key_segment D dbl a b Mixed) as bs"
  using assms
proof (induction as arbitrary: i bs)
  case (Cons a as)
  obtain b bs' where bs: "bs = b # bs'"
    using Cons.prems(4) by (cases bs) auto
  have n: "nul_free as" "nul_free bs'"
    using Cons.prems bs by (auto simp: nul_free_def)
  have "cmp_lists (\<lambda>a b. cmp_key_segment D dbl a b Mixed) as bs' = (if as = [] then (if bs' = [] then 0 else -1) else 1)" if "as = [] \<or> bs' = []"
    using that by (cases as; cases bs') auto
  then show ?case
    using Cons.IH [OF n, of "i + 1"] make_key_parts [OF Cons.prems(1)] make_key_parts [of b bs'] Cons.prems(2) bs
    by (cases "as = [] \<or> bs' = []") (auto simp: cmp_segments_eq [of D dbl "[]" i] kind_of_def Let_def)
qed simp

lemma make_key_snoc: "vs \<noteq> [] \<Longrightarrow> make_key vs @ CHR 0x00 # v = make_key (vs @ [v])"
  by (induction vs rule: make_key.induct) auto

text \<open>Below the byte \<^verbatim>\<open>0xFF\<close>, the upper bound of a lookup.\<close>

definition below_ff :: "collation_data \<Rightarrow> (rat \<Rightarrow> rat option) \<Rightarrow> string \<Rightarrow> bool" where
  "below_ff D dbl v \<longleftrightarrow> cmp_key_segment D dbl v [CHR 0xFF] Mixed < 0"

lemma empty_segment: "cmp_key_segment D dbl [] v Mixed \<le> 0"
  by (auto simp: cmp_key_segment_def plain_uint_def)

lemma cmp_lists_prefix:
  assumes "comparison c" "\<And>v. c lo v \<le> 0" "length vs < length segs" "c (segs ! length vs) hi < 0"
  shows "cmp_lists c (vs @ [lo]) segs \<le> 0 \<and> cmp_lists c segs (vs @ [hi]) \<le> 0 \<longleftrightarrow> (\<forall>i < length vs. c (segs ! i) (vs ! i) = 0)"
  using assms(3,4)
proof (induction vs arbitrary: segs)
  case Nil
  then obtain s ss where s: "segs = s # ss"
    by (cases segs) auto
  then have "cmp_lists c [] ss \<le> 0"
    by (cases ss) auto
  then show ?case
    using assms(2) [of s] Nil s by auto
next
  case (Cons v vs)
  then obtain s ss where s: "segs = s # ss" "length vs < length ss" "c (ss ! length vs) hi < 0"
    by (cases segs) auto
  have "c v s = - c s v"
    by (rule comparison.cmp_swap [OF assms(1)])
  then have "cmp_lists c ((v # vs) @ [lo]) segs \<le> 0 \<and> cmp_lists c segs ((v # vs) @ [hi]) \<le> 0 \<longleftrightarrow>
      c s v = 0 \<and> cmp_lists c (vs @ [lo]) ss \<le> 0 \<and> cmp_lists c ss (vs @ [hi]) \<le> 0"
    using s(1) by auto
  also have "\<dots> \<longleftrightarrow> (\<forall>i < length (v # vs). c (segs ! i) ((v # vs) ! i) = 0)"
    using Cons.IH [OF s(2,3)] s(1) by (auto simp: less_Suc_eq_0_disj)
  finally show ?case .
qed

section \<open>The entries of an index are those of its rows\<close>

text \<open>
  The histories of an index: rows added and removed on an empty one, with the rows it then stands for. A row is added when no other one has its key; the table's primary key
  sees to that.
\<close>

definition same_entry :: "key_cmp \<Rightarrow> (string \<Rightarrow> string) \<Rightarrow> CompositeIndex \<Rightarrow> row \<Rightarrow> row \<Rightarrow> bool" where
  "same_entry cmp nk ix r s \<longleftrightarrow>
     (case (key_from_row nk ix r, key_from_row nk ix s) of (Some k, Some l) \<Rightarrow> cmp k l = 0 | _ \<Rightarrow> False)"

inductive ci_reach :: "key_cmp \<Rightarrow> (string \<Rightarrow> string) \<Rightarrow> (row \<Rightarrow> string option) \<Rightarrow> string list \<Rightarrow> string list \<Rightarrow> row list \<Rightarrow> CompositeIndex \<Rightarrow> bool"
  for cmp nk json columns pk_columns where
  empty: "ci_reach cmp nk json columns pk_columns [] \<lparr>ci_columns = columns, ci_pk_columns = pk_columns, ci_tree = None\<rparr>"
| insert: "ci_reach cmp nk json columns pk_columns rows ix \<Longrightarrow> list_all (\<lambda>s. \<not> same_entry cmp nk ix s r) rows \<Longrightarrow>
    ci_insert_row cmp nk json r ix = Some ix' \<Longrightarrow> ci_reach cmp nk json columns pk_columns (rows @ [r]) ix'"
| remove: "ci_reach cmp nk json columns pk_columns rows ix \<Longrightarrow> ci_remove_row cmp nk r ix = Some ix' \<Longrightarrow>
    ci_reach cmp nk json columns pk_columns (filter (\<lambda>s. \<not> same_entry cmp nk ix s r) rows) ix'"

definition entries_of :: "(string \<Rightarrow> string) \<Rightarrow> (row \<Rightarrow> string option) \<Rightarrow> CompositeIndex \<Rightarrow> row list \<Rightarrow> (string \<times> string) list" where
  "entries_of nk json ix rows = map (\<lambda>r. (the (key_from_row nk ix r), the (json r))) (filter (\<lambda>r. key_from_row nk ix r \<noteq> None) rows)"

lemma key_from_row_tree [simp]: "key_from_row nk (ix\<lparr>ci_tree := t\<rparr>) r = key_from_row nk ix r"
  by (simp add: key_from_row_def row_segments_def)

lemma entries_of_tree [simp]: "entries_of nk json (ix\<lparr>ci_tree := t\<rparr>) rows = entries_of nk json ix rows"
  by (simp add: entries_of_def)

lemma mset_kv_insert: "\<forall>kv \<in> set m. cmp (fst kv) k \<noteq> 0 \<Longrightarrow> mset (kv_insert cmp k v m) = add_mset (k, v) (mset m)"
  by (induction cmp k v m rule: kv_insert.induct) auto

lemma entries_of_remove:
  assumes "key_from_row nk ix r = Some k"
  shows "entries_of nk json ix (filter (\<lambda>s. \<not> same_entry cmp nk ix s r) rows) = kv_remove cmp k (entries_of nk json ix rows)"
  by (induction rows) (auto simp: entries_of_def kv_remove_def same_entry_def assms split: option.splits)

lemma ci_reach_config: "ci_reach cmp nk json columns pk_columns rows ix \<Longrightarrow> ci_columns ix = columns \<and> ci_pk_columns ix = pk_columns"
  by (induction rule: ci_reach.induct) (auto simp: ci_insert_row_def ci_remove_row_def split: option.splits)

context key_order
begin

lemma ci_reach_entries:
  "ci_reach cmp nk json columns pk_columns rows ix \<Longrightarrow> tree_inv cmp (ci_tree ix) \<and> mset (collect_all_kv (ci_tree ix)) = mset (entries_of nk json ix rows)"
proof (induction rule: ci_reach.induct)
  case empty
  show ?case
    by (simp add: entries_of_def tree.inv_empty tree.entries_empty)
next
  case (insert rows ix r ix')
  show ?case
  proof (cases "key_from_row nk ix r")
    case None
    then show ?thesis
      using insert by (simp add: ci_insert_row_def entries_of_def)
  next
    case (Some k)
    then obtain js where t: "json r = Some js" "ix' = ix\<lparr>ci_tree := bt_insert cmp (ci_tree ix) k js\<rparr>"
      using insert.hyps(3) by (auto simp: ci_insert_row_def)
    have "\<forall>kv \<in> set (entries_of nk json ix rows). cmp (fst kv) k \<noteq> 0"
      using insert.hyps(2) Some by (fastforce simp: entries_of_def same_entry_def list_all_iff)
    then have "\<forall>kv \<in> set (collect_all_kv (ci_tree ix)). cmp (fst kv) k \<noteq> 0"
      using insert.IH mset_eq_setD by blast
    then have "mset (kv_insert cmp k js (collect_all_kv (ci_tree ix))) = add_mset (k, js) (mset (entries_of nk json ix rows))"
      using mset_kv_insert insert.IH by metis
    moreover have "entries_of nk json ix (rows @ [r]) = entries_of nk json ix rows @ [(k, js)]"
      using Some t(1) by (simp add: entries_of_def)
    ultimately show ?thesis
      using tree_insert_ok [of "ci_tree ix" k js] insert.IH t(2) by simp
  qed
next
  case (remove rows ix r ix')
  show ?case
  proof (cases "key_from_row nk ix r")
    case None
    then have "filter (\<lambda>s. \<not> same_entry cmp nk ix s r) rows = rows"
      by (intro filter_True) (auto simp: same_entry_def split: option.splits)
    then show ?thesis
      using remove None by (simp add: ci_remove_row_def)
  next
    case (Some k)
    obtain t where t: "bt_remove cmp (ci_tree ix) k = Some t" "tree_inv cmp t" "collect_all_kv t = kv_remove cmp k (collect_all_kv (ci_tree ix))"
      using tree_remove_ok [of "ci_tree ix" k] remove.IH by blast
    then have "ix' = ix\<lparr>ci_tree := t\<rparr>"
      using remove.hyps(2) Some by (simp add: ci_remove_row_def)
    moreover have "mset (kv_remove cmp k (collect_all_kv (ci_tree ix))) = mset (kv_remove cmp k (entries_of nk json ix rows))"
      using remove.IH by (simp add: kv_remove_def)
    ultimately show ?thesis
      using t(2,3) entries_of_remove [OF Some] by simp
  qed
qed

end

text \<open>The rows whose leading segments are those of the values.\<close>

definition has_prefix :: "collation_data \<Rightarrow> (rat \<Rightarrow> rat option) \<Rightarrow> (string \<Rightarrow> string) \<Rightarrow> CompositeIndex \<Rightarrow> string list \<Rightarrow> row \<Rightarrow> bool" where
  "has_prefix D dbl nk ix vals r \<longleftrightarrow>
     (case row_segments nk ix r of
        None \<Rightarrow> False
      | Some segs \<Rightarrow> list_all (\<lambda>i. cmp_key_segment D dbl (segs ! i) (nk (vals ! i)) Mixed = 0) [0..<length vals])"

text \<open>The segments a key can be made of.\<close>

definition segments_ok :: "collation_data \<Rightarrow> (rat \<Rightarrow> rat option) \<Rightarrow> string list \<Rightarrow> bool" where
  "segments_ok D dbl segs \<longleftrightarrow> list_all (\<lambda>s. CHR 0x00 \<notin> set s \<and> below_ff D dbl s) segs"

lemma prefix_in_range:
  assumes "small_ints_exact dbl" "segments_ok D dbl segs" "nul_free vs" "vs \<noteq> []" "length vs < length segs"
  shows "cmp_keys D dbl [] (make_key vs @ [CHR 0x00]) (make_key segs) \<le> 0 \<and> cmp_keys D dbl [] (make_key segs) (make_key vs @ [CHR 0x00, CHR 0xFF]) \<le> 0
    \<longleftrightarrow> (\<forall>i < length vs. cmp_key_segment D dbl (segs ! i) (vs ! i) Mixed = 0)"
proof -
  have o: "index_order D dbl []"
    by (rule index_orderI [OF assms(1)]) simp
  have n: "nul_free segs" "nul_free (vs @ [[]])" "nul_free (vs @ [[CHR 0xFF]])"
    using assms(2,3) by (auto simp: nul_free_def segments_ok_def list_all_iff)
  have "segs ! length vs \<in> set segs"
    using assms(5) by simp
  then have "cmp_key_segment D dbl (segs ! length vs) [CHR 0xFF] Mixed < 0"
    using assms(2) unfolding segments_ok_def list_all_iff below_ff_def by blast
  moreover have "comparison (\<lambda>a b. cmp_key_segment D dbl a b Mixed)"
    using index_order.seg_cmp [OF o, of 0] by (simp add: kind_of_def)
  ultimately have "cmp_lists (\<lambda>a b. cmp_key_segment D dbl a b Mixed) (vs @ [[]]) segs \<le> 0 \<and>
      cmp_lists (\<lambda>a b. cmp_key_segment D dbl a b Mixed) segs (vs @ [[CHR 0xFF]]) \<le> 0
      \<longleftrightarrow> (\<forall>i < length vs. cmp_key_segment D dbl (segs ! i) (vs ! i) Mixed = 0)"
    by (intro cmp_lists_prefix empty_segment assms(5))
  moreover have "segs \<noteq> []"
    using assms(5) by auto
  ultimately show ?thesis
    using make_key_snoc [OF assms(4), of "[]"] make_key_snoc [OF assms(4), of "[CHR 0xFF]"] cmp_segments_lists n
    by (simp add: index_order.cmp_keys_segments [OF o])
qed

section \<open>A lookup returns the rows it is asked for\<close>

lemma filter_entries_of:
  assumes "\<And>r k. r \<in> set rows \<Longrightarrow> key_from_row nk ix r = Some k \<Longrightarrow> P k \<longleftrightarrow> Q r" "\<And>r. Q r \<Longrightarrow> key_from_row nk ix r \<noteq> None"
  shows "map snd (filter (\<lambda>kv. P (fst kv)) (entries_of nk json ix rows)) = map (\<lambda>r. the (json r)) (filter Q rows)"
  using assms(1)
proof (induction rows)
  case (Cons r rows)
  then have IH: "map snd (filter (\<lambda>kv. P (fst kv)) (entries_of nk json ix rows)) = map (\<lambda>r. the (json r)) (filter Q rows)"
    by simp
  show ?case
    using IH Cons.prems [of r] assms(2) [of r] by (cases "key_from_row nk ix r") (auto simp: entries_of_def)
qed (simp add: entries_of_def)

definition rows_indexable :: "collation_data \<Rightarrow> (rat \<Rightarrow> rat option) \<Rightarrow> (string \<Rightarrow> string) \<Rightarrow> CompositeIndex \<Rightarrow> nat \<Rightarrow> row list \<Rightarrow> bool" where
  "rows_indexable D dbl nk ix n rows \<longleftrightarrow>
     list_all (\<lambda>r. case row_segments nk ix r of None \<Rightarrow> True | Some segs \<Rightarrow> segments_ok D dbl segs \<and> n < length segs) rows"

lemma rows_with_prefix_mset:
  assumes "small_ints_exact dbl" "ci_reach (cmp_keys D dbl []) nk json columns pk_columns rows ix"
    "rows_indexable D dbl nk ix (length vals) rows" "nul_free (map nk vals)" "vals \<noteq> []" "length vals \<le> length columns"
  shows "mset (rows_with_prefix (cmp_keys D dbl []) nk ix vals) = mset (map (\<lambda>r. the (json r)) (filter (has_prefix D dbl nk ix vals) rows))"
proof -
  let ?cmp = "cmp_keys D dbl []" and ?lo = "make_key (map nk vals) @ [CHR 0x00]"
  let ?P = "\<lambda>k. ?cmp ?lo k \<le> 0 \<and> ?cmp k (?lo @ [CHR 0xFF]) \<le> 0"
  have o: "key_order ?cmp"
    by (intro index_order.keys_ordered index_orderI assms(1)) simp
  note e = key_order.ci_reach_entries [OF o assms(2)]
  have "rows_with_prefix ?cmp nk ix vals = map snd (filter (\<lambda>kv. ?P (fst kv)) (collect_all_kv (ci_tree ix)))"
    using key_order.tree_scans(1) [OF o, of None "ci_tree ix"] e assms(5,6) ci_reach_config [OF assms(2)]
    by (simp add: rows_with_prefix_def tree_inv_def Let_def)
  then have "mset (rows_with_prefix ?cmp nk ix vals) = mset (map snd (filter (\<lambda>kv. ?P (fst kv)) (entries_of nk json ix rows)))"
    using e by simp
  also have "map snd (filter (\<lambda>kv. ?P (fst kv)) (entries_of nk json ix rows)) = map (\<lambda>r. the (json r)) (filter (has_prefix D dbl nk ix vals) rows)"
  proof (rule filter_entries_of)
    fix r k
    assume r: "r \<in> set rows" "key_from_row nk ix r = Some k"
    then obtain segs where segs: "row_segments nk ix r = Some segs" "k = make_key segs"
      by (auto simp: key_from_row_def)
    then have "segments_ok D dbl segs" "length vals < length segs"
      using assms(3) r(1) by (auto simp: rows_indexable_def list_all_iff split: option.splits)
    then show "?P k \<longleftrightarrow> has_prefix D dbl nk ix vals r"
      using prefix_in_range [OF assms(1), of D segs "map nk vals"] assms(4,5) segs
      by (auto simp: has_prefix_def list_all_iff)
  next
    show "key_from_row nk ix r \<noteq> None" if "has_prefix D dbl nk ix vals r" for r
      using that by (auto simp: has_prefix_def key_from_row_def split: option.splits)
  qed
  finally show ?thesis .
qed


text \<open>A number whose text, and the text it is normalised to, are read exactly.\<close>

definition number_key :: "(rat \<Rightarrow> rat option) \<Rightarrow> string \<Rightarrow> bool" where
  "number_key dbl v \<longleftrightarrow> exact_int dbl v \<and> (case parse_int64_text v of Some x \<Rightarrow> exact_int dbl (int_to_string x) \<and> parse_int64_text (int_to_string x) = Some x | None \<Rightarrow> False)"

lemma number_keyE:
  assumes "number_key dbl v"
  obtains x where "parse_int64_text v = Some x" "normalize_numeric_key D dbl fmt v = int_to_string x" "parse_number dbl (int_to_string x) = Some (of_int x)"
  using assms by (auto simp: number_key_def exact_int_def normalize_numeric_key_def split: option.splits)

lemma number_segment:
  assumes "number_key dbl a" "number_key dbl b"
  shows "cmp_key_segment D dbl (normalize_numeric_key D dbl fmt a) (normalize_numeric_key D dbl fmt b) Mixed = 0 \<longleftrightarrow> compare_classed D dbl ClassNumber rc a b = 0"
proof -
  obtain x y where x: "parse_int64_text a = Some x" "normalize_numeric_key D dbl fmt a = int_to_string x" "parse_number dbl (int_to_string x) = Some (of_int x)"
    and y: "parse_int64_text b = Some y" "normalize_numeric_key D dbl fmt b = int_to_string y" "parse_number dbl (int_to_string y) = Some (of_int y)"
    using number_keyE [OF assms(1)] number_keyE [OF assms(2)] by metis
  have "int_to_string z \<noteq> []" for z
    using to_string_nonempty [of "nat z"] by (simp add: int_to_string_def)
  then have "cmp_key_segment D dbl (int_to_string x) (int_to_string y) Mixed = 0 \<longleftrightarrow> x = y"
    using x(3) y(3) int_to_string_inject [of x y] by (auto simp: cmp_key_segment_def)
  moreover have "compare_classed D dbl ClassNumber rc a b = kind_cmp D ClassNumber a b"
    using assms by (intro classed_kind) (auto simp: in_kind_def number_key_def)
  ultimately show ?thesis
    using x y by (simp add: kind_cmp_def three_way_def)
qed

lemma number_nul_free:
  assumes "\<forall>v \<in> set vals. number_key dbl v"
  shows "nul_free (map (normalize_numeric_key D dbl fmt) vals)"
proof -
  have "CHR 0x00 \<notin> set (int_to_string z)" for z
    using to_string_digits [of "nat z"] to_string_digits [of "nat (- z)"] by (auto simp: int_to_string_def is_digit_def list_all_iff)
  then have "CHR 0x00 \<notin> set (normalize_numeric_key D dbl fmt v)" if "number_key dbl v" for v
    using number_keyE [OF that] by metis
  then show ?thesis
    using assms by (simp add: nul_free_def list_all_iff)
qed

lemma fixed_values_length: "length (fixed_values eq_map columns) \<le> length columns"
  by (induction columns) (auto split: option.splits)

lemma parse_rows_written:
  assumes "mset texts = mset (map f rows)" "\<forall>r \<in> set rows. parse (f r) = Some r"
  shows "\<exists>found. parse_rows parse texts = Some found \<and> mset found = mset rows"
proof -
  have "\<forall>t \<in> set texts. parse t \<noteq> None"
    using assms mset_eq_setD [OF assms(1)] by auto
  then have "parse_rows parse texts = Some (map (the \<circ> parse) texts)"
    by (induction texts) auto
  moreover have "mset (map (the \<circ> parse) texts) = image_mset (the \<circ> parse) (mset (map f rows))"
    using assms(1) by simp
  moreover have "map (the \<circ> parse) (map f rows) = rows"
    using assms(2) by (simp add: map_idI)
  ultimately show ?thesis
    by (metis mset_map)
qed

text \<open>A row that a WHERE clause with the values of the leading columns selects.\<close>

definition where_selects :: "collation_data \<Rightarrow> (rat \<Rightarrow> rat option) \<Rightarrow> ValueClass \<Rightarrow> string list \<Rightarrow> string list \<Rightarrow> row \<Rightarrow> bool" where
  "where_selects D dbl rc columns vals r \<longleftrightarrow>
     list_all (\<lambda>c. row_get r c \<noteq> None) columns \<and>
     list_all (\<lambda>i. compare_classed D dbl ClassNumber rc (the (row_get r (columns ! i))) (vals ! i) = 0) [0..<length vals]"

lemma has_prefix_where:
  assumes "ci_columns ix = columns" "length vals \<le> length columns" "\<forall>v \<in> set vals. number_key dbl v"
    and "\<forall>i < length vals. \<forall>v. row_get r (columns ! i) = Some v \<longrightarrow> number_key dbl v"
  shows "has_prefix D dbl (normalize_numeric_key D dbl fmt) ix vals r \<longleftrightarrow> where_selects D dbl rc columns vals r"
proof (cases "\<exists>c \<in> set columns. row_get r c = None")
  case True
  then show ?thesis
    using assms(1) by (auto simp: has_prefix_def where_selects_def row_segments_def column_segments_def list_all_iff)
next
  case False
  let ?nk = "normalize_numeric_key D dbl fmt" and ?segs = "map (\<lambda>c. normalize_numeric_key D dbl fmt (the (row_get r c))) columns"
  have "cmp_key_segment D dbl ((?segs @ identity_segments (ci_pk_columns ix) r) ! i) (?nk (vals ! i)) Mixed = 0 \<longleftrightarrow>
      compare_classed D dbl ClassNumber rc (the (row_get r (columns ! i))) (vals ! i) = 0" if "i < length vals" for i
  proof -
    have "columns ! i \<in> set columns"
      using that assms(2) by simp
    then obtain v where "row_get r (columns ! i) = Some v"
      using False by auto
    then show ?thesis
      using that assms(2-4) number_segment [of dbl v "vals ! i" D fmt rc] by (simp add: nth_append)
  qed
  then show ?thesis
    using False assms(1) by (auto simp: has_prefix_def where_selects_def row_segments_def column_segments_def list_all_iff)
qed

section \<open>Bytes above every text\<close>

lemma ascii_data_beyond: "133 \<le> cp \<Longrightarrow> from_runs ascii_data cp = None"
  by (auto simp: from_runs_map_of [OF ascii_data_runs_ok] ascii_rows_eq map_of_eq_None_iff dest!: set_zip_leftD)

lemma ascii_weights: "weights_of ascii_data 0xFFFD = [0xFBC1, 0xFFFD]" "weights_of ascii_data 0x4E2D = [0xFB40, 0xCE2D]"
  by (simp_all add: weights_of_def ascii_data_beyond implicit_weights_def)

lemma invalid_byte:
  "c \<in> {CHR 0xFB, CHR 0xFF} \<Longrightarrow> text_weights ascii_data (c # s) = 0xFBC1 # 0xFFFD # text_weights ascii_data s"
  by (auto simp: decode_def ascii_weights)

lemma ideograph_weights: "text_weights ascii_data [CHR 0xE4, CHR 0xB8, CHR 0xAD] = [0xFB40, 0xCE2D]"
proof -
  have "cont_bytes 2 s cp = cont_bytes (Suc (Suc 0)) s cp" for s cp
    by (simp add: numeral_2_eq_2)
  then show ?thesis
    by (simp add: decode_def ascii_weights)
qed

lemma ideograph_no_plain: "plain_key (ascii_of_weight ascii_data) [0xFB40, 0xCE2D] = None"
proof -
  have "list_all (\<lambda>c. (case ascii_table ascii_data c of Some w \<Rightarrow> w | None \<Rightarrow> 0) < 0xFB40) key_chars"
    by code_simp
  then have "\<forall>y \<in> set (ascii_of_weight ascii_data). y < (0xFB40, char_of (0::nat))"
    by (auto simp: ascii_of_weight_def list_all_iff)
  then have "dropWhile (\<lambda>y. y < (0xFB40, char_of (0::nat))) (ascii_of_weight ascii_data) = []"
    by (simp only: dropWhile_eq_Nil_conv)
  then show ?thesis
    by (simp only: plain_key.simps lower_bound_def list.case option.case)
qed

lemma ideograph_key: "normalize_numeric_key ascii_data Some fmt [CHR 0xE4, CHR 0xB8, CHR 0xAD] = [CHR 0x01, CHR 0xFB, CHR 0x40, CHR 0xCE, CHR 0x2D]"
proof -
  have p: "parse_int64_text [CHR 0xE4, CHR 0xB8, CHR 0xAD] = None" "parse_number Some [CHR 0xE4, CHR 0xB8, CHR 0xAD] = None"
    by code_simp+
  show ?thesis
    by (simp add: p normalize_numeric_key_def collation_key_def is_null_text_def printable_def collect_eq cursor_weights_def cursor_at_def ideograph_weights ideograph_no_plain
      weight_bytes_def char_of_def del: text_weights.simps plain_key.simps) (simp add: bit_Suc_0_iff)
qed

lemma ideograph_above: "cmp_key_segment ascii_data Some [CHR 0x01, CHR 0xFB, CHR 0x40, CHR 0xCE, CHR 0x2D] [CHR 0xFF] Mixed > 0"
proof -
  let ?k = "[CHR 0x01, CHR 0xFB, CHR 0x40, CHR 0xCE, CHR 0x2D]"
  have t: "ascii_table ascii_data 1 = None" "ascii_table ascii_data 64 \<noteq> None"
    by code_simp+
  then obtain w where w: "ascii_table ascii_data 64 = Some w"
    by auto
  have p: "parse_number Some ?k = None" "parse_number Some [CHR 0xFF] = None"
    by code_simp+
  have "text_weights ascii_data ?k = 0xFBC1 # 0xFFFD # w # text_weights ascii_data [CHR 0xCE, CHR 0x2D]"
    using t(1) w by (subst text_weights.simps) (simp add: invalid_byte del: text_weights.simps, subst text_weights.simps, simp del: text_weights.simps)
  moreover have "text_weights ascii_data [CHR 0xFF] = [0xFBC1, 0xFFFD]"
    by (simp add: invalid_byte del: text_weights.simps(2))
  ultimately have "text_rank ascii_data ?k > text_rank ascii_data [CHR 0xFF]"
    by (simp add: text_rank_def is_null_text_def del: text_weights.simps)
  then show ?thesis
    by (simp add: cmp_key_segment_def plain_uint_def text_order_def collation_compare_rank p three_way_def is_dig_def)
qed

lemma below_ff_number: "parse_number dbl s \<noteq> None \<Longrightarrow> parse_number dbl [CHR 0xFF] = None \<Longrightarrow> below_ff D dbl s"
  by (auto simp: below_ff_def cmp_key_segment_def plain_uint_def is_dig_def)

lemma below_ff_ascii: "below_ff ascii_data Some ''x''" "below_ff ascii_data Some ''1''" "below_ff ascii_data Some ''2''" "below_ff ascii_data Some ''7''" "below_ff ascii_data Some ''8''"
proof -
  have p: "parse_number Some ''x'' = None" "parse_number Some [CHR 0xFF] = None" "parse_number Some ''1'' \<noteq> None" "parse_number Some ''2'' \<noteq> None"
      "parse_number Some ''7'' \<noteq> None" "parse_number Some ''8'' \<noteq> None"
    by code_simp+
  have "text_rank ascii_data ''x'' < Some [0xFBC1]"
    by code_simp
  also have "\<dots> < text_rank ascii_data [CHR 0xFF]"
    by (simp add: text_rank_def is_null_text_def invalid_byte del: text_weights.simps(2))
  finally show "below_ff ascii_data Some ''x''"
    by (simp add: below_ff_def cmp_key_segment_def plain_uint_def text_order_def collation_compare_rank p three_way_def)
  show "below_ff ascii_data Some ''1''" "below_ff ascii_data Some ''2''" "below_ff ascii_data Some ''7''" "below_ff ascii_data Some ''8''"
    using p by (simp_all add: below_ff_number)
qed

section \<open>Properties\<close>




section \<open>What a lookup misses\<close>

text \<open>
  The upper bound of a lookup, the byte \<^verbatim>\<open>0xFF\<close>, is not above every segment: the normalised text of an ideograph starts, after the byte 1, with \<^verbatim>\<open>0xFB\<close>. Both bytes are read as
  U+FFFD by the collation, and the longer text is then the greater one. A row with such a text in the column after the fixed ones is not found.
\<close>

lemma lookup_misses_ideograph:
  "\<exists>ix. ci_insert_row (cmp_keys ascii_data Some []) (normalize_numeric_key ascii_data Some (\<lambda>_. [])) (row_to_json (\<lambda>_. None))
      [(''a'', ''1''), (''b'', [CHR 0xE4, CHR 0xB8, CHR 0xAD]), (''id'', ''7'')] \<lparr>ci_columns = [''a'', ''b''], ci_pk_columns = [''id''], ci_tree = None\<rparr> = Some ix \<and>
    ci_lookup (cmp_keys ascii_data Some []) (normalize_numeric_key ascii_data Some (\<lambda>_. [])) (row_from_json (\<lambda>_. None)) ix [(''a'', ''1'')] = Some (Some [])"
proof -
  let ?cmp = "cmp_keys ascii_data Some []" and ?nk = "normalize_numeric_key ascii_data Some (\<lambda>_. [])"
  let ?r = "[(''a'', ''1''), (''b'', [CHR 0xE4, CHR 0xB8, CHR 0xAD]), (''id'', ''7'')]" and ?segs = "[''1'', [CHR 0x01, CHR 0xFB, CHR 0x40, CHR 0xCE, CHR 0x2D], ''7'']"
  let ?i0 = "\<lparr>ci_columns = [''a'', ''b''], ci_pk_columns = [''id''], ci_tree = None\<rparr>"
  have e: "small_ints_exact Some" "?nk ''1'' = ''1''"
    by (simp add: small_ints_exact_def) code_simp
  have o: "index_order ascii_data Some []" "key_order ?cmp"
    using index_orderI [OF e(1)] index_order.keys_ordered by auto
  have "row_wf ?r" "utf8_row ?r"
    by code_simp+
  then obtain js where js: "row_to_json (\<lambda>_. None) ?r = Some js"
    using row_json_text by metis
  have key: "key_from_row ?nk ?i0 ?r = Some (make_key ?segs)"
    using e(2) ideograph_key [of "\<lambda>_. []"] by (simp add: key_from_row_def row_segments_def column_segments_def identity_segments_def)
  define t where "t = bt_insert ?cmp None (make_key ?segs) js"
  have t: "tree_inv ?cmp t" "collect_all_kv t = [(make_key ?segs, js)]"
    using key_order.tree_insert_ok [OF o(2), of None] by (simp_all add: t_def tree_inv_def tree_below_def collect_all_kv_def)
  have "?cmp (make_key ?segs) (make_key [''1'', [CHR 0xFF]]) > 0"
    using cmp_segments_lists [of ?segs "[''1'', [CHR 0xFF]]" ascii_data Some 0] ideograph_above
    by (simp add: index_order.cmp_keys_segments [OF o(1)] nul_free_def cmp_key_segment_def [of _ _ "''1''" "''1''"])
  then have "rows_with_prefix ?cmp ?nk (?i0\<lparr>ci_tree := t\<rparr>) [''1''] = []"
    using key_order.tree_scans(1) [OF o(2), of None t] t e(2) by (simp add: rows_with_prefix_def tree_inv_def Let_def)
  then show ?thesis
    using key js by (intro exI [of _ "?i0\<lparr>ci_tree := t\<rparr>"]) (simp add: ci_insert_row_def ci_lookup_def t_def)
qed

text \<open>Without a primary key, rows that are equal but for their versions share a key, and the later one replaces the earlier.\<close>

lemma equal_rows_one_entry:
  "\<exists>ix. ci_insert_rows (cmp_keys ascii_data Some []) (normalize_numeric_key ascii_data Some (\<lambda>_. [])) (row_to_json (\<lambda>_. None))
      [[(''_xmin'', ''3''), (''a'', ''1'')], [(''_xmin'', ''4''), (''a'', ''1'')]] \<lparr>ci_columns = [''a''], ci_pk_columns = [], ci_tree = None\<rparr> = Some ix \<and>
    ci_lookup (cmp_keys ascii_data Some []) (normalize_numeric_key ascii_data Some (\<lambda>_. [])) (row_from_json (\<lambda>_. None)) ix [(''a'', ''1'')]
      = Some (Some [[(''_xmin'', ''4''), (''a'', ''1'')]])"
proof -
  let ?ins = "ci_insert_rows (cmp_keys ascii_data Some []) (normalize_numeric_key ascii_data Some (\<lambda>_. [])) (row_to_json (\<lambda>_. None))
      [[(''_xmin'', ''3''), (''a'', ''1'')], [(''_xmin'', ''4''), (''a'', ''1'')]] \<lparr>ci_columns = [''a''], ci_pk_columns = [], ci_tree = None\<rparr>"
  have "?ins \<noteq> None" "ci_lookup (cmp_keys ascii_data Some []) (normalize_numeric_key ascii_data Some (\<lambda>_. [])) (row_from_json (\<lambda>_. None)) (the ?ins) [(''a'', ''1'')]
      = Some (Some [[(''_xmin'', ''4''), (''a'', ''1'')]])"
    by code_simp+
  then show ?thesis
    by auto
qed

end
