(* ===== verification/DecimalArith.thy ===== *)
theory DecimalArith
  imports IndexKeys
begin

text \<open>
  The exact decimals of the built-in functions and of arithmetic (\<^verbatim>\<open>struct Decimal\<close>, \<^verbatim>\<open>struct Num\<close> and the functions on them, \<^verbatim>\<open>core/include/engine/sql_value_util.hpp\<close>): strings of digits
  with a sign and a place for the point. The digit loops run from the last digit to the first; they are recursions over the reversed strings.

  The division subtracts the divisor as often as it goes; with a divisor of zero its loop does not end, which is \<open>None\<close> here. The number of digits of a text fits in an \<^verbatim>\<open>int\<close>.
\<close>

section \<open>Definitions\<close>

subsection \<open>Decimal\<close>

record Decimal =
  d_negative :: bool
  d_integer :: string
  d_fraction :: string

definition new_decimal :: Decimal where
  "new_decimal = \<lparr>d_negative = False, d_integer = ''0'', d_fraction = []\<rparr>"

text \<open>The digits from the first one that is no zero, \<^verbatim>\<open>"0"\<close> when there is none.\<close>

definition strip_leading :: "string \<Rightarrow> string" where
  "strip_leading s = (let r = dropWhile (\<lambda>c. c = CHR ''0'') s in if r = [] then ''0'' else r)"

text \<open>The digits of an exponent, as far as the loop reads them.\<close>

fun exponent_digits :: "string \<Rightarrow> nat \<Rightarrow> nat \<times> string" where
  "exponent_digits [] e = (e, [])"
| "exponent_digits (c # s) e = (if is_dig c \<and> e < 1000 then exponent_digits s (e * 10 + dig c) else (e, c # s))"

definition decimal_exponent :: "string \<Rightarrow> int \<times> string" where
  "decimal_exponent s =
     (case s of
        c # r \<Rightarrow>
          if c = CHR ''e'' \<or> c = CHR ''E'' then
            (let (neg, r1) = opt_sign r in
             if r1 \<noteq> [] \<and> is_dig (hd r1) then
               (let (e, r2) = exponent_digits r1 0 in (if neg then - int e else int e, r2))
             else (0, s))
          else (0, s)
      | [] \<Rightarrow> (0, []))"

text \<open>One turn moves the point by one place.\<close>

definition point_right :: "string \<times> string \<Rightarrow> string \<times> string" where
  "point_right = (\<lambda>(ip, fp). (ip @ [if fp = [] then CHR ''0'' else hd fp], tl fp))"

definition point_left :: "string \<times> string \<Rightarrow> string \<times> string" where
  "point_left = (\<lambda>(ip, fp). (butlast ip, (if ip = [] then CHR ''0'' else last ip) # fp))"

definition decimal_parse :: "string \<Rightarrow> Decimal option" where
  "decimal_parse text =
     (let (neg, s) = opt_sign (dropWhile (\<lambda>c. c = CHR '' '') text);
          (ip, r1) = span_digits s;
          (fp, r2) = scan_fraction r1 in
      if ip = [] \<and> fp = [] then None
      else
        let (e, r3) = decimal_exponent r2 in
        if dropWhile (\<lambda>c. c = CHR '' '') r3 \<noteq> [] then None
        else
          let (ip', fp') = (if e > 0 then (point_right ^^ nat e) (ip, fp) else (point_left ^^ nat (- e)) (ip, fp)) in
          Some \<lparr>d_negative = neg, d_integer = strip_leading ip', d_fraction = fp'\<rparr>)"

definition decimal_is_zero :: "Decimal \<Rightarrow> bool" where
  "decimal_is_zero d \<longleftrightarrow> d_integer d = ''0'' \<and> list_all (\<lambda>c. c = CHR ''0'') (d_fraction d)"

definition decimal_sign :: "Decimal \<Rightarrow> string" where
  "decimal_sign d = (if d_negative d \<and> \<not> decimal_is_zero d then ''-'' else '''')"

definition decimal_str :: "Decimal \<Rightarrow> nat \<Rightarrow> string" where
  "decimal_str d sc =
     (let f = take sc (d_fraction d) @ replicate (sc - length (d_fraction d)) (CHR ''0'');
          out = decimal_sign d @ d_integer d in
      if sc > 0 then out @ ''.'' @ f else out)"

definition decimal_compact :: "Decimal \<Rightarrow> string" where
  "decimal_compact d =
     (let f = rev (dropWhile (\<lambda>c. c = CHR ''0'') (rev (d_fraction d)));
          out = decimal_sign d @ d_integer d in
      if f \<noteq> [] then out @ ''.'' @ f else out)"

text \<open>Adding one to a reversed string of digits.\<close>

fun increment :: "string \<Rightarrow> string" where
  "increment [] = [CHR ''1'']"
| "increment (c # s) = (if c = CHR ''9'' then CHR ''0'' # increment s else char_of (of_char c + 1 :: nat) # s)"

definition add_unit :: "nat \<Rightarrow> Decimal \<Rightarrow> Decimal" where
  "add_unit places d =
     (let digits = rev (increment (rev (d_integer d @ take places (d_fraction d))));
          i = take (length digits - places) digits in
      d\<lparr>d_integer := if i = [] then ''0'' else i, d_fraction := drop (length digits - places) digits\<rparr>)"

definition decimal_rounded :: "int \<Rightarrow> bool \<Rightarrow> Decimal \<Rightarrow> Decimal" where
  "decimal_rounded places ct d =
     (if places \<ge> 0 then
        (let p = nat places in
         if length (d_fraction d) \<le> p then d
         else
           let up = (\<not> ct \<and> d_fraction d ! p \<ge> CHR ''5''); r = d\<lparr>d_fraction := take p (d_fraction d)\<rparr> in
           if up then add_unit p r else r)
      else
        (let drop_n = nat (- places); n = length (d_integer d) in
         if drop_n > n then new_decimal\<lparr>d_negative := d_negative d\<rparr>
         else
           let kept = take (n - drop_n) (d_integer d);
               up = (\<not> ct \<and> d_integer d ! (n - drop_n) \<ge> CHR ''5'');
               r = new_decimal\<lparr>d_negative := d_negative d, d_integer := if kept = [] then ''0'' else kept\<rparr>;
               r' = (if up then add_unit 0 r else r);
               i = d_integer r' @ replicate drop_n (CHR ''0'') in
           r'\<lparr>d_integer := if list_all (\<lambda>c. c = CHR ''0'') i then ''0'' else i\<rparr>))"

text \<open>The loop over the digits leaves with \<open>None\<close> before an \<^verbatim>\<open>unsigned long long\<close> overflows.\<close>

fun read_u64 :: "string \<Rightarrow> nat \<Rightarrow> nat option" where
  "read_u64 [] v = Some v"
| "read_u64 (c # s) v = (if v > (2 ^ 64 - 1 - 9) div 10 then None else read_u64 s (v * 10 + dig c))"

definition to_int64 :: "Decimal \<Rightarrow> int option" where
  "to_int64 d =
     (if length (d_integer d) > 19 then None
      else case read_u64 (d_integer d) 0 of
          None \<Rightarrow> None
        | Some v \<Rightarrow>
            if d_negative d then (if v > 2 ^ 63 then None else Some (- int v))
            else (if v > 2 ^ 63 - 1 then None else Some (int v)))"

subsection \<open>Num\<close>

record Num =
  n_negative :: bool
  n_digits :: string
  n_scale :: nat

definition from_decimal :: "Decimal \<Rightarrow> Num" where
  "from_decimal d =
     (let digits = strip_leading (d_integer d @ d_fraction d) in
      \<lparr>n_negative = d_negative d \<and> digits \<noteq> ''0'', n_digits = digits, n_scale = length (d_fraction d)\<rparr>)"

definition from_int :: "int \<Rightarrow> Num" where
  "from_int v = \<lparr>n_negative = v < 0, n_digits = nat_text (magnitude v), n_scale = 0\<rparr>"

definition num_is_zero :: "Num \<Rightarrow> bool" where
  "num_is_zero n \<longleftrightarrow> n_digits n = ''0''"

definition to_decimal :: "Num \<Rightarrow> Decimal" where
  "to_decimal n =
     (let digits = n_digits n;
          all_digits = (if length digits \<le> n_scale n then replicate (n_scale n - length digits + 1) (CHR ''0'') @ digits else digits);
          k = length all_digits - n_scale n in
      \<lparr>d_negative = n_negative n \<and> \<not> num_is_zero n, d_integer = take k all_digits, d_fraction = drop k all_digits\<rparr>)"

definition cmp_abs_digits :: "string \<Rightarrow> string \<Rightarrow> int" where
  "cmp_abs_digits a b = (if length a \<noteq> length b then (if length a < length b then -1 else 1) else three_way a b)"

definition head_dig :: "string \<Rightarrow> nat" where
  "head_dig s = (case s of [] \<Rightarrow> 0 | c # _ \<Rightarrow> dig c)"

function add_loop :: "string \<Rightarrow> string \<Rightarrow> nat \<Rightarrow> string" where
  "add_loop a b carry =
     (if a = [] \<and> b = [] \<and> carry = 0 then []
      else let s = head_dig a + head_dig b + carry in char_of (48 + s mod 10) # add_loop (tl a) (tl b) (s div 10))"
  by pat_completeness auto
termination
proof (relation "measures [\<lambda>(a, b, c). length a + length b, \<lambda>(a, b, c). c]", goal_cases)
  case (2 a b c s)
  then show ?case
    by (cases a; cases b) (auto simp: head_dig_def)
qed simp

declare add_loop.simps [simp del]

definition add_abs_digits :: "string \<Rightarrow> string \<Rightarrow> string" where
  "add_abs_digits a b = (let out = rev (add_loop (rev a) (rev b) 0) in if out = [] then ''0'' else out)"

fun sub_loop :: "string \<Rightarrow> string \<Rightarrow> int \<Rightarrow> string" where
  "sub_loop [] b borrow = []"
| "sub_loop (c # a) b borrow =
     (let x = int (dig c) - borrow; y = int (head_dig b); x' = (if x < y then x + 10 else x) in
      char_of (48 + nat (x' - y)) # sub_loop a (tl b) (if x < y then 1 else 0))"

definition sub_abs_digits :: "string \<Rightarrow> string \<Rightarrow> string" where
  "sub_abs_digits a b = strip_leading (rev (sub_loop (rev a) (rev b) 0))"

text \<open>The products of all pairs of digits, then the carries from the last cell to the first.\<close>

definition mul_row :: "nat \<Rightarrow> nat \<Rightarrow> string \<Rightarrow> nat list \<Rightarrow> nat list" where
  "mul_row i x b cells = fold (\<lambda>j cs. cs[i + j + 1 := cs ! (i + j + 1) + x * dig (b ! j)]) [0..<length b] cells"

definition mul_cells :: "string \<Rightarrow> string \<Rightarrow> nat list" where
  "mul_cells a b = fold (\<lambda>i. mul_row i (dig (a ! i)) b) [0..<length a] (replicate (length a + length b) 0)"

definition carry_at :: "nat \<Rightarrow> nat list \<Rightarrow> nat list" where
  "carry_at k cells = cells[k - 1 := cells ! (k - 1) + cells ! k div 10, k := cells ! k mod 10]"

definition mul_abs_digits :: "string \<Rightarrow> string \<Rightarrow> string" where
  "mul_abs_digits a b =
     (if a = ''0'' \<or> b = ''0'' then ''0''
      else let cells = mul_cells a b in
        strip_leading (map (\<lambda>c. char_of (48 + c)) (fold carry_at (rev [1..<length cells]) cells)))"

partial_function (option) div_count :: "string \<Rightarrow> string \<Rightarrow> nat \<Rightarrow> (string \<times> nat) option" where
  "div_count rm den count =
     (if cmp_abs_digits rm den \<ge> 0 then div_count (sub_abs_digits rm den) den (count + 1) else Some (rm, count))"

fun div_loop :: "string \<Rightarrow> string \<Rightarrow> string \<Rightarrow> string \<Rightarrow> string option" where
  "div_loop [] den q rm = Some q"
| "div_loop (c # num) den q rm =
     (case div_count (strip_leading (rm @ [c])) den 0 of
        None \<Rightarrow> None
      | Some (rm', count) \<Rightarrow> div_loop num den (q @ [char_of (48 + count)]) rm')"

definition div_abs_digits :: "string \<Rightarrow> string \<Rightarrow> string option" where
  "div_abs_digits num den = map_option strip_leading (div_loop num den [] ''0'')"

definition align_scale :: "Num \<Rightarrow> nat \<Rightarrow> Num" where
  "align_scale n sc =
     (let n' = (if n_scale n < sc \<and> n_digits n \<noteq> ''0'' then n\<lparr>n_digits := n_digits n @ replicate (sc - n_scale n) (CHR ''0'')\<rparr> else n) in
      n'\<lparr>n_scale := sc\<rparr>)"

definition num_add :: "Num \<Rightarrow> Num \<Rightarrow> bool \<Rightarrow> Num" where
  "num_add a0 b0 subtract =
     (let b1 = (if subtract then b0\<lparr>n_negative := \<not> n_negative b0\<rparr> else b0);
          sc = max (n_scale a0) (n_scale b1);
          a = align_scale a0 sc;
          b = align_scale b1 sc;
          (digits, neg) =
            (if n_negative a = n_negative b then (add_abs_digits (n_digits a) (n_digits b), n_negative a)
             else let c = cmp_abs_digits (n_digits a) (n_digits b) in
               if c = 0 then (''0'', False)
               else if c > 0 then (sub_abs_digits (n_digits a) (n_digits b), n_negative a)
               else (sub_abs_digits (n_digits b) (n_digits a), n_negative b)) in
      \<lparr>n_negative = (if digits = ''0'' then False else neg), n_digits = digits, n_scale = sc\<rparr>)"

definition num_mul :: "Num \<Rightarrow> Num \<Rightarrow> Num" where
  "num_mul a b =
     (let digits = mul_abs_digits (n_digits a) (n_digits b) in
      \<lparr>n_negative = digits \<noteq> ''0'' \<and> n_negative a \<noteq> n_negative b, n_digits = digits, n_scale = n_scale a + n_scale b\<rparr>)"

definition num_round :: "Num \<Rightarrow> nat \<Rightarrow> bool \<Rightarrow> Num" where
  "num_round n sc ct =
     (if n_scale n \<le> sc then align_scale n sc
      else
        let drop_n = n_scale n - sc;
            ds = (if length (n_digits n) \<le> drop_n then replicate (drop_n - length (n_digits n) + 1) (CHR ''0'') @ n_digits n else n_digits n);
            up = (\<not> ct \<and> ds ! (length ds - drop_n) \<ge> CHR ''5'');
            kept = take (length ds - drop_n) ds;
            digits = strip_leading (if up then add_abs_digits kept ''1'' else kept) in
        \<lparr>n_negative = (if digits = ''0'' then False else n_negative n), n_digits = digits, n_scale = sc\<rparr>)"

definition num_div :: "Num \<Rightarrow> Num \<Rightarrow> nat \<Rightarrow> bool \<Rightarrow> Num option" where
  "num_div a b sc ct =
     (let shift = int sc + 1 + int (n_scale b) - int (n_scale a);
          numerator = (if shift \<ge> 0 then n_digits a @ replicate (nat shift) (CHR ''0'') else n_digits a);
          denominator = (if shift \<ge> 0 then n_digits b else n_digits b @ replicate (nat (- shift)) (CHR ''0'')) in
      map_option (\<lambda>q. num_round \<lparr>n_negative = q \<noteq> ''0'' \<and> n_negative a \<noteq> n_negative b, n_digits = q, n_scale = sc + 1\<rparr> sc ct)
        (div_abs_digits numerator denominator))"

section \<open>Strings of digits as numbers\<close>

lemma zero_dig [simp]: "is_dig (CHR ''0'')" "dig (CHR ''0'') = 0"
  by (simp_all add: is_dig_def dig_def)

lemma digits_inject:
  assumes "list_all is_dig a" "list_all is_dig b" "length a = length b" "digits_nat a = digits_nat b"
  shows "a = b"
  using digits_order [OF assms(1-3)] digits_order [OF assms(2,1) assms(3) [symmetric]] assms(4) by (metis less_irrefl linorder_less_linear)

lemma digits_nat_ge: "s \<noteq> [] \<Longrightarrow> is_dig (hd s) \<Longrightarrow> hd s \<noteq> CHR ''0'' \<Longrightarrow> 10 ^ (length s - 1) \<le> digits_nat s"
proof (cases s)
  case (Cons c r)
  assume "is_dig (hd s)" "hd s \<noteq> CHR ''0''"
  then have "0 < dig c"
    using Cons dig_order(2) [of c "CHR ''0''"] by simp
  then have "10 ^ length r \<le> dig c * 10 ^ length r"
    by simp
  then show ?thesis
    using Cons by (simp add: trans_le_add1)
qed simp

lemma nat_text_hd: "0 < n \<Longrightarrow> hd (nat_text n) \<noteq> CHR ''0''"
proof (induction n rule: nat_text.induct)
  case (1 n)
  show ?case
  proof (cases "n < 10")
    case True
    then have "dig (char_of (48 + n)) = n"
      using dig_char_of by blast
    then show ?thesis
      using True 1(2) zero_dig(2) by (subst nat_text.simps) (auto simp del: zero_dig)
  next
    case False
    then show ?thesis
      using 1 nat_text_digits [of "n div 10"] by (subst nat_text.simps) (simp add: hd_append)
  qed
qed

lemma digits_length_eq:
  assumes "list_all is_dig a" "list_all is_dig b" "a \<noteq> []" "b \<noteq> []" "hd a \<noteq> CHR ''0''" "hd b \<noteq> CHR ''0''" "digits_nat a = digits_nat b"
  shows "length a = length b"
proof (rule ccontr)
  have less: False if "list_all is_dig u" "list_all is_dig v" "u \<noteq> []" "v \<noteq> []" "hd v \<noteq> CHR ''0''" "digits_nat u = digits_nat v" "length u < length v" for u v
  proof -
    have "10 ^ (length v - 1) \<le> digits_nat v"
      using that by (intro digits_nat_ge) (auto simp: list_all_iff)
    moreover have "digits_nat u < 10 ^ length u"
      using that by (intro digits_nat_less)
    moreover have "(10::nat) ^ length u \<le> 10 ^ (length v - 1)"
      using that by (intro power_increasing) auto
    ultimately show False
      using that(6) by linarith
  qed
  assume "length a \<noteq> length b"
  then show False
    using less [of a b] less [of b a] assms by (cases "length a < length b") auto
qed

lemma nat_text_eqI:
  assumes "list_all is_dig s" "s \<noteq> []" "hd s \<noteq> CHR ''0''" "digits_nat s = n"
  shows "s = nat_text n"
proof -
  have "0 < n"
    using digits_nat_ge [of s] assms by (metis gr_zeroI list.set_sel(1) list_all_iff not_one_le_zero power_not_zero zero_neq_numeral le_zero_eq)
  then have "hd (nat_text n) \<noteq> CHR ''0''"
    by (rule nat_text_hd)
  then show ?thesis
    using assms nat_text_digits [of n] digits_length_eq [of s "nat_text n"] digits_inject [of s "nat_text n"] by simp
qed

lemma nat_text_0 [simp]: "nat_text 0 = ''0''"
  by code_simp

lemma nat_text_inject [simp]: "nat_text m = nat_text n \<longleftrightarrow> m = n"
  using nat_text_digits by metis

lemma nat_text_is_0 [simp]: "nat_text n = ''0'' \<longleftrightarrow> n = 0"
  using nat_text_inject [of n 0] by (simp del: nat_text_inject)

lemmas nat_text_facts [simp] = nat_text_digits [THEN conjunct1] nat_text_digits [THEN conjunct2, THEN conjunct1] nat_text_digits [THEN conjunct2, THEN conjunct2]

lemma strip_leading_eq: "list_all is_dig s \<Longrightarrow> strip_leading s = nat_text (digits_nat s)"
proof (induction s)
  case (Cons c s)
  show ?case
  proof (cases "c = CHR ''0''")
    case True
    then show ?thesis
      using Cons by (simp add: strip_leading_def)
  next
    case False
    then have "strip_leading (c # s) = c # s"
      by (simp add: strip_leading_def)
    also have "\<dots> = nat_text (digits_nat (c # s))"
      using False Cons.prems by (intro nat_text_eqI) auto
    finally show ?thesis .
  qed
qed (simp add: strip_leading_def)

lemma cmp_abs_digits_eq: "cmp_abs_digits (nat_text m) (nat_text n) = three_way m n"
proof -
  have shorter: "m < n" if "length (nat_text m) < length (nat_text n)" for m n
  proof -
    have "0 < n"
      using that nat_text_facts(1) [of m] by (intro gr0I) auto
    then have "10 ^ (length (nat_text n) - 1) \<le> digits_nat (nat_text n)"
      using nat_text_hd by (intro digits_nat_ge) (simp_all add: list.pred_set [symmetric] list_all_iff [symmetric], metis list.set_sel(1) list_all_iff nat_text_facts(1,2))
    moreover have "m < 10 ^ length (nat_text m)"
      using digits_nat_less [of "nat_text m"] by simp
    moreover have "(10::nat) ^ length (nat_text m) \<le> 10 ^ (length (nat_text n) - 1)"
      using that by (intro power_increasing) auto
    ultimately show ?thesis
      unfolding nat_text_facts(3) by linarith
  qed
  show ?thesis
    using shorter [of m n] shorter [of n m] digits_order [of "nat_text m" "nat_text n"] digits_order [of "nat_text n" "nat_text m"]
    by (auto simp: cmp_abs_digits_def three_way_def)
qed

subsection \<open>Addition and subtraction\<close>

lemma head_tail_value: "list_all is_dig (rev s) \<Longrightarrow> digits_nat (rev s) = digits_nat (rev (tl s)) * 10 + head_dig s"
  by (cases s) (auto simp: head_dig_def)

lemma head_dig_le: "list_all is_dig s \<Longrightarrow> head_dig s \<le> 9"
  by (cases s) (auto simp: head_dig_def dig_le)

lemma add_loop_value:
  assumes "list_all is_dig a" "list_all is_dig b"
  shows "list_all is_dig (add_loop a b c) \<and> digits_nat (rev (add_loop a b c)) = digits_nat (rev a) + digits_nat (rev b) + c"
  using assms
proof (induction a b c rule: add_loop.induct)
  case (1 a b c)
  let ?s = "head_dig a + head_dig b + c"
  show ?case
  proof (cases "a = [] \<and> b = [] \<and> c = 0")
    case False
    have IH: "list_all is_dig (add_loop (tl a) (tl b) (?s div 10)) \<and>
        digits_nat (rev (add_loop (tl a) (tl b) (?s div 10))) = digits_nat (rev (tl a)) + digits_nat (rev (tl b)) + ?s div 10"
      using 1(1) [OF False refl] 1(2,3) by (cases a; cases b) auto
    have "digits_nat (rev a) = digits_nat (rev (tl a)) * 10 + head_dig a" "digits_nat (rev b) = digits_nat (rev (tl b)) * 10 + head_dig b"
      using 1(2,3) by (simp_all add: head_tail_value)
    then show ?thesis
      using IH False dig_char_of [of "?s mod 10"] by (subst (1 2) add_loop.simps) (auto simp: Let_def head_dig_def)
  qed (simp add: add_loop.simps)
qed

lemma add_loop_Nil: "add_loop a b c = [] \<longleftrightarrow> a = [] \<and> b = [] \<and> c = 0"
  by (subst add_loop.simps) (simp add: Let_def)

text \<open>No leading zero: the reversed string is zero or does not end in one.\<close>

definition no_top_zero :: "string \<Rightarrow> bool" where
  "no_top_zero s \<longleftrightarrow> s = [] \<or> s = ''0'' \<or> last s \<noteq> CHR ''0''"

lemma no_top_zero_tl: "no_top_zero s \<Longrightarrow> no_top_zero (tl s)"
  by (cases s) (auto simp: no_top_zero_def split: if_splits)

lemma no_top_zero_pos:
  assumes "no_top_zero (tl s)" "tl s \<noteq> []" "no_top_zero s" "list_all is_dig s"
  shows "0 < digits_nat (rev (tl s))"
proof -
  have "last (tl s) \<noteq> CHR ''0''"
    using assms by (cases s) (auto simp: no_top_zero_def split: if_splits)
  moreover have "is_dig (last (tl s))"
    using assms(2,4) by (cases s) (auto simp: list_all_iff)
  ultimately have "10 ^ (length (rev (tl s)) - 1) \<le> digits_nat (rev (tl s))"
    using assms(2) by (intro digits_nat_ge) (auto simp: hd_rev)
  then show ?thesis
    by (metis gr0I less_numeral_extra(3) not_le zero_less_numeral zero_less_power)
qed

lemma add_loop_last:
  assumes "list_all is_dig a" "list_all is_dig b" "no_top_zero a" "no_top_zero b" "0 < digits_nat (rev (add_loop a b c))"
  shows "last (add_loop a b c) \<noteq> CHR ''0''"
  using assms
proof (induction a b c rule: add_loop.induct)
  case (1 a b c)
  let ?s = "head_dig a + head_dig b + c"
  let ?r = "add_loop (tl a) (tl b) (?s div 10)"
  have ne: "\<not> (a = [] \<and> b = [] \<and> c = 0)"
    using 1(6) add_loop_Nil [of a b c] by auto
  then have eq: "add_loop a b c = char_of (48 + ?s mod 10) # ?r"
    by (subst add_loop.simps) (auto simp: Let_def)
  have tl: "list_all is_dig (tl a)" "list_all is_dig (tl b)"
    using 1(2,3) by (cases a; cases b; simp)+
  note val = add_loop_value [OF tl, of "?s div 10"]
  show ?case
  proof (cases "?r = []")
    case True
    then have "?s < 10" "0 < ?s"
      using val 1(6) eq dig_char_of [of "?s mod 10"] by (auto simp: add_loop_Nil)
    then show ?thesis
      using eq True dig_char_of [of "?s mod 10"] zero_dig(2) by (metis last_ConsL mod_less nat_less_le)
  next
    case False
    then have "tl a \<noteq> [] \<or> tl b \<noteq> [] \<or> 0 < ?s div 10"
      by (simp add: add_loop_Nil)
    then have "0 < digits_nat (rev ?r)"
      using val no_top_zero_pos [of a] no_top_zero_pos [of b] no_top_zero_tl 1(2-5) by auto
    then have "last ?r \<noteq> CHR ''0''"
      using 1(1) [OF ne refl] tl no_top_zero_tl 1(4,5) by blast
    then show ?thesis
      using eq False by simp
  qed
qed

lemma no_top_zero_nat_text: "no_top_zero (rev (nat_text n))"
  using nat_text_hd [of n] by (cases "n = 0") (auto simp: no_top_zero_def last_rev)

lemma add_abs_digits_eq: "add_abs_digits (nat_text m) (nat_text n) = nat_text (m + n)"
proof -
  let ?r = "add_loop (rev (nat_text m)) (rev (nat_text n)) 0"
  have v: "list_all is_dig ?r" "digits_nat (rev ?r) = m + n"
    using add_loop_value [of "rev (nat_text m)" "rev (nat_text n)" 0] by simp_all
  show ?thesis
  proof (cases "m + n = 0")
    case True
    then show ?thesis
      by (simp add: add_abs_digits_def add_loop.simps head_dig_def char_of_def bit_Suc_0_iff)
  next
    case False
    then have "last ?r \<noteq> CHR ''0''" "?r \<noteq> []"
      using add_loop_last [of "rev (nat_text m)" "rev (nat_text n)" 0] v no_top_zero_nat_text by auto
    then have "rev ?r = nat_text (m + n)"
      using v by (intro nat_text_eqI) (auto simp: hd_rev)
    then show ?thesis
      using \<open>?r \<noteq> []\<close> by (simp add: add_abs_digits_def)
  qed
qed

lemma sub_loop_value:
  assumes "list_all is_dig a" "list_all is_dig b" "c \<in> {0, 1}" "int (digits_nat (rev b)) + c \<le> int (digits_nat (rev a))"
  shows "list_all is_dig (sub_loop a b c) \<and> int (digits_nat (rev (sub_loop a b c))) = int (digits_nat (rev a)) - int (digits_nat (rev b)) - c"
  using assms
proof (induction a b c rule: sub_loop.induct)
  case (2 x a b c)
  let ?x = "int (dig x) - c" and ?y = "int (head_dig b)"
  let ?x' = "if ?x < ?y then ?x + 10 else ?x" and ?c' = "if ?x < ?y then 1 else 0 :: int"
  have tl: "list_all is_dig (tl b)"
    using 2(3) by (cases b) auto
  have hb: "digits_nat (rev b) = digits_nat (rev (tl b)) * 10 + head_dig b"
    using 2(3) by (simp add: head_tail_value)
  have dx: "dig x \<le> 9" "head_dig b \<le> 9"
    using 2(2,3) dig_le head_dig_le by auto
  have d: "nat (?x' - ?y) < 10" "int (nat (?x' - ?y)) = ?x' - ?y"
    using dx 2(4) by auto
  have le: "int (digits_nat (rev (tl b))) + ?c' \<le> int (digits_nat (rev a))"
    using 2(5) hb dx 2(4) by auto
  have "list_all is_dig (sub_loop a (tl b) ?c') \<and> int (digits_nat (rev (sub_loop a (tl b) ?c'))) = int (digits_nat (rev a)) - int (digits_nat (rev (tl b))) - ?c'"
    using 2(1) [OF refl refl refl] 2(2) tl le by simp
  then show ?case
    using d dig_char_of [OF d(1)] hb by (simp add: Let_def)
qed simp

lemma sub_abs_digits_eq: "n \<le> m \<Longrightarrow> sub_abs_digits (nat_text m) (nat_text n) = nat_text (m - n)"
  using sub_loop_value [of "rev (nat_text m)" "rev (nat_text n)" 0] by (simp add: sub_abs_digits_def strip_leading_eq of_nat_diff [symmetric] del: of_nat_diff)

subsection \<open>Multiplication\<close>

definition cells_value :: "nat list \<Rightarrow> nat" where
  "cells_value cs = (\<Sum>k<length cs. cs ! k * 10 ^ (length cs - 1 - k))"

lemma cells_value_add: "k < length cs \<Longrightarrow> cells_value (cs[k := cs ! k + x]) = cells_value cs + x * 10 ^ (length cs - 1 - k)"
  unfolding cells_value_def length_list_update
  by (subst (1 2) sum.remove [of _ k]) (auto simp: add_mult_distrib intro!: sum.cong)

lemma cells_value_Cons: "cells_value (c # cs) = c * 10 ^ length cs + cells_value cs"
  unfolding cells_value_def by (simp add: sum.lessThan_Suc_shift del: sum.lessThan_Suc)

lemma digits_nat_sum: "digits_nat b = (\<Sum>j<length b. dig (b ! j) * 10 ^ (length b - 1 - j))"
  by (induction b) (simp_all add: sum.lessThan_Suc_shift del: sum.lessThan_Suc)

lemma mul_row_value:
  assumes "i + length b < length cells"
  shows "length (mul_row i x b cells) = length cells \<and> cells_value (mul_row i x b cells) = cells_value cells + x * digits_nat b * 10 ^ (length cells - 1 - i - length b)"
proof -
  let ?f = "\<lambda>j cs. cs[i + j + 1 := cs ! (i + j + 1) + x * dig (b ! j)]"
  have "length (fold ?f [0..<n] cells) = length cells \<and>
      cells_value (fold ?f [0..<n] cells) = cells_value cells + (\<Sum>j<n. x * dig (b ! j) * 10 ^ (length cells - 1 - (i + j + 1)))" if "n \<le> length b" for n
    using that
  proof (induction n)
    case (Suc n)
    then show ?case
      using assms by (simp add: cells_value_add)
  qed simp
  then have "length (mul_row i x b cells) = length cells \<and>
      cells_value (mul_row i x b cells) = cells_value cells + (\<Sum>j<length b. x * dig (b ! j) * 10 ^ (length cells - 1 - (i + j + 1)))"
    by (simp add: mul_row_def)
  moreover have "(\<Sum>j<length b. x * dig (b ! j) * 10 ^ (length cells - 1 - (i + j + 1))) = x * digits_nat b * 10 ^ (length cells - 1 - i - length b)"
    unfolding digits_nat_sum sum_distrib_left sum_distrib_right
  proof (rule sum.cong)
    fix j
    assume "j \<in> {..<length b}"
    then have "length cells - 1 - (i + j + 1) = (length b - 1 - j) + (length cells - 1 - i - length b)"
      using assms by auto
    then have "(10::nat) ^ (length cells - 1 - (i + j + 1)) = 10 ^ (length b - 1 - j) * 10 ^ (length cells - 1 - i - length b)"
      by (simp only: power_add)
    then show "x * dig (b ! j) * 10 ^ (length cells - 1 - (i + j + 1)) = x * (dig (b ! j) * 10 ^ (length b - 1 - j)) * 10 ^ (length cells - 1 - i - length b)"
      by (simp only: mult.assoc)
  qed simp
  ultimately show ?thesis
    by simp
qed

lemma mul_cells_value: "length (mul_cells a b) = length a + length b \<and> cells_value (mul_cells a b) = digits_nat a * digits_nat b"
proof -
  let ?z = "replicate (length a + length b) (0::nat)"
  have z: "cells_value ?z = 0"
    by (simp add: cells_value_def)
  have "length (fold (\<lambda>i. mul_row i (dig (a ! i)) b) [0..<n] ?z) = length a + length b \<and>
      cells_value (fold (\<lambda>i. mul_row i (dig (a ! i)) b) [0..<n] ?z) = (\<Sum>i<n. dig (a ! i) * digits_nat b * 10 ^ (length a - 1 - i))" if "n \<le> length a" for n
    using that
  proof (induction n)
    case (Suc n)
    then show ?case
      using mul_row_value [of n b "fold (\<lambda>i. mul_row i (dig (a ! i)) b) [0..<n] ?z" "dig (a ! n)"] by (simp add: add.commute)
  qed (simp add: z)
  then show ?thesis
    unfolding mul_cells_def digits_nat_sum [of a] sum_distrib_right by (simp add: mult.assoc mult.left_commute mult.commute)
qed

lemma carry_at_value:
  assumes "1 \<le> k" "k < length cs"
  shows "length (carry_at k cs) = length cs \<and> cells_value (carry_at k cs) = cells_value cs"
proof -
  let ?q = "cs ! k div 10" and ?e = "length cs - 1 - k"
  let ?cs = "cs[k - 1 := cs ! (k - 1) + ?q]"
  have up: "cells_value ?cs = cells_value cs + ?q * 10 ^ (length cs - 1 - (k - 1))"
    using assms by (intro cells_value_add) auto
  have "?cs = (carry_at k cs)[k := carry_at k cs ! k + 10 * ?q]"
    using assms by (auto simp: carry_at_def list_update_swap)
  then have "cells_value ?cs = cells_value (carry_at k cs) + 10 * ?q * 10 ^ ?e"
    using assms cells_value_add [of k "carry_at k cs" "10 * ?q"] by (simp add: carry_at_def)
  moreover have "length cs - 1 - (k - 1) = Suc ?e"
    using assms by auto
  ultimately show ?thesis
    using up by (simp add: carry_at_def)
qed

lemma carry_all:
  assumes "1 \<le> m" "m \<le> length cs"
  shows "let r = fold carry_at (rev [m..<length cs]) cs in length r = length cs \<and> cells_value r = cells_value cs \<and> (\<forall>k. m \<le> k \<and> k < length cs \<longrightarrow> r ! k < 10)"
  using assms(2,1)
proof (induction m rule: inc_induct)
  case (step m)
  let ?r = "fold carry_at (rev [Suc m..<length cs]) cs"
  have IH: "length ?r = length cs" "cells_value ?r = cells_value cs" "\<forall>k. Suc m \<le> k \<and> k < length cs \<longrightarrow> ?r ! k < 10"
    using step by (auto simp: Let_def)
  have "[m..<length cs] = m # [Suc m..<length cs]"
    using step.hyps by (simp add: upt_conv_Cons)
  then have eq: "fold carry_at (rev [m..<length cs]) cs = carry_at m ?r"
    by simp
  have "carry_at m ?r ! k < 10" if "m \<le> k" "k < length cs" for k
    using that IH step by (cases "k = m") (auto simp: carry_at_def nth_list_update)
  then show ?case
    using eq carry_at_value [of m ?r] IH step by (simp add: Let_def)
qed (simp add: Let_def)

lemma cells_text: "list_all (\<lambda>c. c < 10) cs \<Longrightarrow> list_all is_dig (map (\<lambda>c. char_of (48 + c)) cs) \<and> digits_nat (map (\<lambda>c. char_of (48 + c)) cs) = cells_value cs"
  by (induction cs) (auto simp: cells_value_Cons dig_char_of, simp add: cells_value_def)

lemma mul_abs_digits_eq: "mul_abs_digits (nat_text m) (nat_text n) = nat_text (m * n)"
proof (cases "m = 0 \<or> n = 0")
  case False
  let ?a = "nat_text m" and ?b = "nat_text n"
  let ?cs = "mul_cells ?a ?b"
  let ?r = "fold carry_at (rev [1..<length ?cs]) ?cs"
  have c: "length ?cs = length ?a + length ?b" "cells_value ?cs = m * n"
    using mul_cells_value [of ?a ?b] by simp_all
  then have len: "1 \<le> length ?cs"
    using nat_text_facts(1) [of m] by (cases ?a) auto
  then have r: "length ?r = length ?cs" "cells_value ?r = m * n" "\<forall>k. 1 \<le> k \<and> k < length ?cs \<longrightarrow> ?r ! k < 10"
    using carry_all [OF order.refl len] c by (simp_all add: Let_def)
  obtain x xs where x: "?r = x # xs"
    using r(1) len by (cases ?r) auto
  have "m * n < 10 ^ length ?a * 10 ^ length ?b"
    using digits_nat_less [of ?a] digits_nat_less [of ?b] by (intro mult_strict_mono) auto
  then have "x * 10 ^ length xs < 10 * 10 ^ length xs"
    using r(1,2) c(1) x by (simp add: cells_value_Cons flip: power_add power_Suc)
  then have "x < 10"
    by simp
  then have "list_all (\<lambda>c. c < 10) ?r"
    using r(1,3) x by (auto simp: list_all_length nth_Cons split: nat.splits)
  then show ?thesis
    using cells_text [of ?r] r(2) False by (simp add: mul_abs_digits_def Let_def strip_leading_eq)
qed (auto simp: mul_abs_digits_def)

subsection \<open>Division\<close>

lemma div_count_value:
  "0 < d \<Longrightarrow> div_count (nat_text r) (nat_text d) k = Some (nat_text (r mod d), k + r div d)"
proof (induction r arbitrary: k rule: less_induct)
  case (less r)
  show ?case
  proof (cases "d \<le> r")
    case True
    then have "div_count (nat_text r) (nat_text d) k = div_count (nat_text (r - d)) (nat_text d) (k + 1)"
      by (subst div_count.simps) (simp add: cmp_abs_digits_eq three_way_def sub_abs_digits_eq)
    also have "\<dots> = Some (nat_text ((r - d) mod d), k + 1 + (r - d) div d)"
      using less True by simp
    finally show ?thesis
      using True less.prems by (simp add: le_mod_geq le_div_geq)
  next
    case False
    then show ?thesis
      by (subst div_count.simps) (simp add: cmp_abs_digits_eq three_way_def)
  qed
qed

lemma div_loop_value:
  assumes "0 < d" "list_all is_dig num" "list_all is_dig q" "r < d"
  shows "\<exists>q'. div_loop num (nat_text d) q (nat_text r) = Some q' \<and> list_all is_dig q' \<and>
    digits_nat q' = digits_nat q * 10 ^ length num + (r * 10 ^ length num + digits_nat num) div d"
  using assms(2-4)
proof (induction num arbitrary: q r)
  case (Cons c num)
  let ?r = "r * 10 + dig c"
  have s: "strip_leading (nat_text r @ [c]) = nat_text ?r"
    using Cons.prems by (subst strip_leading_eq) (auto simp: dig_def)
  have "?r div d < 10"
  proof -
    have "?r < 10 * d"
      using Cons.prems dig_le [of c] by simp
    then show ?thesis
      by (simp add: less_mult_imp_div_less)
  qed
  then have ch: "is_dig (char_of (48 + ?r div d))" "dig (char_of (48 + ?r div d)) = ?r div d"
    using dig_char_of by blast+
  obtain q' where q': "div_loop num (nat_text d) (q @ [char_of (48 + ?r div d)]) (nat_text (?r mod d)) = Some q'" "list_all is_dig q'"
      "digits_nat q' = digits_nat (q @ [char_of (48 + ?r div d)]) * 10 ^ length num + (?r mod d * 10 ^ length num + digits_nat num) div d"
    using Cons.IH [of "q @ [char_of (48 + ?r div d)]" "?r mod d"] Cons.prems ch assms(1) by auto
  have "(?r * 10 ^ length num + digits_nat num) div d = ?r div d * 10 ^ length num + (?r mod d * 10 ^ length num + digits_nat num) div d"
  proof -
    have "?r * 10 ^ length num + digits_nat num = d * (?r div d * 10 ^ length num) + (?r mod d * 10 ^ length num + digits_nat num)"
      using mult_div_mod_eq [of d ?r] by (metis add.assoc add_mult_distrib mult.assoc)
    then show ?thesis
      using assms(1) div_mult_self4 [of d "?r div d * 10 ^ length num" "?r mod d * 10 ^ length num + digits_nat num"] by (metis less_not_refl)
  qed
  then show ?case
    using q' s div_count_value [OF assms(1), of ?r 0] ch by (simp add: algebra_simps)
qed simp

lemma div_abs_digits_eq:
  assumes "0 < d" "list_all is_dig num"
  shows "div_abs_digits num (nat_text d) = Some (nat_text (digits_nat num div d))"
  using div_loop_value [OF assms, of "[]" 0] assms(1) by (auto simp: div_abs_digits_def strip_leading_eq)


section \<open>Exact values\<close>

definition num_value :: "Num \<Rightarrow> rat" where
  "num_value n = (if n_negative n then -1 else 1) * of_nat (digits_nat (n_digits n)) / 10 ^ n_scale n"

text \<open>The digits are written without leading zeros, and zero has no sign.\<close>

definition num_wf :: "Num \<Rightarrow> bool" where
  "num_wf n \<longleftrightarrow> n_digits n = nat_text (digits_nat (n_digits n)) \<and> (n_negative n \<longrightarrow> n_digits n \<noteq> ''0'')"

text \<open>A value to \<open>s\<close> digits after the point, cut off or rounded half away from zero.\<close>

definition round_at :: "bool \<Rightarrow> nat \<Rightarrow> rat \<Rightarrow> rat" where
  "round_at ct s v =
     (let x = v * 10 ^ s in of_int (if ct then (if x < 0 then - \<lfloor>- x\<rfloor> else \<lfloor>x\<rfloor>) else round_half_away x) / 10 ^ s)"

subsection \<open>Rounding on natural numbers\<close>

definition rdiv :: "bool \<Rightarrow> nat \<Rightarrow> nat \<Rightarrow> nat" where
  "rdiv ct m d = (if ct then m div d else (2 * m + d) div (2 * d))"

lemma rdiv_0: "0 < d \<Longrightarrow> rdiv ct 0 d = 0"
  by (simp add: rdiv_def)

lemma rdiv_cancel: "0 < c \<Longrightarrow> rdiv ct (m * c) (d * c) = rdiv ct m d"
proof -
  assume c: "0 < c"
  have "(2 * (m * c) + d * c) div (2 * (d * c)) = ((2 * m + d) * c) div ((2 * d) * c)"
    by (simp add: algebra_simps)
  then show ?thesis
    using c by (simp add: rdiv_def)
qed

lemma rdiv_digit:
  assumes "0 < e"
  shows "rdiv ct m (10 ^ e) = m div 10 ^ e + (if \<not> ct \<and> 5 \<le> m div 10 ^ (e - 1) mod 10 then 1 else 0)"
proof (cases ct)
  case False
  let ?u = "10 ^ (e - 1) :: nat"
  have five: "(k + 5) div 10 = k div 10 + (if 5 \<le> k mod 10 then 1 else 0)" for k :: nat
    by presburger
  have e: "(10::nat) ^ e = 10 * ?u"
    using assms by (cases e) auto
  have "(2 * m + 10 * ?u) div (2 * (10 * ?u)) = (2 * (m + 5 * ?u)) div (2 * (10 * ?u))"
    by simp
  also have "\<dots> = (m + 5 * ?u) div (10 * ?u)"
    by (rule div_mult_mult1) simp
  also have "\<dots> = (m + 5 * ?u) div ?u div 10"
    by (metis div_mult2_eq mult.commute)
  also have "\<dots> = (m div ?u + 5) div 10"
    by simp
  also have "\<dots> = m div ?u div 10 + (if 5 \<le> m div ?u mod 10 then 1 else 0)"
    by (rule five)
  finally have "(2 * m + 10 * ?u) div (2 * (10 * ?u)) = m div ?u div 10 + (if 5 \<le> m div ?u mod 10 then 1 else 0)" .
  moreover have "m div (10 * ?u) = m div ?u div 10"
    by (metis div_mult2_eq mult.commute)
  ultimately show ?thesis
    using False unfolding rdiv_def e by (simp only: if_False simp_thms)
qed (simp add: rdiv_def)

lemma rdiv_guard_digit:
  assumes "0 < d"
  shows "rdiv ct (m * 10 div d) 10 = rdiv ct m d"
proof -
  have "(m * 10 div d) div 10 = m div d"
    by (metis div_mult2_eq div_mult_mult2 mult.commute zero_neq_numeral)
  moreover have "(2 * (m * 10 div d) + 10) div (2 * 10) = (2 * m + d) div (2 * d)"
  proof -
    have "(2 * (m * 10 div d) + 10) div (2 * 10) = (m * 10 div d + 5) div 10"
      by simp
    also have "\<dots> = (m * 10 + 5 * d) div d div 10"
      using assms by simp
    also have "\<dots> = (5 * (2 * m + d)) div (5 * (2 * d))"
      by (simp add: div_mult2_eq [symmetric] algebra_simps)
    also have "\<dots> = (2 * m + d) div (2 * d)"
      by (rule div_mult_mult1) simp
    finally show ?thesis .
  qed
  ultimately show ?thesis
    by (simp add: rdiv_def)
qed

lemma round_half_away_nat: "0 < d \<Longrightarrow> \<lfloor>(of_nat m / of_nat d :: rat) + 1 / 2\<rfloor> = int ((2 * m + d) div (2 * d))"
proof -
  assume d: "0 < d"
  have "(of_nat m / of_nat d :: rat) + 1 / 2 = of_nat (2 * m + d) / of_nat (2 * d)"
    using d by (simp add: field_simps)
  then show ?thesis
    by (metis floor_divide_of_nat_eq of_int_of_nat_eq)
qed

lemma round_at_fraction:
  assumes "0 < d"
  shows "round_at ct s ((if neg then -1 else 1) * of_nat m / of_nat d) = (if neg then -1 else 1) * of_nat (rdiv ct (m * 10 ^ s) d) / 10 ^ s"
proof -
  let ?x = "of_nat (m * 10 ^ s) / of_nat d :: rat"
  have f: "\<lfloor>?x\<rfloor> = int (m * 10 ^ s div d)"
    by (rule floor_divide_of_nat_eq)
  have h: "\<lfloor>?x + 1 / 2\<rfloor> = int ((2 * (m * 10 ^ s) + d) div (2 * d))"
    by (rule round_half_away_nat [OF assms])
  have x: "(if neg then -1 else 1) * of_nat m / of_nat d * 10 ^ s = (if neg then - ?x else ?x)"
    by simp
  have "0 \<le> ?x"
    by (intro divide_nonneg_nonneg of_nat_0_le_iff)
  then have "\<not> ?x < 0" "- ?x < 0 \<or> ?x = 0"
    by linarith+
  then have "of_int (if ct then (if (if neg then - ?x else ?x) < 0 then - \<lfloor>- (if neg then - ?x else ?x)\<rfloor> else \<lfloor>if neg then - ?x else ?x\<rfloor>)
      else round_half_away (if neg then - ?x else ?x)) = ((if neg then -1 else 1) * of_nat (rdiv ct (m * 10 ^ s) d) :: rat)"
    using f h by (auto simp: round_half_away_def rdiv_def simp del: of_nat_mult)
  then show ?thesis
    unfolding round_at_def Let_def x by simp
qed

subsection \<open>The operations on values\<close>

text \<open>Every well-formed number is an integer and a number of places.\<close>

definition num_of :: "int \<Rightarrow> nat \<Rightarrow> Num" where
  "num_of z s = \<lparr>n_negative = z < 0, n_digits = nat_text (nat \<bar>z\<bar>), n_scale = s\<rparr>"

lemma num_of_simps [simp]: "n_negative (num_of z s) = (z < 0)" "n_digits (num_of z s) = nat_text (nat \<bar>z\<bar>)" "n_scale (num_of z s) = s"
  by (simp_all add: num_of_def)

lemma num_of_value [simp]: "num_value (num_of z s) = of_int z / 10 ^ s"
  by (auto simp: num_value_def)

lemma num_of_wf [simp]: "num_wf (num_of z s)"
  by (simp add: num_wf_def)

lemma num_wfE:
  assumes "num_wf n"
  obtains z where "n = num_of z (n_scale n)"
proof -
  let ?m = "digits_nat (n_digits n)"
  have "n = num_of (if n_negative n then - int ?m else int ?m) (n_scale n)"
    using assms by (cases n) (auto simp: num_wf_def num_of_def, metis gr0I nat_text_0)
  then show ?thesis
    by (rule that)
qed

lemma from_int_num: "from_int v = num_of v 0"
  by (simp add: from_int_def num_of_def magnitude_def)

lemma signed_num:
  "\<lparr>n_negative = nat_text m \<noteq> ''0'' \<and> neg, n_digits = nat_text m, n_scale = s\<rparr> = num_of (if neg then - int m else int m) s"
  by (auto simp: num_of_def)

lemma text_zeros: "0 < m \<Longrightarrow> nat_text m @ replicate k (CHR ''0'') = nat_text (m * 10 ^ k)"
  using nat_text_hd [of m] by (intro nat_text_eqI) (auto simp: hd_append)

lemma align_scale_num: "s \<le> t \<Longrightarrow> align_scale (num_of z s) t = num_of (z * 10 ^ (t - s)) t"
proof (cases "z = 0")
  case True
  then show "align_scale (num_of z s) t = num_of (z * 10 ^ (t - s)) t"
    by (simp add: align_scale_def num_of_def)
next
  case False
  assume "s \<le> t"
  then show "align_scale (num_of z s) t = num_of (z * 10 ^ (t - s)) t"
    using False by (simp add: align_scale_def num_of_def text_zeros abs_mult nat_mult_distrib nat_power_eq mult_less_0_iff)
qed

definition signed_nat :: "bool \<Rightarrow> nat \<Rightarrow> int" where
  "signed_nat neg m = (if neg then - int m else int m)"

lemma signed_sum:
  "(let (digits, neg) =
      (if p = q then (add_abs_digits (nat_text m) (nat_text n), p)
       else let c = cmp_abs_digits (nat_text m) (nat_text n) in
         if c = 0 then (''0'', False)
         else if c > 0 then (sub_abs_digits (nat_text m) (nat_text n), p)
         else (sub_abs_digits (nat_text n) (nat_text m), q)) in
    \<lparr>n_negative = (if digits = ''0'' then False else neg), n_digits = digits, n_scale = s\<rparr>) = num_of (signed_nat p m + signed_nat q n) s"
proof (cases "p = q")
  case True
  then show ?thesis
    by (auto simp: add_abs_digits_eq num_of_def signed_nat_def nat_add_distrib)
next
  case False
  then show ?thesis
    by (cases m n rule: linorder_cases)
      (auto simp: cmp_abs_digits_eq three_way_def sub_abs_digits_eq num_of_def signed_nat_def nat_diff_distrib)
qed

lemma num_add_num:
  "num_add (num_of x s) (num_of y t) sub = num_of (x * 10 ^ (max s t - s) + (if sub then - y else y) * 10 ^ (max s t - t)) (max s t)"
proof -
  let ?n = "max s t" and ?b = "if sub then (num_of y t)\<lparr>n_negative := \<not> n_negative (num_of y t)\<rparr> else num_of y t"
  define u where "u = x * 10 ^ (?n - s)"
  define v where "v = (if sub then - y else y) * 10 ^ (?n - t)"
  have a: "align_scale (num_of x s) ?n = num_of u ?n"
    by (simp add: align_scale_num u_def)
  have b: "n_digits (align_scale ?b ?n) = nat_text (nat \<bar>v\<bar>)" "n_negative (align_scale ?b ?n) = (if sub then \<not> y < 0 else y < 0)"
    using align_scale_num [of t ?n y] by (auto simp: align_scale_def Let_def v_def abs_mult num_of_def split: if_splits)
  have sc: "max (n_scale (num_of x s)) (n_scale ?b) = ?n"
    by simp
  have "signed_nat (u < 0) (nat \<bar>u\<bar>) = u" "signed_nat (if sub then \<not> y < 0 else y < 0) (nat \<bar>v\<bar>) = v"
    by (auto simp: signed_nat_def v_def mult_less_0_iff zero_less_mult_iff abs_mult)
  then show ?thesis
    unfolding num_add_def Let_def sc a b unfolding num_of_simps signed_sum [unfolded Let_def] by (simp only: u_def v_def)
qed

lemma num_mul_num: "num_mul (num_of x s) (num_of y t) = num_of (x * y) (s + t)"
  by (auto simp: num_mul_def Let_def mul_abs_digits_eq num_of_def abs_mult nat_mult_distrib mult_less_0_iff)

lemma drop_digits:
  assumes "list_all is_dig ds" "e \<le> length ds"
  shows "digits_nat (take (length ds - e) ds) = digits_nat ds div 10 ^ e"
proof -
  have "digits_nat ds = digits_nat (take (length ds - e) ds) * 10 ^ e + digits_nat (drop (length ds - e) ds)"
    using assms(2) digits_nat_simps(3) [of "take (length ds - e) ds" "drop (length ds - e) ds"] by simp
  moreover have "digits_nat (drop (length ds - e) ds) < 10 ^ e"
    using assms digits_nat_less [of "drop (length ds - e) ds"] by (auto simp: list_all_iff dest: in_set_dropD)
  ultimately show ?thesis
    by simp
qed

lemma digit_at:
  assumes "list_all is_dig ds" "0 < e" "e \<le> length ds"
  shows "CHR ''5'' \<le> ds ! (length ds - e) \<longleftrightarrow> 5 \<le> digits_nat ds div 10 ^ (e - 1) mod 10"
proof -
  let ?k = "length ds - e"
  have k: "?k < length ds" "length ds - (e - 1) = Suc ?k"
    using assms(2,3) by auto
  have d: "is_dig (ds ! ?k)"
    using assms(1) k(1) by (simp add: list_all_length)
  have "digits_nat (take (Suc ?k) ds) = digits_nat (take ?k ds) * 10 + dig (ds ! ?k)"
    using k(1) by (simp add: take_Suc_conv_app_nth)
  moreover have "digits_nat (take (Suc ?k) ds) = digits_nat ds div 10 ^ (e - 1)"
    using drop_digits [OF assms(1), of "e - 1"] assms(3) unfolding k(2) by simp
  ultimately have "digits_nat ds div 10 ^ (e - 1) mod 10 = (digits_nat (take ?k ds) * 10 + dig (ds ! ?k)) mod 10"
    by simp
  then have "digits_nat ds div 10 ^ (e - 1) mod 10 = dig (ds ! ?k)"
    using dig_le [OF d] by simp
  moreover have "CHR ''5'' \<le> ds ! ?k \<longleftrightarrow> 5 \<le> dig (ds ! ?k)"
    using dig_order [of "ds ! ?k" "CHR ''5''"] d by (auto simp: not_less [symmetric] is_dig_def dig_def)
  ultimately show ?thesis
    by simp
qed

lemma num_round_num:
  assumes "t < s"
  shows "num_round (num_of z s) t ct = num_of (sgn z * int (rdiv ct (nat \<bar>z\<bar>) (10 ^ (s - t)))) t"
proof -
  let ?e = "s - t" and ?m = "nat \<bar>z\<bar>"
  define ds where "ds = (if length (nat_text ?m) \<le> ?e then replicate (?e - length (nat_text ?m) + 1) (CHR ''0'') @ nat_text ?m else nat_text ?m)"
  have ds: "list_all is_dig ds" "digits_nat ds = ?m" "?e < length ds" "0 < ?e"
    using assms by (auto simp: ds_def)
  let ?kept = "take (length ds - ?e) ds" and ?up = "\<not> ct \<and> CHR ''5'' \<le> ds ! (length ds - ?e)"
  have kept: "list_all is_dig ?kept" "digits_nat ?kept = ?m div 10 ^ ?e" "?kept \<noteq> []"
    using drop_digits [of ds ?e] ds by (auto simp: list_all_iff dest: in_set_takeD)
  have up: "?up \<longleftrightarrow> \<not> ct \<and> 5 \<le> ?m div 10 ^ (?e - 1) mod 10"
    using digit_at [of ds ?e] ds by simp
  have add: "strip_leading (add_abs_digits ?kept ''1'') = nat_text (?m div 10 ^ ?e + 1)"
  proof -
    have "list_all is_dig (rev ''1'')" "digits_nat ''1'' = 1"
      by (simp_all add: is_dig_def dig_def)
    then have v: "list_all is_dig (add_loop (rev ?kept) (rev ''1'') 0)" "digits_nat (rev (add_loop (rev ?kept) (rev ''1'') 0)) = ?m div 10 ^ ?e + 1"
      using add_loop_value [of "rev ?kept" "rev ''1''" 0] kept by simp_all
    then have "add_loop (rev ?kept) (rev ''1'') 0 \<noteq> []"
      by (auto simp: add_loop_Nil)
    then show ?thesis
      using v by (simp add: add_abs_digits_def strip_leading_eq)
  qed
  have "strip_leading (if ?up then add_abs_digits ?kept ''1'' else ?kept) = nat_text (rdiv ct ?m (10 ^ ?e))"
    using add up kept strip_leading_eq [OF kept(1)] rdiv_digit [OF ds(4), of ct ?m] by simp
  then have "num_round (num_of z s) t ct = \<lparr>n_negative = (if nat_text (rdiv ct ?m (10 ^ ?e)) = ''0'' then False else z < 0), n_digits = nat_text (rdiv ct ?m (10 ^ ?e)), n_scale = t\<rparr>"
    unfolding num_round_def Let_def num_of_simps ds_def [symmetric] using assms by simp
  then show ?thesis
    by (cases z "0::int" rule: linorder_cases) (auto simp: num_of_def rdiv_def)
qed

lemma num_div_num:
  assumes "y \<noteq> 0"
  shows "num_div (num_of x s) (num_of y t) sc ct =
    Some (num_of (sgn x * sgn y * int (rdiv ct (nat \<bar>x\<bar> * 10 ^ (sc + t)) (nat \<bar>y\<bar> * 10 ^ s))) sc)"
proof -
  let ?x = "nat \<bar>x\<bar>" and ?y = "nat \<bar>y\<bar>" and ?shift = "int sc + 1 + int t - int s"
  let ?num = "if ?shift \<ge> 0 then nat_text ?x @ replicate (nat ?shift) (CHR ''0'') else nat_text ?x"
  let ?den = "if ?shift \<ge> 0 then nat_text ?y else nat_text ?y @ replicate (nat (- ?shift)) (CHR ''0'')"
  define q where "q = ?x * 10 ^ (sc + t) * 10 div (?y * 10 ^ s)"
  have q: "div_abs_digits ?num ?den = Some (nat_text q)"
  proof (cases "?shift \<ge> 0")
    case True
    have "Suc (sc + t) = nat ?shift + s"
      using True by linarith
    then have "?x * 10 ^ (sc + t) * 10 = ?x * 10 ^ nat ?shift * 10 ^ s"
      by (metis mult.assoc power_Suc2 power_add)
    then have "q = ?x * 10 ^ nat ?shift div ?y"
      unfolding q_def by (metis div_mult_mult2 power_not_zero zero_neq_numeral)
    then show ?thesis
      using True assms by (simp add: div_abs_digits_eq)
  next
    case False
    have "s = nat (- ?shift) + Suc (sc + t)"
      using False by linarith
    then have "?y * 10 ^ s = ?y * 10 ^ nat (- ?shift) * 10 ^ Suc (sc + t)"
      by (metis mult.assoc power_add)
    then have "q = ?x * 10 ^ Suc (sc + t) div (?y * 10 ^ nat (- ?shift) * 10 ^ Suc (sc + t))"
      unfolding q_def by (metis mult.assoc power_Suc2)
    then have "q = ?x div (?y * 10 ^ nat (- ?shift))"
      by (metis div_mult_mult2 power_not_zero zero_neq_numeral)
    then show ?thesis
      using False assms by (simp add: text_zeros div_abs_digits_eq)
  qed
  let ?neg = "(x < 0) \<noteq> (y < 0)"
  have "num_div (num_of x s) (num_of y t) sc ct = Some (num_round (num_of (signed_nat ?neg q) (sc + 1)) sc ct)"
    unfolding num_div_def Let_def num_of_simps q by (simp add: signed_num [symmetric] signed_nat_def)
  also have "num_round (num_of (signed_nat ?neg q) (sc + 1)) sc ct = num_of (sgn (signed_nat ?neg q) * int (rdiv ct q 10)) sc"
    using num_round_num [of sc "sc + 1" "signed_nat ?neg q" ct] by (simp add: signed_nat_def)
  also have "rdiv ct q 10 = rdiv ct (?x * 10 ^ (sc + t)) (?y * 10 ^ s)"
    unfolding q_def using assms by (intro rdiv_guard_digit) simp
  also have "sgn (signed_nat ?neg q) * int (rdiv ct (?x * 10 ^ (sc + t)) (?y * 10 ^ s)) = sgn x * sgn y * int (rdiv ct (?x * 10 ^ (sc + t)) (?y * 10 ^ s))"
  proof (cases "q = 0")
    case True
    then have "rdiv ct q 10 = 0"
      by (simp add: rdiv_def)
    moreover have "rdiv ct q 10 = rdiv ct (?x * 10 ^ (sc + t)) (?y * 10 ^ s)"
      unfolding q_def using assms by (intro rdiv_guard_digit) simp
    ultimately show ?thesis
      by simp
  next
    case False
    then have "x \<noteq> 0"
      by (auto simp: q_def)
    then show ?thesis
      using False assms by (auto simp: signed_nat_def sgn_if)
  qed
  finally show ?thesis .
qed

lemma num_round_value:
  assumes "num_wf n"
  shows "num_wf (num_round n t ct)" "num_value (num_round n t ct) = round_at ct t (num_value n)" "n_scale (num_round n t ct) = t"
proof -
  obtain z where z: "n = num_of z (n_scale n)"
    using num_wfE [OF assms] .
  define s where "s = n_scale n"
  have n: "n = num_of z s"
    using z s_def by simp
  have r: "round_at ct t (of_int z / 10 ^ s) = (if z < 0 then -1 else 1) * of_nat (rdiv ct (nat \<bar>z\<bar> * 10 ^ t) (10 ^ s)) / 10 ^ t"
    using round_at_fraction [of "10 ^ s" ct t "z < 0" "nat \<bar>z\<bar>"] by (cases "z < 0") simp_all
  have "num_wf (num_round n t ct) \<and> num_value (num_round n t ct) = round_at ct t (num_value n) \<and> n_scale (num_round n t ct) = t"
  proof (cases "t < s")
    case True
    then have "(10::nat) ^ s = 10 ^ (s - t) * 10 ^ t"
      by (simp flip: power_add)
    then show ?thesis
      using True r rdiv_cancel [of "10 ^ t" ct "nat \<bar>z\<bar>" "10 ^ (s - t)"] rdiv_0 [of "10 ^ (s - t)" ct] by (auto simp: n num_round_num sgn_if)
  next
    case False
    then have ts: "(10::nat) ^ t = 10 ^ (t - s) * 10 ^ s" "(10::rat) ^ t = 10 ^ (t - s) * 10 ^ s"
      by (simp_all flip: power_add)
    have "rdiv ct (nat \<bar>z\<bar> * 10 ^ t) (10 ^ s) = nat \<bar>z\<bar> * 10 ^ (t - s)"
    proof -
      have "rdiv ct (nat \<bar>z\<bar> * 10 ^ t) (10 ^ s) = rdiv ct (nat \<bar>z\<bar> * 10 ^ (t - s) * 10 ^ s) (1 * 10 ^ s)"
        by (simp add: ts(1) mult.assoc)
      also have "\<dots> = nat \<bar>z\<bar> * 10 ^ (t - s)"
        by (subst rdiv_cancel) (simp_all add: rdiv_def)
      finally show ?thesis .
    qed
    then show ?thesis
      using False r by (auto simp: n num_round_def align_scale_num ts(2))
  qed
  then show "num_wf (num_round n t ct)" "num_value (num_round n t ct) = round_at ct t (num_value n)" "n_scale (num_round n t ct) = t"
    by simp_all
qed

lemma num_add_value:
  assumes "num_wf a" "num_wf b"
  shows "num_wf (num_add a b sub)" "num_value (num_add a b sub) = num_value a + (if sub then - num_value b else num_value b)"
    "n_scale (num_add a b sub) = max (n_scale a) (n_scale b)"
proof -
  obtain x s y t where n: "a = num_of x s" "b = num_of y t"
    using num_wfE [OF assms(1)] num_wfE [OF assms(2)] by metis
  have p: "(10::rat) ^ max s t = 10 ^ (max s t - s) * 10 ^ s" "(10::rat) ^ max s t = 10 ^ (max s t - t) * 10 ^ t"
    by (simp_all flip: power_add)
  have "of_int (x * 10 ^ (max s t - s)) / 10 ^ max s t = (of_int x / 10 ^ s :: rat)" "of_int (y * 10 ^ (max s t - t)) / 10 ^ max s t = (of_int y / 10 ^ t :: rat)"
    using p(1) by simp (use p(2) in simp)
  then show "num_wf (num_add a b sub)" "num_value (num_add a b sub) = num_value a + (if sub then - num_value b else num_value b)"
    "n_scale (num_add a b sub) = max (n_scale a) (n_scale b)"
    by (simp_all add: n num_add_num add_divide_distrib diff_divide_distrib)
qed

lemma num_mul_value:
  assumes "num_wf a" "num_wf b"
  shows "num_wf (num_mul a b)" "num_value (num_mul a b) = num_value a * num_value b" "n_scale (num_mul a b) = n_scale a + n_scale b"
proof -
  obtain x s y t where n: "a = num_of x s" "b = num_of y t"
    using num_wfE [OF assms(1)] num_wfE [OF assms(2)] by metis
  show "num_wf (num_mul a b)" "num_value (num_mul a b) = num_value a * num_value b" "n_scale (num_mul a b) = n_scale a + n_scale b"
    by (simp_all add: n num_mul_num power_add)
qed

lemma num_div_value:
  assumes "num_wf a" "num_wf b" "\<not> num_is_zero b"
  obtains q where "num_div a b sc ct = Some q" "num_wf q" "num_value q = round_at ct sc (num_value a / num_value b)" "n_scale q = sc"
proof -
  obtain x s y t where n: "a = num_of x s" "b = num_of y t"
    using num_wfE [OF assms(1)] num_wfE [OF assms(2)] by metis
  have y: "y \<noteq> 0"
    using assms(3) by (auto simp: n num_is_zero_def)
  let ?neg = "(x < 0) \<noteq> (y < 0)" and ?r = "rdiv ct (nat \<bar>x\<bar> * 10 ^ (sc + t)) (nat \<bar>y\<bar> * 10 ^ s)"
  have "num_value a / num_value b = (if ?neg then -1 else 1) * of_nat (nat \<bar>x\<bar> * 10 ^ t) / of_nat (nat \<bar>y\<bar> * 10 ^ s)"
    using y by (auto simp: n field_simps)
  then have "round_at ct sc (num_value a / num_value b) = (if ?neg then -1 else 1) * of_nat (rdiv ct (nat \<bar>x\<bar> * 10 ^ t * 10 ^ sc) (nat \<bar>y\<bar> * 10 ^ s)) / 10 ^ sc"
    using round_at_fraction [of "nat \<bar>y\<bar> * 10 ^ s" ct sc ?neg "nat \<bar>x\<bar> * 10 ^ t"] y by simp
  moreover have "nat \<bar>x\<bar> * 10 ^ t * 10 ^ sc = nat \<bar>x\<bar> * 10 ^ (sc + t)"
    by (simp add: power_add)
  moreover have "?r = 0" if "x = 0"
    using that y by (simp add: rdiv_0)
  ultimately have "round_at ct sc (num_value a / num_value b) = of_int (sgn x * sgn y * int ?r) / 10 ^ sc"
    using y by (auto simp: sgn_if)
  then show ?thesis
    using num_div_num [OF y, of x s t sc ct] by (intro that [of "num_of (sgn x * sgn y * int ?r) sc"]) (simp_all add: n)
qed


section \<open>Decimals\<close>

definition dec_value :: "Decimal \<Rightarrow> rat" where
  "dec_value d = (if d_negative d then -1 else 1) * of_nat (digits_nat (d_integer d @ d_fraction d)) / 10 ^ length (d_fraction d)"

definition dec_wf :: "Decimal \<Rightarrow> bool" where
  "dec_wf d \<longleftrightarrow> d_integer d = nat_text (digits_nat (d_integer d)) \<and> list_all is_dig (d_fraction d)"

lemma dec_wf_digits:
  assumes "dec_wf d"
  shows "list_all is_dig (d_integer d)" "d_integer d \<noteq> []" "list_all is_dig (d_fraction d)"
  using assms by (metis dec_wf_def nat_text_facts(2)) (metis assms dec_wf_def nat_text_facts(1), use assms in \<open>simp add: dec_wf_def\<close>)

lemma dec_value_rat: "dec_value d = decimal_rat (d_negative d) (d_integer d) (d_fraction d) 0"
  by (simp add: dec_value_def decimal_rat_fraction)

lemma from_decimal_value:
  assumes "dec_wf d"
  shows "num_wf (from_decimal d)" "num_value (from_decimal d) = dec_value d" "n_scale (from_decimal d) = length (d_fraction d)"
proof -
  have "strip_leading (d_integer d @ d_fraction d) = nat_text (digits_nat (d_integer d @ d_fraction d))"
    using assms dec_wf_digits(1) [OF assms] by (intro strip_leading_eq) (simp add: dec_wf_def)
  then show "num_wf (from_decimal d)" "num_value (from_decimal d) = dec_value d" "n_scale (from_decimal d) = length (d_fraction d)"
    unfolding from_decimal_def Let_def num_wf_def num_value_def dec_value_def by simp_all
qed

lemma canonicalI: "list_all is_dig i \<Longrightarrow> i \<noteq> [] \<Longrightarrow> hd i \<noteq> CHR ''0'' \<or> length i = 1 \<Longrightarrow> i = nat_text (digits_nat i)"
proof (cases "hd i = CHR ''0''")
  case True
  moreover assume "i \<noteq> []" "hd i \<noteq> CHR ''0'' \<or> length i = 1"
  ultimately have "i = ''0''"
    by (cases i) auto
  then show ?thesis
    by simp
qed (auto intro: nat_text_eqI)

lemma to_decimal_value:
  assumes "num_wf n"
  shows "dec_wf (to_decimal n)" "dec_value (to_decimal n) = num_value n" "length (d_fraction (to_decimal n)) = n_scale n"
proof -
  define ds where "ds = (if length (n_digits n) \<le> n_scale n then replicate (n_scale n - length (n_digits n) + 1) (CHR ''0'') @ n_digits n else n_digits n)"
  let ?k = "length ds - n_scale n"
  obtain m where m: "n_digits n = nat_text m"
    using assms by (metis num_wf_def)
  have ds: "list_all is_dig ds" "digits_nat ds = m" "n_scale n < length ds"
    by (auto simp: ds_def m)
  have d: "to_decimal n = \<lparr>d_negative = n_negative n, d_integer = take ?k ds, d_fraction = drop ?k ds\<rparr>"
    using assms by (auto simp: to_decimal_def Let_def ds_def num_is_zero_def num_wf_def)
  have "take ?k ds = nat_text (digits_nat (take ?k ds))"
  proof (cases "length (n_digits n) \<le> n_scale n")
    case True
    then have "?k = 1" "ds ! 0 = CHR ''0''"
      by (simp_all add: ds_def)
    then have "take ?k ds = ''0''"
      using ds(3) by (cases ds) auto
    then show ?thesis
      by simp
  next
    case False
    then have eq: "ds = nat_text m"
      by (simp add: ds_def m)
    have "hd (take ?k ds) \<noteq> CHR ''0'' \<or> length (take ?k ds) = 1"
    proof (cases "m = 0")
      case True
      then show ?thesis
        using ds(3) eq by simp
    next
      case False
      then show ?thesis
        using nat_text_hd [of m] ds(3) eq by simp
    qed
    then show ?thesis
      using ds(1,3) by (intro canonicalI) (auto simp: list_all_iff dest: in_set_takeD)
  qed
  moreover have "list_all is_dig (drop ?k ds)"
    using ds(1) by (auto simp: list_all_iff dest: in_set_dropD)
  ultimately show "dec_wf (to_decimal n)"
    by (simp add: d dec_wf_def)
  show "length (d_fraction (to_decimal n)) = n_scale n"
    using ds(3) by (simp add: d)
  then show "dec_value (to_decimal n) = num_value n"
    using ds by (simp add: d dec_value_def num_value_def m del: digits_nat_simps)
qed

lemma rdiv_cut: "rdiv True m d = m div d"
  by (simp add: rdiv_def)

lemma decimal_is_zero_value: "dec_wf d \<Longrightarrow> decimal_is_zero d \<longleftrightarrow> dec_value d = 0"
proof -
  assume d: "dec_wf d"
  have "list_all (\<lambda>c. c = CHR ''0'') f \<longleftrightarrow> digits_nat f = 0" if "list_all is_dig f" for f
    using that by (induction f) (auto simp: dig_order(2))
  moreover have "d_integer d = ''0'' \<longleftrightarrow> digits_nat (d_integer d) = 0"
    using d by (metis dec_wf_def nat_text_facts(3) nat_text_is_0)
  moreover have "dec_value d = 0 \<longleftrightarrow> digits_nat (d_integer d @ d_fraction d) = 0"
    by (simp add: dec_value_def del: digits_nat_simps)
  ultimately show ?thesis
    using d by (auto simp: decimal_is_zero_def dec_wf_def)
qed

text \<open>What is written is read back: the value to \<open>s\<close> digits, the rest cut off.\<close>

lemma decimal_str_value:
  assumes "dec_wf d"
  shows "decimal_value (decimal_str d s) = Some (round_at True s (dec_value d))"
proof -
  let ?f = "d_fraction d" and ?i = "d_integer d"
  let ?t = "take s ?f @ replicate (s - length ?f) (CHR ''0'')"
  have t: "list_all is_dig ?t" "length ?t = s"
    using assms by (auto simp: dec_wf_def list_all_iff dest: in_set_takeD)
  have i: "list_all is_dig ?i" "?i \<noteq> []"
    using dec_wf_digits assms by auto
  have "digits_nat (?i @ ?t) = digits_nat (?i @ ?f) * 10 ^ s div 10 ^ length ?f"
  proof (cases "s \<le> length ?f")
    case True
    have l: "length (?i @ ?f) - (length ?f - s) = length ?i + s"
      using True by simp
    have "digits_nat (take (length ?i + s) (?i @ ?f)) = digits_nat (?i @ ?f) div 10 ^ (length ?f - s)"
      using drop_digits [of "?i @ ?f" "length ?f - s"] i(1) assms unfolding l by (simp add: dec_wf_def)
    moreover have "digits_nat (?i @ ?f) * 10 ^ s div 10 ^ length ?f = digits_nat (?i @ ?f) * 10 ^ s div (10 ^ (length ?f - s) * 10 ^ s)"
      using True by (simp flip: power_add)
    ultimately show ?thesis
      using True by simp
  next
    case False
    then have "digits_nat (?i @ ?f) * 10 ^ s = digits_nat (?i @ ?f) * 10 ^ (s - length ?f) * 10 ^ length ?f"
      by (simp flip: power_add)
    then show ?thesis
      using False by (simp add: add_mult_distrib flip: power_add)
  qed
  then have r: "round_at True s (dec_value d) = decimal_rat (d_negative d) ?i ?t 0"
    using round_at_fraction [of "10 ^ length ?f" True s "d_negative d" "digits_nat (?i @ ?f)"] t(2)
    by (simp add: dec_value_def rdiv_cut decimal_rat_fraction del: digits_nat_simps)
  have "decimal_rat (d_negative d) ?i ?t 0 = decimal_rat (d_negative d \<and> \<not> decimal_is_zero d) ?i ?t 0"
    using r decimal_is_zero_value [OF assms] by (auto simp: round_at_def round_half_away_def decimal_rat_fraction)
  moreover have "decimal_str d s = (if d_negative d \<and> \<not> decimal_is_zero d then ''-'' else '''') @ ?i @ (if s > 0 then ''.'' @ ?t else '''')"
    by (simp add: decimal_str_def decimal_sign_def Let_def)
  ultimately show ?thesis
    using decimal_value_text [OF i(2,1) t(1), of "d_negative d \<and> \<not> decimal_is_zero d"] r by (cases "s = 0") auto
qed

subsection \<open>Rounding\<close>

lemma increment_value:
  "list_all is_dig s \<Longrightarrow> list_all is_dig (increment s) \<and> digits_nat (rev (increment s)) = digits_nat (rev s) + 1 \<and> length s \<le> length (increment s)"
proof (induction s)
  case (Cons c s)
  show ?case
  proof (cases "c = CHR ''9''")
    case True
    then show ?thesis
      using Cons by (simp add: dig_def)
  next
    case False
    then have "dig c < 9"
      using Cons.prems dig_order(2) [of c "CHR ''9''"] dig_le [of c] by (simp add: is_dig_def dig_def)
    moreover have "of_char c = 48 + dig c"
      using Cons.prems by (auto simp: is_dig_def dig_def less_eq_char_def)
    ultimately show ?thesis
      using Cons.prems False dig_char_of [of "dig c + 1"] by (simp add: add.commute)
  qed
qed (simp add: is_dig_def dig_def)

lemma increment_last:
  "list_all is_dig s \<Longrightarrow> s \<noteq> [] \<Longrightarrow> last (increment s) \<noteq> CHR ''0'' \<or> length (increment s) = length s \<and> last s = CHR ''0''"
proof (induction s)
  case (Cons c s)
  have "increment s \<noteq> []"
    by (cases s) auto
  moreover have "char_of (of_char c + 1 :: nat) \<noteq> CHR ''0''" if "c \<noteq> CHR ''9''"
  proof -
    have "dig c < 9" "of_char c + 1 = 48 + (dig c + 1 :: nat)"
      using that Cons.prems dig_order(2) [of c "CHR ''9''"] dig_le [of c] by (auto simp: is_dig_def dig_def less_eq_char_def)
    then have "dig (char_of (of_char c + 1 :: nat)) = dig c + 1"
      using dig_char_of [of "dig c + 1"] by simp
    then show ?thesis
      using zero_dig(2) by (metis Suc_eq_plus1 nat.distinct(1))
  qed
  ultimately show ?case
    using Cons by (cases "s = []") auto
qed simp

lemma dec_wf_hd: "dec_wf d \<Longrightarrow> hd (d_integer d) \<noteq> CHR ''0'' \<or> d_integer d = ''0''"
  using nat_text_hd [of "digits_nat (d_integer d)"] by (metis dec_wf_def gr0I nat_text_0)

lemma add_unit_value:
  assumes "dec_wf d" "places \<le> length (d_fraction d)"
  shows "dec_wf (add_unit places d) \<and> length (d_fraction (add_unit places d)) = places \<and> d_negative (add_unit places d) = d_negative d \<and>
    digits_nat (d_integer (add_unit places d) @ d_fraction (add_unit places d)) = digits_nat (d_integer d @ take places (d_fraction d)) + 1"
proof -
  let ?D = "d_integer d @ take places (d_fraction d)"
  define ds where "ds = rev (increment (rev ?D))"
  have D: "list_all is_dig ?D" "?D \<noteq> []"
    using dec_wf_digits [OF assms(1)] by (auto simp: list_all_iff dest: in_set_takeD)
  then have ds: "list_all is_dig ds" "digits_nat ds = digits_nat ?D + 1" "length ?D \<le> length ds"
    using increment_value [of "rev ?D"] by (simp_all add: ds_def del: digits_nat_simps)
  have top: "hd ds \<noteq> CHR ''0'' \<or> length ds = length ?D \<and> d_integer d = ''0''"
    using increment_last [of "rev ?D"] D dec_wf_hd [OF assms(1)] dec_wf_digits(2) [OF assms(1)] by (auto simp: ds_def hd_rev last_rev)
  let ?k = "length ds - places"
  have k: "0 < ?k" "length (drop ?k ds) = places"
    using ds(3) assms(2) dec_wf_digits(2) [OF assms(1)] by (cases "d_integer d"; simp)+
  have I: "list_all is_dig (take ?k ds)" "list_all is_dig (drop ?k ds)" "take ?k ds \<noteq> []" "hd (take ?k ds) = hd ds"
    using ds(1) k by (auto simp: list_all_iff dest: in_set_takeD in_set_dropD)
  have "hd (take ?k ds) \<noteq> CHR ''0'' \<or> length (take ?k ds) = 1"
    using top I(4) assms(2) by auto
  then have "take ?k ds = nat_text (digits_nat (take ?k ds))"
    using I by (intro canonicalI) auto
  moreover have "add_unit places d = d\<lparr>d_integer := take ?k ds, d_fraction := drop ?k ds\<rparr>"
    unfolding add_unit_def Let_def ds_def [symmetric] using I(3) by simp
  ultimately show ?thesis
    using I(2) k(2) ds(2) by (simp add: dec_wf_def del: digits_nat_simps)
qed

text \<open>Rounding to places after the point or, when negative, before it.\<close>

definition round_places :: "bool \<Rightarrow> int \<Rightarrow> rat \<Rightarrow> rat" where
  "round_places ct places v =
     (if places \<ge> 0 then round_at ct (nat places) v else round_at ct 0 (v / 10 ^ nat (- places)) * 10 ^ nat (- places))"

lemma round_places_after:
  assumes "dec_wf d" "p < length (d_fraction d)"
  shows "dec_wf (decimal_rounded (int p) ct d) \<and> dec_value (decimal_rounded (int p) ct d) = round_at ct p (dec_value d)"
proof -
  let ?f = "d_fraction d" and ?i = "d_integer d"
  let ?e = "length ?f - p" and ?ds = "?i @ ?f" and ?r = "d\<lparr>d_fraction := take p ?f\<rparr>"
  have ds: "list_all is_dig ?ds" "0 < ?e" "?e \<le> length ?ds" "length ?ds - ?e = length ?i + p"
    using dec_wf_digits [OF assms(1)] assms(2) by auto
  have kept: "digits_nat (?i @ take p ?f) = digits_nat ?ds div 10 ^ ?e"
    using drop_digits [OF ds(1,3)] assms(2) unfolding ds(4) by simp
  have up: "CHR ''5'' \<le> ?f ! p \<longleftrightarrow> 5 \<le> digits_nat ?ds div 10 ^ (?e - 1) mod 10"
    using digit_at [OF ds(1-3)] unfolding ds(4) by (simp add: nth_append)
  have wf: "dec_wf ?r"
  proof -
    have "list_all is_dig (take p ?f)"
      using dec_wf_digits(3) [OF assms(1)] by (auto simp: list_all_iff dest: in_set_takeD)
    then show ?thesis
      using assms(1) unfolding dec_wf_def by simp
  qed
  have "round_at ct p (dec_value d) = (if d_negative d then -1 else 1) * of_nat (rdiv ct (digits_nat ?ds * 10 ^ p) (10 ^ length ?f)) / 10 ^ p"
    using round_at_fraction [of "10 ^ length ?f" ct p "d_negative d" "digits_nat ?ds"] by (simp add: dec_value_def del: digits_nat_simps)
  moreover have "rdiv ct (digits_nat ?ds * 10 ^ p) (10 ^ length ?f) = rdiv ct (digits_nat ?ds) (10 ^ ?e)"
    using rdiv_cancel [of "10 ^ p" ct "digits_nat ?ds" "10 ^ ?e"] assms(2) by (simp del: digits_nat_simps flip: power_add)
  moreover have "rdiv ct (digits_nat ?ds) (10 ^ ?e) = digits_nat (?i @ take p ?f) + (if \<not> ct \<and> CHR ''5'' \<le> ?f ! p then 1 else 0)"
    unfolding rdiv_digit [OF ds(2)] kept up ..
  ultimately have v: "round_at ct p (dec_value d) = (if d_negative d then -1 else 1) *
      of_nat (digits_nat (?i @ take p ?f) + (if \<not> ct \<and> CHR ''5'' \<le> ?f ! p then 1 else 0)) / 10 ^ p"
    by (simp only:)
  have "decimal_rounded (int p) ct d = (if \<not> ct \<and> CHR ''5'' \<le> ?f ! p then add_unit p ?r else ?r)"
    using assms(2) by (simp add: decimal_rounded_def Let_def)
  then show ?thesis
    using v wf add_unit_value [OF wf, of p] assms(2) by (simp add: dec_value_def min_def del: digits_nat_simps)
qed


lemma rdiv_trunc:
  assumes "0 < k"
  shows "rdiv ct m (10 ^ (l + k)) = rdiv ct (m div 10 ^ l) (10 ^ k)"
proof -
  have "m div 10 ^ (l + k - 1) = m div 10 ^ l div 10 ^ (k - 1)" "m div 10 ^ (l + k) = m div 10 ^ l div 10 ^ k"
    using assms by (simp_all flip: power_add div_mult2_eq)
  then show ?thesis
    using rdiv_digit [of "l + k" ct m] rdiv_digit [of k ct "m div 10 ^ l"] assms by simp
qed

lemma integer_part:
  assumes "dec_wf d"
  shows "digits_nat (d_integer d @ d_fraction d) div 10 ^ length (d_fraction d) = digits_nat (d_integer d)"
  using digits_nat_less [OF dec_wf_digits(3) [OF assms]] by simp

lemma append_zeros_canonical:
  assumes "i = nat_text m"
  shows "(if list_all (\<lambda>c. c = CHR ''0'') (i @ replicate k (CHR ''0'')) then ''0'' else i @ replicate k (CHR ''0'')) = nat_text (m * 10 ^ k)"
proof (cases "m = 0")
  case True
  then show ?thesis
    using assms by (simp add: list_all_iff)
next
  case False
  then have "hd (nat_text m) \<noteq> CHR ''0''" "hd (nat_text m) \<in> set (nat_text m @ replicate k (CHR ''0''))"
    using nat_text_hd [of m] nat_text_facts(1) [of m] by simp_all
  then have "\<not> list_all (\<lambda>c. c = CHR ''0'') (nat_text m @ replicate k (CHR ''0''))"
    unfolding list_all_iff by blast
  then show ?thesis
    unfolding assms using text_zeros [of m k] False by (simp only: if_False)
qed

lemma round_places_before:
  assumes "dec_wf d" "0 < k"
  shows "dec_wf (decimal_rounded (- int k) ct d) \<and> dec_value (decimal_rounded (- int k) ct d) = round_at ct 0 (dec_value d / 10 ^ k) * 10 ^ k"
proof -
  let ?i = "d_integer d" and ?f = "d_fraction d"
  let ?n = "length ?i" and ?I = "digits_nat (d_integer d)"
  have i: "list_all is_dig ?i" "?i \<noteq> []"
    using dec_wf_digits [OF assms(1)] by auto
  have "dec_value d / 10 ^ k = (if d_negative d then -1 else 1) * of_nat (digits_nat (?i @ ?f)) / of_nat (10 ^ (length ?f + k))"
    by (simp add: dec_value_def power_add del: digits_nat_simps)
  then have v: "round_at ct 0 (dec_value d / 10 ^ k) = (if d_negative d then -1 else 1) * of_nat (rdiv ct ?I (10 ^ k))"
    using round_at_fraction [of "10 ^ (length ?f + k)" ct 0 "d_negative d" "digits_nat (?i @ ?f)"] rdiv_trunc [OF assms(2), of ct _ "length ?f"] integer_part [OF assms(1)]
    by (simp del: digits_nat_simps)
  show ?thesis
  proof (cases "k > ?n")
    case True
    have "?I < 10 ^ ?n" "(10::nat) ^ ?n \<le> 10 ^ (k - 1)" "(10::nat) ^ (k - 1) \<le> 10 ^ k"
      using digits_nat_less [OF i(1)] True by (auto intro: power_increasing)
    then have "?I div 10 ^ k = 0" "?I div 10 ^ (k - 1) = 0"
      by (meson div_less less_le_trans)+
    then have "rdiv ct ?I (10 ^ k) = 0"
      using rdiv_digit [OF assms(2), of ct ?I] by simp
    moreover have "decimal_rounded (- int k) ct d = new_decimal\<lparr>d_negative := d_negative d\<rparr>"
      using True assms(2) by (simp add: decimal_rounded_def Let_def)
    ultimately show ?thesis
      using v by (simp add: new_decimal_def dec_wf_def dec_value_def)
  next
    case False
    let ?kept = "take (?n - k) ?i" and ?up = "\<not> ct \<and> CHR ''5'' \<le> ?i ! (?n - k)"
    define r where "r = new_decimal\<lparr>d_negative := d_negative d, d_integer := if ?kept = [] then ''0'' else ?kept\<rparr>"
    define r' where "r' = (if ?up then add_unit 0 r else r)"
    have kept: "digits_nat ?kept = ?I div 10 ^ k" "list_all is_dig ?kept"
      using drop_digits [OF i(1), of k] False i(1) by (auto simp: list_all_iff dest: in_set_takeD)
    have up: "?up \<longleftrightarrow> \<not> ct \<and> 5 \<le> ?I div 10 ^ (k - 1) mod 10"
      using digit_at [OF i(1) assms(2)] False by simp
    have "(if ?kept = [] then ''0'' else ?kept) = nat_text (?I div 10 ^ k)"
    proof (cases "?kept = []")
      case True
      then show ?thesis
        using kept(1) by (metis digits_nat_simps(1) nat_text_0)
    next
      case ne: False
      then have "hd ?kept \<noteq> CHR ''0'' \<or> length ?kept = 1"
        using dec_wf_hd [OF assms(1)] by (cases "?n - k") (auto simp: take_Cons' split: if_splits)
      then show ?thesis
        using canonicalI [OF kept(2) ne] kept(1) ne by simp
    qed
    then have r: "dec_wf r" "d_integer r = nat_text (?I div 10 ^ k)" "d_fraction r = []" "d_negative r = d_negative d"
      by (simp_all add: r_def new_decimal_def dec_wf_def)
    have "dec_wf r'" "digits_nat (d_integer r') = rdiv ct ?I (10 ^ k)" "d_fraction r' = []" "d_negative r' = d_negative d"
      using add_unit_value [OF r(1), of 0] r rdiv_digit [OF assms(2), of ct ?I] up by (auto simp: r'_def)
    then have r': "d_integer r' = nat_text (rdiv ct ?I (10 ^ k))" "d_fraction r' = []" "d_negative r' = d_negative d"
      by (auto simp: dec_wf_def)
    have "decimal_rounded (- int k) ct d =
        r'\<lparr>d_integer := if list_all (\<lambda>c. c = CHR ''0'') (d_integer r' @ replicate k (CHR ''0'')) then ''0'' else d_integer r' @ replicate k (CHR ''0'')\<rparr>"
      unfolding r'_def r_def using False assms(2) by (simp add: decimal_rounded_def Let_def)
    also have "\<dots> = r'\<lparr>d_integer := nat_text (rdiv ct ?I (10 ^ k) * 10 ^ k)\<rparr>"
      unfolding append_zeros_canonical [OF r'(1)] ..
    finally have eq: "decimal_rounded (- int k) ct d = r'\<lparr>d_integer := nat_text (rdiv ct ?I (10 ^ k) * 10 ^ k)\<rparr>" .
    show ?thesis
      unfolding eq v using r'(2,3) by (simp add: dec_wf_def dec_value_def)
  qed
qed

lemma decimal_rounded_value:
  assumes "dec_wf d"
  shows "dec_wf (decimal_rounded places ct d) \<and> dec_value (decimal_rounded places ct d) = round_places ct places (dec_value d)"
proof (cases "places \<ge> 0")
  case True
  then obtain p where p: "places = int p"
    using nonneg_int_cases by blast
  show ?thesis
  proof (cases "p < length (d_fraction d)")
    case True
    then show ?thesis
      using round_places_after [OF assms] p by (simp add: round_places_def)
  next
    case False
    then have "num_round (from_decimal d) p ct = align_scale (from_decimal d) p" "num_value (num_round (from_decimal d) p ct) = round_at ct p (dec_value d)"
      using num_round_value(2) [OF from_decimal_value(1) [OF assms], of p ct] from_decimal_value(2,3) [OF assms] by (simp_all add: num_round_def)
    moreover have "num_value (align_scale (from_decimal d) p) = dec_value d"
    proof -
      obtain z where z: "from_decimal d = num_of z (length (d_fraction d))"
        using num_wfE [OF from_decimal_value(1) [OF assms]] from_decimal_value(3) [OF assms] by metis
      have "(10::rat) ^ p = 10 ^ (p - length (d_fraction d)) * 10 ^ length (d_fraction d)"
        using False by (simp flip: power_add)
      then show ?thesis
        using z False from_decimal_value(2) [OF assms] by (simp add: align_scale_num)
    qed
    ultimately show ?thesis
      using False p assms by (simp add: decimal_rounded_def round_places_def)
  qed
next
  case False
  then obtain k where "places = - int k" "0 < k"
    using that [of "nat (- places)"] by simp
  then show ?thesis
    using round_places_before [OF assms] False by (simp add: round_places_def)
qed


subsection \<open>Integers and texts\<close>

lemma read_u64_value:
  assumes "list_all is_dig s" "length s \<le> 19" "v < 10 ^ (19 - length s)"
  shows "read_u64 s v = Some (v * 10 ^ length s + digits_nat s)"
  using assms
proof (induction s arbitrary: v)
  case (Cons c s)
  have l: "19 - length s = Suc (19 - length (c # s))"
    using Cons.prems(2) by simp
  have "(10::nat) ^ (19 - length (c # s)) \<le> 10 ^ 18"
    by (intro power_increasing) auto
  then have "\<not> v > (2 ^ 64 - 1 - 9) div 10"
    using Cons.prems(3) by simp
  moreover have "v * 10 + dig c < 10 ^ (19 - length s)"
  proof -
    have "dig c \<le> 9"
      using Cons.prems(1) dig_le by simp
    then show ?thesis
      using Cons.prems(3) unfolding l power_Suc by linarith
  qed
  ultimately have "read_u64 (c # s) v = Some ((v * 10 + dig c) * 10 ^ length s + digits_nat s)"
    using Cons.IH [of "v * 10 + dig c"] Cons.prems(1,2) by (simp only: read_u64.simps if_False) simp
  moreover have "(v * 10 + dig c) * 10 ^ length s + digits_nat s = v * 10 ^ length (c # s) + digits_nat (c # s)"
    by (simp add: algebra_simps)
  ultimately show ?case
    by (simp only:)
qed simp

lemma to_int64_value:
  assumes "dec_wf d"
  shows "to_int64 d = (let z = signed_nat (d_negative d) (digits_nat (d_integer d)) in if in_int64 z then Some z else None)"
proof (cases "length (d_integer d) > 19")
  case True
  have "d_integer d \<noteq> ''0''"
    using True by auto
  then have "10 ^ (length (d_integer d) - 1) \<le> digits_nat (d_integer d)"
    using dec_wf_hd [OF assms] dec_wf_digits [OF assms] by (intro digits_nat_ge) (auto simp: list_all_iff)
  moreover have "(10::nat) ^ 19 \<le> 10 ^ (length (d_integer d) - 1)"
    using True by (intro power_increasing) auto
  ultimately have "10 ^ 19 \<le> digits_nat (d_integer d)"
    by linarith
  then have "\<not> in_int64 (signed_nat (d_negative d) (digits_nat (d_integer d)))"
    by (auto simp: in_int64_def signed_nat_def int64_min_def int64_max_def)
  then show ?thesis
    using True by (simp add: to_int64_def Let_def)
next
  case False
  then have "read_u64 (d_integer d) 0 = Some (digits_nat (d_integer d))"
    using read_u64_value [of "d_integer d" 0] dec_wf_digits(1) [OF assms] by simp
  then show ?thesis
    using False by (auto simp: to_int64_def Let_def in_int64_def signed_nat_def int64_min_def int64_max_def)
qed

text \<open>The parts of a number with the point between them.\<close>

definition parts_value :: "string \<times> string \<Rightarrow> rat" where
  "parts_value x = of_nat (digits_nat (fst x @ snd x)) / 10 ^ length (snd x)"

definition parts_ok :: "string \<times> string \<Rightarrow> bool" where
  "parts_ok x \<longleftrightarrow> list_all is_dig (fst x) \<and> list_all is_dig (snd x)"

lemma point_right_value: "parts_ok x \<Longrightarrow> parts_ok (point_right x) \<and> parts_value (point_right x) = parts_value x * 10"
  by (cases x; cases "snd x") (auto simp: parts_ok_def parts_value_def point_right_def field_simps)

lemma point_left_value: "parts_ok x \<Longrightarrow> parts_ok (point_left x) \<and> parts_value (point_left x) = parts_value x / 10"
  by (cases x; cases "fst x" rule: rev_cases) (auto simp: parts_ok_def parts_value_def point_left_def field_simps)

lemma point_right_iter: "parts_ok x \<Longrightarrow> parts_ok ((point_right ^^ n) x) \<and> parts_value ((point_right ^^ n) x) = parts_value x * 10 ^ n"
  by (induction n) (simp_all add: point_right_value)

lemma point_left_iter: "parts_ok x \<Longrightarrow> parts_ok ((point_left ^^ n) x) \<and> parts_value ((point_left ^^ n) x) = parts_value x / 10 ^ n"
  by (induction n) (simp_all add: point_left_value)

lemma scan_fraction_digits: "list_all is_dig (fst (scan_fraction s))"
  by (auto simp: scan_fraction_def span_digits_def list_all_iff split: list.splits dest: set_takeWhileD)

lemma pow10_rat_shift: "pow10_rat (e - int n) = (if e > 0 then 10 ^ nat e else 1 / 10 ^ nat (- e)) / 10 ^ n"
proof (cases "e > 0")
  case True
  then obtain k where k: "e = int k"
    using pos_int_cases by blast
  show ?thesis
  proof (cases "n \<le> k")
    case True
    then have "nat (int k - int n) = k - n"
      by simp
    then show ?thesis
      using True k \<open>e > 0\<close> by (simp add: pow10_rat_def power_diff)
  next
    case False
    then have "nat (int n - int k) = n - k"
      by simp
    then show ?thesis
      using False k \<open>e > 0\<close> by (simp add: pow10_rat_def power_diff)
  qed
next
  case False
  then have "nat (int n - e) = nat (- e) + n"
    by simp
  then show ?thesis
    using False by (cases "n = 0") (auto simp: pow10_rat_def power_add)
qed

text \<open>A text that is read stands for its digits, its sign and its exponent.\<close>

lemma decimal_parse_value:
  assumes "decimal_parse text = Some d"
  obtains neg s ip r1 fp r2 e r3 where "opt_sign (dropWhile (\<lambda>c. c = CHR '' '') text) = (neg, s)" "span_digits s = (ip, r1)" "scan_fraction r1 = (fp, r2)"
    "decimal_exponent r2 = (e, r3)" "ip \<noteq> [] \<or> fp \<noteq> []" "dec_wf d" "dec_value d = decimal_rat neg ip fp e" "d_negative d = neg"
proof -
  obtain neg s where s: "opt_sign (dropWhile (\<lambda>c. c = CHR '' '') text) = (neg, s)"
    by fastforce
  obtain ip r1 where ip: "span_digits s = (ip, r1)"
    by fastforce
  obtain fp r2 where fp: "scan_fraction r1 = (fp, r2)"
    by fastforce
  obtain e r3 where e: "decimal_exponent r2 = (e, r3)"
    by fastforce
  define x where "x = (if e > 0 then (point_right ^^ nat e) (ip, fp) else (point_left ^^ nat (- e)) (ip, fp))"
  have ok: "parts_ok (ip, fp)"
    using ip fp scan_fraction_digits [of r1] by (auto simp: parts_ok_def span_digits_def list_all_iff dest: set_takeWhileD)
  then have x: "parts_ok x" "parts_value x = of_nat (digits_nat (ip @ fp)) * pow10_rat (e - int (length fp))"
    using point_right_iter [OF ok, of "nat e"] point_left_iter [OF ok, of "nat (- e)"]
    by (auto simp: x_def parts_value_def pow10_rat_shift simp del: digits_nat_simps)
  have d: "d = \<lparr>d_negative = neg, d_integer = strip_leading (fst x), d_fraction = snd x\<rparr>" "ip \<noteq> [] \<or> fp \<noteq> []"
    using assms s ip fp e by (auto simp: decimal_parse_def x_def Let_def split: prod.splits if_splits)
  have st: "strip_leading (fst x) = nat_text (digits_nat (fst x))" "list_all is_dig (snd x)"
    using x(1) by (simp_all add: parts_ok_def strip_leading_eq)
  then have "digits_nat (d_integer d @ d_fraction d) = digits_nat (fst x @ snd x)"
    by (simp add: d(1))
  then have v: "dec_value d = (if neg then - parts_value x else parts_value x)"
    by (simp add: d(1) dec_value_def parts_value_def del: digits_nat_simps)
  have "dec_wf d" "dec_value d = decimal_rat neg ip fp e"
    using st by (simp add: d(1) dec_wf_def) (simp add: v x(2) decimal_rat_def Let_def)
  then show ?thesis
    using that [OF s ip fp e] d by simp
qed

subsection \<open>Numbers that are read and written\<close>

lemma strip_trailing_zeros:
  obtains k where "f = rev (dropWhile (\<lambda>c. c = CHR ''0'') (rev f)) @ replicate k (CHR ''0'')"
proof -
  have "rev f = takeWhile (\<lambda>c. c = CHR ''0'') (rev f) @ dropWhile (\<lambda>c. c = CHR ''0'') (rev f)"
    by simp
  moreover have "takeWhile (\<lambda>c. c = CHR ''0'') (rev f) = replicate (length (takeWhile (\<lambda>c. c = CHR ''0'') (rev f))) (CHR ''0'')"
    by (intro replicate_eqI) (auto dest: set_takeWhileD)
  ultimately have "rev f = replicate (length (takeWhile (\<lambda>c. c = CHR ''0'') (rev f))) (CHR ''0'') @ dropWhile (\<lambda>c. c = CHR ''0'') (rev f)"
    by metis
  then have "f = rev (dropWhile (\<lambda>c. c = CHR ''0'') (rev f)) @ replicate (length (takeWhile (\<lambda>c. c = CHR ''0'') (rev f))) (CHR ''0'')"
    by (metis rev_append rev_replicate rev_rev_ident)
  then show ?thesis
    using that by blast
qed

lemma round_at_exact: "round_at ct s (of_int z / 10 ^ s) = of_int z / 10 ^ s"
  by (simp add: round_at_def round_half_away_def Let_def floor_eq_iff)

lemma dec_value_scaled: "\<exists>z. dec_value d = of_int z / 10 ^ length (d_fraction d)"
  by (rule exI [of _ "signed_nat (d_negative d) (digits_nat (d_integer d @ d_fraction d))"]) (simp add: dec_value_def signed_nat_def)

lemma decimal_str_exact: "dec_wf d \<Longrightarrow> decimal_value (decimal_str d (length (d_fraction d))) = Some (dec_value d)"
  using decimal_str_value [of d "length (d_fraction d)"] dec_value_scaled [of d] round_at_exact by (metis (no_types))

lemma decimal_compact_value:
  assumes "dec_wf d"
  shows "decimal_value (decimal_compact d) = Some (dec_value d)"
proof -
  let ?f = "rev (dropWhile (\<lambda>c. c = CHR ''0'') (rev (d_fraction d)))"
  let ?d = "d\<lparr>d_fraction := ?f\<rparr>"
  obtain k where k: "d_fraction d = ?f @ replicate k (CHR ''0'')"
    using strip_trailing_zeros .
  have z: "list_all (\<lambda>c. c = CHR ''0'') (d_fraction d) \<longleftrightarrow> list_all (\<lambda>c. c = CHR ''0'') ?f"
    by (subst k) (auto simp: list_all_iff set_replicate_conv_if)
  have "decimal_compact d = decimal_str ?d (length (d_fraction ?d))"
    using z by (simp add: decimal_compact_def decimal_str_def decimal_sign_def decimal_is_zero_def Let_def)
  moreover have "dec_wf ?d"
    using assms k unfolding dec_wf_def by (metis (no_types, lifting) Decimal.select_convs(2,3) Decimal.surjective Decimal.update_convs(3) list_all_append)
  moreover have "dec_value d = dec_value ?d"
  proof -
    have "digits_nat (d_integer d @ d_fraction d) = digits_nat (d_integer d @ ?f) * 10 ^ k"
      by (subst k) (simp add: power_add algebra_simps)
    moreover have "length (d_fraction d) = length ?f + k"
      by (subst k) simp
    ultimately show ?thesis
      by (simp add: dec_value_def power_add del: digits_nat_simps)
  qed
  ultimately show ?thesis
    using decimal_str_exact by metis
qed

lemma decimal_parse_plain:
  assumes "decimal_value tx = Some v"
  obtains d where "decimal_parse tx = Some d" "dec_wf d" "dec_value d = v"
proof -
  obtain neg r ids r1 fds r2 where s: "opt_sign tx = (neg, r)" "span_digits r = (ids, r1)" "scan_fraction r1 = (fds, r2)"
    by (metis surj_pair)
  have v: "r2 = []" "ids \<noteq> [] \<or> fds \<noteq> []" "v = decimal_rat neg ids fds 0"
    using assms by (auto simp: decimal_value_def s split: if_splits)
  have nb: "dropWhile (\<lambda>c. c = CHR '' '') tx = tx"
  proof (cases "tx \<noteq> [] \<and> hd tx = CHR '' ''")
    case True
    then obtain u where u: "tx = CHR '' '' # u"
      by (cases tx) auto
    have "\<not> is_dig (CHR '' '')"
      by (simp add: is_dig_def less_eq_char_def)
    then show ?thesis
      using s v(2) by (auto simp: u opt_sign_def scan_fraction_def span_digits_def)
  next
    case False
    then show ?thesis
      by (cases tx) auto
  qed
  then obtain d where d: "decimal_parse tx = Some d"
    using s v(1,2) by (auto simp: decimal_parse_def decimal_exponent_def Let_def split: prod.splits)
  show ?thesis
    using decimal_parse_value [OF d] that [OF d] s v(1,3) nb by (auto simp: decimal_exponent_def)
qed

lemma dec_integer_part:
  assumes "dec_wf d"
  shows "signed_nat (d_negative d) (digits_nat (d_integer d)) = (if dec_value d < 0 then - \<lfloor>- dec_value d\<rfloor> else \<lfloor>dec_value d\<rfloor>)"
proof -
  let ?f = "d_fraction d" and ?m = "digits_nat (d_integer d @ d_fraction d)"
  have f: "digits_nat ?f < 10 ^ length ?f"
    using assms by (intro digits_nat_less) (simp add: dec_wf_def)
  have "\<lfloor>of_nat ?m / 10 ^ length ?f :: rat\<rfloor> = int (?m div 10 ^ length ?f)"
    using floor_divide_of_nat_eq [where 'a = rat, of ?m "10 ^ length ?f"] by simp
  also have "?m div 10 ^ length ?f = digits_nat (d_integer d)"
    using f by simp
  finally have fl: "\<lfloor>of_nat ?m / 10 ^ length ?f :: rat\<rfloor> = int (digits_nat (d_integer d))" .
  show ?thesis
  proof (cases "?m = 0")
    case False
    then have "0 < (of_nat ?m / 10 ^ length ?f :: rat)"
      by (simp del: digits_nat_simps)
    then show ?thesis
      using fl unfolding dec_value_def signed_nat_def by (auto simp del: digits_nat_simps)
  qed (auto simp: dec_value_def signed_nat_def)
qed

text \<open>
  C36: Decimal arithmetic is exact. On numbers in canonical form, addition, subtraction and multiplication on strings of digits give the exact sum, difference and product with
  the scale of the result (the larger scale, the sum of the scales); rounding to any number of digits after the point gives the nearest value, half away from zero, or the value
  cut off; and division by a number that is not zero ends and gives the quotient rounded or cut to the digits asked for, whatever the digits and scales of the two numbers. Every
  result is again in canonical form.
\<close>

theorem exact_decimal_arithmetic:
  assumes "num_wf a" "num_wf b"
  shows "(num_wf (num_add a b False) \<and> num_value (num_add a b False) = num_value a + num_value b \<and> n_scale (num_add a b False) = max (n_scale a) (n_scale b)) \<and>
    (num_wf (num_add a b True) \<and> num_value (num_add a b True) = num_value a - num_value b \<and> n_scale (num_add a b True) = max (n_scale a) (n_scale b)) \<and>
    (num_wf (num_mul a b) \<and> num_value (num_mul a b) = num_value a * num_value b \<and> n_scale (num_mul a b) = n_scale a + n_scale b) \<and>
    (num_wf (num_round a sc ct) \<and> num_value (num_round a sc ct) = round_at ct sc (num_value a) \<and> n_scale (num_round a sc ct) = sc) \<and>
    (num_is_zero b \<longleftrightarrow> num_value b = 0) \<and>
    (\<not> num_is_zero b \<longrightarrow> (\<exists>q. num_div a b sc ct = Some q \<and> num_wf q \<and> num_value q = round_at ct sc (num_value a / num_value b) \<and> n_scale q = sc))"
proof -
  have "num_is_zero b \<longleftrightarrow> num_value b = 0"
  proof -
    obtain z s where "b = num_of z s"
      using num_wfE [OF assms(2)] by metis
    then show ?thesis
      by (simp add: num_is_zero_def)
  qed
  moreover have "\<exists>q. num_div a b sc ct = Some q \<and> num_wf q \<and> num_value q = round_at ct sc (num_value a / num_value b) \<and> n_scale q = sc" if "\<not> num_is_zero b"
    using num_div_value [OF assms that] by metis
  ultimately show ?thesis
    using num_add_value [OF assms, of False] num_add_value [OF assms, of True] num_mul_value [OF assms] num_round_value [OF assms(1)] by simp
qed

theorem exact_decimal_arithmetic_witness:
  "let a = \<lparr>n_negative = True, n_digits = ''9995'', n_scale = 3\<rparr>; b = \<lparr>n_negative = False, n_digits = ''3'', n_scale = 0\<rparr> in
    num_value (num_add a b False) = num_value a + num_value b \<and> num_value (num_mul a b) = num_value a * num_value b \<and>
    num_value (num_round a 2 False) = round_at False 2 (num_value a) \<and> (\<exists>q. num_div a b 4 False = Some q \<and> num_value q = round_at False 4 (num_value a / num_value b))"
proof -
  have "num_wf \<lparr>n_negative = True, n_digits = ''9995'', n_scale = 3\<rparr>" "num_wf \<lparr>n_negative = False, n_digits = ''3'', n_scale = 0\<rparr>"
    using canonicalI [of "''9995''"] canonicalI [of "''3''"] by (simp_all add: num_wf_def is_dig_def less_eq_char_def dig_def)
  note t = exact_decimal_arithmetic [OF this]
  have "\<not> num_is_zero \<lparr>n_negative = False, n_digits = ''3'', n_scale = 0\<rparr>"
    by (simp add: num_is_zero_def)
  then show ?thesis
    unfolding Let_def using t [of 2 False] t [of 4 False] by blast
qed

text \<open>
  C37: Rounding works on the digits of a text. A text that is a decimal number is read as the decimal of exactly its value; rounding that decimal to any number of places after the point or
  before it, half away from zero, or cutting it there, gives exactly the value so rounded; and what \<^verbatim>\<open>str\<close> and \<^verbatim>\<open>compact\<close> write has that value again (with fewer
  digits, the value cut off), and is read back as it. \<^verbatim>\<open>to_int64\<close> gives the integer part exactly when it fits a 64-bit integer, and nothing otherwise.
\<close>

theorem decimal_rounding_on_text:
  assumes "decimal_value tx = Some v"
  shows "\<exists>d. decimal_parse tx = Some d \<and> dec_value d = v \<and>
    (let r = decimal_rounded places ct d; w = round_places ct places v in
      decimal_value (decimal_str r n) = Some (round_at True n w) \<and> decimal_value (decimal_compact r) = Some w \<and>
      (\<exists>d'. decimal_parse (decimal_compact r) = Some d' \<and> dec_value d' = w) \<and>
      to_int64 r = (let z = (if w < 0 then - \<lfloor>- w\<rfloor> else \<lfloor>w\<rfloor>) in if in_int64 z then Some z else None))"
proof -
  obtain d where d: "decimal_parse tx = Some d" "dec_wf d" "dec_value d = v"
    using decimal_parse_plain [OF assms] .
  let ?r = "decimal_rounded places ct d" and ?w = "round_places ct places v"
  have r: "dec_wf ?r" "dec_value ?r = ?w"
    using decimal_rounded_value [OF d(2)] d(3) by auto
  have c: "decimal_value (decimal_compact ?r) = Some ?w"
    using decimal_compact_value [OF r(1)] r(2) by simp
  have p: "\<exists>d'. decimal_parse (decimal_compact ?r) = Some d' \<and> dec_value d' = ?w"
    using decimal_parse_plain [OF c] by metis
  have i: "to_int64 ?r = (let z = (if ?w < 0 then - \<lfloor>- ?w\<rfloor> else \<lfloor>?w\<rfloor>) in if in_int64 z then Some z else None)"
    using to_int64_value [OF r(1)] dec_integer_part [OF r(1)] r(2) by simp
  have s: "decimal_value (decimal_str ?r n) = Some (round_at True n ?w)"
    using decimal_str_value [OF r(1)] r(2) by simp
  show ?thesis
    unfolding Let_def by (intro exI [of _ d] conjI d(1,3) s c p i [unfolded Let_def])
qed

theorem decimal_rounding_on_text_witness:
  "\<exists>d. decimal_parse ''-1.255'' = Some d \<and> dec_value d = -1255 / 1000 \<and> decimal_value (decimal_compact (decimal_rounded 2 False d)) = Some (round_places False 2 (-1255 / 1000))"
proof -
  have "decimal_value ''-1.255'' = Some (-1255 / 1000)"
    by (simp add: decimal_value_def opt_sign_def span_digits_def scan_fraction_def is_dig_def less_eq_char_def decimal_rat_fraction dig_def)
  then show ?thesis
    using decimal_rounding_on_text [of "''-1.255''" "-1255 / 1000" 2 False 2] unfolding Let_def by blast
qed

end
