(* ===== verification/Calendar.thy ===== *)
theory Calendar
  imports NumericText
begin

text \<open>
  Dates and times of the built-in functions (\<^verbatim>\<open>core/include/engine/sql_value_util.hpp\<close>, \<^verbatim>\<open>core/src/engine/executor/builtin_functions.cpp\<close>): days of the calendar as numbers and back,
  the texts of dates and times, intervals, weeks. Years, days and seconds are \<^verbatim>\<open>long long\<close>; the products of an amount the user gives are reduced to 64 bits (\<open>wrap64\<close>). Division is
  that of C++, toward zero (\<open>tdiv\<close>, \<open>tmod\<close>).
\<close>

section \<open>Definitions\<close>

subsection \<open>The calendar\<close>

definition is_leap :: "int \<Rightarrow> bool" where
  "is_leap y \<longleftrightarrow> tmod y 4 = 0 \<and> tmod y 100 \<noteq> 0 \<or> tmod y 400 = 0"

definition days_in_month :: "int \<Rightarrow> int \<Rightarrow> int" where
  "days_in_month y m = (if m = 2 \<and> is_leap y then 29 else [31, 28, 31, 30, 31, 30, 31, 31, 30, 31, 30, 31] ! nat (m - 1))"

definition days_from_civil :: "int \<Rightarrow> int \<Rightarrow> int \<Rightarrow> int" where
  "days_from_civil y0 m d =
     (let y = y0 - (if m \<le> 2 then 1 else 0);
          era = tdiv (if y \<ge> 0 then y else y - 399) 400;
          yoe = y - era * 400;
          doy = tdiv (153 * (m + (if m > 2 then -3 else 9)) + 2) 5 + d - 1;
          doe = yoe * 365 + tdiv yoe 4 - tdiv yoe 100 + doy in
      era * 146097 + doe - 719468)"

definition civil_from_days :: "int \<Rightarrow> int \<times> int \<times> int" where
  "civil_from_days z0 =
     (let z = z0 + 719468;
          era = tdiv (if z \<ge> 0 then z else z - 146096) 146097;
          doe = z - era * 146097;
          yoe = tdiv (doe - tdiv doe 1460 + tdiv doe 36524 - tdiv doe 146096) 365;
          y = yoe + era * 400;
          doy = doe - (365 * yoe + tdiv yoe 4 - tdiv yoe 100);
          mp = tdiv (5 * doy + 2) 153;
          d = doy - tdiv (153 * mp + 2) 5 + 1;
          m = (if mp < 10 then mp + 3 else mp - 9) in
      (y + (if m \<le> 2 then 1 else 0), m, d))"

record DateTime =
  year :: int
  month :: int
  day :: int
  hour :: int
  minute :: int
  second :: int
  micro :: int
  has_date :: bool
  has_time :: bool

definition new_datetime :: DateTime where
  "new_datetime = \<lparr>year = 0, month = 0, day = 0, hour = 0, minute = 0, second = 0, micro = 0, has_date = False, has_time = False\<rparr>"

definition epoch_days :: "DateTime \<Rightarrow> int" where
  "epoch_days t = days_from_civil (year t) (month t) (day t)"

definition epoch_seconds :: "DateTime \<Rightarrow> int" where
  "epoch_seconds t = epoch_days t * 86400 + hour t * 3600 + minute t * 60 + second t"

definition from_epoch_seconds :: "int \<Rightarrow> int \<Rightarrow> DateTime" where
  "from_epoch_seconds s us =
     (let days = (if s \<ge> 0 then tdiv s 86400 else - tdiv (- s + 86399) 86400);
          rest = s - days * 86400;
          (y, m, d) = civil_from_days days in
      \<lparr>year = y, month = m, day = d, hour = tdiv rest 3600, minute = tdiv (tmod rest 3600) 60, second = tmod rest 60, micro = us,
       has_date = True, has_time = True\<rparr>)"

definition valid_date :: "DateTime \<Rightarrow> bool" where
  "valid_date t \<longleftrightarrow> 0 \<le> year t \<and> year t \<le> 9999 \<and> 1 \<le> month t \<and> month t \<le> 12 \<and> 1 \<le> day t \<and> day t \<le> days_in_month (year t) (month t)"

text \<open>\<^verbatim>\<open>snprintf\<close> of a number with at least \<open>n\<close> digits, zeros in front (\<^verbatim>\<open>%04lld\<close>, \<^verbatim>\<open>%02d\<close>); the numbers written here are not negative.\<close>

definition padded :: "nat \<Rightarrow> int \<Rightarrow> string" where
  "padded n v = (let s = nat_text (nat v) in replicate (n - length s) (CHR ''0'') @ s)"

definition date_str :: "DateTime \<Rightarrow> string" where
  "date_str t = padded 4 (year t) @ ''-'' @ padded 2 (month t) @ ''-'' @ padded 2 (day t)"

definition time_str :: "DateTime \<Rightarrow> string" where
  "time_str t =
     padded 2 (hour t) @ '':'' @ padded 2 (minute t) @ '':'' @ padded 2 (second t) @ (if micro t \<noteq> 0 then ''.'' @ padded 6 (micro t) else '''')"

definition datetime_str :: "DateTime \<Rightarrow> string" where
  "datetime_str t = date_str t @ '' '' @ time_str t"

subsection \<open>Reading dates and times\<close>

text \<open>\<^verbatim>\<open>digits_at\<close>: at most \<open>max_n\<close> digits, and the rest; \<open>None\<close> when there are fewer than \<open>min_n\<close>.\<close>

definition digits_at :: "nat \<Rightarrow> nat \<Rightarrow> string \<Rightarrow> (int \<times> string) option" where
  "digits_at min_n max_n s =
     (let ds = takeWhile is_dig (take max_n s) in if length ds < min_n then None else Some (int (digits_nat ds), drop (length ds) s))"

text \<open>\<^verbatim>\<open>'20240305'\<close> and \<^verbatim>\<open>'20240305140709'\<close>.\<close>

definition parse_compact :: "string \<Rightarrow> DateTime option" where
  "parse_compact s =
     (case digits_at 4 4 s of None \<Rightarrow> None | Some (y, s1) \<Rightarrow>
      case digits_at 2 2 s1 of None \<Rightarrow> None | Some (mo, s2) \<Rightarrow>
      case digits_at 2 2 s2 of None \<Rightarrow> None | Some (d, s3) \<Rightarrow>
      if length s = 14 then
        (case digits_at 2 2 s3 of None \<Rightarrow> None | Some (h, s4) \<Rightarrow>
         case digits_at 2 2 s4 of None \<Rightarrow> None | Some (mi, s5) \<Rightarrow>
         case digits_at 2 2 s5 of None \<Rightarrow> None | Some (se, s6) \<Rightarrow>
           Some (new_datetime\<lparr>year := y, month := mo, day := d, hour := h, minute := mi, second := se, has_date := True, has_time := True\<rparr>))
      else Some (new_datetime\<lparr>year := y, month := mo, day := d, has_date := True\<rparr>))"

text \<open>The fraction of a second: six places, the seventh rounds the sixth, and a carry is a second.\<close>

definition read_fraction :: "string \<Rightarrow> DateTime \<Rightarrow> DateTime" where
  "read_fraction s t =
     (let ds = takeWhile is_dig (take 6 s);
          rest = drop (length ds) s;
          us = int (digits_nat (ds @ replicate (6 - length ds) (CHR ''0''))) in
      if rest \<noteq> [] \<and> CHR ''5'' \<le> hd rest \<and> hd rest \<le> CHR ''9'' then
        (if us + 1 = 1000000 then
           let next = from_epoch_seconds (epoch_seconds t + 1) 0 in
           t\<lparr>micro := 0, year := year next, month := month next, day := day next, hour := hour next, minute := minute next, second := second next\<rparr>
         else t\<lparr>micro := us + 1\<rparr>)
      else t\<lparr>micro := us\<rparr>)"

definition read_time :: "string \<Rightarrow> DateTime \<Rightarrow> DateTime" where
  "read_time s t =
     (case digits_at 1 2 s of None \<Rightarrow> t | Some (h, s1) \<Rightarrow>
      if s1 = [] \<or> hd s1 \<noteq> CHR '':'' then t
      else case digits_at 1 2 (tl s1) of None \<Rightarrow> t | Some (mi, s2) \<Rightarrow>
        let (se, s3) =
              (if s2 \<noteq> [] \<and> hd s2 = CHR '':'' then (case digits_at 1 2 (tl s2) of None \<Rightarrow> (0, tl s2) | Some (v, r) \<Rightarrow> (v, r))
               else (0, s2));
            t' = t\<lparr>hour := h, minute := mi, second := se, has_time := True\<rparr> in
        if s3 \<noteq> [] \<and> hd s3 = CHR ''.'' then read_fraction (tl s3) t' else t')"

definition find_dash :: "string \<Rightarrow> nat" where
  "find_dash s = length (takeWhile (\<lambda>c. c \<noteq> CHR ''-'') s)"

definition parse_datetime :: "string \<Rightarrow> DateTime option" where
  "parse_datetime text =
     (let s = dropWhile (\<lambda>c. c = CHR '' '') text in
      if s = [] then None
      else if list_all is_dig (take 14 s) \<and> (length s = 8 \<or> length s = 14) then parse_compact s
      else
        case digits_at 1 4 s of None \<Rightarrow> None | Some (y, s1) \<Rightarrow>
        if s1 = [] \<or> (hd s1 \<noteq> CHR ''-'' \<and> hd s1 \<noteq> CHR ''/'') then None
        else case digits_at 1 2 (tl s1) of None \<Rightarrow> None | Some (mo, s2) \<Rightarrow>
          if s2 = [] \<or> hd s2 \<noteq> hd s1 then None
          else case digits_at 1 2 (tl s2) of None \<Rightarrow> None | Some (d, s3) \<Rightarrow>
            let dashed = (find_dash s < length s \<and> find_dash s < 3);
                t = new_datetime\<lparr>year := if y < 70 \<and> dashed then 2000 + y else if y < 100 \<and> dashed then 1900 + y else y,
                                 month := mo, day := d, has_date := True\<rparr> in
            Some (if s3 \<noteq> [] \<and> (hd s3 = CHR '' '' \<or> hd s3 = CHR ''T'') then read_time (tl s3) t else t))"

text \<open>\<^verbatim>\<open>std::atoll\<close>: blanks, a sign, digits; the rest is ignored.\<close>

definition atoll :: "string \<Rightarrow> int" where
  "atoll s =
     (let (neg, r) = opt_sign (dropWhile is_blank s); v = int (digits_nat (takeWhile is_dig r)) in if neg then - v else v)"

text \<open>The loop over \<^verbatim>\<open>HH:MM:SS\<close>: the numbers between the colons, the last one, whether it has a digit, and what is left at a point.\<close>

fun time_parts :: "string \<Rightarrow> int list \<Rightarrow> int \<Rightarrow> bool \<Rightarrow> (int list \<times> int \<times> bool \<times> string) option" where
  "time_parts [] v cur any = Some (v, cur, any, [])"
| "time_parts (c # s) v cur any =
     (if is_dig c then time_parts s v (wrap64 (cur * 10 + int (dig c))) True
      else if c = CHR '':'' then time_parts s (v @ [cur]) 0 False
      else if c = CHR ''.'' then Some (v, cur, any, c # s)
      else None)"

text \<open>The seconds with their sign, and the millionths.\<close>

definition parse_time_seconds :: "string \<Rightarrow> (int \<times> int) option" where
  "parse_time_seconds text =
     (let s = dropWhile (\<lambda>c. c = CHR '' '') text in
      if s = [] then None
      else
        case (case parse_datetime s of Some dt \<Rightarrow> if has_time dt then Some dt else None | None \<Rightarrow> None) of
          Some dt \<Rightarrow> Some (hour dt * 3600 + minute dt * 60 + second dt, micro dt)
        | None \<Rightarrow>
            let negative = (hd s = CHR ''-'') in
            case time_parts (if negative then tl s else s) [] 0 False of None \<Rightarrow> None | Some (v, cur, any, rest) \<Rightarrow>
            if \<not> any \<and> v = [] then None
            else
              let vs = v @ [cur];
                  us = (if rest \<noteq> [] then atoll (take 6 (tl rest) @ replicate (6 - length (tl rest)) (CHR ''0'')) else 0);
                  up = (rest \<noteq> [] \<and> length rest > 7 \<and> CHR ''5'' \<le> rest ! 7 \<and> rest ! 7 \<le> CHR ''9'');
                  carry = (if up \<and> us + 1 = 1000000 then 1 else 0 :: int);
                  us' = (if up then (if us + 1 = 1000000 then 0 else us + 1) else us) in
              case (case vs of [x] \<Rightarrow> Some (tdiv x 10000, tmod (tdiv x 100) 100, tmod x 100) | [h, m] \<Rightarrow> Some (h, m, 0) | [h, m, se] \<Rightarrow> Some (h, m, se) | _ \<Rightarrow> None) of
                None \<Rightarrow> None
              | Some (h, m, se) \<Rightarrow>
                  if m > 59 \<or> se > 59 then None
                  else let total = wrap64 (h * 3600 + m * 60 + se + carry) in Some (if negative then - total else total, us'))"

subsection \<open>Weekdays and intervals\<close>

definition weekday_monday0 :: "int \<Rightarrow> int" where
  "weekday_monday0 days = (let w = tmod (days + 3) 7 in if w < 0 then w + 7 else w)"

definition month_interval :: "DateTime \<Rightarrow> int \<Rightarrow> DateTime option" where
  "month_interval t months =
     (let total = wrap64 (year t * 12 + (month t - 1) + months) in
      if total < 0 then None
      else
        let y = tdiv total 12; m = tmod total 12 + 1 in
        if y > 9999 then None else Some (t\<lparr>year := y, month := m, day := min (day t) (days_in_month y m)\<rparr>))"

text \<open>The seconds and the millionths of an interval.\<close>

definition interval_seconds :: "string \<Rightarrow> int \<Rightarrow> (int \<times> int) option" where
  "interval_seconds unit amount =
     (if unit = ''DAY'' then Some (wrap64 (amount * 86400), 0)
      else if unit = ''WEEK'' then Some (wrap64 (amount * 7 * 86400), 0)
      else if unit = ''HOUR'' then Some (wrap64 (amount * 3600), 0)
      else if unit = ''MINUTE'' then Some (wrap64 (amount * 60), 0)
      else if unit = ''SECOND'' then Some (amount, 0)
      else if unit = ''MICROSECOND'' then Some (tdiv amount 1000000, tmod amount 1000000)
      else None)"

definition add_interval :: "DateTime \<Rightarrow> string \<Rightarrow> int \<Rightarrow> DateTime option" where
  "add_interval t unit amount =
     (if unit = ''MONTH'' \<or> unit = ''YEAR'' \<or> unit = ''QUARTER'' then
        month_interval t (if unit = ''YEAR'' then wrap64 (amount * 12) else if unit = ''QUARTER'' then wrap64 (amount * 3) else amount)
      else
        case interval_seconds unit amount of None \<Rightarrow> None | Some (secs, us) \<Rightarrow>
        let total_us = micro t + us;
            seconds = wrap64 (secs + (if total_us \<ge> 1000000 then 1 else if total_us < 0 then -1 else 0));
            us' = tmod (tmod total_us 1000000 + 1000000) 1000000;
            out = from_epoch_seconds (wrap64 (epoch_seconds t + seconds)) us' in
        if year out < 0 \<or> year out > 9999 then None
        else Some (out\<lparr>has_date := True, has_time := has_time t \<or> unit = ''HOUR'' \<or> unit = ''MINUTE'' \<or> unit = ''SECOND'' \<or> unit = ''MICROSECOND''\<rparr>))"

section \<open>Days and dates\<close>

lemma div_eqI: "q * k \<le> n \<Longrightarrow> n < (q + 1) * k \<Longrightarrow> n div k = q" for n k q :: int
  by (intro div_pos_neg_trivial int_div_pos_eq [of n k q "n - q * k"]) (auto simp: algebra_simps)

lemma succ_div:
  fixes y k :: int
  assumes "0 < k"
  shows "(y + 1) div k = y div k + (if (y + 1) mod k = 0 then 1 else 0)"
proof -
  define q r where "q = (y + 1) div k" and "r = (y + 1) mod k"
  have r: "0 \<le> r" "r < k"
    using assms by (simp_all add: r_def)
  have y: "y = q * k + r - 1"
    by (simp add: q_def r_def)
  show ?thesis
  proof (cases "r = 0")
    case True
    then have "y div k = q - 1"
      using y assms by (intro div_eqI) (auto simp: algebra_simps)
    then show ?thesis
      using True by (simp add: q_def r_def)
  next
    case False
    then have "y div k = q"
      using y r by (intro div_eqI) (auto simp: algebra_simps)
    then show ?thesis
      using False by (simp add: q_def r_def)
  qed
qed

lemma floor_tdiv:
  assumes "0 < k" "j = k - 1"
  shows "tdiv (if y \<ge> 0 then y else y - j) k = y div k"
proof (cases "y \<ge> 0")
  case True
  then show ?thesis
    using assms by (simp add: tdiv_pos)
next
  case False
  let ?q = "- (y div k)"
  have y: "0 \<le> y mod k" "y mod k < k"
    using assms by simp_all
  have "y div k * k = y - y mod k"
    by (simp add: minus_mod_eq_div_mult)
  then have e: "?q * k = y mod k - y" "(?q + 1) * k = k + (y mod k - y)"
    by (simp_all add: algebra_simps)
  have "(k - 1 - y) div k = ?q"
    by (rule div_eqI; unfold e) (use y in simp_all)
  moreover have "tdiv (y - j) k = - ((k - 1 - y) div k)"
    using False assms by (simp add: tdiv_def sgn_if)
  ultimately show ?thesis
    using False by simp
qed

definition valid_ymd :: "int \<Rightarrow> int \<Rightarrow> int \<Rightarrow> bool" where
  "valid_ymd y m d \<longleftrightarrow> 1 \<le> m \<and> m \<le> 12 \<and> 1 \<le> d \<and> d \<le> days_in_month y m"

lemma tmod_0_iff: "0 < k \<Longrightarrow> tmod y k = 0 \<longleftrightarrow> y mod k = 0"
proof -
  assume k: "0 < k"
  have "k dvd y" if "tmod y k = 0"
    using that by (metis dvd_triv_right eq_iff_diff_eq_0 tmod_def)
  moreover have "tmod y k = 0" if "k dvd y"
    using that k by (auto simp: tmod_def tdiv_def abs_mult sgn_mult mult_sgn_abs elim!: dvdE)
  ultimately show ?thesis
    unfolding mod_eq_0_iff_dvd by blast
qed

text \<open>The calendar in years that begin in March: the leap day is the last day of the year.\<close>

definition march_leap :: "int \<Rightarrow> bool" where
  "march_leap y \<longleftrightarrow> (y + 1) mod 4 = 0 \<and> (y + 1) mod 100 \<noteq> 0 \<or> (y + 1) mod 400 = 0"

definition month_start :: "int \<Rightarrow> int" where
  "month_start mp = (153 * mp + 2) div 5"

lemma is_leap_march: "is_leap y \<longleftrightarrow> march_leap (y - 1)"
  by (simp add: is_leap_def march_leap_def tmod_0_iff)

text \<open>The length of a month by its number from March.\<close>

definition month_length :: "int \<Rightarrow> int \<Rightarrow> int" where
  "month_length y mp = (if mp = 11 then (if march_leap y then 29 else 28) else month_start (mp + 1) - month_start mp)"

lemma months: "0 \<le> mp \<and> mp \<le> 11 \<longleftrightarrow> mp \<in> {0, 1, 2, 3, 4, 5, 6, 7, 8, 9, 10, 11}" for mp :: int
  unfolding insert_iff empty_iff by presburger

lemma days_in_month_march:
  assumes "1 \<le> m" "m \<le> 12"
  shows "days_in_month y m = month_length (y - (if m \<le> 2 then 1 else 0)) (m + (if m > 2 then -3 else 9))"
proof -
  have "m = 1 \<or> m = 2 \<or> m = 3 \<or> m = 4 \<or> m = 5 \<or> m = 6 \<or> m = 7 \<or> m = 8 \<or> m = 9 \<or> m = 10 \<or> m = 11 \<or> m = 12"
    using assms by presburger
  then show ?thesis
    by (auto simp: days_in_month_def month_length_def month_start_def is_leap_march nth_Cons numeral_eq_Suc)
qed

text \<open>Days from the first of March of year zero.\<close>

definition march_days :: "int \<Rightarrow> int \<Rightarrow> int \<Rightarrow> int" where
  "march_days y mp d = y * 365 + y div 4 - y div 100 + y div 400 + month_start mp + d - 1"

lemma mod_div_digits:
  fixes u a b :: int
  assumes "0 < a" "0 < b"
  shows "u mod (a * b) div a = u div a - u div (a * b) * b"
proof -
  have "u mod (a * b) = a * (u div a mod b) + u mod a"
    using assms by (simp add: zmod_zmult2_eq)
  then have "u mod (a * b) div a = u div a mod b"
    using assms by simp
  also have "\<dots> = u div a - u div a div b * b"
    by (simp add: minus_div_mult_eq_mod)
  also have "u div a div b = u div (a * b)"
    using assms by (simp add: zdiv_zmult2_eq)
  finally show ?thesis .
qed

lemma days_from_civil_march:
  assumes "1 \<le> m" "m \<le> 12"
  shows "days_from_civil y m d = march_days (y - (if m \<le> 2 then 1 else 0)) (m + (if m > 2 then -3 else 9)) d - 719468"
proof -
  define u where "u = y - (if m \<le> 2 then 1 else 0)"
  define mp where "mp = m + (if m > 2 then -3 else 9)"
  have era: "tdiv (if u \<ge> 0 then u else u - 399) 400 = u div 400"
    by (rule floor_tdiv) simp_all
  have yoe: "u - u div 400 * 400 = u mod 400"
    by (simp add: minus_div_mult_eq_mod)
  have doy: "tdiv (153 * mp + 2) 5 = month_start mp"
    using assms by (simp add: month_start_def mp_def tdiv_pos)
  have "tdiv (u mod 400) 4 = u mod 400 div 4" "tdiv (u mod 400) 100 = u mod 400 div 100"
    by (simp_all add: tdiv_pos)
  moreover have "u mod 400 div 4 = u div 4 - u div 400 * 100" "u mod 400 div 100 = u div 100 - u div 400 * 4"
    using mod_div_digits [of 4 100 u] mod_div_digits [of 100 4 u] by simp_all
  ultimately show ?thesis
    unfolding days_from_civil_def u_def [symmetric] mp_def [symmetric] Let_def era yoe doy
    by (simp add: march_days_def algebra_simps minus_div_mult_eq_mod [symmetric])
qed

text \<open>The next date.\<close>

definition next_date :: "int \<times> int \<times> int \<Rightarrow> int \<times> int \<times> int" where
  "next_date = (\<lambda>(y, m, d). if d < days_in_month y m then (y, m, d + 1) else if m < 12 then (y, m + 1, 1) else (y + 1, 1, 1))"

lemma march_next_month:
  assumes "0 \<le> mp" "mp \<le> 11" "d = month_length y mp"
  shows "march_days y mp d + 1 = (if mp = 11 then march_days (y + 1) 0 1 else march_days y (mp + 1) 1)"
proof (cases "mp = 11")
  case True
  define p4 p100 p400 where "p4 = ((y + 1) mod 4 = 0)" and "p100 = ((y + 1) mod 100 = 0)" and "p400 = ((y + 1) mod 400 = 0)"
  have imp: "p400 \<longrightarrow> p100" "p100 \<longrightarrow> p4"
    using dvd_trans [of 100 400 "y + 1"] dvd_trans [of 4 100 "y + 1"] by (simp_all add: mod_eq_0_iff_dvd p4_def p100_def p400_def)
  have "(y + 1) div 4 = y div 4 + (if p4 then 1 else 0)" "(y + 1) div 100 = y div 100 + (if p100 then 1 else 0)"
      "(y + 1) div 400 = y div 400 + (if p400 then 1 else 0)"
    unfolding p4_def p100_def p400_def by (rule succ_div, simp)+
  then have "march_days (y + 1) 0 1 = march_days y 11 0 + 29 + (if p4 then 1 else 0) - (if p100 then 1 else 0) + (if p400 then 1 else 0)"
    unfolding march_days_def by (simp add: month_start_def)
  moreover have "march_days y 11 d = march_days y 11 0 + d"
    by (simp add: march_days_def)
  moreover have "d = 28 + (if p4 then 1 else 0) - (if p100 then 1 else 0) + (if p400 then 1 else 0)"
    unfolding assms(3) True month_length_def march_leap_def p4_def [symmetric] p100_def [symmetric] p400_def [symmetric] using imp by auto
  ultimately show ?thesis
    using True by simp
qed (use assms in \<open>simp add: march_days_def month_length_def\<close>)

lemma days_from_civil_next:
  assumes "valid_ymd y m d" "next_date (y, m, d) = (y', m', d')"
  shows "days_from_civil y' m' d' = days_from_civil y m d + 1"
proof (cases "d < days_in_month y m")
  case True
  then show ?thesis
    using assms by (auto simp: next_date_def valid_ymd_def days_from_civil_march march_days_def)
next
  case False
  let ?u = "y - (if m \<le> 2 then 1 else 0)" and ?mp = "m + (if m > 2 then -3 else 9)"
  have m: "1 \<le> m" "m \<le> 12" "d = month_length ?u ?mp"
    using assms(1) False days_in_month_march [of m y] by (auto simp: valid_ymd_def)
  have "march_days ?u ?mp d + 1 = (if ?mp = 11 then march_days (?u + 1) 0 1 else march_days ?u (?mp + 1) 1)"
    using m by (intro march_next_month) auto
  moreover have "(y', m', d') = (if m < 12 then (y, m + 1, 1) else (y + 1, 1, 1))"
    using assms(2) False by (simp add: next_date_def)
  ultimately show ?thesis
    using m(1,2) by (auto simp: days_from_civil_march split: if_splits)
qed

text \<open>Back from days: the year of the era, then the month.\<close>

lemma year_of_era:
  fixes a b c doy :: int
  assumes "0 \<le> a" "a \<le> 3" "0 \<le> b" "b \<le> 24" "0 \<le> c" "c \<le> 3" "0 \<le> doy" "doy \<le> 365" "doy = 365 \<Longrightarrow> a = 3 \<and> (b = 24 \<longrightarrow> c = 3)"
  shows "let doe = 36524 * c + 1461 * b + 365 * a + doy in
    0 \<le> doe \<and> doe \<le> 146096 \<and> 0 \<le> doe - doe div 1460 + doe div 36524 - doe div 146096 \<and> (doe - doe div 1460 + doe div 36524 - doe div 146096) div 365 = 100 * c + 4 * b + a"
proof -
  define doe where "doe = 36524 * c + 1461 * b + 365 * a + doy"
  define i where "i = (if 24 * c + b + 365 * a + doy \<ge> 1460 then 1 else 0 :: int)"
  define j where "j = (if doe = 146096 then 1 else 0 :: int)"
  have le: "0 \<le> doe" "doe \<le> 146096"
    using assms unfolding doe_def by linarith+
  have "doe div 1460 = 25 * c + b + i"
    using assms by (intro div_eqI) (auto simp: doe_def i_def)
  moreover have "doe div 146096 = j"
    using le by (intro div_eqI) (auto simp: j_def)
  moreover have "doe div 36524 = c + j"
  proof (cases "doe = 146096")
    case True
    have "c = 3"
      using True assms unfolding doe_def by linarith
    then show ?thesis
      using True by (simp add: j_def)
  next
    case False
    have "doe < 36524 * (c + 1)"
    proof (cases "a = 3 \<and> b = 24 \<and> doy = 365")
      case True
      then show ?thesis
        using False assms by (auto simp: doe_def)
    next
      case F: False
      then show ?thesis
        using assms unfolding doe_def by (cases "a = 3"; cases "b = 24"; cases "doy = 365"; simp)
    qed
    then show ?thesis
      using False assms by (intro div_eqI) (auto simp: j_def doe_def)
  qed
  ultimately have "doe - doe div 1460 + doe div 36524 - doe div 146096 = 365 * (100 * c + 4 * b + a) + (doy - i)"
    by (simp add: doe_def)
  moreover have "0 \<le> doy - i" "doy - i \<le> 364"
    using assms by (auto simp: i_def) (cases "doy = 365"; simp)
  ultimately have "(doe - doe div 1460 + doe div 36524 - doe div 146096) div 365 = 100 * c + 4 * b + a" "0 \<le> doe - doe div 1460 + doe div 36524 - doe div 146096"
    using assms by (auto intro!: div_eqI)
  then show ?thesis
    using le unfolding doe_def [symmetric] Let_def by simp
qed

lemma month_of_day:
  assumes "0 \<le> mp" "mp \<le> 11" "1 \<le> d" "d \<le> (if mp = 11 then 29 else month_start (mp + 1) - month_start mp)"
  shows "(5 * (month_start mp + d - 1) + 2) div 153 = mp"
proof -
  have "mp \<in> {0, 1, 2, 3, 4, 5, 6, 7, 8, 9, 10, 11}"
    using assms months by blast
  then show ?thesis
    using assms(3,4) by (intro div_eqI) (auto simp: month_start_def)
qed

lemma march_year_length:
  assumes "0 \<le> mp" "mp \<le> 11" "1 \<le> d" "d \<le> month_length u mp"
  shows "0 \<le> month_start mp + d - 1 \<and> month_start mp + d - 1 \<le> 365 \<and> (month_start mp + d - 1 = 365 \<longrightarrow> march_leap u)"
proof -
  have "mp \<in> {0, 1, 2, 3, 4, 5, 6, 7, 8, 9, 10, 11}"
    using assms months by blast
  then show ?thesis
    using assms(3,4) by (auto simp: month_start_def month_length_def split: if_splits)
qed

lemma civil_from_march:
  assumes "0 \<le> mp" "mp \<le> 11" "1 \<le> d" "d \<le> month_length u mp"
  shows "civil_from_days (march_days u mp d - 719468) = (u + (if mp \<ge> 10 then 1 else 0), if mp < 10 then mp + 3 else mp - 9, d)"
proof -
  define z where "z = march_days u mp d"
  define y c b a where "y = u mod 400" and "c = y div 100" and "b = y mod 100 div 4" and "a = y mod 4"
  define doy where "doy = month_start mp + d - 1"
  define doe where "doe = 36524 * c + 1461 * b + 365 * a + doy"
  have y: "0 \<le> y" "y < 400" "u = u div 400 * 400 + y"
    by (simp_all add: y_def)
  have abc: "y = 100 * c + 4 * b + a" "0 \<le> a" "a \<le> 3" "0 \<le> b" "b \<le> 24" "0 \<le> c" "c \<le> 3"
  proof -
    have "y mod 100 mod 4 = y mod 4"
      by (rule mod_mod_cancel) simp
    then show "y = 100 * c + 4 * b + a"
      unfolding a_def b_def c_def by (metis add.assoc mult_div_mod_eq)
    show "0 \<le> a" "0 \<le> b" "0 \<le> c"
      using y(1) by (simp_all add: a_def b_def c_def pos_imp_zdiv_nonneg_iff)
    have "y mod 4 < 4" "y mod 100 < 100"
      by simp_all
    then show "a \<le> 3" "b \<le> 24" "c \<le> 3"
      using y(2) unfolding a_def b_def c_def by linarith+
  qed
  have dv: "y div 4 = 25 * c + b" "y div 100 = c"
    using abc by (auto intro!: div_eqI)
  have ud: "u div 4 = 100 * (u div 400) + y div 4" "u div 100 = 4 * (u div 400) + y div 100"
    using mod_div_digits [of 4 100 u] mod_div_digits [of 100 4 u] by (simp_all add: y_def)
  have z: "z = u div 400 * 146097 + doe"
    using y(3) abc(1) dv ud unfolding z_def march_days_def doe_def doy_def by linarith
  have doy: "0 \<le> doy" "doy \<le> 365" "doy = 365 \<Longrightarrow> march_leap u"
    using march_year_length [OF assms] by (auto simp: doy_def)
  have leap: "a = 3 \<and> (b = 24 \<longrightarrow> c = 3)" if "march_leap u"
  proof -
    have "(u + 1) mod 4 = 0"
      using that dvd_trans [of 4 400 "u + 1"] by (auto simp: march_leap_def mod_eq_0_iff_dvd)
    moreover have "a = u mod 4"
      unfolding a_def y_def by (rule mod_mod_cancel) simp
    ultimately have "a = 3"
      by presburger
    moreover have "c = 3" if "b = 24"
    proof -
      have "(u + 1) mod 400 = (y + 1) mod 400"
        by (simp add: y_def mod_add_left_eq)
      moreover obtain q where "u = q * 400 + y"
        using y(3) by blast
      then have "u + 1 = 100 * (4 * q + c + 1)"
        using abc(1) \<open>a = 3\<close> \<open>b = 24\<close> by simp
      then have "(u + 1) mod 100 = 0"
        by (metis mod_mult_self1_is_0)
      ultimately have "(y + 1) mod 400 = 0"
        using \<open>march_leap u\<close> by (auto simp: march_leap_def)
      moreover have "y + 1 = 100 * c + 100"
        using abc(1) \<open>a = 3\<close> \<open>b = 24\<close> by simp
      moreover have "c = 0 \<or> c = 1 \<or> c = 2 \<or> c = 3"
        using abc(6,7) by linarith
      ultimately show ?thesis
        by auto
    qed
    ultimately show ?thesis
      by blast
  qed
  have e: "0 \<le> doe" "doe \<le> 146096" "(doe - doe div 1460 + doe div 36524 - doe div 146096) div 365 = y"
    using year_of_era [OF abc(2-7) doy(1,2)] doy(3) leap abc(1) by (auto simp: doe_def Let_def)
  have era: "tdiv (if z \<ge> 0 then z else z - 146096) 146097 = u div 400"
    using e(1,2) z by (subst floor_tdiv) (auto intro!: div_eqI)
  have dz: "z - u div 400 * 146097 = doe"
    using z by simp
  have nn: "0 \<le> doe - doe div 1460 + doe div 36524 - doe div 146096"
    using year_of_era [OF abc(2-7) doy(1,2)] doy(3) leap by (auto simp: doe_def Let_def)
  have days: "doe - (365 * y + y div 4 - y div 100) = doy"
    using dv abc(1) unfolding doe_def by linarith
  have mp: "tdiv (5 * doy + 2) 153 = mp"
    using month_of_day [OF assms(1-3)] assms(4) doy(1) by (simp add: doy_def tdiv_pos month_length_def split: if_splits)
  have ms: "tdiv (153 * mp + 2) 5 = month_start mp"
    using assms(1) by (simp add: month_start_def tdiv_pos)
  have t: "tdiv doe 1460 = doe div 1460" "tdiv doe 36524 = doe div 36524" "tdiv doe 146096 = doe div 146096"
      "tdiv (doe - doe div 1460 + doe div 36524 - doe div 146096) 365 = y" "tdiv y 4 = y div 4" "tdiv y 100 = y div 100"
    using e nn y(1) by (simp_all add: tdiv_pos)
  have "march_days u mp d - 719468 + 719468 = z"
    by (simp add: z_def)
  then show ?thesis
    unfolding civil_from_days_def Let_def era dz t days mp ms by (simp only: Let_def era dz t days mp ms) (use y(3) assms(1,2) in \<open>auto simp: doy_def\<close>)
qed

section \<open>Properties of the calendar\<close>

lemma civil_days: "valid_ymd y m d \<Longrightarrow> civil_from_days (days_from_civil y m d) = (y, m, d)"
proof -
  assume v: "valid_ymd y m d"
  then have m: "1 \<le> m" "m \<le> 12"
    by (auto simp: valid_ymd_def)
  then show ?thesis
    using v civil_from_march [of "m + (if m > 2 then -3 else 9)" d "y - (if m \<le> 2 then 1 else 0)"] days_in_month_march [OF m, of y]
    by (auto simp: days_from_civil_march valid_ymd_def)
qed

lemma next_date_valid: "valid_ymd y m d \<Longrightarrow> next_date (y, m, d) = (y', m', d') \<Longrightarrow> valid_ymd y' m' d'"
proof -
  assume v: "valid_ymd y m d" and n: "next_date (y, m, d) = (y', m', d')"
  have pos: "1 \<le> days_in_month u k" if "1 \<le> k" "k \<le> 12" for u k
  proof -
    have "k = 1 \<or> k = 2 \<or> k = 3 \<or> k = 4 \<or> k = 5 \<or> k = 6 \<or> k = 7 \<or> k = 8 \<or> k = 9 \<or> k = 10 \<or> k = 11 \<or> k = 12"
      using that by presburger
    then show ?thesis
      by (auto simp: days_in_month_def nth_Cons numeral_eq_Suc)
  qed
  show ?thesis
    using v n pos [of m' y'] by (auto simp: next_date_def valid_ymd_def split: if_splits)
qed

text \<open>Every number of days is that of a date: the dates run through all of them, forwards and backwards.\<close>

lemma days_forward: "\<exists>y m d. valid_ymd y m d \<and> days_from_civil y m d = int n"
proof (induction n)
  case 0
  have "valid_ymd 1970 1 1" "days_from_civil 1970 1 1 = 0"
    by code_simp+
  then show ?case
    by auto
next
  case (Suc n)
  then obtain y m d where v: "valid_ymd y m d" "days_from_civil y m d = int n"
    by blast
  obtain y' m' d' where n: "next_date (y, m, d) = (y', m', d')"
    by (cases "next_date (y, m, d)") auto
  then have "valid_ymd y' m' d'" "days_from_civil y' m' d' = int (Suc n)"
    using v days_from_civil_next [OF v(1) n] next_date_valid [OF v(1) n] by simp_all
  then show ?case
    by blast
qed

lemma days_shift:
  assumes "valid_ymd y m d"
  shows "valid_ymd (y + 400 * k) m d \<and> days_from_civil (y + 400 * k) m d = days_from_civil y m d + 146097 * k"
proof -
  have eq: "u + 400 * k + i = u + i + 4 * (100 * k)" "u + 400 * k + i = u + i + 100 * (4 * k)" "u + 400 * k + i = u + i + 400 * k" for u i :: int
    by simp_all
  have md: "(u + 400 * k + i) mod 4 = (u + i) mod 4" "(u + 400 * k + i) mod 100 = (u + i) mod 100" "(u + 400 * k + i) mod 400 = (u + i) mod 400" for u i
    by (simp only: eq(1) mod_mult_self2) (simp only: eq(2) mod_mult_self2, simp only: eq(3) mod_mult_self2)
  have dv: "(u + 400 * k) div 4 = u div 4 + 100 * k" "(u + 400 * k) div 100 = u div 100 + 4 * k" "(u + 400 * k) div 400 = u div 400 + k" for u
    using eq [of u 0] by simp_all
  have leap: "march_leap (u + 400 * k) = march_leap u" for u
    by (simp only: march_leap_def md)
  have "y + 400 * k - 1 = y - 1 + 400 * k"
    by simp
  then have "is_leap (y + 400 * k) = is_leap y"
    unfolding is_leap_march by (simp only: leap)
  then have len: "days_in_month (y + 400 * k) m = days_in_month y m"
    by (simp add: days_in_month_def)
  have "march_days (u + 400 * k) mp d = march_days u mp d + 146097 * k" for u mp
    unfolding march_days_def dv by (simp add: algebra_simps)
  moreover have "y + 400 * k - i = y - i + 400 * k" for i
    by simp
  ultimately show ?thesis
    using assms len unfolding valid_ymd_def by (simp only: days_from_civil_march simp_thms)
qed

lemma days_onto: "\<exists>y m d. valid_ymd y m d \<and> days_from_civil y m d = z"
proof -
  define k where "k = \<bar>z\<bar>"
  obtain y m d where v: "valid_ymd y m d" "days_from_civil y m d = int (nat (z + 146097 * k))"
    using days_forward by blast
  moreover have "0 \<le> z + 146097 * k"
    unfolding k_def by simp
  ultimately have "days_from_civil (y + 400 * (- k)) m d = z" "valid_ymd (y + 400 * (- k)) m d"
    using days_shift [OF v(1), of "- k"] by simp_all
  then show ?thesis
    by blast
qed

text \<open>
  C38: Days and dates are the same thing. Every date of the calendar, before and after year zero, has one number of days, and from that number \<^verbatim>\<open>civil_from_days\<close> gives the date back; every number
  of days is that of a date. The date after a date has the next number, so that the numbers are those of the Gregorian calendar, with its leap years, counted from the first of January
  1970.
\<close>

theorem calendar_exact:
  assumes "valid_ymd y m d"
  shows "civil_from_days (days_from_civil y m d) = (y, m, d) \<and>
    (case next_date (y, m, d) of (y', m', d') \<Rightarrow> valid_ymd y' m' d' \<and> days_from_civil y' m' d' = days_from_civil y m d + 1) \<and>
    days_from_civil 1970 1 1 = 0 \<and>
    (case civil_from_days z of (y', m', d') \<Rightarrow> valid_ymd y' m' d' \<and> days_from_civil y' m' d' = z)"
proof -
  have "days_from_civil 1970 1 1 = 0"
    by code_simp
  moreover have "case civil_from_days z of (y', m', d') \<Rightarrow> valid_ymd y' m' d' \<and> days_from_civil y' m' d' = z"
    using days_onto [of z] civil_days by force
  moreover have "case next_date (y, m, d) of (y', m', d') \<Rightarrow> valid_ymd y' m' d' \<and> days_from_civil y' m' d' = days_from_civil y m d + 1"
    using next_date_valid [OF assms] days_from_civil_next [OF assms] by (cases "next_date (y, m, d)") auto
  ultimately show ?thesis
    using civil_days [OF assms] by blast
qed

theorem calendar_exact_witness:
  "civil_from_days (days_from_civil 2000 2 29) = (2000, 2, 29) \<and> days_from_civil 2000 3 1 = days_from_civil 2000 2 29 + 1 \<and> days_from_civil 1970 1 1 = 0 \<and>
    (case civil_from_days (-719528) of (y', m', d') \<Rightarrow> valid_ymd y' m' d' \<and> days_from_civil y' m' d' = -719528)"
proof -
  have v: "valid_ymd 2000 2 29" "next_date (2000, 2, 29) = (2000, 3, 1)"
    by code_simp+
  show ?thesis
    using calendar_exact [OF v(1), of "-719528"] v(2) by simp
qed


section \<open>Times\<close>

definition valid_time :: "DateTime \<Rightarrow> bool" where
  "valid_time t \<longleftrightarrow> 0 \<le> hour t \<and> hour t \<le> 23 \<and> 0 \<le> minute t \<and> minute t \<le> 59 \<and> 0 \<le> second t \<and> second t \<le> 59 \<and> 0 \<le> micro t \<and> micro t \<le> 999999"

lemma epoch_split:
  assumes "0 \<le> r" "r < 86400"
  shows "from_epoch_seconds (days * 86400 + r) us =
    (case civil_from_days days of (y, m, d) \<Rightarrow>
      \<lparr>year = y, month = m, day = d, hour = r div 3600, minute = r mod 3600 div 60, second = r mod 60, micro = us, has_date = True, has_time = True\<rparr>)"
proof -
  let ?s = "days * 86400 + r"
  have "?s div 86400 = days"
    using assms by (intro div_eqI) auto
  then have d: "(if ?s \<ge> 0 then tdiv ?s 86400 else - tdiv (- ?s + 86399) 86400) = days"
  proof (cases "?s \<ge> 0")
    case False
    then have "(- ?s + 86399) div 86400 = - days"
      using assms by (intro div_eqI) auto
    then show ?thesis
      using False by (simp add: tdiv_pos)
  qed (simp add: tdiv_pos)
  have "tdiv r 3600 = r div 3600" "tmod r 3600 = r mod 3600" "tdiv (r mod 3600) 60 = r mod 3600 div 60" "tmod r 60 = r mod 60"
    using assms by (simp_all add: tdiv_pos tmod_pos)
  then show ?thesis
    unfolding from_epoch_seconds_def Let_def d by (simp split: prod.split)
qed

lemma from_epoch_epoch:
  assumes "valid_ymd (year t) (month t) (day t)" "valid_time t"
  shows "from_epoch_seconds (epoch_seconds t) us = t\<lparr>micro := us, has_date := True, has_time := True\<rparr>"
proof -
  let ?r = "hour t * 3600 + minute t * 60 + second t"
  have "?r = minute t * 60 + second t + 3600 * hour t" "?r = second t + 60 * (hour t * 60 + minute t)"
    by simp_all
  then have "?r mod 3600 = (minute t * 60 + second t) mod 3600" "?r mod 60 = second t mod 60"
    by (metis mod_mult_self2)+
  then have r: "0 \<le> ?r" "?r < 86400" "?r div 3600 = hour t" "?r mod 3600 = minute t * 60 + second t" "?r mod 60 = second t"
    using assms(2) by (auto simp: valid_time_def intro!: div_eqI)
  have "(minute t * 60 + second t) div 60 = minute t"
    using assms(2) by (intro div_eqI) (auto simp: valid_time_def)
  moreover have "epoch_seconds t = epoch_days t * 86400 + ?r"
    by (simp add: epoch_seconds_def)
  ultimately show ?thesis
    using epoch_split [OF r(1,2), of "epoch_days t" us] civil_days [OF assms(1)] r(3-5) by (simp add: epoch_days_def)
qed

lemma epoch_from_epoch:
  "epoch_seconds (from_epoch_seconds s us) = s" "valid_ymd (year (from_epoch_seconds s us)) (month (from_epoch_seconds s us)) (day (from_epoch_seconds s us))"
  "0 \<le> us \<Longrightarrow> us \<le> 999999 \<Longrightarrow> valid_time (from_epoch_seconds s us)"
proof -
  define days r where "days = s div 86400" and "r = s mod 86400"
  have s: "s = days * 86400 + r" "0 \<le> r" "r < 86400"
    by (simp_all add: days_def r_def)
  obtain y m d where v: "valid_ymd y m d" "days_from_civil y m d = days"
    using days_onto by blast
  have eq: "from_epoch_seconds s us =
      \<lparr>year = y, month = m, day = d, hour = r div 3600, minute = r mod 3600 div 60, second = r mod 60, micro = us, has_date = True, has_time = True\<rparr>"
    using epoch_split [OF s(2,3), of days us] s(1) civil_days [OF v(1)] v(2) by simp
  have "r mod 3600 mod 60 = r mod 60"
    by (rule mod_mod_cancel) simp
  then have "r mod 3600 div 60 * 60 + r mod 60 = r mod 3600"
    by (metis div_mult_mod_eq)
  then have "r div 3600 * 3600 + r mod 3600 div 60 * 60 + r mod 60 = r"
    by (metis add.assoc div_mult_mod_eq)
  then show "epoch_seconds (from_epoch_seconds s us) = s"
    unfolding eq epoch_seconds_def epoch_days_def using s(1) v(2) by (simp add: add.assoc)
  show "valid_ymd (year (from_epoch_seconds s us)) (month (from_epoch_seconds s us)) (day (from_epoch_seconds s us))"
    using v(1) by (simp add: eq)
  show "valid_time (from_epoch_seconds s us)" if "0 \<le> us" "us \<le> 999999"
    using that s(2,3) unfolding eq valid_time_def by auto
qed

section \<open>Reading what is written\<close>

lemma padded_digits:
  assumes "0 \<le> v" "v < 10 ^ n" "0 < n"
  shows "length (padded n v) = n" "list_all is_dig (padded n v)" "int (digits_nat (padded n v)) = v"
proof -
  have l: "length (nat_text k) \<le> n" if "k < 10 ^ n" "0 < n" for k
    using that
  proof (induction k arbitrary: n rule: nat_text.induct)
    case (1 k)
    show ?case
    proof (cases "k < 10")
      case False
      then obtain n' where n: "n = Suc n'" "0 < n'"
        using 1(2,3) by (cases n; cases "n - 1") auto
      then have "k div 10 < 10 ^ n'"
        using 1(2) by (simp add: less_mult_imp_div_less mult.commute)
      then show ?thesis
        using 1(1) [OF False, of n'] n False by (subst nat_text.simps) simp
    qed (use 1(3) in \<open>subst nat_text.simps, simp\<close>)
  qed
  have "nat v < 10 ^ n"
    using assms by (simp add: nat_less_iff)
  then show "length (padded n v) = n"
    using l [of "nat v"] assms(3) by (simp add: padded_def Let_def)
  show "list_all is_dig (padded n v)" "int (digits_nat (padded n v)) = v"
    using nat_text_digits [of "nat v"] assms(1) by (simp_all add: padded_def Let_def)
qed

lemma digits_at_text:
  assumes "list_all is_dig ds" "min_n \<le> length ds" "length ds \<le> max_n" "length ds = max_n \<or> r = [] \<or> \<not> is_dig (hd r)"
  shows "digits_at min_n max_n (ds @ r) = Some (int (digits_nat ds), r)"
proof -
  have "takeWhile is_dig (take max_n (ds @ r)) = ds"
    using assms(1,3,4) by (cases r; cases "max_n - length ds") (auto simp: list_all_iff takeWhile_append2 takeWhile_eq_all_conv)
  then show ?thesis
    using assms(2) by (simp add: digits_at_def)
qed

lemma digits_at_padded:
  assumes "0 \<le> v" "v < 10 ^ n" "0 < n" "min_n \<le> n"
  shows "digits_at min_n n (padded n v @ r) = Some (v, r)"
  using digits_at_text [of "padded n v" min_n n r] padded_digits [OF assms(1-3)] assms(4) by simp

lemma padded_Cons: "0 \<le> v \<Longrightarrow> v < 10 ^ n \<Longrightarrow> 0 < n \<Longrightarrow> \<exists>c r. padded n v = c # r \<and> is_dig c"
  using padded_digits [of v n] by (cases "padded n v") auto

lemma read_time_str:
  assumes "valid_time u" "micro t = 0"
  shows "read_time (time_str u) t = t\<lparr>hour := hour u, minute := minute u, second := second u, micro := micro u, has_time := True\<rparr>"
proof -
  have b: "hour u < 10 ^ 2" "minute u < 10 ^ 2" "second u < 10 ^ 2" "micro u < 10 ^ 6" "0 \<le> hour u" "0 \<le> minute u" "0 \<le> second u" "0 \<le> micro u"
    using assms(1) by (simp_all add: valid_time_def)
  note at = digits_at_padded [OF b(5,1)] digits_at_padded [OF b(6,2)] digits_at_padded [OF b(7,3)]
  have frac: "read_fraction (padded 6 (micro u)) v = v\<lparr>micro := micro u\<rparr>" for v
  proof -
    have f: "length (padded 6 (micro u)) = 6" "int (digits_nat (padded 6 (micro u))) = micro u" "takeWhile is_dig (take 6 (padded 6 (micro u))) = padded 6 (micro u)"
      using padded_digits [OF b(8,4)] by (simp_all add: takeWhile_eq_all_conv list_all_iff)
    show ?thesis
      unfolding read_fraction_def f(3) Let_def using f(1,2) by simp
  qed
  show ?thesis
    using frac assms(2) by (simp add: read_time_def time_str_def at Let_def)
qed

lemma read_date_str:
  assumes "valid_date t" "r = [] \<or> hd r = CHR '' ''"
  shows "parse_datetime (date_str t @ r) =
    (let v = new_datetime\<lparr>year := year t, month := month t, day := day t, has_date := True\<rparr> in Some (if r = [] then v else read_time (tl r) v))"
proof -
  have "days_in_month (year t) (month t) \<le> 31"
  proof -
    have "month t = 1 \<or> month t = 2 \<or> month t = 3 \<or> month t = 4 \<or> month t = 5 \<or> month t = 6 \<or> month t = 7 \<or> month t = 8 \<or> month t = 9 \<or> month t = 10 \<or> month t = 11 \<or> month t = 12"
      using assms(1) unfolding valid_date_def by presburger
    then show ?thesis
      by (auto simp: days_in_month_def nth_Cons numeral_eq_Suc)
  qed
  then have b: "year t < 10 ^ 4" "month t < 10 ^ 2" "day t < 10 ^ 2" "0 \<le> year t" "0 \<le> month t" "0 \<le> day t"
    using assms(1) by (auto simp: valid_date_def)
  note at = digits_at_padded [OF b(4,1)] digits_at_padded [OF b(5,2)] digits_at_padded [OF b(6,3)]
  note p = padded_digits [OF b(4,1)]
  obtain c q where c: "padded 4 (year t) = c # q" "is_dig c"
    using padded_Cons [OF b(4,1)] by auto
  have s: "dropWhile (\<lambda>c. c = CHR '' '') (date_str t @ r) = date_str t @ r"
    using c by (auto simp: date_str_def is_dig_def)
  have "CHR ''-'' \<in> set (take 14 (date_str t @ r))"
    using p(1) by (simp add: date_str_def)
  then have nd: "\<not> list_all is_dig (take 14 (date_str t @ r))"
    unfolding list_all_iff using not_dig(2) by blast
  have "takeWhile (\<lambda>c. c \<noteq> CHR ''-'') (date_str t @ r) = padded 4 (year t)"
    using p(2) by (auto simp: date_str_def takeWhile_append list_all_iff)
  then have dash: "find_dash (date_str t @ r) = 4"
    using p(1) by (simp add: find_dash_def)
  have "date_str t @ r \<noteq> []"
    by (simp add: date_str_def)
  then show ?thesis
    unfolding parse_datetime_def s Let_def dash using nd assms(2) at by (auto simp: date_str_def)
qed

text \<open>
  C39: A date and time is read back as it was written. The text of every date of the years 0 to 9999 with a time of day is read by \<^verbatim>\<open>parse_datetime\<close> as the same date and time, to the
  millionth of a second, and so is the text of the date alone.
\<close>

theorem datetime_roundtrip:
  assumes "valid_date t" "valid_time t" "has_date t" "has_time t"
  shows "parse_datetime (datetime_str t) = Some t \<and> parse_datetime (date_str t) = Some (new_datetime\<lparr>year := year t, month := month t, day := day t, has_date := True\<rparr>)"
proof -
  have "parse_datetime (datetime_str t) = Some (read_time (time_str t) (new_datetime\<lparr>year := year t, month := month t, day := day t, has_date := True\<rparr>))"
    using read_date_str [OF assms(1), of "'' '' @ time_str t"] by (simp add: datetime_str_def)
  moreover have "read_time (time_str t) (new_datetime\<lparr>year := year t, month := month t, day := day t, has_date := True\<rparr>) = t"
    using assms(3,4) by (subst read_time_str [OF assms(2)]) (simp_all add: new_datetime_def)
  ultimately show ?thesis
    using read_date_str [OF assms(1), of "[]"] by simp
qed

theorem datetime_roundtrip_witness:
  "parse_datetime ''2024-02-29 23:59:59.000250'' =
    Some \<lparr>year = 2024, month = 2, day = 29, hour = 23, minute = 59, second = 59, micro = 250, has_date = True, has_time = True\<rparr>"
proof -
  let ?t = "\<lparr>year = 2024, month = 2, day = 29, hour = 23, minute = 59, second = 59, micro = 250, has_date = True, has_time = True\<rparr>"
  have "valid_date ?t" "valid_time ?t" "datetime_str ?t = ''2024-02-29 23:59:59.000250''"
    by code_simp+
  then show ?thesis
    using datetime_roundtrip [of ?t] by simp
qed

section \<open>Intervals\<close>

text \<open>The millionths of a second since 1970, and those of a unit.\<close>

definition instant :: "DateTime \<Rightarrow> int" where
  "instant t = epoch_seconds t * 1000000 + micro t"

definition unit_micros :: "string \<Rightarrow> int option" where
  "unit_micros unit = map_of [(''DAY'', 86400000000), (''WEEK'', 604800000000), (''HOUR'', 3600000000), (''MINUTE'', 60000000), (''SECOND'', 1000000), (''MICROSECOND'', 1)] unit"

lemma wrap64_id: "- (2 ^ 63) \<le> v \<Longrightarrow> v < 2 ^ 63 \<Longrightarrow> wrap64 v = v"
  by (simp add: wrap64_def)

lemma tdiv_tmod_million: "tdiv v 1000000 * 1000000 + tmod v 1000000 = v" "\<bar>tmod v 1000000\<bar> < 1000000"
proof -
  show "tdiv v 1000000 * 1000000 + tmod v 1000000 = v"
    by (simp add: tmod_def)
  have "tmod v 1000000 = sgn v * (\<bar>v\<bar> mod 1000000)"
    by (auto simp: tmod_def tdiv_def sgn_if minus_div_mult_eq_mod [symmetric])
  then show "\<bar>tmod v 1000000\<bar> < 1000000"
    by (auto simp: sgn_if)
qed

lemma interval_seconds_exact:
  assumes "unit_micros unit = Some w" "\<bar>amount\<bar> \<le> 1000000000000"
  obtains secs us where "interval_seconds unit amount = Some (secs, us)" "secs * 1000000 + us = amount * w" "\<bar>us\<bar> < 1000000" "\<bar>secs\<bar> \<le> 1000000000000000000"
proof -
  have u: "unit \<in> {''DAY'', ''WEEK'', ''HOUR'', ''MINUTE'', ''SECOND'', ''MICROSECOND''}"
    using assms(1) by (auto simp: unit_micros_def split: if_splits)
  have wr: "wrap64 (amount * 86400) = amount * 86400" "wrap64 (amount * 7 * 86400) = amount * 7 * 86400" "wrap64 (amount * 3600) = amount * 3600" "wrap64 (amount * 60) = amount * 60"
    using assms(2) by (auto intro!: wrap64_id)
  have t: "\<bar>tdiv amount 1000000\<bar> \<le> 1000000000000000000"
    using tdiv_tmod_million [of amount] assms(2) by linarith
  show ?thesis
    using u
  proof (elim insertE emptyE)
    assume "unit = ''MICROSECOND''"
    then show ?thesis
      using assms tdiv_tmod_million [of amount] t by (intro that [of "tdiv amount 1000000" "tmod amount 1000000"]) (auto simp: unit_micros_def interval_seconds_def)
  qed (use assms wr in \<open>auto simp: unit_micros_def interval_seconds_def intro!: that\<close>)
qed

lemma epoch_bound:
  assumes "valid_date t" "valid_time t"
  shows "\<bar>epoch_seconds t\<bar> \<le> 1000000000000"
proof -
  define u where "u = year t - (if month t \<le> 2 then 1 else 0)"
  define mp where "mp = month t + (if month t > 2 then -3 else 9)"
  have m: "1 \<le> month t" "month t \<le> 12" "-1 \<le> u" "u \<le> 9999" "1 \<le> day t" "day t \<le> month_length u mp" "0 \<le> mp" "mp \<le> 11"
    using assms(1) days_in_month_march [of "month t" "year t"] by (auto simp: valid_date_def u_def mp_def)
  have "0 \<le> month_start mp + day t - 1" "month_start mp + day t - 1 \<le> 365"
    using march_year_length [OF m(7,8,5,6)] by auto
  moreover have "-1 \<le> u div 4" "u div 4 \<le> 2500" "-1 \<le> u div 100" "u div 100 \<le> 100" "-1 \<le> u div 400" "u div 400 \<le> 25"
    using m(3,4) by linarith+
  ultimately have "\<bar>epoch_days t\<bar> \<le> 10000000"
    using m(3,4) days_from_civil_march [OF m(1,2), of "year t" "day t"] unfolding epoch_days_def u_def [symmetric] mp_def [symmetric] march_days_def by linarith
  then show ?thesis
    using assms(2) unfolding epoch_seconds_def valid_time_def by linarith
qed

lemma add_time_interval:
  assumes "valid_date t" "valid_time t" "\<bar>amount\<bar> \<le> 1000000000000" "unit_micros unit = Some w"
  shows "\<exists>u. valid_ymd (year u) (month u) (day u) \<and> valid_time u \<and> instant u = instant t + amount * w \<and>
    add_interval t unit amount = (if year u < 0 \<or> year u > 9999 then None else
      Some (u\<lparr>has_date := True, has_time := has_time t \<or> unit = ''HOUR'' \<or> unit = ''MINUTE'' \<or> unit = ''SECOND'' \<or> unit = ''MICROSECOND''\<rparr>))"
proof -
  obtain secs us where i: "interval_seconds unit amount = Some (secs, us)" "secs * 1000000 + us = amount * w" "\<bar>us\<bar> < 1000000" "\<bar>secs\<bar> \<le> 1000000000000000000"
    using interval_seconds_exact [OF assms(4,3)] .
  define x where "x = micro t + us"
  define k where "k = (if x \<ge> 1000000 then 1 else if x < 0 then -1 else 0 :: int)"
  have m: "0 \<le> micro t" "micro t \<le> 999999"
    using assms(2) by (simp_all add: valid_time_def)
  have us: "tmod (tmod x 1000000 + 1000000) 1000000 = x - k * 1000000" "0 \<le> x - k * 1000000" "x - k * 1000000 \<le> 999999"
  proof -
    have x: "-1000000 < x" "x < 2000000"
      using i(3) m by (auto simp: x_def)
    have "tmod x 1000000 = (if x < 0 then x else x - k * 1000000)"
    proof (cases "x < 0")
      case True
      then show ?thesis
        using x by (simp add: tmod_def tdiv_def)
    next
      case False
      then have "x div 1000000 = k"
        using x by (intro div_eqI) (auto simp: k_def)
      then show ?thesis
        using False by (simp add: tmod_def tdiv_pos)
    qed
    then have "tmod x 1000000 + 1000000 = (if x < 0 then x + 1000000 else x - k * 1000000 + 1000000)"
      by simp
    moreover have "tmod v 1000000 = v - 1000000" if "1000000 \<le> v" "v < 2000000" for v
    proof -
      have "v div 1000000 = 1"
        using that by (intro div_eqI) auto
      then show ?thesis
        using that by (simp add: tmod_def tdiv_pos)
    qed
    moreover have "tmod v 1000000 = v" if "0 \<le> v" "v < 1000000" for v
      using that by (simp add: tmod_def tdiv_pos)
    ultimately show "tmod (tmod x 1000000 + 1000000) 1000000 = x - k * 1000000"
      using x by (auto simp: k_def)
    show "0 \<le> x - k * 1000000" "x - k * 1000000 \<le> 999999"
      using x by (auto simp: k_def)
  qed
  have wr: "wrap64 (secs + k) = secs + k" "wrap64 (epoch_seconds t + (secs + k)) = epoch_seconds t + (secs + k)"
    using i(4) epoch_bound [OF assms(1,2)] by (auto simp: k_def intro!: wrap64_id)
  define u where "u = from_epoch_seconds (epoch_seconds t + (secs + k)) (x - k * 1000000)"
  have "micro u = x - k * 1000000"
    by (simp add: u_def from_epoch_seconds_def Let_def split: prod.split)
  then have "instant u = instant t + amount * w"
    using i(2) epoch_from_epoch(1) [of "epoch_seconds t + (secs + k)" "x - k * 1000000"] by (simp add: instant_def u_def x_def algebra_simps)
  moreover have "add_interval t unit amount = (if year u < 0 \<or> year u > 9999 then None else
      Some (u\<lparr>has_date := True, has_time := has_time t \<or> unit = ''HOUR'' \<or> unit = ''MINUTE'' \<or> unit = ''SECOND'' \<or> unit = ''MICROSECOND''\<rparr>))"
  proof -
    have n: "(unit = ''MONTH'' \<or> unit = ''YEAR'' \<or> unit = ''QUARTER'') = False"
      using assms(4) by (auto simp: unit_micros_def)
    have k: "(if micro t + us \<ge> 1000000 then 1 else if micro t + us < 0 then -1 else 0) = k"
      by (simp add: k_def x_def)
    show ?thesis
      unfolding add_interval_def n i(1) by (simp only: Let_def if_False option.case prod.case k us(1) [unfolded x_def] wr u_def [unfolded x_def, symmetric])
  qed
  ultimately show ?thesis
    using epoch_from_epoch(2,3) us(2,3) unfolding u_def by blast
qed

lemma month_interval_exact:
  assumes "valid_date t" "\<bar>months\<bar> \<le> 1000000000000000"
  shows "month_interval t months = (let n = year t * 12 + (month t - 1) + months; y = n div 12; m = n mod 12 + 1 in
    if n < 0 \<or> y > 9999 then None else Some (t\<lparr>year := y, month := m, day := min (day t) (days_in_month y m)\<rparr>))"
proof -
  define n where "n = year t * 12 + (month t - 1) + months"
  have "wrap64 n = n"
    using assms by (intro wrap64_id) (auto simp: valid_date_def n_def)
  moreover have "tdiv n 12 = n div 12" "tmod n 12 = n mod 12" if "0 \<le> n"
    using that by (simp_all add: tmod_def tdiv_pos minus_div_mult_eq_mod)
  ultimately show ?thesis
    unfolding month_interval_def n_def [symmetric] Let_def by simp
qed

lemma days_in_month_bounds: "0 \<le> i \<Longrightarrow> i \<le> 11 \<Longrightarrow> 1 \<le> days_in_month y (i + 1)"
  using months [of i] by (auto simp: days_in_month_def)

text \<open>
  C40: An interval moves a date by what it says. Adding an amount of days, weeks, hours, minutes, seconds or millionths to a date and time gives the date and time that is exactly so many
  millionths later (or earlier), and nothing only when its year is not among 0 to 9999; adding months gives the month so many months later, on the same day or on the last day of a
  shorter month. Amounts are up to a million millions.
\<close>

theorem interval_exact:
  assumes "valid_date t" "valid_time t" "\<bar>amount\<bar> \<le> 1000000000000"
  shows "(\<forall>unit w. unit_micros unit = Some w \<longrightarrow>
      (\<exists>u. valid_ymd (year u) (month u) (day u) \<and> valid_time u \<and> instant u = instant t + amount * w \<and>
        add_interval t unit amount = (if year u < 0 \<or> year u > 9999 then None else
          Some (u\<lparr>has_date := True, has_time := has_time t \<or> unit = ''HOUR'' \<or> unit = ''MINUTE'' \<or> unit = ''SECOND'' \<or> unit = ''MICROSECOND''\<rparr>)))) \<and>
    (\<forall>unit w. map_of [(''MONTH'', 1), (''QUARTER'', 3), (''YEAR'', 12)] unit = Some w \<longrightarrow>
      (let n = year t * 12 + (month t - 1) + amount * w; y = n div 12; m = n mod 12 + 1; u = t\<lparr>year := y, month := m, day := min (day t) (days_in_month y m)\<rparr> in
        if n < 0 \<or> y > 9999 then add_interval t unit amount = None else add_interval t unit amount = Some u \<and> valid_date u)) \<and>
    (\<forall>unit. unit_micros unit = None \<and> unit \<notin> {''MONTH'', ''QUARTER'', ''YEAR''} \<longrightarrow> add_interval t unit amount = None)"
proof (intro conjI allI impI)
  show "\<exists>u. valid_ymd (year u) (month u) (day u) \<and> valid_time u \<and> instant u = instant t + amount * w \<and>
      add_interval t unit amount = (if year u < 0 \<or> year u > 9999 then None else
        Some (u\<lparr>has_date := True, has_time := has_time t \<or> unit = ''HOUR'' \<or> unit = ''MINUTE'' \<or> unit = ''SECOND'' \<or> unit = ''MICROSECOND''\<rparr>))"
    if "unit_micros unit = Some w" for unit w
    using add_time_interval [OF assms that] .
next
  fix unit w
  assume u: "map_of [(''MONTH'', 1), (''QUARTER'', 3), (''YEAR'', 12 :: int)] unit = Some w"
  have "add_interval t unit amount = month_interval t (amount * w)"
    using u assms(3) by (auto simp: add_interval_def wrap64_id split: if_splits)
  moreover have "\<bar>amount * w\<bar> \<le> 1000000000000000"
    using u assms(3) by (auto split: if_splits)
  ultimately show "let n = year t * 12 + (month t - 1) + amount * w; y = n div 12; m = n mod 12 + 1; u = t\<lparr>year := y, month := m, day := min (day t) (days_in_month y m)\<rparr> in
      if n < 0 \<or> y > 9999 then add_interval t unit amount = None else add_interval t unit amount = Some u \<and> valid_date u"
    using assms(1) by (auto simp: month_interval_exact Let_def valid_date_def pos_mod_sign zle_iff_zadd [symmetric] intro!: days_in_month_bounds simp: pos_imp_zdiv_nonneg_iff)
next
  show "add_interval t unit amount = None" if "unit_micros unit = None \<and> unit \<notin> {''MONTH'', ''QUARTER'', ''YEAR''}" for unit
    using that by (auto simp: add_interval_def interval_seconds_def unit_micros_def split: if_splits)
qed

theorem interval_exact_witness:
  "let t = \<lparr>year = 2024, month = 1, day = 31, hour = 23, minute = 59, second = 59, micro = 999999, has_date = True, has_time = True\<rparr> in
    add_interval t ''MONTH'' 1 = Some (t\<lparr>month := 2, day := 29\<rparr>) \<and>
    (\<exists>u. valid_ymd (year u) (month u) (day u) \<and> valid_time u \<and> instant u = instant t + 1 \<and>
      add_interval t ''MICROSECOND'' 1 = (if year u < 0 \<or> year u > 9999 then None else Some (u\<lparr>has_date := True, has_time := True\<rparr>))) \<and>
    add_interval t ''FORTNIGHT'' 1 = None"
proof -
  define t :: DateTime where "t = \<lparr>year = 2024, month = 1, day = 31, hour = 23, minute = 59, second = 59, micro = 999999, has_date = True, has_time = True\<rparr>"
  have "valid_date t" "valid_time t"
    unfolding t_def by code_simp+
  note e = interval_exact [OF this, of 1, simplified, THEN conjunct1, rule_format, of "''MICROSECOND''" 1]
    interval_exact [OF this, of 1, simplified, THEN conjunct2, THEN conjunct1, rule_format, of "''MONTH''" 1]
    interval_exact [OF this, of 1, simplified, THEN conjunct2, THEN conjunct2, rule_format, of "''FORTNIGHT''"]
  have "days_in_month 2024 2 = 29" "unit_micros ''MICROSECOND'' = Some 1" "unit_micros ''FORTNIGHT'' = None"
    by code_simp+
  then have "add_interval t ''MONTH'' 1 = Some (t\<lparr>month := 2, day := 29\<rparr>) \<and> add_interval t ''FORTNIGHT'' 1 = None"
    using e(2,3) by (simp add: t_def Let_def)
  moreover have "has_time t \<or> b \<longleftrightarrow> True" for b
    by (simp add: t_def)
  ultimately show ?thesis
    using e(1) \<open>unit_micros ''MICROSECOND'' = Some 1\<close> unfolding t_def [symmetric] Let_def by (simp only: mult_1 simp_thms)
qed

text \<open>The seconds of an interval are computed in 64 bits: an amount of \<open>2^57\<close> days is no interval at all, where the date so many days later is not a date any more.\<close>

lemma interval_wraps: "add_interval t ''DAY'' (2 ^ 57) = add_interval t ''DAY'' 0"
  by (simp add: add_interval_def interval_seconds_def wrap64_def)

end
