(* ===== verification/Spec2Isabelle.thy ===== *)
theory Spec2Isabelle
  imports TxnManager LockManager QueryCache RedoReplay Lexer Partition FairMutex CompositeIndex DecimalArith Calendar
begin

text \<open>
  \<^bold>\<open>RuSQL: a verification library for the storage and transaction core.\<close>

  The program is an SQL database engine in C++ (\<^verbatim>\<open>src/code/backend/core\<close>). Sessions run statements through an executor
  that keeps all tables in memory as lists of row versions; what makes a database of it is the layer below: the
  transaction manager of each session, the logs all sessions share, the locks, the indexes and the text and binary
  formats in which rows are stored. This library models that layer.

  \<^bold>\<open>How the parts interact.\<close> What a client sends is split into statements (\<open>StatementSplit\<close>) and lexed (\<open>Lexer\<close>). A session begins a transaction and gets an id
  and, from repeatable read on, a snapshot (\<open>TxnManager\<close>, \<open>Mvcc\<close>). Rows are selected by conditions in three-valued logic (\<open>Conditions\<close>), compared by the default collation
  (\<open>Collation\<close>) or as numbers (\<open>NumericText\<close>, \<open>DecimalArith\<close>) and dates (\<open>Calendar\<close>), found through indexes (\<open>BTree\<close>, \<open>IndexKeys\<close>, \<open>HashIndex\<close>, \<open>CompositeIndex\<close>) and, in a partitioned table, in the child tables that can hold them
  (\<open>Partition\<close>); results are kept in a cache (\<open>QueryCache\<close>). Rows are locked while they are changed, and the ranges taken from a condition keep others from inserting into them
  (\<open>LockManager\<close>, \<open>Conditions\<close>); the tables themselves are under reader-writer locks (\<open>FairMutex\<close>). Every change is written to the write-ahead log (\<open>Wal\<close>) and the undo file (\<open>UndoLog\<close>) and remembered as redo operations; at commit these
  go as one batch to the redo log (\<open>RedoLog\<close>), whose \<^verbatim>\<open>fsync\<close> makes the commit durable, and the transaction's records are removed from the other two logs. Tables
  reach the disk through the buffer pool (\<open>BufferPool\<close>, \<open>TableFile\<close>); after a crash the redo log is replayed on what is there (\<open>RedoReplay\<close>). Rows travel as JSON texts
  (\<open>RowJson\<close>); all three logs are made of the same binary encodings (\<open>Codec\<close>) and share the laws of an append-only file (\<open>RecordLog\<close>, \<open>LogFile\<close>).

  \<^bold>\<open>The theories.\<close>
    \<^item> \<open>Prelude\<close>: machine integers, byte strings, rows, generic lemmas.
    \<^item> \<open>Codec\<close> (\<^verbatim>\<open>transaction/wal.cpp\<close>, \<^verbatim>\<open>storage/page.cpp\<close>): little-endian integers, strings, checksum, page header; each reader
      gives back what its writer wrote and does not depend on what follows.
    \<^item> \<open>FileIo\<close> (\<^verbatim>\<open>storage/atomic_write.hpp\<close>): files, the answers of the operating system, \<^verbatim>\<open>write_bytes_atomic\<close>.
    \<^item> \<open>RecordLog\<close>: the locales \<open>record_log\<close> and \<open>rewritable_log\<close>: an encoder, a decoder and a read loop with their laws; reading
      back, cutting at any byte and torn tails are proved there once. Interpreted for the WAL, the undo log and the redo log.
    \<^item> \<open>LogFile\<close>: the operations that \<^verbatim>\<open>WalManager\<close> and \<^verbatim>\<open>UndoLogFile\<close> have in common, and the locale \<open>txn_log\<close> with the
      invariant that ties \<^verbatim>\<open>LogContents\<close> to the file.
    \<^item> \<open>Wal\<close> (\<^verbatim>\<open>transaction/wal.cpp\<close>), \<open>UndoLog\<close> (\<^verbatim>\<open>class UndoLogFile\<close> of \<^verbatim>\<open>txn_manager.cpp\<close>): record formats and managers; the
      relation \<open>wal_reach\<close> is every history of calls on the WAL.
    \<^item> \<open>RedoLog\<close> (\<^verbatim>\<open>transaction/redo_log.cpp\<close>): batches, group sync, crashes; durability of a commit.
    \<^item> \<open>RowJson\<close> (\<^verbatim>\<open>storage/row_json.cpp\<close>): writer and direct reader of row texts, with the round trip.
    \<^item> \<open>TableFile\<close> (\<^verbatim>\<open>storage/disk.cpp\<close>): saving and loading a table, with LZ4 and the JSON parser as arguments; the round trip and what a failed save leaves.
    \<^item> \<open>Mvcc\<close> (\<^verbatim>\<open>visible_under\<close>, \<^verbatim>\<open>executor_ddl.cpp\<close>, \<^verbatim>\<open>executor_dml.cpp\<close>, \<^verbatim>\<open>executor_txn.cpp\<close>): visibility, vacuum, undo of a transaction's versions.
    \<^item> \<open>TxnManager\<close> (\<^verbatim>\<open>transaction/txn_manager.cpp\<close>): the session's transaction; \<open>tm_reach\<close> is every history of calls that do not throw.
    \<^item> \<open>BufferPool\<close> (\<^verbatim>\<open>storage/buffer_pool.cpp\<close>): pages with their least recently used order, write-through of committed rows.
    \<^item> \<open>RedoReplay\<close> (\<^verbatim>\<open>executor_redo.cpp\<close>): writing the redo batch of a commit, recovery at start; replay restores exactly the committed versions, whatever part of them the
      table files already hold.
    \<^item> \<open>OrdMap\<close>: the ordered maps of the C++ library as sorted association lists.
    \<^item> \<open>LockManager\<close> (\<^verbatim>\<open>lock_manager.cpp\<close>): row, gap and predicate locks, the wait-for graph; \<open>lm_reach\<close> is every interleaving of calls and wake-ups.
    \<^item> \<open>QueryCache\<close> (\<^verbatim>\<open>query_cache.cpp\<close>): results under generations of their tables.
    \<^item> \<open>Comparison\<close>: the locale \<open>comparison\<close>, what a client relies on in a three-way comparison, interpreted for the collation and for values of one kind.
    \<^item> \<open>Collation\<close> (\<^verbatim>\<open>collation.cpp\<close>): comparison, keys, sort keys and LIKE of the default collation; the tables of weights are an argument.
    \<^item> \<open>NumericText\<close> (\<^verbatim>\<open>numeric_text.hpp\<close>): texts as numbers, exact sums and averages; the rounding to a double is an argument.
    \<^item> \<open>BTree\<close>, \<open>BTreeCorrect\<close>, \<open>KeyDomain\<close>, \<open>IndexKeys\<close> (\<^verbatim>\<open>storage/btree.cpp\<close>, \<^verbatim>\<open>value_class.hpp\<close>): the B+tree, its invariant, its refinement of a sorted map for keys with a
      total order (locale \<open>key_order\<close>) and for sets of keys on which the order is total (locale \<open>key_domain\<close>), and the orders of index keys.
    \<^item> \<open>HashIndex\<close> (\<^verbatim>\<open>storage/hash_index.cpp\<close>, \<^verbatim>\<open>numeric_key.hpp\<close>), \<open>CompositeIndex\<close> (\<^verbatim>\<open>storage/composite_index.cpp\<close>): the other two kinds of index; a lookup gives the rows that a WHERE
      clause selects, and what a composite index misses.
    \<^item> \<open>FairMutex\<close> (\<^verbatim>\<open>FairSharedMutex\<close> of \<^verbatim>\<open>sync.hpp\<close>): the reader-writer lock as a step relation of its threads; exclusion, and that a waiting writer is next.
    \<^item> \<open>StatementSplit\<close> (\<^verbatim>\<open>statement_split.hpp\<close>): where statements end; the locale \<open>forward_scanner\<close> is what the parts of the scanner do not see.
    \<^item> \<open>Lexer\<close> (\<^verbatim>\<open>parser/lexer.cpp\<close>): the tokens of a text; the splitter and the lexer agree on the ends of statements; literals are read back as written (locale
      \<open>literal_writer\<close>).
    \<^item> \<open>DecimalArith\<close> (\<^verbatim>\<open>Decimal\<close> and \<^verbatim>\<open>Num\<close> of \<^verbatim>\<open>sql_value_util.hpp\<close>): exact decimals as strings of digits; their arithmetic, rounding, reading and writing have the values they should.
    \<^item> \<open>Calendar\<close> (\<^verbatim>\<open>DateTime\<close> of \<^verbatim>\<open>sql_value_util.hpp\<close>): days and dates, the texts of dates and times, intervals.
    \<^item> \<open>Conditions\<close> (\<^verbatim>\<open>executor_eval.cpp\<close>, \<^verbatim>\<open>gap_lock.cpp\<close>): conditions and their ranges; a range holds what its condition selects.
    \<^item> \<open>Partition\<close> (\<^verbatim>\<open>executor_partition.cpp\<close>): the children of a partitioned table; pruning keeps the partitions of all selected rows.

  \<^bold>\<open>Conventions.\<close> Transaction ids and counters are 64-bit words; positions and sizes in memory are natural numbers; strings are lists of
  bytes. A \<^verbatim>\<open>throw\<close> is a value; an operation gives its error and the state it leaves. What the operating
  system answers is an argument (\<open>io_env\<close>), universally quantified in the theorems. Code outside the repository is an
  argument of the definitions that call it: nlohmann::json, LZ4, the rounding of \<^verbatim>\<open>strtod\<close> and \<^verbatim>\<open>from_chars\<close> to doubles, \<^verbatim>\<open>snprintf\<close> of a double,
  \<^verbatim>\<open>std::regex\<close>, the generated tables of collation weights. Mutexes make an operation one step; where calls of several sessions interleave, an inductive
  relation gives the interleavings. All functions are total: every loop consumes its input or counts to a bound; the loops of LIKE and of the wait-for graph have fuel or
  an option result, with a proof that they return.

  \<^bold>\<open>Not modelled.\<close> The SQL parser, the planner and joins, the evaluation of expressions other than columns, the statement executor above the passes over rows, the catalog and
  the network server; they are listed in the manifest with the reason. Time, thread scheduling inside a step and the Windows variants of file calls are not part of the model.
\<close>

end
